(* ===== verification/Prelude.thy ===== *)
theory Prelude imports Main "HOL-Library.Word" begin

text \<open>
  What the components share: the machine integers of the C code, reading a
  NUL-terminated string, fixed-size blocks of a byte buffer, and the generic lemmas and
  rule collections the component proofs use.

  Conventions of the whole development.  An \<open>unsigned char\<close>, \<open>unsigned\<close>,
  \<open>unsigned long long\<close> is a word of 8, 32, 64 bits; shifts are \<open>push_bit\<close> and
  \<open>drop_bit\<close>.  A C string is the list of its characters before the terminating NUL,
  a \<open>char *\<close> into it is the suffix it points to, and \<open>*p\<close> is
  \<open>cur p\<close>, which is NUL at the end of the list.
\<close>

unbundle bit_operations_syntax

type_synonym u8 = "8 word"
type_synonym u32 = "32 word"
type_synonym u64 = "64 word"

named_theorems state_ok "facts that an operation keeps its component's invariant"

section \<open>C strings as character lists\<close>

definition cur :: "string \<Rightarrow> char" where
  "cur s = (case s of [] \<Rightarrow> CHR 0x00 | c # _ \<Rightarrow> c)"

definition cnul :: char where
  "cnul = CHR 0x00"

lemma cur_simps [simp]:
  "cur [] = CHR 0x00" "cur (c # s) = c"
  by (simp_all add: cur_def)

section \<open>Exclusive or\<close>

lemma xor_left_cancel [simp]: "(a :: 'a::len word) XOR (a XOR b) = b"
  by (simp add: xor.assoc [symmetric])

lemmas xor_ac = xor.assoc xor.commute xor.left_commute

lemma xor_interchange:
  "((a :: 'a::len word) XOR b) XOR (c XOR d) = (a XOR c) XOR (b XOR d)"
  by (simp add: xor_ac)

section \<open>Bounds on words\<close>

lemma less_exp_unat:
  "n < LENGTH('a) \<Longrightarrow> (x :: 'a::len word) < 2 ^ n \<longleftrightarrow> unat x < 2 ^ n"
proof -
  assume "n < LENGTH('a)"
  then have "x < 2 ^ n \<longleftrightarrow> uint x < 2 ^ n"
    by (simp add: word_2p_lem word_size)
  also have "\<dots> \<longleftrightarrow> int (unat x) < int (2 ^ n)"
    by simp
  finally show ?thesis by (simp only: of_nat_less_iff)
qed

lemma less_exp_bit:
  "(x :: 'a::len word) < 2 ^ n \<Longrightarrow> n \<le> i \<Longrightarrow> \<not> bit x i"
proof
  assume "x < 2 ^ n" "n \<le> i" "bit x i"
  then have i: "i < LENGTH('a)" and n: "n < LENGTH('a)"
    by (auto dest: bit_imp_le_length)
  then have "unat x < 2 ^ n" using \<open>x < 2 ^ n\<close>
    by (simp add: less_exp_unat)
  then have "take_bit n (unat x) = unat x"
    by (simp add: take_bit_nat_eq_self)
  then have "bit (unat x) i \<Longrightarrow> i < n"
    by (metis bit_take_bit_iff)
  with \<open>n \<le> i\<close> \<open>bit x i\<close> show False
    by (simp add: bit_unsigned_iff)
qed

lemma less_exp_iff_bits:
  assumes "n < LENGTH('a)"
  shows "(x :: 'a::len word) < 2 ^ n \<longleftrightarrow> (\<forall>i\<ge>n. \<not> bit x i)"
proof
  assume "\<forall>i\<ge>n. \<not> bit x i"
  then have "take_bit n x = x"
    by (intro bit_word_eqI) (auto simp: bit_take_bit_iff not_le)
  then have "unat x = take_bit n (unat x)"
    by (metis unsigned_take_bit_eq)
  then have "unat x < 2 ^ n"
    by (metis take_bit_nat_less_exp)
  then show "x < 2 ^ n"
    using assms by (simp add: less_exp_unat)
qed (auto dest: less_exp_bit)

lemma xor_less_exp:
  "(x :: 'a::len word) < 2 ^ n \<Longrightarrow> y < 2 ^ n \<Longrightarrow> n < LENGTH('a) \<Longrightarrow> x XOR y < 2 ^ n"
  by (simp add: less_exp_iff_bits bit_xor_iff)

lemma unat_pred_less: "(w :: 'a::len word) \<noteq> 0 \<Longrightarrow> unat (w - 1) < unat w"
  by (simp add: unat_minus_one unat_gt_0)

lemma unat_pred_less2: "(w :: 'a::len word) \<noteq> 1 \<Longrightarrow> unat (w - 2) < unat (w - 1)"
  using unat_pred_less [of "w - 1"] by (simp add: diff_diff_eq)

lemma unat_ucast_up:
  "LENGTH('a::len) \<le> LENGTH('b::len) \<Longrightarrow> unat (ucast (x :: 'a word) :: 'b word) = unat x"
proof -
  assume le: "LENGTH('a) \<le> LENGTH('b)"
  have "unat x < 2 ^ LENGTH('a)" by (rule unsigned_less)
  also have "(2::nat) ^ LENGTH('a) \<le> 2 ^ LENGTH('b)" using le by simp
  finally have "take_bit LENGTH('b) (unat x) = unat x"
    by (simp add: take_bit_nat_eq_self)
  then have "unat (word_of_nat (unat x) :: 'b word) = unat x"
    by (simp only: unsigned_of_nat of_nat_id)
  then show ?thesis by simp
qed

lemma unat_ucast_8_32 [simp]: "unat (ucast (x :: u8) :: u32) = unat x"
  by (rule unat_ucast_up) simp

lemma unat_ucast_8_64 [simp]: "unat (ucast (x :: u8) :: u64) = unat x"
  by (rule unat_ucast_up) simp

lemma ucast_8_32_8 [simp]: "(ucast (ucast (x :: u8) :: u32) :: u8) = x"
  by (rule bit_word_eqI) (auto simp: bit_ucast_iff dest: bit_imp_le_length)

section \<open>Blocks of a buffer\<close>

lemma take_drop_split: "n \<le> length xs \<Longrightarrow> take n xs @ drop n xs = xs"
  by simp

lemma length_16_cases:
  assumes "length xs = 16"
  obtains a b c d e f g h i j k l m n p q where "xs = [a,b,c,d,e,f,g,h,i,j,k,l,m,n,p,q]"
proof -
  have "xs = map ((!) xs) [0..<16]"
    by (metis assms map_nth)
  then show ?thesis
    by (intro that) (simp add: upt_rec)
qed


section \<open>Bytes, bit by bit\<close>

lemma less_8_cases:
  "n < 8 \<Longrightarrow> n = 0 \<or> n = 1 \<or> n = 2 \<or> n = 3 \<or> n = 4 \<or> n = 5 \<or> n = 6 \<or> n = (7::nat)"
  by arith

lemma byte_bit_high: "8 \<le> n \<Longrightarrow> \<not> bit (a :: u8) n"
  using bit_imp_le_length [of a n] by auto

lemma byte_bit_Suc:
  fixes a :: u8
  shows "bit a (Suc (Suc 0)) = bit a 2"
    "bit a (Suc (Suc (Suc 0))) = bit a 3"
    "bit a (Suc (Suc (Suc (Suc 0)))) = bit a 4"
    "bit a (Suc (Suc (Suc (Suc (Suc 0))))) = bit a 5"
    "bit a (Suc (Suc (Suc (Suc (Suc (Suc 0)))))) = bit a 6"
    "bit a (Suc (Suc (Suc (Suc (Suc (Suc (Suc 0))))))) = bit a 7"
  by (simp_all add: eval_nat_numeral)

lemma byte_double: "bit (a * 2 :: u8) n \<longleftrightarrow> 0 < n \<and> n < 8 \<and> bit a (n - 1)"
proof -
  have "a * 2 = push_bit 1 a" by (simp only: push_bit_eq_mult power_one_right)
  then show ?thesis
    by (simp only: bit_push_bit_iff) (auto simp: bit_imp_le_length)
qed

lemmas byte_bits = bit_simps byte_bit_high byte_bit_Suc byte_double

lemma byte_eqI:
  fixes a b :: u8
  assumes "bit a 0 = bit b 0" "bit a 1 = bit b 1" "bit a 2 = bit b 2" "bit a 3 = bit b 3"
    "bit a 4 = bit b 4" "bit a 5 = bit b 5" "bit a 6 = bit b 6" "bit a 7 = bit b 7"
  shows "a = b"
proof (rule bit_word_eqI)
  fix n assume "n < LENGTH(8)"
  then have "n < 8" by simp
  from less_8_cases [OF this] show "bit a n = bit b n" using assms by blast
qed

lemma byte_add_or:
  fixes a b :: u8
  assumes "\<not> (bit a 0 \<and> bit b 0)" "\<not> (bit a 1 \<and> bit b 1)" "\<not> (bit a 2 \<and> bit b 2)"
    "\<not> (bit a 3 \<and> bit b 3)" "\<not> (bit a 4 \<and> bit b 4)" "\<not> (bit a 5 \<and> bit b 5)"
    "\<not> (bit a 6 \<and> bit b 6)" "\<not> (bit a 7 \<and> bit b 7)"
  shows "a + b = a OR b"
proof (rule disjunctive_add)
  fix n
  show "\<not> bit a n \<or> \<not> bit b n"
  proof (cases "n < 8")
    case True
    from less_8_cases [OF this] show ?thesis using assms by blast
  next
    case False
    then show ?thesis using byte_bit_high [of n a] by simp
  qed
qed

end
