(* ===== verification/Libbb.thy ===== *)
theory Libbb imports Prelude begin

text \<open>
  The character tests of \<open>include/libbb.h\<close> and the small string scanners of \<open>libbb/\<close>
  that the applets share: \<open>skip_whitespace.c\<close>, \<open>endofname.c\<close>, \<open>safe_strncpy.c\<close>,
  and the part of the C library's \<open>strtoull\<close> the code relies on.  A scanner returns the
  suffix of its argument at which the C function's result points.
\<close>

section \<open>Character classes\<close>

text \<open>The macros compute on \<open>unsigned char\<close>, with wrap-around.\<close>

definition code :: "char \<Rightarrow> u8" where
  "code c = of_char c"

definition c_isdigit :: "char \<Rightarrow> bool" where
  "c_isdigit c \<longleftrightarrow> code c - 48 \<le> 9"

definition c_isupper :: "char \<Rightarrow> bool" where
  "c_isupper c \<longleftrightarrow> code c - 65 \<le> 25"

definition c_islower :: "char \<Rightarrow> bool" where
  "c_islower c \<longleftrightarrow> code c - 97 \<le> 25"

definition c_isalpha :: "char \<Rightarrow> bool" where
  "c_isalpha c \<longleftrightarrow> (code c OR 0x20) - 97 \<le> 25"

definition c_isalnum :: "char \<Rightarrow> bool" where
  "c_isalnum c \<longleftrightarrow>
     (if code c - 48 \<le> 9 then True else (code c OR 0x20) - 97 \<le> 25)"

definition c_isspace :: "char \<Rightarrow> bool" where
  "c_isspace c \<longleftrightarrow> (let b = code c - 9 in b = 32 - 9 \<or> b \<le> 13 - 9)"

definition c_iscntrl :: "char \<Rightarrow> bool" where
  "c_iscntrl c \<longleftrightarrow> code c < 32 \<or> code c = 0x7f"

definition c_isprint_asciionly :: "char \<Rightarrow> bool" where
  "c_isprint_asciionly c \<longleftrightarrow> (of_char c :: u32) - 0x20 \<le> 0x7e - 0x20"

text \<open>What the bit tricks compute.\<close>

definition ascii :: "char \<Rightarrow> nat" where
  "ascii c = of_char c"

lemma unat_code [simp]: "unat (code c) = ascii c"
proof -
  have "unat (of_nat (of_char c) :: u8) = of_char c" by (simp only: unat_of_nat) simp
  then show ?thesis by (simp only: of_nat_of_char code_def ascii_def)
qed

lemma ascii_less [simp]: "ascii c < 256"
  by (simp add: ascii_def)

lemma code_le: "k \<le> code c \<longleftrightarrow> unat k \<le> ascii c" "code c \<le> k \<longleftrightarrow> ascii c \<le> unat k"
  by (simp_all add: word_le_nat_alt)

lemma range_digit: "(x :: u8) - 48 \<le> 9 \<longleftrightarrow> 48 \<le> x \<and> x \<le> 57" by unat_arith auto
lemma range_upper: "(x :: u8) - 65 \<le> 25 \<longleftrightarrow> 65 \<le> x \<and> x \<le> 90" by unat_arith auto
lemma range_lower: "(x :: u8) - 97 \<le> 25 \<longleftrightarrow> 97 \<le> x \<and> x \<le> 122" by unat_arith auto
lemma range_ctl: "(x :: u8) - 9 \<le> 4 \<longleftrightarrow> 9 \<le> x \<and> x \<le> 13" by unat_arith auto
lemma range_blank: "(x :: u8) - 9 = 23 \<longleftrightarrow> x = 32" by unat_arith auto

lemma range_letter_table:
  "list_all (\<lambda>n. let x = of_nat n :: u8
     in (x OR 32) - 97 \<le> 25 \<longleftrightarrow> 65 \<le> x \<and> x \<le> 90 \<or> 97 \<le> x \<and> x \<le> 122) [0..<256]"
  by code_simp

lemma range_letter: "((x :: u8) OR 32) - 97 \<le> 25 \<longleftrightarrow> 65 \<le> x \<and> x \<le> 90 \<or> 97 \<le> x \<and> x \<le> 122"
proof -
  have "unat x \<in> set [0..<256]" using unsigned_less [of x, where ?'a = nat] by simp
  with range_letter_table have "let y = of_nat (unat x) :: u8
     in (y OR 32) - 97 \<le> 25 \<longleftrightarrow> 65 \<le> y \<and> y \<le> 90 \<or> 97 \<le> y \<and> y \<le> 122"
    by (simp only: list_all_iff)
  then show ?thesis by (simp only: Let_def of_nat_unat ucast_id)
qed

lemma code_eq: "code c = k \<longleftrightarrow> ascii c = unat k"
  by (simp add: word_unat_eq_iff)

lemma ctype_ascii:
  "c_isdigit c \<longleftrightarrow> 48 \<le> ascii c \<and> ascii c \<le> 57"
  "c_isupper c \<longleftrightarrow> 65 \<le> ascii c \<and> ascii c \<le> 90"
  "c_islower c \<longleftrightarrow> 97 \<le> ascii c \<and> ascii c \<le> 122"
  "c_isalpha c \<longleftrightarrow> c_isupper c \<or> c_islower c"
  "c_isalnum c \<longleftrightarrow> c_isdigit c \<or> c_isalpha c"
  "c_isspace c \<longleftrightarrow> ascii c = 32 \<or> 9 \<le> ascii c \<and> ascii c \<le> 13"
  unfolding c_isdigit_def c_isupper_def c_islower_def c_isalpha_def c_isalnum_def
    c_isspace_def Let_def range_letter
  by (auto simp: range_digit range_upper range_lower range_ctl range_blank code_le code_eq)

section \<open>Scanners\<close>

definition c_space :: "char \<Rightarrow> bool" where
  "c_space c \<longleftrightarrow> c = CHR '' '' \<or> code c - 9 \<le> 13 - 9"

fun skip_whitespace :: "string \<Rightarrow> string" where
  "skip_whitespace [] = []"
| "skip_whitespace (c # s) = (if c_space c then skip_whitespace s else c # s)"

fun skip_non_whitespace :: "string \<Rightarrow> string" where
  "skip_non_whitespace [] = []"
| "skip_non_whitespace (c # s) =
     (if c \<noteq> CHR '' '' \<and> code c - 9 > 13 - 9 then skip_non_whitespace s else c # s)"

definition is_name :: "char \<Rightarrow> bool" where
  "is_name c \<longleftrightarrow> c = CHR ''_'' \<or> c_isalpha c"

definition is_in_name :: "char \<Rightarrow> bool" where
  "is_in_name c \<longleftrightarrow> c = CHR ''_'' \<or> c_isalnum c"

fun endofname_loop :: "string \<Rightarrow> string" where
  "endofname_loop [] = []"
| "endofname_loop (c # s) = (if \<not> is_in_name c then c # s else endofname_loop s)"

definition endofname :: "string \<Rightarrow> string" where
  "endofname name =
     (case name of [] \<Rightarrow> []
      | c # s \<Rightarrow> if \<not> is_name c then name else endofname_loop s)"

text \<open>\<open>safe_strncpy(dst, src, sz)\<close> leaves at most \<open>sz - 1\<close> characters.\<close>

definition safe_strncpy :: "string \<Rightarrow> nat \<Rightarrow> string" where
  "safe_strncpy src sz = take (sz - 1) src"

lemma skip_whitespace_dropWhile: "skip_whitespace s = dropWhile c_space s"
  by (induction s) auto

lemma skip_whitespace_suffix: "\<exists>w. s = w @ skip_whitespace s \<and> (\<forall>c \<in> set w. c_space c)"
  by (intro exI [of _ "takeWhile c_space s"])
    (auto simp: skip_whitespace_dropWhile dest: set_takeWhileD)

lemma skip_whitespace_length [simp]: "length (skip_whitespace s) \<le> length s"
  by (induction s) auto

lemma skip_whitespace_idem [simp]: "skip_whitespace (skip_whitespace s) = skip_whitespace s"
  by (induction s) auto

lemma skip_whitespace_head: "skip_whitespace s = c # r \<Longrightarrow> \<not> c_space c"
  by (induction s) (auto split: if_splits)

lemma endofname_loop_dropWhile: "endofname_loop s = dropWhile is_in_name s"
  by (induction s) auto

lemma endofname_length: "length (endofname s) \<le> length s"
  by (auto simp: endofname_def endofname_loop_dropWhile length_dropWhile_le split: list.split
      intro: le_SucI)

lemma endofname_progress: "endofname s \<noteq> s \<Longrightarrow> length (endofname s) < length s"
  by (auto simp: endofname_def endofname_loop_dropWhile length_dropWhile_le le_imp_less_Suc
      split: list.splits if_splits)

section \<open>Strings and lines\<close>

fun is_prefixed_with :: "string \<Rightarrow> string \<Rightarrow> string option" where
  "is_prefixed_with s [] = Some s"
| "is_prefixed_with [] (k # key) = None"
| "is_prefixed_with (c # s) (k # key) = (if k \<noteq> c then None else is_prefixed_with s key)"

lemma is_prefixed_with_append [simp]: "is_prefixed_with (key @ s) key = Some s"
  by (induction key) auto

text \<open>\<open>trim\<close>: what is left of the buffer, up to its new NUL.\<close>

definition trim :: "string \<Rightarrow> string" where
  "trim s = skip_whitespace (rev (dropWhile c_isspace (rev s)))"

text \<open>The bytes of a buffer up to its NUL.\<close>

definition c_string :: "string \<Rightarrow> string" where
  "c_string s = takeWhile (\<lambda>c. c \<noteq> cnul) s"

text \<open>\<open>bb_get_chunk_from_file\<close> with an end pointer: up to and including a newline or a NUL;
  None at EOF.  \<open>xmalloc_fgetline\<close> removes the newline.\<close>

fun get_chunk :: "string \<Rightarrow> string \<Rightarrow> string \<times> string" where
  "get_chunk buf [] = (buf, [])"
| "get_chunk buf (c # s) = (if c = cnul \<or> c = CHR 0x0A then (buf @ [c], s) else get_chunk (buf @ [c]) s)"

definition xmalloc_fgetline :: "string \<Rightarrow> (string \<times> string) option" where
  "xmalloc_fgetline s =
     (if s = [] then None
      else let (buf, rest) = get_chunk [] s
           in Some (c_string (if last buf = CHR 0x0A then butlast buf else buf), rest))"

lemma get_chunk_line:
  "cnul \<notin> set l \<Longrightarrow> CHR 0x0A \<notin> set l \<Longrightarrow> get_chunk buf (l @ CHR 0x0A # s) = (buf @ l @ [CHR 0x0A], s)"
  by (induction l arbitrary: buf) auto

lemma c_string_id: "cnul \<notin> set s \<Longrightarrow> c_string s = s"
  by (auto simp: c_string_def takeWhile_eq_all_conv)

lemma xmalloc_fgetline_line:
  "cnul \<notin> set l \<Longrightarrow> CHR 0x0A \<notin> set l \<Longrightarrow> xmalloc_fgetline (l @ CHR 0x0A # s) = Some (l, s)"
  by (simp add: xmalloc_fgetline_def get_chunk_line c_string_id flip: append_assoc)

lemma get_chunk_rest: "length (snd (get_chunk buf s)) \<le> length s - 1"
  by (induction buf s rule: get_chunk.induct) auto

lemma xmalloc_fgetline_less: "xmalloc_fgetline s = Some (l, r) \<Longrightarrow> length r < length s"
  using get_chunk_rest [of "[]" s]
  by (cases s) (auto simp: xmalloc_fgetline_def split: if_splits prod.splits)

section \<open>The C library's number scanner\<close>

definition digit_val :: "char \<Rightarrow> nat" where
  "digit_val c =
     (if c_isdigit c then ascii c - 48
      else if c_islower c then ascii c - 87
      else if c_isupper c then ascii c - 55
      else 99)"

definition digits_val :: "nat \<Rightarrow> string \<Rightarrow> int" where
  "digits_val base ds = foldl (\<lambda>n c. n * int base + int (digit_val c)) 0 ds"

text \<open>\<open>strtoull(s, &end, base)\<close>: the value, whether errno is ERANGE, and the end.  White
  space and a sign come first; base 0 selects 16, 8 or 10 by prefix, a \<open>0x\<close> that no hex
  digit follows counts as the digit 0.\<close>

definition strtoull :: "string \<Rightarrow> nat \<Rightarrow> u64 \<times> bool \<times> string" where
  "strtoull s base =
     (let s1 = dropWhile c_isspace s;
          neg = (cur s1 = CHR ''-'');
          s2 = (if cur s1 = CHR ''-'' \<or> cur s1 = CHR ''+'' then tl s1 else s1);
          hex = (case s2 of
                   z # x # d # _ \<Rightarrow> z = CHR ''0'' \<and> (x = CHR ''x'' \<or> x = CHR ''X'') \<and> digit_val d < 16
                 | _ \<Rightarrow> False);
          (b, s3) =
            (if (base = 0 \<or> base = 16) \<and> hex then (16, drop 2 s2)
             else if base = 0 then (if cur s2 = CHR ''0'' then 8 else 10, s2)
             else (base, s2));
          ds = takeWhile (\<lambda>c. digit_val c < b) s3;
          rest = dropWhile (\<lambda>c. digit_val c < b) s3;
          v = digits_val b ds
      in if ds = [] then (0, False, s)
         else if 2 ^ 64 \<le> v then (- 1, True, rest)
         else (if neg then - word_of_int v else word_of_int v, False, rest))"

lemma length_dropWhile_takeWhile:
  "takeWhile P xs \<noteq> [] \<Longrightarrow> length (dropWhile P xs) < length xs"
  by (cases xs) (auto simp: le_imp_less_Suc length_dropWhile_le split: if_splits)

lemma strtoull_rest_le: "length (snd (snd (strtoull s base))) \<le> length s"
proof -
  have *: "length (tl (dropWhile c_isspace s)) \<le> length s"
    using length_dropWhile_le [of c_isspace s] by simp
  have **: "length (dropWhile P (dropWhile c_isspace s)) \<le> length s"
    "length (dropWhile P (tl (dropWhile c_isspace s))) \<le> length s"
    "length (dropWhile P (drop n (dropWhile c_isspace s))) \<le> length s"
    "length (dropWhile P (drop n (tl (dropWhile c_isspace s)))) \<le> length s" for P n
    using * length_dropWhile_le [of c_isspace s]
    by (auto intro!: order_trans [OF length_dropWhile_le])
  show ?thesis
    by (auto simp: strtoull_def Let_def ** split: prod.splits if_splits)
qed

lemma c_isdigit_cases: "c_isdigit c \<Longrightarrow> \<not> c_isspace c \<and> c \<noteq> CHR ''-'' \<and> c \<noteq> CHR ''+'' \<and> digit_val c < 10"
  by (auto simp: ctype_ascii digit_val_def) (simp_all add: ascii_def)

text \<open>At a digit the scanner always makes progress.\<close>

lemma strtoull_progress:
  assumes "c_isdigit c"
  shows "length (snd (snd (strtoull (c # s) 0))) < length (c # s)"
proof -
  note d = c_isdigit_cases [OF assms]
  have zero: "c = CHR ''0'' \<Longrightarrow> digit_val c < 8" by (simp add: digit_val_def ascii_def c_isdigit_def code_def)
  have le: "length (dropWhile P (drop 2 (c # s))) < length (c # s)" for P
    using length_dropWhile_le [of P "drop 2 (c # s)"] by simp
  have lt: "P c \<Longrightarrow> length (dropWhile P (c # s)) < length (c # s)" for P
    by (simp add: length_dropWhile_le le_imp_less_Suc)
  show ?thesis
    using d zero le lt [of "\<lambda>c. digit_val c < 8"] lt [of "\<lambda>c. digit_val c < 10"]
    by (auto simp: strtoull_def Let_def split: prod.splits if_splits list.splits)
qed

end
