(* ===== verification/Aes.thy ===== *)
theory Aes imports Prelude begin

text \<open>
  The AES block cipher and its CBC mode, \<open>networking/tls_aes.c\<close>.

  The state \<open>unsigned astate[16]\<close> is a list of sixteen 32-bit words holding byte values;
  every operation returns the updated state.  The key schedule \<open>aes->key\<close> is the list of
  its words, a \<open>RoundKey\<close> pointer into it is an offset.  The buffers of the CBC
  functions are lists of bytes; a \<open>len\<close> that is not a multiple of 16 makes the C
  code run past the buffer (its \<open>size_t\<close> counter wraps), which the model returns as None.
\<close>

section \<open>Tables\<close>

definition sbox :: "u8 list" where
  "sbox = [
   0x63, 0x7c, 0x77, 0x7b, 0xf2, 0x6b, 0x6f, 0xc5, 0x30, 0x01, 0x67, 0x2b, 0xfe, 0xd7, 0xab, 0x76,
   0xca, 0x82, 0xc9, 0x7d, 0xfa, 0x59, 0x47, 0xf0, 0xad, 0xd4, 0xa2, 0xaf, 0x9c, 0xa4, 0x72, 0xc0,
   0xb7, 0xfd, 0x93, 0x26, 0x36, 0x3f, 0xf7, 0xcc, 0x34, 0xa5, 0xe5, 0xf1, 0x71, 0xd8, 0x31, 0x15,
   0x04, 0xc7, 0x23, 0xc3, 0x18, 0x96, 0x05, 0x9a, 0x07, 0x12, 0x80, 0xe2, 0xeb, 0x27, 0xb2, 0x75,
   0x09, 0x83, 0x2c, 0x1a, 0x1b, 0x6e, 0x5a, 0xa0, 0x52, 0x3b, 0xd6, 0xb3, 0x29, 0xe3, 0x2f, 0x84,
   0x53, 0xd1, 0x00, 0xed, 0x20, 0xfc, 0xb1, 0x5b, 0x6a, 0xcb, 0xbe, 0x39, 0x4a, 0x4c, 0x58, 0xcf,
   0xd0, 0xef, 0xaa, 0xfb, 0x43, 0x4d, 0x33, 0x85, 0x45, 0xf9, 0x02, 0x7f, 0x50, 0x3c, 0x9f, 0xa8,
   0x51, 0xa3, 0x40, 0x8f, 0x92, 0x9d, 0x38, 0xf5, 0xbc, 0xb6, 0xda, 0x21, 0x10, 0xff, 0xf3, 0xd2,
   0xcd, 0x0c, 0x13, 0xec, 0x5f, 0x97, 0x44, 0x17, 0xc4, 0xa7, 0x7e, 0x3d, 0x64, 0x5d, 0x19, 0x73,
   0x60, 0x81, 0x4f, 0xdc, 0x22, 0x2a, 0x90, 0x88, 0x46, 0xee, 0xb8, 0x14, 0xde, 0x5e, 0x0b, 0xdb,
   0xe0, 0x32, 0x3a, 0x0a, 0x49, 0x06, 0x24, 0x5c, 0xc2, 0xd3, 0xac, 0x62, 0x91, 0x95, 0xe4, 0x79,
   0xe7, 0xc8, 0x37, 0x6d, 0x8d, 0xd5, 0x4e, 0xa9, 0x6c, 0x56, 0xf4, 0xea, 0x65, 0x7a, 0xae, 0x08,
   0xba, 0x78, 0x25, 0x2e, 0x1c, 0xa6, 0xb4, 0xc6, 0xe8, 0xdd, 0x74, 0x1f, 0x4b, 0xbd, 0x8b, 0x8a,
   0x70, 0x3e, 0xb5, 0x66, 0x48, 0x03, 0xf6, 0x0e, 0x61, 0x35, 0x57, 0xb9, 0x86, 0xc1, 0x1d, 0x9e,
   0xe1, 0xf8, 0x98, 0x11, 0x69, 0xd9, 0x8e, 0x94, 0x9b, 0x1e, 0x87, 0xe9, 0xce, 0x55, 0x28, 0xdf,
   0x8c, 0xa1, 0x89, 0x0d, 0xbf, 0xe6, 0x42, 0x68, 0x41, 0x99, 0x2d, 0x0f, 0xb0, 0x54, 0xbb, 0x16]"

definition rsbox :: "u8 list" where
  "rsbox = [
   0x52, 0x09, 0x6a, 0xd5, 0x30, 0x36, 0xa5, 0x38, 0xbf, 0x40, 0xa3, 0x9e, 0x81, 0xf3, 0xd7, 0xfb,
   0x7c, 0xe3, 0x39, 0x82, 0x9b, 0x2f, 0xff, 0x87, 0x34, 0x8e, 0x43, 0x44, 0xc4, 0xde, 0xe9, 0xcb,
   0x54, 0x7b, 0x94, 0x32, 0xa6, 0xc2, 0x23, 0x3d, 0xee, 0x4c, 0x95, 0x0b, 0x42, 0xfa, 0xc3, 0x4e,
   0x08, 0x2e, 0xa1, 0x66, 0x28, 0xd9, 0x24, 0xb2, 0x76, 0x5b, 0xa2, 0x49, 0x6d, 0x8b, 0xd1, 0x25,
   0x72, 0xf8, 0xf6, 0x64, 0x86, 0x68, 0x98, 0x16, 0xd4, 0xa4, 0x5c, 0xcc, 0x5d, 0x65, 0xb6, 0x92,
   0x6c, 0x70, 0x48, 0x50, 0xfd, 0xed, 0xb9, 0xda, 0x5e, 0x15, 0x46, 0x57, 0xa7, 0x8d, 0x9d, 0x84,
   0x90, 0xd8, 0xab, 0x00, 0x8c, 0xbc, 0xd3, 0x0a, 0xf7, 0xe4, 0x58, 0x05, 0xb8, 0xb3, 0x45, 0x06,
   0xd0, 0x2c, 0x1e, 0x8f, 0xca, 0x3f, 0x0f, 0x02, 0xc1, 0xaf, 0xbd, 0x03, 0x01, 0x13, 0x8a, 0x6b,
   0x3a, 0x91, 0x11, 0x41, 0x4f, 0x67, 0xdc, 0xea, 0x97, 0xf2, 0xcf, 0xce, 0xf0, 0xb4, 0xe6, 0x73,
   0x96, 0xac, 0x74, 0x22, 0xe7, 0xad, 0x35, 0x85, 0xe2, 0xf9, 0x37, 0xe8, 0x1c, 0x75, 0xdf, 0x6e,
   0x47, 0xf1, 0x1a, 0x71, 0x1d, 0x29, 0xc5, 0x89, 0x6f, 0xb7, 0x62, 0x0e, 0xaa, 0x18, 0xbe, 0x1b,
   0xfc, 0x56, 0x3e, 0x4b, 0xc6, 0xd2, 0x79, 0x20, 0x9a, 0xdb, 0xc0, 0xfe, 0x78, 0xcd, 0x5a, 0xf4,
   0x1f, 0xdd, 0xa8, 0x33, 0x88, 0x07, 0xc7, 0x31, 0xb1, 0x12, 0x10, 0x59, 0x27, 0x80, 0xec, 0x5f,
   0x60, 0x51, 0x7f, 0xa9, 0x19, 0xb5, 0x4a, 0x0d, 0x2d, 0xe5, 0x7a, 0x9f, 0x93, 0xc9, 0x9c, 0xef,
   0xa0, 0xe0, 0x3b, 0x4d, 0xae, 0x2a, 0xf5, 0xb0, 0xc8, 0xeb, 0xbb, 0x3c, 0x83, 0x53, 0x99, 0x61,
   0x17, 0x2b, 0x04, 0x7e, 0xba, 0x77, 0xd6, 0x26, 0xe1, 0x69, 0x14, 0x63, 0x55, 0x21, 0x0c, 0x7d]"

section \<open>Key schedule\<close>

definition sb :: "u32 \<Rightarrow> u32" where
  "sb x = ucast (sbox ! unat x)"

definition Subword :: "u32 \<Rightarrow> u32" where
  "Subword x =
     push_bit 24 (sb (drop_bit 24 x))
     OR push_bit 16 (sb (drop_bit 16 x AND 255))
     OR push_bit 8 (sb (drop_bit 8 x AND 255))
     OR sb (x AND 255)"

definition Rcon :: "u8 list" where
  "Rcon = [0x01, 0x02, 0x04, 0x08, 0x10, 0x20, 0x40, 0x80, 0x1b, 0x36]"

definition get_be32 :: "u8 list \<Rightarrow> u32" where
  "get_be32 b = push_bit 24 (ucast (b ! 0)) OR push_bit 16 (ucast (b ! 1))
     OR push_bit 8 (ucast (b ! 2)) OR ucast (b ! 3)"

text \<open>The loop over \<open>i\<close>: \<open>rk\<close> holds the words below \<open>i\<close>, so
  \<open>RoundKey[i] = ...\<close> appends; \<open>n\<close> is the number of words still to come.\<close>

fun expand_loop :: "nat \<Rightarrow> nat \<Rightarrow> nat \<Rightarrow> nat \<Rightarrow> u32 list \<Rightarrow> u32 list" where
  "expand_loop words_key 0 j k rk = rk"
| "expand_loop words_key (Suc n) j k rk =
     (let tempa = rk ! (length rk - 1);
          tempa =
            (if j = 0 then
               Subword (push_bit 8 tempa OR drop_bit 24 tempa)
                 XOR push_bit 24 (ucast (Rcon ! k))
             else if words_key > 6 \<and> j = 4 then Subword tempa
             else tempa);
          rk' = rk @ [rk ! (length rk - words_key) XOR tempa];
          (j', k') = (if j + 1 = words_key then (0, k + 1) else (j + 1, k))
      in expand_loop words_key n j' k' rk')"

definition KeyExpansion :: "u8 list \<Rightarrow> u32 list \<times> u32" where
  "KeyExpansion key =
     (let key_len = length key;
          words_key = key_len div 4;
          rounds = 6 + key_len div 4;
          words_RoundKey = 28 + key_len;
          rk0 = map (\<lambda>i. get_be32 (drop (4 * i) key)) [0..<words_key]
      in (expand_loop words_key (words_RoundKey - words_key) 0 0 rk0, of_nat rounds))"

record tls_aes =
  aes_key :: "u32 list"
  aes_rounds :: u32

definition aes_setkey :: "u8 list \<Rightarrow> tls_aes" where
  "aes_setkey key = (case KeyExpansion key of (rk, r) \<Rightarrow> \<lparr>aes_key = rk, aes_rounds = r\<rparr>)"

section \<open>Round operations\<close>

type_synonym astate = "u32 list"

definition key_byte :: "u32 list \<Rightarrow> nat \<Rightarrow> nat \<Rightarrow> u32" where
  "key_byte rk off i =
     (let n = rk ! (off + i div 4) in
      case i mod 4 of
        0 \<Rightarrow> drop_bit 24 n
      | Suc 0 \<Rightarrow> drop_bit 16 n AND 255
      | Suc (Suc 0) \<Rightarrow> drop_bit 8 n AND 255
      | _ \<Rightarrow> n AND 255)"

definition AddRoundKey :: "u32 list \<Rightarrow> nat \<Rightarrow> astate \<Rightarrow> astate" where
  "AddRoundKey rk off st = map (\<lambda>i. st ! i XOR key_byte rk off i) [0..<16]"

definition SubBytes :: "astate \<Rightarrow> astate" where
  "SubBytes st = map (\<lambda>v. ucast (sbox ! unat v)) st"

definition InvSubBytes :: "astate \<Rightarrow> astate" where
  "InvSubBytes st = map (\<lambda>v. ucast (rsbox ! unat v)) st"

text \<open>\<open>ASTATE(col,row)\<close> is \<open>astate[col*4 + row]\<close>.\<close>

definition ShiftRows :: "astate \<Rightarrow> astate" where
  "ShiftRows a0 =
     (let a = a0; v = a ! 1;
          a = a[1 := a ! 5]; a = a[5 := a ! 9]; a = a[9 := a ! 13]; a = a[13 := v];
          v = a ! 2; a = a[2 := a ! 10]; a = a[10 := v];
          v = a ! 6; a = a[6 := a ! 14]; a = a[14 := v];
          v = a ! 15;
          a = a[15 := a ! 11]; a = a[11 := a ! 7]; a = a[7 := a ! 3]; a = a[3 := v]
      in a)"

definition InvShiftRows :: "astate \<Rightarrow> astate" where
  "InvShiftRows a0 =
     (let a = a0; v = a ! 13;
          a = a[13 := a ! 9]; a = a[9 := a ! 5]; a = a[5 := a ! 1]; a = a[1 := v];
          v = a ! 2; a = a[2 := a ! 10]; a = a[10 := v];
          v = a ! 6; a = a[6 := a ! 14]; a = a[14 := v];
          v = a ! 3;
          a = a[3 := a ! 7]; a = a[7 := a ! 11]; a = a[11 := a ! 15]; a = a[15 := v]
      in a)"

definition mix_reduce :: "u32 \<Rightarrow> u32" where
  "mix_reduce x = x XOR ((- (drop_bit 8 x)) AND 0x11b)"

fun mix_column :: "u32 list \<Rightarrow> u32 list" where
  "mix_column [a, b, c, d] =
     (let x = push_bit 1 a XOR b XOR push_bit 1 b XOR c XOR d;
          y = a XOR push_bit 1 b XOR c XOR push_bit 1 c XOR d;
          z = a XOR b XOR push_bit 1 c XOR d XOR push_bit 1 d;
          t = a XOR push_bit 1 a XOR b XOR c XOR push_bit 1 d
      in [mix_reduce x, mix_reduce y, mix_reduce z, mix_reduce t])"
| "mix_column _ = []"

definition each_column :: "(u32 list \<Rightarrow> u32 list) \<Rightarrow> astate \<Rightarrow> astate" where
  "each_column f st = concat (map (\<lambda>i. f (take 4 (drop i st))) [0, 4, 8, 12])"

definition MixColumns :: "astate \<Rightarrow> astate" where
  "MixColumns st = each_column mix_column st"

definition Multiply :: "u32 \<Rightarrow> u32" where
  "Multiply x =
     (let y = drop_bit 8 x
      in (x XOR y XOR push_bit 1 y XOR push_bit 3 y XOR push_bit 4 y) AND 255)"

fun inv_mix_column :: "u32 list \<Rightarrow> u32 list" where
  "inv_mix_column [a, b, c, d] =
     (let x = push_bit 1 a XOR push_bit 2 a XOR push_bit 3 a
              XOR b XOR push_bit 1 b XOR push_bit 3 b
              XOR c XOR push_bit 2 c XOR push_bit 3 c XOR d XOR push_bit 3 d;
          y = a XOR push_bit 3 a XOR push_bit 1 b XOR push_bit 2 b XOR push_bit 3 b
              XOR c XOR push_bit 1 c XOR push_bit 3 c XOR d XOR push_bit 2 d XOR push_bit 3 d;
          z = a XOR push_bit 2 a XOR push_bit 3 a XOR b XOR push_bit 3 b
              XOR push_bit 1 c XOR push_bit 2 c XOR push_bit 3 c
              XOR d XOR push_bit 1 d XOR push_bit 3 d;
          t = a XOR push_bit 1 a XOR push_bit 3 a XOR b XOR push_bit 2 b XOR push_bit 3 b
              XOR c XOR push_bit 3 c XOR push_bit 1 d XOR push_bit 2 d XOR push_bit 3 d
      in [Multiply x, Multiply y, Multiply z, Multiply t])"
| "inv_mix_column _ = []"

definition InvMixColumns :: "astate \<Rightarrow> astate" where
  "InvMixColumns st = each_column inv_mix_column st"

section \<open>One block\<close>

text \<open>The \<open>for (;;)\<close> loops count \<open>rounds\<close> down as an \<open>unsigned\<close>; the loops
  below do the same on a 32-bit word and stop when the decremented counter is zero.\<close>

function encrypt_loop :: "u32 list \<Rightarrow> u32 \<Rightarrow> nat \<Rightarrow> astate \<Rightarrow> astate" where
  "encrypt_loop rk rounds off st =
     (let st = AddRoundKey rk off st; off = off + 4;
          st = ShiftRows (SubBytes st); rounds = rounds - 1
      in if rounds = 0 then AddRoundKey rk off st
         else encrypt_loop rk rounds off (MixColumns st))"
  by pat_completeness auto
termination
  by (relation "measure (\<lambda>(rk, rounds, off, st). unat (rounds - 1))")
    (simp_all add: unat_pred_less2)

definition aes_encrypt_1 :: "tls_aes \<Rightarrow> astate \<Rightarrow> astate" where
  "aes_encrypt_1 aes st = encrypt_loop (aes_key aes) (aes_rounds aes) 0 st"

function decrypt_loop :: "u32 list \<Rightarrow> u32 \<Rightarrow> nat \<Rightarrow> astate \<Rightarrow> astate" where
  "decrypt_loop rk rounds off st =
     (let st = InvSubBytes (InvShiftRows st); off = off - 4;
          st = AddRoundKey rk off st; rounds = rounds - 1
      in if rounds = 0 then st
         else decrypt_loop rk rounds off (InvMixColumns st))"
  by pat_completeness auto
termination
  by (relation "measure (\<lambda>(rk, rounds, off, st). unat (rounds - 1))")
    (simp_all add: unat_pred_less2)

declare encrypt_loop.simps [simp del] decrypt_loop.simps [simp del]

definition aes_decrypt_1 :: "tls_aes \<Rightarrow> astate \<Rightarrow> astate" where
  "aes_decrypt_1 aes st =
     (let off = unat (aes_rounds aes) * 4
      in decrypt_loop (aes_key aes) (aes_rounds aes) off
           (AddRoundKey (aes_key aes) off st))"

definition aes_encrypt_one_block :: "tls_aes \<Rightarrow> u8 list \<Rightarrow> u8 list" where
  "aes_encrypt_one_block aes pt = map ucast (aes_encrypt_1 aes (map ucast (take 16 pt)))"

text \<open>\<open>while (len > 0)\<close>; a last partial block would be read past the end of the
  buffer (None).\<close>

function cbc_encrypt_loop :: "tls_aes \<Rightarrow> u8 list \<Rightarrow> u8 list \<Rightarrow> u8 list option" where
  "cbc_encrypt_loop aes iv2 pt =
     (if pt = [] then Some []
      else if length pt < 16 then None
      else
        let astate = map (\<lambda>i. ucast (pt ! i XOR iv2 ! i)) [0..<16];
            astate = aes_encrypt_1 aes astate;
            ct = map ucast astate
        in case cbc_encrypt_loop aes ct (drop 16 pt) of
             None \<Rightarrow> None
           | Some rest \<Rightarrow> Some (ct @ rest))"
  by pat_completeness auto
termination
  by (relation "measure (\<lambda>(aes, iv2, pt). length pt)") auto

definition aes_cbc_encrypt :: "tls_aes \<Rightarrow> u8 list \<Rightarrow> u8 list \<Rightarrow> u8 list option" where
  "aes_cbc_encrypt aes iv data = cbc_encrypt_loop aes (take 16 iv) data"

text \<open>The two initialisation-vector buffers take turns: \<open>at2\<close> says that \<open>ivbuf\<close> points
  to \<open>iv2\<close>.  \<open>iv3\<close> starts uninitialised, as an arbitrary argument.\<close>

function cbc_decrypt_loop ::
    "tls_aes \<Rightarrow> u8 list \<Rightarrow> u8 list \<Rightarrow> bool \<Rightarrow> u8 list \<Rightarrow> u8 list option" where
  "cbc_decrypt_loop aes iv2 iv3 at2 ct =
     (if ct = [] then Some []
      else if length ct < 16 then None
      else
        let ivbuf = (if at2 then iv2 else iv3);
            ivnext = take 16 ct;
            iv2' = (if at2 then iv2 else ivnext);
            iv3' = (if at2 then ivnext else iv3);
            astate = aes_decrypt_1 aes (map ucast (take 16 ct));
            pt = map (\<lambda>i. ucast (astate ! i XOR ucast (ivbuf ! i))) [0..<16]
        in case cbc_decrypt_loop aes iv2' iv3' (\<not> at2) (drop 16 ct) of
             None \<Rightarrow> None
           | Some rest \<Rightarrow> Some (pt @ rest))"
  by pat_completeness auto
termination
  by (relation "measure (\<lambda>(aes, iv2, iv3, at2, ct). length ct)") auto

declare cbc_encrypt_loop.simps [simp del] cbc_decrypt_loop.simps [simp del]

definition aes_cbc_decrypt ::
    "tls_aes \<Rightarrow> u8 list \<Rightarrow> u8 list \<Rightarrow> u8 list \<Rightarrow> u8 list option" where
  "aes_cbc_decrypt aes iv uninit data = cbc_decrypt_loop aes (take 16 iv) uninit True data"

section \<open>Byte-valued states\<close>

definition st_ok :: "astate \<Rightarrow> bool" where
  "st_ok st \<longleftrightarrow> length st = 16 \<and> (\<forall>x \<in> set st. x < 256)"

lemma xor_lt_256 [intro]: "(x :: u32) < 256 \<Longrightarrow> y < 256 \<Longrightarrow> x XOR y < 256"
  using xor_less_exp [of x 8 y] by simp

lemma and_255_lt [simp]: "(x :: u32) AND 255 < 256"
  using word_and_le1 [of x 255] by (rule le_less_trans) simp

lemma drop_24_lt [simp]: "drop_bit 24 (x :: u32) < 256"
proof -
  have "\<forall>i\<ge>8. \<not> bit (drop_bit 24 x) i"
    by (auto simp: bit_drop_bit_eq dest: bit_imp_le_length)
  then show ?thesis using less_exp_iff_bits [of 8 "drop_bit 24 x"] by simp
qed

lemma ucast_u8_lt [simp]: "(ucast (b :: u8) :: u32) < 256"
  using unsigned_less [of b, where ?'a = nat] by (simp add: word_less_nat_alt)

lemma key_byte_lt: "key_byte rk off i < 256"
  by (simp add: key_byte_def Let_def split: nat.split)

lemma st_ok_length [simp]: "st_ok st \<Longrightarrow> length st = 16"
  by (simp add: st_ok_def)

lemma st_ok_nth [simp]: "st_ok st \<Longrightarrow> i < 16 \<Longrightarrow> st ! i < 256"
  by (simp add: st_ok_def)

lemma st_ok_AddRoundKey [state_ok]: "st_ok st \<Longrightarrow> st_ok (AddRoundKey rk off st)"
  by (auto simp: st_ok_def AddRoundKey_def key_byte_lt)

lemma st_ok_SubBytes [state_ok]: "st_ok st \<Longrightarrow> st_ok (SubBytes st)"
  by (auto simp: st_ok_def SubBytes_def)

lemma st_ok_ShiftRows [state_ok]: "st_ok st \<Longrightarrow> st_ok (ShiftRows st)"
  unfolding st_ok_def
  by (elim conjE length_16_cases) (simp add: ShiftRows_def Let_def)

section \<open>The inverse operations\<close>

lemma AddRoundKey_twice: "st_ok st \<Longrightarrow> AddRoundKey rk off (AddRoundKey rk off st) = st"
  by (rule nth_equalityI) (simp_all add: AddRoundKey_def xor.assoc)

lemma InvShiftRows_ShiftRows: "length st = 16 \<Longrightarrow> InvShiftRows (ShiftRows st) = st"
  by (erule length_16_cases) (simp add: InvShiftRows_def ShiftRows_def Let_def)

lemma rsbox_sbox_table: "list_all (\<lambda>i. unat (rsbox ! unat (sbox ! i)) = i) [0..<256]"
  by code_simp

lemma rsbox_sbox: "(x :: u32) < 256 \<Longrightarrow> (ucast (rsbox ! unat (sbox ! unat x)) :: u32) = x"
proof -
  assume "x < 256"
  then have "unat x \<in> set [0..<256]" by (simp add: word_less_nat_alt)
  then have "unat (rsbox ! unat (sbox ! unat x)) = unat x"
    using rsbox_sbox_table by (simp only: list_all_iff)
  then show ?thesis by (simp only: word_unat_eq_iff unat_ucast_8_32)
qed

lemma InvSubBytes_SubBytes: "st_ok st \<Longrightarrow> InvSubBytes (SubBytes st) = st"
  by (auto simp: st_ok_def InvSubBytes_def SubBytes_def o_def rsbox_sbox intro!: map_idI)

text \<open>Doubling in GF(2^8), as \<open>mix_column\<close> computes it.\<close>

definition xt :: "u32 \<Rightarrow> u32" where
  "xt v = mix_reduce (push_bit 1 v)"

lemma byte_table:
  assumes "list_all P (map of_nat [0..<256])" and "(x :: u32) < 256"
  shows "P x"
proof -
  have "unat x \<in> {0..<256}" using assms(2) by (simp add: word_less_nat_alt)
  then have "x \<in> of_nat ` {0..<256}" by (intro image_eqI [of _ _ "unat x"]) simp_all
  then have "x \<in> set (map of_nat [0..<256])" by (simp only: set_map set_upt)
  with assms(1) show ?thesis by (simp only: list_all_iff)
qed

lemma xt_lt [simp]: "v < 256 \<Longrightarrow> xt v < 256"
  by (rule byte_table [where P = "\<lambda>v. xt v < 256"]) code_simp

lemma mix_reduce_small [simp]: "v < 256 \<Longrightarrow> mix_reduce v = v"
  by (rule byte_table [where P = "\<lambda>v. mix_reduce v = v"]) code_simp

lemma Multiply_small: "v < 256 \<Longrightarrow> Multiply v = v"
  by (rule byte_table [where P = "\<lambda>v. Multiply v = v"]) code_simp

lemma Multiply_shift1: "v < 256 \<Longrightarrow> Multiply (push_bit 1 v) = xt v"
  by (rule byte_table [where P = "\<lambda>v. Multiply (push_bit 1 v) = xt v"]) code_simp

lemma Multiply_shift2: "v < 256 \<Longrightarrow> Multiply (push_bit 2 v) = xt (xt v)"
  by (rule byte_table [where P = "\<lambda>v. Multiply (push_bit 2 v) = xt (xt v)"]) code_simp

lemma Multiply_shift3: "v < 256 \<Longrightarrow> Multiply (push_bit 3 v) = xt (xt (xt v))"
  by (rule byte_table [where P = "\<lambda>v. Multiply (push_bit 3 v) = xt (xt (xt v))"]) code_simp

lemma Multiply_xor: "Multiply (x XOR y) = Multiply x XOR Multiply y"
  by (simp add: Multiply_def Let_def push_bit_xor drop_bit_xor bit.conj_xor_distrib2 xor_ac
      del: push_bit_Suc One_nat_def)

lemma push_1_lt: "(v :: u32) < 256 \<Longrightarrow> push_bit 1 v < 512"
proof -
  assume "v < 256"
  then have "\<forall>i\<ge>8. \<not> bit v i" using less_exp_iff_bits [of 8 v] by simp
  then have "\<forall>i\<ge>9. \<not> bit (push_bit 1 v) i" 
    by (auto simp: bit_push_bit_iff simp del: push_bit_Suc One_nat_def)
  then show ?thesis using less_exp_iff_bits [of 9 "push_bit 1 v"]
    by (simp del: push_bit_Suc One_nat_def)
qed

lemma xor_lt_512: "(x :: u32) < 512 \<Longrightarrow> y < 512 \<Longrightarrow> x XOR y < 512"
  using xor_less_exp [of x 9 y] by simp

lemma high_bit_cases: "(x :: u32) < 512 \<Longrightarrow> drop_bit 8 x = 0 \<or> drop_bit 8 x = 1"
proof -
  assume "x < 512"
  then have "unat x < 512" by (simp add: word_less_nat_alt)
  then have "drop_bit 8 (unat x) < 2" by (simp add: drop_bit_eq_div)
  then have "unat (drop_bit 8 x) < 2" by (simp only: unat_drop_bit_eq)
  then have "unat (drop_bit 8 x) = 0 \<or> unat (drop_bit 8 x) = 1" by linarith
  then show ?thesis by (simp only: word_unat_eq_iff unat_0 unat_1)
qed

lemma mix_reduce_xor:
  "x < 512 \<Longrightarrow> y < 512 \<Longrightarrow> mix_reduce (x XOR y) = mix_reduce x XOR mix_reduce y"
  using high_bit_cases [of x] high_bit_cases [of y]
  by (auto simp: mix_reduce_def drop_bit_xor xor_ac)

lemma xt_xor: "x < 256 \<Longrightarrow> y < 256 \<Longrightarrow> xt (x XOR y) = xt x XOR xt y"
  by (simp add: xt_def push_bit_xor mix_reduce_xor push_1_lt
      del: push_bit_Suc One_nat_def)

lemma lt_256_512: "(x :: u32) < 256 \<Longrightarrow> x < 512"
  by (rule less_trans) auto

lemmas mix_linear =
  mix_reduce_xor xor_lt_512 push_1_lt lt_256_512 xt_def [symmetric]

lemma mix_column_xt:
  assumes "a < 256" "b < 256" "c < 256" "d < 256"
  shows "mix_column [a, b, c, d] =
    [xt a XOR xt b XOR b XOR c XOR d, a XOR xt b XOR xt c XOR c XOR d,
     a XOR b XOR xt c XOR xt d XOR d, xt a XOR a XOR b XOR c XOR xt d]"
  using assms 
  by (simp add: Let_def mix_linear del: push_bit_Suc One_nat_def) (simp add: xor_ac)

lemmas Multiply_linear =
  Multiply_xor Multiply_small Multiply_shift1 Multiply_shift2 Multiply_shift3

lemma inv_mix_column_mix_column:
  assumes "a < 256" "b < 256" "c < 256" "d < 256"
  shows "inv_mix_column (mix_column [a, b, c, d]) = [a, b, c, d]"
  using assms
  by (simp add: mix_column_xt Let_def push_bit_xor Multiply_linear xt_xor xor_lt_256
      del: mix_column.simps push_bit_Suc One_nat_def)
    (simp add: xor_ac)

lemma st_ok_MixColumns [state_ok]: "st_ok st \<Longrightarrow> st_ok (MixColumns st)"
  unfolding st_ok_def
  by (elim conjE length_16_cases)
    (simp add: MixColumns_def each_column_def mix_column_xt xor_lt_256 numeral_eq_Suc
      del: mix_column.simps)

lemma InvMixColumns_MixColumns: "st_ok st \<Longrightarrow> InvMixColumns (MixColumns st) = st"
  unfolding st_ok_def
proof (elim conjE length_16_cases)
  fix a b c d e f g h i j k l m n p q
  assume *: "\<forall>x\<in>set st. x < 256" "st = [a, b, c, d, e, f, g, h, i, j, k, l, m, n, p, q]"
  let ?m = "\<lambda>a b c d. mix_column [a, b, c, d]"
  have len: "length (?m a b c d) = 4" for a b c d by (simp add: Let_def)
  have "MixColumns st = ?m a b c d @ ?m e f g h @ ?m i j k l @ ?m m n p q"
    by (simp add: * MixColumns_def each_column_def numeral_eq_Suc del: mix_column.simps)
  then have "InvMixColumns (MixColumns st) =
      inv_mix_column (?m a b c d) @ inv_mix_column (?m e f g h) @
      inv_mix_column (?m i j k l) @ inv_mix_column (?m m n p q)"
    by (simp add: InvMixColumns_def each_column_def len del: mix_column.simps)
  also have "\<dots> = st"
    using * by (simp add: inv_mix_column_mix_column del: mix_column.simps)
  finally show "InvMixColumns (MixColumns st) = st" .
qed

section \<open>Iterated rounds\<close>

text \<open>
  What the round loops rely on, stated once: a substitution layer \<open>sub\<close>, a mixing
  layer \<open>mix\<close> and a keyed layer \<open>ark\<close>, each undone by its partner on valid states.
  \<open>enc_rounds k\<close> is \<open>k\<close> full rounds and the final round without mixing.
\<close>

fun enc_rounds :: "(nat \<Rightarrow> 's \<Rightarrow> 's) \<Rightarrow> ('s \<Rightarrow> 's) \<Rightarrow> ('s \<Rightarrow> 's) \<Rightarrow> nat \<Rightarrow> nat \<Rightarrow> 's \<Rightarrow> 's" where
  "enc_rounds ark sub mix 0 off st = ark (off + 4) (sub (ark off st))"
| "enc_rounds ark sub mix (Suc k) off st =
     enc_rounds ark sub mix k (off + 4) (mix (sub (ark off st)))"

fun full_dec :: "(nat \<Rightarrow> 's \<Rightarrow> 's) \<Rightarrow> ('s \<Rightarrow> 's) \<Rightarrow> ('s \<Rightarrow> 's) \<Rightarrow> nat \<Rightarrow> nat \<Rightarrow> 's \<Rightarrow> 's" where
  "full_dec ark isub imix 0 off st = st"
| "full_dec ark isub imix (Suc k) off st =
     full_dec ark isub imix k (off - 4) (imix (ark (off - 4) (isub st)))"

definition dec_rounds ::
    "(nat \<Rightarrow> 's \<Rightarrow> 's) \<Rightarrow> ('s \<Rightarrow> 's) \<Rightarrow> ('s \<Rightarrow> 's) \<Rightarrow> nat \<Rightarrow> nat \<Rightarrow> 's \<Rightarrow> 's" where
  "dec_rounds ark isub imix k off st =
     ark (off - 4 * k - 4) (isub (full_dec ark isub imix k off st))"

lemma full_dec_last:
  "full_dec ark isub imix (Suc k) off st =
     imix (ark (off - 4 * k - 4) (isub (full_dec ark isub imix k off st)))"
proof (induction k arbitrary: off st)
  case (Suc k)
  let ?st = "imix (ark (off - 4) (isub st))"
  have "full_dec ark isub imix (Suc (Suc k)) off st = full_dec ark isub imix (Suc k) (off - 4) ?st"
    by (rule full_dec.simps)
  also have "\<dots> = imix (ark (off - 4 - 4 * k - 4) (isub (full_dec ark isub imix k (off - 4) ?st)))"
    by (rule Suc.IH)
  also have "full_dec ark isub imix k (off - 4) ?st = full_dec ark isub imix (Suc k) off st"
    by simp
  finally show ?case by (simp del: full_dec.simps)
qed simp

locale round_layers =
  fixes ok :: "'s \<Rightarrow> bool"
    and ark :: "nat \<Rightarrow> 's \<Rightarrow> 's"
    and sub isub mix imix :: "'s \<Rightarrow> 's"
  assumes ok_ark: "ok s \<Longrightarrow> ok (ark off s)"
    and ok_sub: "ok s \<Longrightarrow> ok (sub s)"
    and ok_mix: "ok s \<Longrightarrow> ok (mix s)"
    and ark_ark: "ok s \<Longrightarrow> ark off (ark off s) = s"
    and isub_sub: "ok s \<Longrightarrow> isub (sub s) = s"
    and imix_mix: "ok s \<Longrightarrow> imix (mix s) = s"
begin

lemma ok_enc_rounds: "ok s \<Longrightarrow> ok (enc_rounds ark sub mix k off s)"
  by (induction k arbitrary: off s) (simp_all add: ok_ark ok_sub ok_mix)

lemma undo_rounds:
  "ok s \<Longrightarrow>
     full_dec ark isub imix k (off + 4 * k + 4)
       (ark (off + 4 * k + 4) (enc_rounds ark sub mix k off s)) = sub (ark off s)"
proof (induction k arbitrary: off s)
  case 0
  then show ?case by (simp add: ark_ark ok_ark ok_sub)
next
  case (Suc k)
  let ?m = "mix (sub (ark off s))"
  have "full_dec ark isub imix k (off + 4 * Suc k + 4)
      (ark (off + 4 * Suc k + 4) (enc_rounds ark sub mix (Suc k) off s)) = sub (ark (off + 4) ?m)"
    using Suc.IH [of ?m "off + 4"] Suc.prems by (simp add: ok_ark ok_sub ok_mix algebra_simps)
  then show ?case
    using Suc.prems
    by (subst full_dec_last)
      (simp add: isub_sub ark_ark imix_mix ok_ark ok_sub ok_mix add.commute [of 4])
qed

lemma dec_enc_rounds:
  "ok s \<Longrightarrow>
     dec_rounds ark isub imix k (off + 4 * k + 4)
       (ark (off + 4 * k + 4) (enc_rounds ark sub mix k off s)) = s"
  by (simp add: dec_rounds_def undo_rounds isub_sub ark_ark ok_ark)

end

interpretation aes_layers:
  round_layers st_ok "AddRoundKey rk" "ShiftRows \<circ> SubBytes" "InvSubBytes \<circ> InvShiftRows"
    MixColumns InvMixColumns for rk
  by unfold_locales
    (auto simp: state_ok AddRoundKey_twice InvShiftRows_ShiftRows InvSubBytes_SubBytes
      InvMixColumns_MixColumns)

lemma encrypt_loop_rounds:
  "unat r = Suc k \<Longrightarrow>
     encrypt_loop rk r off st = enc_rounds (AddRoundKey rk) (ShiftRows \<circ> SubBytes) MixColumns k off st"
proof (induction k arbitrary: r off st)
  case 0
  then have "r = 1" by (simp add: word_unat_eq_iff)
  then show ?case by (simp add: encrypt_loop.simps)
next
  case (Suc k)
  then have r: "r \<noteq> 0" "r \<noteq> 1" by auto
  with Suc.prems have r1: "unat (r - 1) = Suc k" by (simp add: unat_minus_one)
  show ?case
    by (subst encrypt_loop.simps) (simp add: r Let_def Suc.IH [OF r1] comp_def)
qed

lemma decrypt_loop_rounds:
  "unat r = Suc k \<Longrightarrow>
     decrypt_loop rk r off st =
       dec_rounds (AddRoundKey rk) (InvSubBytes \<circ> InvShiftRows) InvMixColumns k off st"
proof (induction k arbitrary: r off st)
  case 0
  then have "r = 1" by (simp add: word_unat_eq_iff)
  then show ?case by (simp add: decrypt_loop.simps dec_rounds_def)
next
  case (Suc k)
  then have r: "r \<noteq> 0" "r \<noteq> 1" by auto
  with Suc.prems have r1: "unat (r - 1) = Suc k" by (simp add: unat_minus_one)
  have "off - (4 + 4 * k) - 4 = off - 4 - 4 * k - 4" by simp
  show ?case
    by (subst decrypt_loop.simps) (simp add: r Let_def Suc.IH [OF r1] dec_rounds_def comp_def)
qed

lemma aes_encrypt_1_ok [state_ok]:
  "aes_rounds aes \<noteq> 0 \<Longrightarrow> st_ok st \<Longrightarrow> st_ok (aes_encrypt_1 aes st)"
  by (cases "unat (aes_rounds aes)")
    (simp_all add: aes_encrypt_1_def encrypt_loop_rounds aes_layers.ok_enc_rounds unat_eq_zero)

lemma aes_decrypt_1_encrypt_1:
  assumes "aes_rounds aes \<noteq> 0" and "st_ok st"
  shows "aes_decrypt_1 aes (aes_encrypt_1 aes st) = st"
proof -
  obtain k where k: "unat (aes_rounds aes) = Suc k"
    using assms(1) by (cases "unat (aes_rounds aes)") (auto simp: unat_eq_zero)
  show ?thesis
    using aes_layers.dec_enc_rounds [OF assms(2), of "aes_key aes" k 0]
    by (simp add: aes_decrypt_1_def aes_encrypt_1_def encrypt_loop_rounds [OF k]
        decrypt_loop_rounds [OF k] k Let_def algebra_simps)
qed

section \<open>Chaining blocks\<close>

lemma ucast_32_8_32: "(x :: u32) < 256 \<Longrightarrow> ucast (ucast x :: u8) = x"
proof -
  assume "x < 256"
  then have "\<forall>i\<ge>8. \<not> bit x i" using less_exp_iff_bits [of 8 x] by simp
  then show ?thesis
    by (intro bit_word_eqI) (auto simp: bit_ucast_iff not_less [symmetric])
qed

lemma st_ok_bytes: "st_ok st \<Longrightarrow> map ucast (map ucast st :: u8 list) = st"
  by (auto simp: st_ok_def ucast_32_8_32 intro!: map_idI)

lemma st_ok_of_bytes [state_ok]: "length b = 16 \<Longrightarrow> st_ok (map ucast (b :: u8 list))"
  by (auto simp: st_ok_def)

text \<open>The interface the chaining modes use: a pair of permutations of byte states.\<close>

locale block_cipher =
  fixes valid :: "'k \<Rightarrow> bool"
    and enc dec :: "'k \<Rightarrow> astate \<Rightarrow> astate"
  assumes enc_ok: "valid k \<Longrightarrow> st_ok s \<Longrightarrow> st_ok (enc k s)"
    and dec_enc: "valid k \<Longrightarrow> st_ok s \<Longrightarrow> dec k (enc k s) = s"
begin

lemma chained_length: "valid k \<Longrightarrow> st_ok s \<Longrightarrow> length (map ucast (enc k s) :: u8 list) = 16"
  using enc_ok by simp

lemma chained_block:
  fixes pt iv :: "u8 list"
  assumes "valid k" and "length pt = 16"
  defines "st \<equiv> map (\<lambda>i. ucast (pt ! i XOR iv ! i)) [0..<16]"
  shows "map (\<lambda>i. ucast (dec k (map ucast (map ucast (enc k st) :: u8 list)) ! i
            XOR ucast (iv ! i))) [0..<16] = pt"
proof -
  have "st_ok st" by (auto simp: st_ok_def st_def)
  then have dec: "dec k (map ucast (map ucast (enc k st) :: u8 list)) = st"
    by (simp only: st_ok_bytes enc_ok dec_enc assms(1))
  have "(ucast (ucast (pt ! i XOR iv ! i) XOR ucast (iv ! i) :: u32) :: u8) = pt ! i" for i
    by (rule bit_word_eqI) (auto simp: bit_ucast_iff bit_xor_iff dest: bit_imp_le_length)
  then have "map (\<lambda>i. ucast (st ! i XOR ucast (iv ! i))) [0..<16] = map ((!) pt) [0..<16]"
    by (intro map_cong) (simp_all add: st_def)
  then show ?thesis
    by (simp only: dec) (metis assms(2) map_nth)
qed

end

interpretation aes_block:
  block_cipher "\<lambda>aes. aes_rounds aes \<noteq> 0" aes_encrypt_1 aes_decrypt_1
  by unfold_locales (simp_all add: state_ok aes_decrypt_1_encrypt_1)

section \<open>The key schedule\<close>

lemma expand_loop_length: "length (expand_loop w n j k rk) = length rk + n"
  by (induction w n j k rk rule: expand_loop.induct) (simp_all add: Let_def split: prod.split)

lemma expand_loop_step:
  "\<exists>j' k' x. expand_loop w (Suc n) j k rk = expand_loop w n j' k' (rk @ [x])"
  by (simp only: expand_loop.simps Let_def) (simp only: split: prod.split, blast)

lemma expand_loop_prefix: "take (length rk) (expand_loop w n j k rk) = rk"
proof (induction n arbitrary: j k rk)
  case (Suc n)
  obtain j' k' x where eq: "expand_loop w (Suc n) j k rk = expand_loop w n j' k' (rk @ [x])"
    using expand_loop_step by blast
  have "take (Suc (length rk)) (expand_loop w n j' k' (rk @ [x])) = rk @ [x]"
    using Suc.IH [of "rk @ [x]" j' k'] by simp
  then have "take (length rk) (take (Suc (length rk)) (expand_loop w n j' k' (rk @ [x]))) = rk"
    by simp
  then show ?case by (simp only: eq) simp
qed simp

lemma setkey_rounds:
  "length key \<le> 32 \<Longrightarrow> unat (aes_rounds (aes_setkey key)) = 6 + length key div 4"
proof -
  assume "length key \<le> 32"
  then have "6 + length key div 4 < 2 ^ LENGTH(32)" by (simp add: le_less_trans)
  then have "unat (of_nat (6 + length key div 4) :: u32) = 6 + length key div 4"
    by (simp only: unat_of_nat mod_less)
  then show ?thesis
    by (simp add: aes_setkey_def KeyExpansion_def Let_def del: of_nat_add)
qed

lemma setkey_rounds_nonzero:
  "length key \<le> 32 \<Longrightarrow> aes_rounds (aes_setkey key) \<noteq> 0"
  using setkey_rounds [of key] by (metis add_is_0 numeral_eq_iff unat_0 zero_neq_numeral)

lemma cbc_decrypt_step:
  "length b = 16 \<Longrightarrow>
     cbc_decrypt_loop aes iv2 iv3 at2 (b @ rest) =
       map_option ((@) (map (\<lambda>i. ucast (aes_decrypt_1 aes (map ucast b) ! i
           XOR ucast ((if at2 then iv2 else iv3) ! i))) [0..<16]))
         (cbc_decrypt_loop aes (if at2 then iv2 else b) (if at2 then b else iv3) (\<not> at2) rest)"
  by (subst cbc_decrypt_loop.simps) (auto simp: Let_def split: option.split)

lemma cbc_decrypt_encrypt_loop:
  assumes "aes_rounds aes \<noteq> 0"
  shows "16 dvd length pt \<Longrightarrow>
     \<exists>ct. cbc_encrypt_loop aes iv pt = Some ct \<and> length ct = length pt \<and>
       (\<forall>iv2 iv3 at2. (if at2 then iv2 else iv3) = iv \<longrightarrow>
          cbc_decrypt_loop aes iv2 iv3 at2 ct = Some pt)"
proof (induction pt arbitrary: iv rule: measure_induct_rule [where f = length])
  case (less pt)
  show ?case
  proof (cases "pt = []")
    case True
    then show ?thesis by (simp add: cbc_encrypt_loop.simps cbc_decrypt_loop.simps)
  next
    case False
    with less.prems have len: "\<not> length pt < 16" and dvd: "16 dvd length (drop 16 pt)"
      by (auto dest: dvd_imp_le)
    let ?st = "map (\<lambda>i. ucast (take 16 pt ! i XOR iv ! i)) [0..<16]"
    let ?b = "map ucast (aes_encrypt_1 aes ?st) :: u8 list"
    have "length (drop 16 pt) < length pt" using False len by simp
    from less.IH [OF this dvd] obtain rest where
      rest: "cbc_encrypt_loop aes ?b (drop 16 pt) = Some rest" "length rest = length (drop 16 pt)"
      and dec: "\<And>iv2 iv3 at2. (if at2 then iv2 else iv3) = ?b \<Longrightarrow>
          cbc_decrypt_loop aes iv2 iv3 at2 rest = Some (drop 16 pt)"
      by blast
    have b16: "length ?b = 16"
      by (rule aes_block.chained_length [OF assms]) (auto simp: st_ok_def)
    have st: "?st = map (\<lambda>i. ucast (pt ! i XOR iv ! i)) [0..<16]"
      using len by (intro map_cong) auto
    have enc: "cbc_encrypt_loop aes iv pt = Some (?b @ rest)"
      using False len rest(1) by (simp add: cbc_encrypt_loop.simps [of _ _ pt] Let_def st)
    have "cbc_decrypt_loop aes iv2 iv3 at2 (?b @ rest) = Some pt"
      if "(if at2 then iv2 else iv3) = iv" for iv2 iv3 at2
    proof -
      have "map (\<lambda>i. ucast (aes_decrypt_1 aes (map ucast ?b) ! i XOR ucast (iv ! i))) [0..<16]
          = take 16 pt"
        using aes_block.chained_block [OF assms, of "take 16 pt" iv] len by simp
      moreover have "cbc_decrypt_loop aes (if at2 then iv2 else ?b) (if at2 then ?b else iv3)
          (\<not> at2) rest = Some (drop 16 pt)"
        by (rule dec) simp
      ultimately show ?thesis
        by (simp only: cbc_decrypt_step [OF b16] that option.map append_take_drop_id)
    qed
    with enc rest(2) b16 len show ?thesis by auto
  qed
qed

lemma cbc_encrypt_loop_None:
  "cbc_encrypt_loop aes iv pt = None \<longleftrightarrow> \<not> 16 dvd length pt"
proof (induction pt arbitrary: iv rule: measure_induct_rule [where f = length])
  case (less pt)
  consider "pt = []" | "pt \<noteq> []" "length pt < 16" | "pt \<noteq> []" "16 \<le> length pt" by linarith
  then show ?case
  proof cases
    case 2
    then show ?thesis by (auto simp: cbc_encrypt_loop.simps dest: dvd_imp_le)
  next
    case 3
    then have "16 dvd length pt \<longleftrightarrow> 16 dvd length (drop 16 pt)"
      by (simp add: dvd_minus_self)
    with 3 less.IH [of "drop 16 pt"] show ?thesis
      by (subst cbc_encrypt_loop.simps) (auto simp: Let_def split: option.split)
  qed (simp add: cbc_encrypt_loop.simps)
qed

section \<open>Properties\<close>

text \<open>C7: CBC decryption undoes CBC encryption.  For a 128, 192 or 256-bit key and any
  initialisation vector, encrypting a whole number of blocks succeeds, keeps the length,
  and decrypting the result under the same key and vector gives the plaintext back, whatever
  the second vector buffer held before.\<close>

theorem aes_cbc_roundtrip:
  assumes "length key \<in> {16, 24, 32}" and "length iv = 16" and "16 dvd length data"
  shows "\<exists>ct. aes_cbc_encrypt (aes_setkey key) iv data = Some ct \<and> length ct = length data \<and>
    aes_cbc_decrypt (aes_setkey key) iv uninit ct = Some data"
proof -
  have "aes_rounds (aes_setkey key) \<noteq> 0"
    using assms(1) by (intro setkey_rounds_nonzero) auto
  from cbc_decrypt_encrypt_loop [OF this assms(3), of iv] assms(2) show ?thesis
    unfolding aes_cbc_encrypt_def aes_cbc_decrypt_def by fastforce
qed

theorem aes_cbc_roundtrip_witness:
  "\<exists>ct. aes_cbc_encrypt (aes_setkey (replicate 16 7)) (replicate 16 1) (replicate 32 9) = Some ct \<and>
    length ct = 32 \<and>
    aes_cbc_decrypt (aes_setkey (replicate 16 7)) (replicate 16 1) [] ct = Some (replicate 32 9)"
  using aes_cbc_roundtrip [of "replicate 16 7" "replicate 16 1" "replicate 32 9" "[]"] by simp

text \<open>CBC encryption stays inside its buffer exactly when the length is a multiple of
  the block size: on any other length the C loop runs past the end.\<close>

theorem aes_cbc_overrun_iff:
  "aes_cbc_encrypt aes iv data = None \<longleftrightarrow> \<not> 16 dvd length data"
  unfolding aes_cbc_encrypt_def by (rule cbc_encrypt_loop_None)

text \<open>The key schedule.  For the three key sizes \<open>aes_setkey\<close> sets 10, 12 or 14 rounds,
  writes exactly the \<open>4 * (rounds + 1)\<close> words the rounds read, at most the 60 of the
  struct's array, and starts with the key itself.\<close>

theorem aes_setkey_schedule:
  assumes "length key \<in> {16, 24, 32}"
  shows "unat (aes_rounds (aes_setkey key)) = 6 + length key div 4 \<and>
    length (aes_key (aes_setkey key)) = 4 * (unat (aes_rounds (aes_setkey key)) + 1) \<and>
    length (aes_key (aes_setkey key)) \<le> 60 \<and>
    take (length key div 4) (aes_key (aes_setkey key)) =
      map (\<lambda>i. get_be32 (drop (4 * i) key)) [0..<length key div 4]"
proof -
  have r: "unat (aes_rounds (aes_setkey key)) = 6 + length key div 4"
    using assms by (intro setkey_rounds) auto
  let ?w = "length key div 4"
  let ?rk = "map (\<lambda>i. get_be32 (drop (4 * i) key)) [0..<?w]"
  have k: "aes_key (aes_setkey key) = expand_loop ?w (28 + length key - ?w) 0 0 ?rk"
    by (simp add: aes_setkey_def KeyExpansion_def Let_def)
  have "length (aes_key (aes_setkey key)) = 28 + length key"
    by (simp add: k expand_loop_length)
  moreover have "take ?w (aes_key (aes_setkey key)) = ?rk"
    using expand_loop_prefix [of ?rk] by (simp add: k)
  ultimately show ?thesis using r assms by auto
qed

theorem aes_setkey_schedule_witness:
  "length (replicate 24 (3 :: u8)) \<in> {16, 24, 32} \<and>
    length (aes_key (aes_setkey (replicate 24 3))) = 52"
  using aes_setkey_schedule [of "replicate 24 3"] by simp

end
