(* ===== verification/ShellMath.thy ===== *)
theory ShellMath imports Libbb "HOL-Library.Signed_Division" begin

text \<open>
  Shell arithmetic, \<open>shell/math.c\<close>: \<open>$((...))\<close> of ash and hush.

  One iteration of the \<open>while (1)\<close> of \<open>evaluate_string\<close> is \<open>math_step\<close> on a state of
  the input suffix, the number stack, the operator stack and the last token; the loop is
  \<open>math_loop\<close>.  Both stacks are lists with the top first.  The shell's variables are an
  abstract store \<open>'v\<close> with the two callbacks of \<open>arith_state_t\<close> as arguments.  A variable's
  value is itself an expression: the nested call is the argument \<open>ev\<close> of the loop, and
  \<open>evaluate_string\<close> ties the knot up to a nesting depth; None means that the depth did not
  suffice.  \<open>arith_t\<close> is 64 bits wide (CONFIG_FEATURE_SH_MATH_64) and wraps around;
  shift counts are taken modulo 64, as the target processors do.
\<close>

type_synonym i64 = "64 word"

section \<open>Operators\<close>

datatype operator =
    TOK_LPAREN | TOK_COMMA
  | TOK_ASSIGN | TOK_AND_ASSIGN | TOK_OR_ASSIGN | TOK_XOR_ASSIGN | TOK_PLUS_ASSIGN
  | TOK_MINUS_ASSIGN | TOK_LSHIFT_ASSIGN | TOK_RSHIFT_ASSIGN
  | TOK_MUL_ASSIGN | TOK_DIV_ASSIGN | TOK_REM_ASSIGN
  | TOK_CONDITIONAL | TOK_CONDITIONAL_SEP
  | TOK_OR | TOK_AND | TOK_BOR | TOK_BXOR | TOK_BAND
  | TOK_EQ | TOK_NE | TOK_LT | TOK_GT | TOK_GE | TOK_LE
  | TOK_LSHIFT | TOK_RSHIFT | TOK_ADD | TOK_SUB | TOK_MUL | TOK_DIV | TOK_REM
  | TOK_EXPONENT | TOK_BNOT | TOK_NOT | TOK_UMINUS | TOK_UPLUS
  | TOK_PRE_INC | TOK_PRE_DEC | TOK_POST_INC | TOK_POST_DEC | TOK_NUM | TOK_RPAREN

definition tok_decl :: "u8 \<Rightarrow> u8 \<Rightarrow> u8" where
  "tok_decl prec ident = push_bit 5 ident OR prec"

fun tok_byte :: "operator \<Rightarrow> u8" where
  "tok_byte TOK_LPAREN = tok_decl 0 0"
| "tok_byte TOK_COMMA = tok_decl 1 0"
| "tok_byte TOK_ASSIGN = tok_decl 2 0"
| "tok_byte TOK_AND_ASSIGN = tok_decl 2 1"
| "tok_byte TOK_OR_ASSIGN = tok_decl 2 2"
| "tok_byte TOK_XOR_ASSIGN = tok_decl 2 3"
| "tok_byte TOK_PLUS_ASSIGN = tok_decl 2 4"
| "tok_byte TOK_MINUS_ASSIGN = tok_decl 2 5"
| "tok_byte TOK_LSHIFT_ASSIGN = tok_decl 2 6"
| "tok_byte TOK_RSHIFT_ASSIGN = tok_decl 2 7"
| "tok_byte TOK_MUL_ASSIGN = tok_decl 3 0"
| "tok_byte TOK_DIV_ASSIGN = tok_decl 3 1"
| "tok_byte TOK_REM_ASSIGN = tok_decl 3 2"
| "tok_byte TOK_CONDITIONAL = tok_decl 4 0"
| "tok_byte TOK_CONDITIONAL_SEP = tok_decl 4 1"
| "tok_byte TOK_OR = tok_decl 5 0"
| "tok_byte TOK_AND = tok_decl 6 0"
| "tok_byte TOK_BOR = tok_decl 7 0"
| "tok_byte TOK_BXOR = tok_decl 8 0"
| "tok_byte TOK_BAND = tok_decl 9 0"
| "tok_byte TOK_EQ = tok_decl 10 0"
| "tok_byte TOK_NE = tok_decl 10 1"
| "tok_byte TOK_LT = tok_decl 11 0"
| "tok_byte TOK_GT = tok_decl 11 1"
| "tok_byte TOK_GE = tok_decl 11 2"
| "tok_byte TOK_LE = tok_decl 11 3"
| "tok_byte TOK_LSHIFT = tok_decl 12 0"
| "tok_byte TOK_RSHIFT = tok_decl 12 1"
| "tok_byte TOK_ADD = tok_decl 13 0"
| "tok_byte TOK_SUB = tok_decl 13 1"
| "tok_byte TOK_MUL = tok_decl 14 0"
| "tok_byte TOK_DIV = tok_decl 14 1"
| "tok_byte TOK_REM = tok_decl 14 2"
| "tok_byte TOK_EXPONENT = tok_decl 15 1"
| "tok_byte TOK_BNOT = tok_decl 16 0"
| "tok_byte TOK_NOT = tok_decl 16 1"
| "tok_byte TOK_UMINUS = tok_decl (16 + 1) 0"
| "tok_byte TOK_UPLUS = tok_decl (16 + 1) 1"
| "tok_byte TOK_PRE_INC = tok_decl (16 + 2) 0"
| "tok_byte TOK_PRE_DEC = tok_decl (16 + 2) 1"
| "tok_byte TOK_POST_INC = tok_decl (16 + 3) 0"
| "tok_byte TOK_POST_DEC = tok_decl (16 + 3) 1"
| "tok_byte TOK_NUM = tok_decl (16 + 4) 0"
| "tok_byte TOK_RPAREN = tok_decl (16 + 4) 1"

definition PREC :: "operator \<Rightarrow> nat" where
  "PREC op = unat (tok_byte op AND 0x1F)"

definition UNARYPREC :: nat where "UNARYPREC = 16"
definition PREC_PRE :: nat where "PREC_PRE = UNARYPREC + 2"
definition PREC_POST :: nat where "PREC_POST = UNARYPREC + 3"
definition SPEC_PREC :: nat where "SPEC_PREC = UNARYPREC + 4"

definition fix_assignment_prec :: "nat \<Rightarrow> nat" where
  "fix_assignment_prec prec = (if prec = 3 then 2 else prec)"

definition is_assign_op :: "operator \<Rightarrow> bool" where
  "is_assign_op op \<longleftrightarrow>
     (let prec = fix_assignment_prec (PREC op)
      in prec = PREC TOK_ASSIGN \<or> prec = PREC_PRE \<or> prec = PREC_POST)"

definition is_right_associative :: "nat \<Rightarrow> bool" where
  "is_right_associative prec \<longleftrightarrow>
     prec = PREC TOK_ASSIGN \<or> prec = PREC TOK_EXPONENT \<or> prec = PREC TOK_CONDITIONAL"

definition op_tokens :: "(string \<times> operator) list" where
  "op_tokens = [
     (''<<='', TOK_LSHIFT_ASSIGN), (''>>='', TOK_RSHIFT_ASSIGN),
     (''<<'', TOK_LSHIFT), (''>>'', TOK_RSHIFT), (''||'', TOK_OR), (''&&'', TOK_AND),
     (''!='', TOK_NE), (''<='', TOK_LE), (''>='', TOK_GE), (''=='', TOK_EQ),
     (''|='', TOK_OR_ASSIGN), (''&='', TOK_AND_ASSIGN), (''*='', TOK_MUL_ASSIGN),
     (''/='', TOK_DIV_ASSIGN), (''%='', TOK_REM_ASSIGN), (''+='', TOK_PLUS_ASSIGN),
     (''-='', TOK_MINUS_ASSIGN), (''--'', TOK_POST_DEC), (''^='', TOK_XOR_ASSIGN),
     (''++'', TOK_POST_INC), (''**'', TOK_EXPONENT),
     (''!'', TOK_NOT), (''<'', TOK_LT), (''>'', TOK_GT), (''='', TOK_ASSIGN),
     (''|'', TOK_BOR), (''&'', TOK_BAND), (''*'', TOK_MUL), (''/'', TOK_DIV),
     (''%'', TOK_REM), (''+'', TOK_ADD), (''-'', TOK_SUB), (''^'', TOK_BXOR),
     (''~'', TOK_BNOT), ('','', TOK_COMMA), (''?'', TOK_CONDITIONAL),
     ('':'', TOK_CONDITIONAL_SEP), ('')'', TOK_RPAREN), (''('', TOK_LPAREN)]"

text \<open>Comparing \<open>expr\<close> with one element, character by character.\<close>

fun match_prefix :: "string \<Rightarrow> string \<Rightarrow> string option" where
  "match_prefix [] e = Some e"
| "match_prefix (p # ps) [] = None"
| "match_prefix (p # ps) (c # e) = (if p \<noteq> c then None else match_prefix ps e)"

fun find_op :: "(string \<times> operator) list \<Rightarrow> string \<Rightarrow> (operator \<times> string) option" where
  "find_op [] expr = None"
| "find_op ((s, op) # tab) expr =
     (case match_prefix s expr of Some e \<Rightarrow> Some (op, e) | None \<Rightarrow> find_op tab expr)"

section \<open>Values on the number stack\<close>

record var_or_num =
  val :: i64
  second_val :: i64
  second_val_present :: bool
  var :: "string option"

datatype math_err =
  Arith_syntax | Malformed_cond | Exponent_negative | Divide_by_zero | Recursion_loop | Cpu_trap

text \<open>The messages of the source, and \<open>Cpu_trap\<close> for a division that the processor or the
  C standard does not define.\<close>

text \<open>A result: the store after the side effects, and the error message or a value;
  None when the nesting depth is exhausted.\<close>

type_synonym ('v, 'a) res = "('v \<times> (math_err + 'a)) option"

definition bind_res :: "('v, 'a) res \<Rightarrow> ('v \<Rightarrow> 'a \<Rightarrow> ('v, 'b) res) \<Rightarrow> ('v, 'b) res" where
  "bind_res m f =
     (case m of None \<Rightarrow> None
      | Some (v, Inl e) \<Rightarrow> Some (v, Inl e)
      | Some (v, Inr x) \<Rightarrow> f v x)"

lemma bind_res_simps [simp]:
  "bind_res None f = None" "bind_res (Some (v, Inl e)) f = Some (v, Inl e)"
  "bind_res (Some (v, Inr x)) f = f v x"
  by (simp_all add: bind_res_def)

type_synonym 'v lookup = "'v \<Rightarrow> string \<Rightarrow> string option"
type_synonym 'v setter = "'v \<Rightarrow> string \<Rightarrow> string \<Rightarrow> 'v"
type_synonym 'v nested = "string list \<Rightarrow> 'v \<Rightarrow> string \<Rightarrow> ('v, i64) res"

text \<open>\<open>names\<close> is \<open>list_of_recursed_names\<close>.\<close>

definition arith_lookup_val ::
    "'v lookup \<Rightarrow> 'v nested \<Rightarrow> string list \<Rightarrow> 'v \<Rightarrow> var_or_num \<Rightarrow> ('v, var_or_num) res" where
  "arith_lookup_val lookupvar ev names v t =
     (case var t of
        None \<Rightarrow> Some (v, Inr t)
      | Some name \<Rightarrow>
          (case lookupvar v name of
             Some p \<Rightarrow>
               if name \<in> set names then Some (v, Inl Recursion_loop)
               else bind_res (ev (name # names) v p) (\<lambda>v x. Some (v, Inr (t\<lparr>val := x\<rparr>)))
           | None \<Rightarrow> Some (v, Inr (t\<lparr>val := 0\<rparr>))))"

section \<open>Applying an operator\<close>

text \<open>\<open>while (--right_side_val >= 0) c *= rez\<close>.\<close>

function pow_loop :: "i64 \<Rightarrow> i64 \<Rightarrow> i64 \<Rightarrow> i64" where
  "pow_loop c rez right =
     (if 0 \<le> sint (right - 1) then pow_loop (c * rez) rez (right - 1) else c)"
  by pat_completeness auto
termination
proof (relation "measure (\<lambda>(c, rez, right). unat right)", goal_cases)
  case (2 c rez right)
  then have "right \<noteq> 0" by auto
  then show ?case by (simp add: unat_pred_less)
qed simp

declare pow_loop.simps [simp del]

definition shift_count :: "i64 \<Rightarrow> nat" where
  "shift_count w = unat (w AND 63)"

definition of_flag :: "bool \<Rightarrow> i64" where
  "of_flag b = (if b then 1 else 0)"

text \<open>The C operators \<open>/\<close> and \<open>%\<close> on \<open>long long\<close>: truncating, undefined for a zero divisor
  and for the most negative value over -1.\<close>

definition min_i64 :: i64 where "min_i64 = 2 ^ 63"

definition c_div :: "i64 \<Rightarrow> i64 \<Rightarrow> math_err + i64" where
  "c_div a b = (if b = 0 \<or> a = min_i64 \<and> b = - 1 then Inl Cpu_trap
                else Inr (word_of_int (sint a sdiv sint b)))"

definition c_rem :: "i64 \<Rightarrow> i64 \<Rightarrow> math_err + i64" where
  "c_rem a b = (if b = 0 \<or> a = min_i64 \<and> b = - 1 then Inl Cpu_trap
                else Inr (word_of_int (sint a smod sint b)))"

text \<open>The chain of binary operators other than \<open>?\<close> and \<open>:\<close>: the left value \<open>rez\<close>
  and the right value give the new \<open>rez\<close>.  Every operator the chain does not name first
  runs into the test for a zero divisor.\<close>

fun binary_value :: "operator \<Rightarrow> i64 \<Rightarrow> i64 \<Rightarrow> math_err + i64" where
  "binary_value TOK_BOR rez right = Inr (rez OR right)"
| "binary_value TOK_OR_ASSIGN rez right = Inr (rez OR right)"
| "binary_value TOK_OR rez right = Inr (of_flag (right \<noteq> 0 \<or> rez \<noteq> 0))"
| "binary_value TOK_BAND rez right = Inr (rez AND right)"
| "binary_value TOK_AND_ASSIGN rez right = Inr (rez AND right)"
| "binary_value TOK_BXOR rez right = Inr (rez XOR right)"
| "binary_value TOK_XOR_ASSIGN rez right = Inr (rez XOR right)"
| "binary_value TOK_AND rez right = Inr (of_flag (rez \<noteq> 0 \<and> right \<noteq> 0))"
| "binary_value TOK_EQ rez right = Inr (of_flag (rez = right))"
| "binary_value TOK_NE rez right = Inr (of_flag (rez \<noteq> right))"
| "binary_value TOK_GE rez right = Inr (of_flag (sint rez \<ge> sint right))"
| "binary_value TOK_RSHIFT rez right = Inr (signed_drop_bit (shift_count right) rez)"
| "binary_value TOK_RSHIFT_ASSIGN rez right = Inr (signed_drop_bit (shift_count right) rez)"
| "binary_value TOK_LSHIFT rez right = Inr (push_bit (shift_count right) rez)"
| "binary_value TOK_LSHIFT_ASSIGN rez right = Inr (push_bit (shift_count right) rez)"
| "binary_value TOK_GT rez right = Inr (of_flag (sint rez > sint right))"
| "binary_value TOK_LT rez right = Inr (of_flag (sint rez < sint right))"
| "binary_value TOK_LE rez right = Inr (of_flag (sint rez \<le> sint right))"
| "binary_value TOK_MUL rez right = Inr (rez * right)"
| "binary_value TOK_MUL_ASSIGN rez right = Inr (rez * right)"
| "binary_value TOK_ADD rez right = Inr (rez + right)"
| "binary_value TOK_PLUS_ASSIGN rez right = Inr (rez + right)"
| "binary_value TOK_SUB rez right = Inr (rez - right)"
| "binary_value TOK_MINUS_ASSIGN rez right = Inr (rez - right)"
| "binary_value TOK_ASSIGN rez right = Inr right"
| "binary_value TOK_COMMA rez right = Inr right"
| "binary_value TOK_EXPONENT rez right =
     (if sint right < 0 then Inl Exponent_negative else Inr (pow_loop 1 rez right))"
| "binary_value op rez right =
     (if right = 0 then Inl Divide_by_zero
      else if op \<in> {TOK_DIV, TOK_DIV_ASSIGN, TOK_REM, TOK_REM_ASSIGN} then
        let right = (if right = - 1 \<and> push_bit 1 rez = 0 then 1 else right)
        in if op = TOK_DIV \<or> op = TOK_DIV_ASSIGN
           then c_div rez right else c_rem rez right
      else Inr rez)"

text \<open>\<open>sprintf(buf, "%lld", rez)\<close>.\<close>

function decimal :: "int \<Rightarrow> string" where
  "decimal n =
     (if n < 10 then [char_of (48 + n)] else decimal (n div 10) @ [char_of (48 + n mod 10)])"
  by pat_completeness auto
termination
  by (relation "measure nat") auto

declare decimal.simps [simp del]

definition print_lld :: "i64 \<Rightarrow> string" where
  "print_lld w =
     (if sint w < 0 then CHR ''-'' # decimal (- sint w) else decimal (sint w))"

text \<open>The common tail: store to the variable of an assignment, then leave a plain number.\<close>

definition apply_finish ::
    "'v setter \<Rightarrow> operator \<Rightarrow> 'v \<Rightarrow> var_or_num \<Rightarrow> i64 \<Rightarrow> var_or_num list \<Rightarrow> ('v, var_or_num list) res" where
  "apply_finish setvar op v t rez below =
     (if is_assign_op op then
        (case var t of
           None \<Rightarrow> Some (v, Inl Arith_syntax)
         | Some name \<Rightarrow>
             let v = setvar v name (print_lld rez);
                 rez = (if op = TOK_POST_INC then rez - 1
                        else if op = TOK_POST_DEC then rez + 1 else rez)
             in Some (v, Inr (t\<lparr>val := rez, var := None\<rparr> # below)))
      else Some (v, Inr (t\<lparr>val := rez, var := None\<rparr> # below)))"

text \<open>The operators that work on the top element alone; None for a binary operator.\<close>

fun unary_value :: "operator \<Rightarrow> i64 \<Rightarrow> i64 option" where
  "unary_value TOK_UMINUS rez = Some (- rez)"
| "unary_value TOK_NOT rez = Some (of_flag (rez = 0))"
| "unary_value TOK_BNOT rez = Some (NOT rez)"
| "unary_value TOK_POST_INC rez = Some (rez + 1)"
| "unary_value TOK_PRE_INC rez = Some (rez + 1)"
| "unary_value TOK_POST_DEC rez = Some (rez - 1)"
| "unary_value TOK_PRE_DEC rez = Some (rez - 1)"
| "unary_value TOK_UPLUS rez = Some rez"
| "unary_value _ rez = None"

text \<open>The block of the binary operators: \<open>t\<close> is the popped right side, \<open>l0\<close> the left
  side under it, \<open>below\<close> the rest of the stack.\<close>

definition apply_binary ::
    "'v lookup \<Rightarrow> 'v setter \<Rightarrow> 'v nested \<Rightarrow> string list \<Rightarrow> operator \<Rightarrow> 'v \<Rightarrow> var_or_num \<Rightarrow> var_or_num
      \<Rightarrow> var_or_num list \<Rightarrow> ('v, var_or_num list) res" where
  "apply_binary lookupvar setvar ev names op v t l0 below =
     (let bad_second_val = second_val_present t;
          bad_second_val = (if op = TOK_CONDITIONAL then \<not> bad_second_val else bad_second_val)
      in
      if bad_second_val then Some (v, Inl Malformed_cond)
      else
        bind_res
          (if op \<noteq> TOK_ASSIGN then arith_lookup_val lookupvar ev names v l0
           else Some (v, Inr l0))
          (\<lambda>v l.
            let right = val t; rez = val l in
            if op = TOK_CONDITIONAL then
              apply_finish setvar op v l (if rez \<noteq> 0 then right else second_val t) below
            else if op = TOK_CONDITIONAL_SEP then
              (if below = [] then Some (v, Inl Malformed_cond)
               else apply_finish setvar op v
                 (l\<lparr>second_val_present := True, second_val := right\<rparr>) rez below)
            else
              (case binary_value op rez right of
                 Inl e \<Rightarrow> Some (v, Inl e)
               | Inr rez \<Rightarrow> apply_finish setvar op v l rez below)))"

definition arith_apply ::
    "'v lookup \<Rightarrow> 'v setter \<Rightarrow> 'v nested \<Rightarrow> string list \<Rightarrow> operator \<Rightarrow> 'v \<Rightarrow> var_or_num list
      \<Rightarrow> ('v, var_or_num list) res" where
  "arith_apply lookupvar setvar ev names op v nums =
     (case nums of
        [] \<Rightarrow> Some (v, Inl Arith_syntax)
      | t0 # below \<Rightarrow>
          bind_res (arith_lookup_val lookupvar ev names v t0) (\<lambda>v t.
            case unary_value op (val t) of
              Some rez \<Rightarrow> apply_finish setvar op v t rez below
            | None \<Rightarrow>
                (case below of
                   [] \<Rightarrow> Some (v, Inl Arith_syntax)
                 | l0 # below' \<Rightarrow> apply_binary lookupvar setvar ev names op v t l0 below')))"

section \<open>Numbers\<close>

text \<open>The digits of \<open>N#nnnn\<close>; the \<open>unsigned\<close> differences wrap around.  None: stop here.\<close>

definition base_digit :: "u32 \<Rightarrow> char \<Rightarrow> u32 option" where
  "base_digit base c =
     (let digit = of_char c - 48 :: u32;
          d = (if digit \<ge> 10 \<and> digit \<le> 122 - 48 then
                 let digit = (of_char c OR 0x20) - (97 - 10) in
                 if base > 36 \<and> ascii c \<le> 95 then
                   (if c = CHR ''_'' then Some 63
                    else if c = CHR ''@'' then Some 62
                    else if digit < 36 then Some (digit + 36 - 10)
                    else None)
                 else Some digit
               else Some digit)
      in case d of None \<Rightarrow> None
         | Some digit \<Rightarrow> if digit \<ge> base then None else Some digit)"

fun base_loop :: "u32 \<Rightarrow> i64 \<Rightarrow> string \<Rightarrow> i64 \<times> string" where
  "base_loop base n [] = (n, [])"
| "base_loop base n (c # s) =
     (case base_digit base c of
        None \<Rightarrow> (n, c # s)
      | Some digit \<Rightarrow> base_loop base (n * ucast base + ucast digit) s)"

text \<open>The value, errno (set by \<open>strtoull\<close> only) and \<open>*endptr\<close>.\<close>

definition strto_arith_t :: "string \<Rightarrow> i64 \<times> bool \<times> string" where
  "strto_arith_t nptr =
     (let (n, err, endp) = strtoull nptr 0 in
      if cur endp \<noteq> CHR ''#'' \<or> ascii (cur nptr) < 49 \<or> ascii (cur nptr) > 57
         \<or> sint n < 2 \<or> sint n > 64
      then (n, err, endp)
      else
        let (m, rest) = base_loop (ucast n) 0 (tl endp) in (m, err, rest))"

section \<open>The evaluation loop\<close>

record 'v math_state =
  expr :: string
  closing :: bool
  lasttok :: operator
  numstack :: "var_or_num list"
  opstack :: "operator list"
  store :: 'v

datatype 'v outcome = Running "'v math_state" | Finished 'v "math_err + i64"

text \<open>\<open>while (stackptr != stack)\<close>: apply what the new operator lets through.  The result
  is the two stacks and whether a right parenthesis met its partner.\<close>

fun reduce_loop ::
    "('v \<Rightarrow> operator \<Rightarrow> var_or_num list \<Rightarrow> ('v, var_or_num list) res) \<Rightarrow> operator \<Rightarrow> nat \<Rightarrow> 'v
      \<Rightarrow> var_or_num list \<Rightarrow> operator list \<Rightarrow> ('v, var_or_num list \<times> operator list \<times> bool) res" where
  "reduce_loop apply_op op prec v nums [] = Some (v, Inr (nums, [], False))"
| "reduce_loop apply_op op prec v nums (prev_op # ops) =
     (if op = TOK_RPAREN then
        if prev_op = TOK_LPAREN then Some (v, Inr (nums, ops, True))
        else bind_res (apply_op v prev_op nums) (\<lambda>v nums. reduce_loop apply_op op prec v nums ops)
      else
        let prec = fix_assignment_prec prec; prev_prec = fix_assignment_prec (PREC prev_op) in
        if prev_prec < prec \<or> (prev_prec = prec \<and> is_right_associative prec)
        then Some (v, Inr (nums, prev_op # ops, False))
        else bind_res (apply_op v prev_op nums) (\<lambda>v nums. reduce_loop apply_op op prec v nums ops))"

definition is_nonprefix :: "operator \<Rightarrow> bool" where
  "is_nonprefix op \<longleftrightarrow> (PREC op > 0 \<and> PREC op < UNARYPREC) \<or> PREC op = SPEC_PREC"

definition unary_variant :: "operator \<Rightarrow> operator" where
  "unary_variant op =
     (case op of TOK_ADD \<Rightarrow> TOK_UPLUS | TOK_SUB \<Rightarrow> TOK_UMINUS
      | TOK_POST_INC \<Rightarrow> TOK_PRE_INC | TOK_POST_DEC \<Rightarrow> TOK_PRE_DEC | _ \<Rightarrow> op)"

text \<open>From the label \<open>tok_found1\<close> to \<open>next\<close>; \<open>rest\<close> is the input past the operator.\<close>

definition operator_step ::
    "'v lookup \<Rightarrow> 'v setter \<Rightarrow> 'v nested \<Rightarrow> string list \<Rightarrow> operator \<Rightarrow> string \<Rightarrow> 'v math_state
      \<Rightarrow> 'v outcome option" where
  "operator_step lookupvar setvar ev names op rest st =
     (let last = (if lasttok st = TOK_POST_INC \<or> lasttok st = TOK_POST_DEC then TOK_NUM
                  else lasttok st);
          op = (if last \<noteq> TOK_NUM then unary_variant op else op);
          prec = PREC op
      in
      if is_nonprefix op then
        if last \<noteq> TOK_NUM then Some (Finished (store st) (Inl Arith_syntax))
        else
          (case reduce_loop (\<lambda>v op nums. arith_apply lookupvar setvar ev names op v nums)
                  op prec (store st) (numstack st) (opstack st) of
             None \<Rightarrow> None
           | Some (v, Inl e) \<Rightarrow> Some (Finished v (Inl e))
           | Some (v, Inr (ns, os, matched)) \<Rightarrow>
               if matched then
                 Some (Running (st\<lparr>expr := rest, lasttok := TOK_NUM, numstack := ns, opstack := os, store := v\<rparr>))
               else if op = TOK_RPAREN then Some (Finished v (Inl Arith_syntax))
               else
                 Some (Running (st\<lparr>expr := rest, lasttok := op, numstack := ns, opstack := op # os, store := v\<rparr>)))
      else Some (Running (st\<lparr>expr := rest, lasttok := op, opstack := op # opstack st\<rparr>)))"

definition new_name :: "string \<Rightarrow> var_or_num" where
  "new_name nm = \<lparr>val = 0, second_val = 0, second_val_present = False, var = Some nm\<rparr>"

definition new_number :: "i64 \<Rightarrow> var_or_num" where
  "new_number n = \<lparr>val = n, second_val = 0, second_val_present = False, var = None\<rparr>"

definition push_num :: "var_or_num \<Rightarrow> string \<Rightarrow> 'v math_state \<Rightarrow> 'v outcome option" where
  "push_num t rest st = Some (Running (st\<lparr>expr := rest, lasttok := TOK_NUM, numstack := t # numstack st\<rparr>))"

text \<open>One turn of \<open>while (1)\<close>.  \<open>closing\<close> says that \<open>expr\<close> points into
  \<open>ptr_to_rparen\<close>; \<open>start\<close> is \<open>start_expr\<close>, which only the empty input still equals
  at its end.\<close>

definition math_step ::
    "'v lookup \<Rightarrow> 'v setter \<Rightarrow> 'v nested \<Rightarrow> string list \<Rightarrow> string \<Rightarrow> 'v math_state \<Rightarrow> 'v outcome option" where
  "math_step lookupvar setvar ev names start st =
     (let e = skip_whitespace (expr st) in
      case e of
        [] \<Rightarrow>
          if start = [] then Some (Finished (store st) (Inr 0))
          else if \<not> closing st then Some (Running (st\<lparr>expr := '')'', closing := True\<rparr>))
          else
            (case numstack st of
               [t] \<Rightarrow>
                 (case arith_lookup_val lookupvar ev names (store st) t of
                    None \<Rightarrow> None
                  | Some (v, Inl err) \<Rightarrow> Some (Finished v (Inl err))
                  | Some (v, Inr t) \<Rightarrow> Some (Finished v (Inr (val t))))
             | _ \<Rightarrow> Some (Finished (store st) (Inl Arith_syntax)))
      | c # e' \<Rightarrow>
          let p = endofname e in
          if p \<noteq> e then
            push_num (new_name (safe_strncpy e (length e - length p + 1))) p st
          else if c_isdigit c then
            (let (n, err, endp) = strto_arith_t e
             in push_num (new_number (if err then 0 else n)) endp st)
          else if lasttok st = TOK_NUM \<and> numstack st \<noteq> [] \<and> var (hd (numstack st)) = None
              \<and> (c = CHR ''+'' \<or> c = CHR ''-'') \<and> cur e' = c then
            operator_step lookupvar setvar ev names
              (if c = CHR ''+'' then TOK_ADD else TOK_SUB) e' st
          else
            (case find_op op_tokens e of
               None \<Rightarrow> Some (Finished (store st) (Inl Arith_syntax))
             | Some (op, rest) \<Rightarrow> operator_step lookupvar setvar ev names op rest st))"

definition math_measure :: "'v math_state \<Rightarrow> nat" where
  "math_measure st = length (expr st) + (if closing st then 0 else 2)"

lemma base_loop_length: "length (snd (base_loop base n s)) \<le> length s"
  by (induction base n s rule: base_loop.induct) (auto split: option.split)

lemma strto_arith_t_progress:
  "c_isdigit c \<Longrightarrow> length (snd (snd (strto_arith_t (c # s)))) < length (c # s)"
proof -
  assume "c_isdigit c"
  note lt = strtoull_progress [OF this, of s]
  obtain n err endp where st: "strtoull (c # s) 0 = (n, err, endp)" by (metis prod_cases3)
  obtain m rest where b: "base_loop (ucast n) 0 (tl endp) = (m, rest)" by force
  have "length rest \<le> length endp"
    using base_loop_length [of "ucast n" 0 "tl endp"] b by simp
  then show ?thesis using lt by (simp add: strto_arith_t_def st b)
qed

lemma match_prefix_length: "match_prefix p e = Some r \<Longrightarrow> length e = length p + length r"
  by (induction p e rule: match_prefix.induct) (auto split: if_splits)

lemma find_op_length:
  "find_op tab e = Some (op, r) \<Longrightarrow> \<forall>(s, _) \<in> set tab. s \<noteq> [] \<Longrightarrow> length r < length e"
  by (induction tab e rule: find_op.induct)
    (auto split: option.splits dest!: match_prefix_length)

lemma op_tokens_nonempty: "\<forall>(s, _) \<in> set op_tokens. s \<noteq> []"
  by (simp add: op_tokens_def)

lemma operator_step_expr:
  "operator_step lk sv ev names op rest st = Some (Running st') \<Longrightarrow>
     expr st' = rest \<and> closing st' = closing st"
  by (auto simp: operator_step_def Let_def split: if_splits option.splits prod.splits sum.splits)

lemma math_step_decreases:
  assumes "math_step lk sv ev names start st = Some (Running st')"
  shows "math_measure st' < math_measure st"
proof -
  let ?e = "skip_whitespace (expr st)"
  have le: "length ?e \<le> length (expr st)" by simp
  show ?thesis
  proof (cases ?e)
    case Nil
    with assms show ?thesis
      by (auto simp: math_step_def math_measure_def split: if_splits list.splits option.splits
          prod.splits sum.splits)
  next
    case (Cons c e')
    have "length (expr st') < length ?e \<and> closing st' = closing st"
    proof -
      have op: "length (expr st') < length ?e \<and> closing st' = closing st"
        if "operator_step lk sv ev names op rest st = Some (Running st')" "length rest < length ?e"
        for op rest
        using operator_step_expr [OF that(1)] that(2) by simp
      have name: "endofname (c # e') \<noteq> c # e' \<Longrightarrow> length (endofname (c # e')) < length (c # e')"
        by (rule endofname_progress)
      have num: "c_isdigit c \<Longrightarrow> length (snd (snd (strto_arith_t (c # e')))) < length (c # e')"
        by (rule strto_arith_t_progress)
      show ?thesis
        using assms Cons op name num
        by (auto simp: math_step_def Let_def push_num_def split: if_splits option.splits prod.splits
            dest!: find_op_length [OF _ op_tokens_nonempty])
    qed
    with le show ?thesis by (auto simp: math_measure_def intro: less_le_trans)
  qed
qed

function math_loop ::
    "'v lookup \<Rightarrow> 'v setter \<Rightarrow> 'v nested \<Rightarrow> string list \<Rightarrow> string \<Rightarrow> 'v math_state \<Rightarrow> ('v, i64) res" where
  "math_loop lookupvar setvar ev names start st =
     (case math_step lookupvar setvar ev names start st of
        None \<Rightarrow> None
      | Some (Finished v r) \<Rightarrow> Some (v, r)
      | Some (Running st') \<Rightarrow> math_loop lookupvar setvar ev names start st')"
  by pat_completeness auto
termination
  by (relation "measure (\<lambda>(lk, sv, ev, names, start, st). math_measure st)")
    (auto intro: math_step_decreases)

declare math_loop.simps [simp del]

definition initial_state :: "string \<Rightarrow> 'v \<Rightarrow> 'v math_state" where
  "initial_state start v =
     \<lparr>expr = start, closing = False, lasttok = TOK_LPAREN, numstack = [],
      opstack = [TOK_LPAREN], store = v\<rparr>"

text \<open>\<open>depth\<close> bounds the nesting of variable values that are evaluated in turn.\<close>

fun evaluate_string ::
    "'v lookup \<Rightarrow> 'v setter \<Rightarrow> nat \<Rightarrow> string list \<Rightarrow> 'v \<Rightarrow> string \<Rightarrow> ('v, i64) res" where
  "evaluate_string lookupvar setvar 0 names v e = None"
| "evaluate_string lookupvar setvar (Suc depth) names v e =
     (let start = skip_whitespace e
      in math_loop lookupvar setvar (evaluate_string lookupvar setvar depth) names start
           (initial_state start v))"

definition arith :: "'v lookup \<Rightarrow> 'v setter \<Rightarrow> nat \<Rightarrow> 'v \<Rightarrow> string \<Rightarrow> ('v, i64) res" where
  "arith lookupvar setvar depth v e = evaluate_string lookupvar setvar depth [] v e"

end
