(* ===== verification/ShellMathProps.thy ===== *)
theory ShellMathProps imports ShellMath begin

text \<open>
  What shell arithmetic guarantees: the bounds of its two stacks (and where the bound the
  source claims for the number stack fails), the arithmetic of the operators on 64-bit
  values, that evaluation ends, and that the operator-precedence loop computes the value
  of the expression.
\<close>

section \<open>Precedences\<close>

lemma PREC_simps [simp]:
  "PREC TOK_LPAREN = 0" "PREC TOK_COMMA = 1" "PREC TOK_ASSIGN = 2" "PREC TOK_AND_ASSIGN = 2"
  "PREC TOK_OR_ASSIGN = 2" "PREC TOK_XOR_ASSIGN = 2" "PREC TOK_PLUS_ASSIGN = 2"
  "PREC TOK_MINUS_ASSIGN = 2" "PREC TOK_LSHIFT_ASSIGN = 2" "PREC TOK_RSHIFT_ASSIGN = 2"
  "PREC TOK_MUL_ASSIGN = 3" "PREC TOK_DIV_ASSIGN = 3" "PREC TOK_REM_ASSIGN = 3"
  "PREC TOK_CONDITIONAL = 4" "PREC TOK_CONDITIONAL_SEP = 4" "PREC TOK_OR = 5" "PREC TOK_AND = 6"
  "PREC TOK_BOR = 7" "PREC TOK_BXOR = 8" "PREC TOK_BAND = 9" "PREC TOK_EQ = 10" "PREC TOK_NE = 10"
  "PREC TOK_LT = 11" "PREC TOK_GT = 11" "PREC TOK_GE = 11" "PREC TOK_LE = 11"
  "PREC TOK_LSHIFT = 12" "PREC TOK_RSHIFT = 12" "PREC TOK_ADD = 13" "PREC TOK_SUB = 13"
  "PREC TOK_MUL = 14" "PREC TOK_DIV = 14" "PREC TOK_REM = 14" "PREC TOK_EXPONENT = 15"
  "PREC TOK_BNOT = 16" "PREC TOK_NOT = 16" "PREC TOK_UMINUS = 17" "PREC TOK_UPLUS = 17"
  "PREC TOK_PRE_INC = 18" "PREC TOK_PRE_DEC = 18" "PREC TOK_POST_INC = 19" "PREC TOK_POST_DEC = 19"
  "PREC TOK_NUM = 20" "PREC TOK_RPAREN = 20"
  by (simp_all add: PREC_def tok_decl_def)

lemmas prec_defs [simp] = UNARYPREC_def PREC_PRE_def PREC_POST_def SPEC_PREC_def

lemma tok_byte_inj: "inj tok_byte"
proof
  fix a b
  show "tok_byte a = tok_byte b \<Longrightarrow> a = b"
    by (cases a; cases b) (simp_all add: tok_decl_def)
qed

section \<open>Stack heights\<close>

inductive math_reach ::
    "'v lookup \<Rightarrow> 'v setter \<Rightarrow> 'v nested \<Rightarrow> string list \<Rightarrow> string \<Rightarrow> 'v math_state \<Rightarrow> 'v math_state \<Rightarrow> bool"
  for lk sv ev names start where
  reach_refl: "math_reach lk sv ev names start st st"
| reach_step: "math_reach lk sv ev names start st st' \<Longrightarrow>
    math_step lk sv ev names start st' = Some (Running st'') \<Longrightarrow>
    math_reach lk sv ev names start st st''"

lemma apply_finish_length:
  "apply_finish sv op v t rez below = Some (v', Inr ns) \<Longrightarrow> length ns = Suc (length below)"
  by (auto simp: apply_finish_def Let_def split: if_splits option.splits)

lemma bind_res_Some:
  "bind_res m f = Some (v, Inr y) \<longleftrightarrow> (\<exists>v' x. m = Some (v', Inr x) \<and> f v' x = Some (v, Inr y))"
  by (auto simp: bind_res_def split: option.splits sum.splits prod.splits)

lemma apply_binary_length:
  "apply_binary lk sv ev names op v t l0 below = Some (v', Inr ns) \<Longrightarrow>
     length ns = Suc (length below)"
  by (auto simp: apply_binary_def bind_res_Some Let_def split: if_splits sum.splits
      dest!: apply_finish_length)

lemma arith_apply_length:
  "arith_apply lk sv ev names op v nums = Some (v', Inr ns) \<Longrightarrow> length ns \<le> length nums"
  by (cases nums; cases "tl nums")
    (auto simp: arith_apply_def bind_res_Some split: list.splits option.splits
      dest!: apply_finish_length apply_binary_length)

text \<open>The two ways a turn of the reduction loop can go on.\<close>

lemma reduce_loop_cases:
  assumes "reduce_loop f op prec v ns (p # os) = Some (v', Inr (ns', os', m))"
  obtains (stop) "ns' = ns" "os' = p # os" "\<not> m" "v' = v"
  | (matched) "op = TOK_RPAREN" "p = TOK_LPAREN" "ns' = ns" "os' = os" "m" "v' = v"
  | (apply_op) v1 ns1 prec' where "f v p ns = Some (v1, Inr ns1)"
      "reduce_loop f op prec' v1 ns1 os = Some (v', Inr (ns', os', m))"
  using assms by (auto simp: Let_def bind_res_Some split: if_splits)

lemma reduce_loop_length:
  assumes "\<And>v op ns v' ns'. f v op ns = Some (v', Inr ns') \<Longrightarrow> length ns' \<le> length ns"
  shows "reduce_loop f op prec v ns os = Some (v', Inr (ns', os', m)) \<Longrightarrow>
    length ns' \<le> length ns \<and> length os' \<le> length os \<and> (m \<longrightarrow> length os' < length os)"
proof (induction os arbitrary: prec v ns)
  case (Cons p os)
  from Cons.prems show ?case
  proof (cases rule: reduce_loop_cases)
    case (apply_op v1 ns1 prec')
    then show ?thesis using assms [of v p ns v1 ns1] Cons.IH [of prec' v1 ns1] by auto
  qed auto
qed auto

definition stacks_inv :: "string \<Rightarrow> 'v math_state \<Rightarrow> bool" where
  "stacks_inv start st \<longleftrightarrow>
     (if closing st then
        expr st \<in> {'')'', []} \<and> length (opstack st) \<le> length start + 1
        \<and> length (numstack st) \<le> length start
      else length (opstack st) + length (expr st) \<le> length start + 1
        \<and> length (numstack st) + length (expr st) \<le> length start)"

lemma operator_step_lengths:
  assumes "operator_step lk sv ev names op rest st = Some (Running st')"
  shows "length (numstack st') \<le> length (numstack st) \<and>
    length (opstack st') \<le> Suc (length (opstack st)) \<and>
    (op = TOK_RPAREN \<longrightarrow> length (opstack st') < length (opstack st)) \<and>
    expr st' = rest \<and> closing st' = closing st"
proof -
  let ?f = "\<lambda>v op nums. arith_apply lk sv ev names op v nums"
  have red: "length ns' \<le> length (numstack st) \<and> length os' \<le> length (opstack st)
      \<and> (m \<longrightarrow> length os' < length (opstack st))"
    if "reduce_loop ?f op' prec (store st) (numstack st) (opstack st) = Some (v', Inr (ns', os', m))"
    for op' prec v' ns' os' m
    using reduce_loop_length [OF arith_apply_length that] .
  have rp: "unary_variant TOK_RPAREN = TOK_RPAREN" "is_nonprefix TOK_RPAREN"
    by (simp_all add: unary_variant_def is_nonprefix_def)
  show ?thesis
    using assms rp
    by (auto simp: operator_step_def Let_def split: if_splits option.splits prod.splits sum.splits
        dest!: red intro: le_SucI)
qed

text \<open>The ways one turn of the main loop can go on.\<close>

lemma math_step_cases:
  assumes "math_step lk sv ev names start st = Some (Running st')"
  obtains (close) "skip_whitespace (expr st) = []" "\<not> closing st" "start \<noteq> []"
      "st' = st\<lparr>expr := '')'', closing := True\<rparr>"
  | (push) c e' t rest where "skip_whitespace (expr st) = c # e'" "is_name c \<or> c_isdigit c"
      "length rest < length (c # e')"
      "st' = st\<lparr>expr := rest, lasttok := TOK_NUM, numstack := t # numstack st\<rparr>"
  | (operator) op rest where "operator_step lk sv ev names op rest st = Some (Running st')"
      "length rest < length (skip_whitespace (expr st))"
      "find_op op_tokens (skip_whitespace (expr st)) = Some (op, rest) \<or>
       cur (skip_whitespace (expr st)) \<in> {CHR ''+'', CHR ''-''}"
proof (cases "skip_whitespace (expr st)")
  case Nil
  with assms that(1) show ?thesis
    by (auto simp: math_step_def split: if_splits list.splits option.splits prod.splits sum.splits)
next
  case (Cons c e')
  have nm: "endofname (c # e') \<noteq> c # e' \<Longrightarrow> is_name c"
    by (auto simp: endofname_def split: if_splits)
  consider (nm) "endofname (c # e') \<noteq> c # e'"
    | (dig) "endofname (c # e') = c # e'" "c_isdigit c"
    | (op) "endofname (c # e') = c # e'" "\<not> c_isdigit c" by blast
  then show ?thesis
  proof cases
    case nm
    with assms Cons that(2) [OF Cons _ endofname_progress [OF nm]] \<open>_ \<Longrightarrow> is_name c\<close> show ?thesis
      by (auto simp: math_step_def Let_def push_num_def)
  next
    case dig
    with assms Cons that(2) [OF Cons _ strto_arith_t_progress [OF dig(2), of e']] show ?thesis
      by (auto simp: math_step_def Let_def push_num_def split: prod.splits)
  next
    case op
    with assms Cons that(3) show ?thesis
      by (auto simp: math_step_def Let_def split: option.splits prod.splits if_splits
          dest: find_op_length [OF _ op_tokens_nonempty])
  qed
qed

lemma find_op_rparen: "find_op op_tokens '')'' = Some (TOK_RPAREN, [])"
  by (simp add: op_tokens_def)

lemma not_space_rparen [simp]: "\<not> c_space (CHR '')'')"
  by (simp add: c_space_def code_def)

lemma not_name_rparen: "\<not> is_name (CHR '')'')" "\<not> c_isdigit (CHR '')'')"
  by (simp_all add: is_name_def c_isalpha_def c_isdigit_def code_def)

lemma stacks_inv_step:
  assumes "stacks_inv start st" and "math_step lk sv ev names start st = Some (Running st')"
  shows "stacks_inv start st'"
  using assms(2)
proof (cases rule: math_step_cases)
  case close
  with assms(1) show ?thesis by (auto simp: stacks_inv_def)
next
  case (push c e' t rest)
  have "length (c # e') \<le> length (expr st)"
    using push(1) by (metis skip_whitespace_length)
  moreover have "\<not> closing st"
    using push(1,2) assms(1) by (auto simp: stacks_inv_def not_name_rparen)
  ultimately show ?thesis using push assms(1) by (auto simp: stacks_inv_def)
next
  case (operator op rest)
  note len = operator_step_lengths [OF operator(1)]
  have "length (skip_whitespace (expr st)) \<le> length (expr st)" by simp
  with operator(2) have rest: "length rest < length (expr st)" by (rule less_le_trans)
  show ?thesis
  proof (cases "closing st")
    case True
    with assms(1) rest have "expr st = '')''" by (auto simp: stacks_inv_def)
    with operator(3) have "op = TOK_RPAREN" "rest = []"
      by (auto simp: find_op_rparen)
    with True len assms(1) show ?thesis by (auto simp: stacks_inv_def)
  next
    case False
    with len rest assms(1) show ?thesis by (auto simp: stacks_inv_def)
  qed
qed

lemma stacks_inv_reach:
  "math_reach lk sv ev names start st st' \<Longrightarrow> stacks_inv start st \<Longrightarrow> stacks_inv start st'"
  by (induction rule: math_reach.induct) (auto intro: stacks_inv_step)

text \<open>C31: the operator stack never outgrows its allocation.  Whatever the input, every state
  the loop reaches keeps at most \<open>strlen + 1\<close> operators, within the \<open>expr_len = strlen + 2\<close>
  bytes allocated for them, and at most \<open>strlen\<close> numbers.\<close>

theorem arith_stack_bounds:
  assumes "math_reach lk sv ev names start (initial_state start v) st"
  shows "length (opstack st) < length start + 2 \<and> length (numstack st) \<le> length start"
proof -
  have "stacks_inv start (initial_state start v)"
    by (simp add: stacks_inv_def initial_state_def)
  from stacks_inv_reach [OF assms this] show ?thesis
    by (auto simp: stacks_inv_def split: if_splits)
qed

lemma arith_stack_bounds_witness:
  "length (opstack (initial_state ''1+2'' ())) < 5 \<and> length (numstack (initial_state ''1+2'' ())) \<le> 3"
  using arith_stack_bounds [OF reach_refl [of "\<lambda>v nm. None" "\<lambda>v nm x. v" "\<lambda>ns v e. None" "[]" "''1+2''"
      "initial_state ''1+2'' ()"]] by simp

text \<open>The comment in \<open>evaluate_string\<close> leaves "the proof that there can be no more than
  strlen(startbuf)/2+1 integers" to the reader.  Numbers need no separator: \<open>08a\<close> reads as
  the octal number 0, the number 8 and the name a.\<close>

lemma scan_08a:
  "skip_whitespace ''08a'' = ''08a''" "endofname ''08a'' = ''08a''"
  "c_isdigit (CHR ''0'')" "strto_arith_t ''08a'' = (0, False, ''8a'')"
  "skip_whitespace ''8a'' = ''8a''" "endofname ''8a'' = ''8a''"
  "c_isdigit (CHR ''8'')" "strto_arith_t ''8a'' = (8, False, ''a'')"
  "skip_whitespace ''a'' = ''a''" "endofname ''a'' = ''''"
  by code_simp+

text \<open>C32: the allocation of the number stack is too small.  The three characters \<open>08a\<close> put
  three entries on the stack, whose array was allocated for \<open>(strlen + 2) / 2 = 2\<close>: the third
  is written past the end.\<close>

theorem arith_numstack_overflow:
  "\<exists>st. math_reach lk sv ev names ''08a'' (initial_state ''08a'' v) st \<and>
     length (numstack st) > (length ''08a'' + 2) div 2"
proof -
  let ?s0 = "initial_state ''08a'' v"
  let ?s1 = "?s0\<lparr>expr := ''8a'', lasttok := TOK_NUM, numstack := [new_number 0]\<rparr>"
  let ?s2 = "?s1\<lparr>expr := ''a'', numstack := [new_number 8, new_number 0]\<rparr>"
  let ?s3 = "?s2\<lparr>expr := '''', numstack := [new_name ''a'', new_number 8, new_number 0]\<rparr>"
  have "math_step lk sv ev names ''08a'' ?s0 = Some (Running ?s1)"
    "math_step lk sv ev names ''08a'' ?s1 = Some (Running ?s2)"
    "math_step lk sv ev names ''08a'' ?s2 = Some (Running ?s3)"
    by (simp_all add: math_step_def initial_state_def scan_08a push_num_def safe_strncpy_def
        del: skip_whitespace.simps)
  then have "math_reach lk sv ev names ''08a'' ?s0 ?s3"
    by (blast intro: math_reach.intros)
  then show ?thesis by (intro exI [of _ ?s3]) simp
qed

section \<open>Operators on 64-bit values\<close>

lemma bit_min_i64: "n < 64 \<Longrightarrow> bit min_i64 n \<longleftrightarrow> n = 63"
  unfolding min_i64_def by (auto simp only: bit_exp_iff) simp

lemma sint_nonneg_iff: "0 \<le> sint (b :: i64) \<longleftrightarrow> unat b < 2 ^ 63"
proof -
  have top_bit: "i = 63" if "63 \<le> i" "bit b i" for i
    using bit_imp_le_length [OF that(2)] that(1) by simp
  have "0 \<le> sint b \<longleftrightarrow> \<not> bit b 63" using bit_last_iff [of b] by auto
  also have "\<dots> \<longleftrightarrow> (\<forall>i\<ge>63. \<not> bit b i)"
    using top_bit by auto
  also have "\<dots> \<longleftrightarrow> b < 2 ^ 63" by (rule less_exp_iff_bits [symmetric]) simp
  also have "\<dots> \<longleftrightarrow> unat b < 2 ^ 63" by (rule less_exp_unat) simp
  finally show ?thesis .
qed

lemma shl_zero: "push_bit 1 (a :: i64) = 0 \<longleftrightarrow> a = 0 \<or> a = min_i64"
proof
  assume z: "push_bit 1 a = 0"
  have low: "\<not> bit a i" if "i < 63" for i
  proof -
    have "\<not> bit (push_bit 1 a) (Suc i)" by (simp only: z bit_0_eq) simp
    then show ?thesis using that by (simp add: bit_push_bit_iff del: push_bit_Suc One_nat_def)
  qed
  have "a = (if bit a 63 then min_i64 else 0)"
  proof (rule bit_word_eqI)
    fix n assume "n < LENGTH(64)"
    then have "n < 63 \<or> n = 63" by auto
    then show "bit a n \<longleftrightarrow> bit (if bit a 63 then min_i64 else 0) n"
      using low by (auto simp: bit_min_i64)
  qed
  then show "a = 0 \<or> a = min_i64" by (cases "bit a 63") auto
qed (auto simp: min_i64_def)

lemma sint_min_i64: "sint min_i64 = - (2 ^ 63)"
  by (simp add: min_i64_def)

lemma divide_by_one:
  "word_of_int (sint (a :: i64) sdiv 1) = a" "word_of_int (sint (a :: i64) smod 1) = (0 :: i64)"
  by (simp_all add: smod_int_alt_def)

lemma division_value:
  "binary_value TOK_DIV a b =
     (if b = 0 then Inl Divide_by_zero else Inr (word_of_int (sint a sdiv sint b))) \<and>
   binary_value TOK_REM a b =
     (if b = 0 then Inl Divide_by_zero else Inr (word_of_int (sint a smod sint b)))"
proof (cases "b = - 1 \<and> (a = 0 \<or> a = min_i64)")
  case True
  have "word_of_int (sint min_i64 sdiv (- 1)) = min_i64" "sint min_i64 smod (- 1) = 0"
    by (simp_all add: sint_min_i64 smod_int_alt_def) (simp add: min_i64_def)
  with True show ?thesis
    by (auto simp: shl_zero c_div_def c_rem_def divide_by_one Let_def smod_int_alt_def
        simp del: push_bit_Suc One_nat_def)
next
  case False
  then show ?thesis
    by (auto simp: shl_zero c_div_def c_rem_def Let_def simp del: push_bit_Suc One_nat_def)
qed

text \<open>C33: division never traps.  For every dividend and divisor, \<open>/\<close> and \<open>%\<close> report a zero
  divisor and otherwise give the truncated quotient or remainder, wrapped to 64 bits: the
  guard for -1 turns the one overflowing division into the right answer.\<close>

theorem arith_division_defined:
  "binary_value TOK_DIV a b =
     (if b = 0 then Inl Divide_by_zero else Inr (word_of_int (sint a sdiv sint b))) \<and>
   binary_value TOK_REM a b =
     (if b = 0 then Inl Divide_by_zero else Inr (word_of_int (sint a smod sint b)))"
  by (rule division_value)

lemma pow_loop_eq: "0 \<le> sint b \<Longrightarrow> pow_loop c a b = c * a ^ unat b"
proof (induction c a b rule: pow_loop.induct)
  case (1 c a b)
  show ?case
  proof (cases "b = 0")
    case True
    then show ?thesis by (simp add: pow_loop.simps)
  next
    case False
    then have u: "unat b = Suc (unat (b - 1))" by (simp add: unat_minus_one unat_gt_0)
    with 1(2) have "0 \<le> sint (b - 1)" by (simp add: sint_nonneg_iff)
    with 1(1) u show ?thesis
      by (subst pow_loop.simps) (simp add: mult.assoc)
  qed
qed

text \<open>Exponentiation is the repeated product modulo \<open>2^64\<close>, for every base and every
  non-negative exponent, and a negative exponent is an error.\<close>

theorem arith_exponent:
  "binary_value TOK_EXPONENT a b =
     (if sint b < 0 then Inl Exponent_negative else Inr (a ^ unat b))"
  by (simp add: pow_loop_eq)

end
