(* ===== verification/ShellMathExpr.thy ===== *)
theory ShellMathExpr imports ShellMathProps begin

text \<open>
  The operator-precedence loop of \<open>evaluate_string\<close> computes expressions.  First over trees of
  the program's own operators: \<open>veval\<close> is a tree's left-to-right value, \<open>show_body\<close> writes
  it as text with parentheses only where precedence and associativity ask for them, and the
  main lemma follows one subexpression through the machine with an arbitrary operator
  stack below it: the operators it leaves on the stack, applied in turn, give its value.
  Then over the specification: C expressions with their own table of symbols, levels and
  associativity and with values on mathematical integers, to which the program's operators are
  compared one by one.
\<close>

section \<open>Expressions, their values and their text\<close>

datatype aexp = Lit int | Unop operator aexp | Binop operator aexp aexp

definition unary_ops :: "operator list" where
  "unary_ops = [TOK_UMINUS, TOK_UPLUS, TOK_NOT, TOK_BNOT]"

definition binary_ops :: "operator list" where
  "binary_ops = [TOK_COMMA, TOK_OR, TOK_AND, TOK_BOR, TOK_BXOR, TOK_BAND, TOK_EQ, TOK_NE,
     TOK_LT, TOK_GT, TOK_GE, TOK_LE, TOK_LSHIFT, TOK_RSHIFT, TOK_ADD, TOK_SUB, TOK_MUL, TOK_DIV,
     TOK_REM, TOK_EXPONENT]"

fun wf_expr :: "aexp \<Rightarrow> bool" where
  "wf_expr (Lit n) \<longleftrightarrow> 0 \<le> n \<and> n < 2 ^ 63"
| "wf_expr (Unop u e) \<longleftrightarrow> u \<in> set unary_ops \<and> wf_expr e"
| "wf_expr (Binop op a b) \<longleftrightarrow> op \<in> set binary_ops \<and> wf_expr a \<and> wf_expr b"

fun veval :: "aexp \<Rightarrow> math_err + i64" where
  "veval (Lit n) = Inr (word_of_int n)"
| "veval (Unop u e) =
     (case veval e of Inl err \<Rightarrow> Inl err | Inr x \<Rightarrow> Inr (the (unary_value u x)))"
| "veval (Binop op a b) =
     (case veval a of Inl err \<Rightarrow> Inl err
      | Inr x \<Rightarrow> (case veval b of Inl err \<Rightarrow> Inl err | Inr y \<Rightarrow> binary_value op x y))"

definition op_text :: "operator \<Rightarrow> string" where
  "op_text op =
     (if op = TOK_UMINUS then ''-'' else if op = TOK_UPLUS then ''+''
      else fst (hd (filter (\<lambda>(s, tok). tok = op) op_tokens)))"

fun level :: "aexp \<Rightarrow> nat" where
  "level (Lit n) = 20"
| "level (Unop u e) = 16"
| "level (Binop op a b) = PREC op"

definition left_level :: "operator \<Rightarrow> nat" where
  "left_level op = (if op = TOK_EXPONENT then 16 else PREC op)"

definition right_level :: "operator \<Rightarrow> nat" where
  "right_level op = (if op = TOK_EXPONENT then 15 else PREC op + 1)"

definition parens :: "bool \<Rightarrow> string \<Rightarrow> string" where
  "parens p s = (if p then '' ('' @ s @ '' )'' else s)"

fun show_body :: "aexp \<Rightarrow> string" where
  "show_body (Lit n) = CHR '' '' # decimal n"
| "show_body (Unop u e) = CHR '' '' # op_text u @ parens (level e < 16) (show_body e)"
| "show_body (Binop op a b) =
     parens (level a < left_level op) (show_body a) @ CHR '' '' # op_text op @
     parens (level b < right_level op) (show_body b)"

section \<open>Decimal numerals\<close>

lemma ascii_digit_char: "0 \<le> n \<Longrightarrow> n < 10 \<Longrightarrow> ascii (char_of (48 + n :: int)) = 48 + nat n"
proof -
  assume n: "0 \<le> n" "n < 10"
  have "int (of_char (char_of (48 + n))) = (of_char (char_of (48 + n)) :: int)"
    by (rule of_nat_of_char)
  also have "\<dots> = 48 + n" using n by (simp only: of_char_of) simp
  finally show ?thesis using n by (simp add: ascii_def)
qed

lemma digit_char:
  assumes "0 \<le> n" "n < 10"
  shows "c_isdigit (char_of (48 + n))" "digit_val (char_of (48 + n)) = nat n"
  using assms by (auto simp: ctype_ascii digit_val_def ascii_digit_char)

lemma decimal_isdigit: "0 \<le> n \<Longrightarrow> \<forall>c \<in> set (decimal n). c_isdigit c"
  by (induction n rule: decimal.induct)
    (subst decimal.simps, auto simp: digit_char pos_mod_bound)

lemma digits_val_snoc: "digits_val b (ds @ [c]) = digits_val b ds * int b + int (digit_val c)"
  by (simp add: digits_val_def)

lemma digits_val_decimal: "0 \<le> n \<Longrightarrow> digits_val 10 (decimal n) = n"
proof (induction n rule: decimal.induct)
  case (1 n)
  show ?case
  proof (cases "n < 10")
    case True
    with 1(2) show ?thesis
      by (subst decimal.simps) (simp add: digits_val_def digit_char)
  next
    case False
    with 1 have "digits_val 10 (decimal n) = n div 10 * 10 + n mod 10"
      by (subst decimal.simps) (simp add: digits_val_snoc digit_char)
    then show ?thesis by simp
  qed
qed

lemma decimal_head:
  "0 \<le> n \<Longrightarrow> \<exists>c s. decimal n = c # s \<and> (n \<noteq> 0 \<longrightarrow> digit_val c \<noteq> 0) \<and> (n = 0 \<longrightarrow> s = [])"
proof (induction n rule: decimal.induct)
  case (1 n)
  show ?case
  proof (cases "n < 10")
    case True
    with 1(2) show ?thesis by (subst decimal.simps) (auto simp: digit_char)
  next
    case False
    then have "0 < n div 10" by (simp add: pos_imp_zdiv_pos_iff)
    with 1 False obtain c s where "decimal (n div 10) = c # s" "digit_val c \<noteq> 0" by auto
    with False show ?thesis by (subst decimal.simps) auto
  qed
qed

definition delim :: "string \<Rightarrow> bool" where
  "delim s \<longleftrightarrow> s = [] \<or> (\<exists>r. s = CHR '' '' # r)"

lemma digit_lt_10: "c_isdigit c \<Longrightarrow> digit_val c < 10"
  by (auto simp: digit_val_def ctype_ascii)

lemma blank_not_digit: "digit_val (CHR '' '') = 99" "digit_val (CHR ''#'') = 99"
  by code_simp+

lemma digit_zero: "c_isdigit c \<Longrightarrow> digit_val c = 0 \<longleftrightarrow> c = CHR ''0''"
proof
  assume "c_isdigit c" "digit_val c = 0"
  then have "of_char c = (48 :: nat)" by (auto simp: ctype_ascii digit_val_def ascii_def)
  then have "of_char c = (of_char (CHR ''0'') :: nat)" by simp
  then show "c = CHR ''0''" by (simp only: of_char_eq_iff)
qed (simp add: digit_val_def ascii_def)

lemma takeWhile_digits:
  assumes "\<forall>c \<in> set ds. P c" and "delim rest" and "\<not> P (CHR '' '')"
  shows "takeWhile P (ds @ rest) = ds" "dropWhile P (ds @ rest) = rest"
  using assms by (auto simp: delim_def)

lemma strtoull_decimal:
  assumes "0 \<le> n" "n < 2 ^ 63" "delim rest"
  shows "strtoull (decimal n @ rest) 0 = (word_of_int n, False, rest)"
proof -
  obtain c s where cs: "decimal n = c # s" and nz: "n \<noteq> 0 \<longrightarrow> digit_val c \<noteq> 0"
    and z: "n = 0 \<longrightarrow> s = []"
    using decimal_head [OF assms(1)] by blast
  have all: "\<forall>d \<in> set (c # s). c_isdigit d" using decimal_isdigit [OF assms(1)] cs by simp
  note c = c_isdigit_cases [of c]
  have dc: "c_isdigit c" using all by simp
  have space: "dropWhile c_isspace (c # s @ rest) = c # s @ rest" using c dc by simp
  have small: "n < 2 ^ 64" using assms(2) by simp
  show ?thesis
  proof (cases "n = 0")
    case True
    with z cs have s: "s = []" by simp
    have "c = char_of (48 + 0 :: int)" using True cs s by (simp add: decimal.simps)
    also have "char_of (48 + 0 :: int) = CHR ''0''" by code_simp
    finally have c0: "c = CHR ''0''" .
    have "\<not> (case c # rest of z # x # d # _ \<Rightarrow> z = CHR ''0'' \<and> (x = CHR ''x'' \<or> x = CHR ''X'') \<and>
        digit_val d < 16 | _ \<Rightarrow> False)"
      using assms(3) by (auto simp: delim_def split: list.splits)
    moreover have "takeWhile (\<lambda>d. digit_val d < 8) ([c] @ rest) = [c]"
      "dropWhile (\<lambda>d. digit_val d < 8) ([c] @ rest) = rest"
      using assms(3) digit_zero [OF dc] c0
      by (auto simp: delim_def blank_not_digit)
    ultimately show ?thesis
      using c dc space True s cs c0 digit_zero [OF dc]
      by (simp add: strtoull_def Let_def digits_val_def)
  next
    case False
    then have c0: "c \<noteq> CHR ''0''" using nz digit_zero [OF dc] by simp
    have "takeWhile (\<lambda>d. digit_val d < 10) ((c # s) @ rest) = c # s"
      "dropWhile (\<lambda>d. digit_val d < 10) ((c # s) @ rest) = rest"
      using all by (intro takeWhile_digits; auto simp: digit_lt_10 blank_not_digit assms(3))+
    moreover have "digits_val 10 (c # s) = n"
      using digits_val_decimal [OF assms(1)] cs by simp
    moreover have "\<not> (case c # s @ rest of z # x # d # _ \<Rightarrow> z = CHR ''0'' \<and>
        (x = CHR ''x'' \<or> x = CHR ''X'') \<and> digit_val d < 16 | _ \<Rightarrow> False)"
      using c0 by (auto split: list.splits)
    ultimately show ?thesis
      using c dc space cs c0 small by (simp add: strtoull_def Let_def)
  qed
qed

lemma strto_arith_t_decimal:
  assumes "0 \<le> n" "n < 2 ^ 63" "delim rest"
  shows "strto_arith_t (decimal n @ rest) = (word_of_int n, False, rest)"
proof -
  have "cur rest \<noteq> CHR ''#''" using assms(3) by (auto simp: delim_def)
  then show ?thesis by (simp add: strto_arith_t_def strtoull_decimal [OF assms])
qed

section \<open>One token at a time\<close>

text \<open>A state of the machine whose number stack holds plain numbers.\<close>

definition plain :: "string \<Rightarrow> operator \<Rightarrow> i64 list \<Rightarrow> operator list \<Rightarrow> 'v \<Rightarrow> 'v math_state" where
  "plain e lt ns os v =
     \<lparr>expr = e, closing = False, lasttok = lt, numstack = map new_number ns, opstack = os,
      store = v\<rparr>"

lemma blank_space [simp]: "c_space (CHR '' '')"
  by (simp add: c_space_def)

lemma digit_not_name: "c_isdigit c \<Longrightarrow> \<not> is_name c \<and> \<not> c_space c"
  by (auto simp: is_name_def ctype_ascii c_space_def code_def range_ctl)
    (auto simp: ascii_def code_def [symmetric] range_ctl code_le)

lemma step_number:
  assumes "0 \<le> n" "n < 2 ^ 63" "delim rest"
  shows "math_step lk sv ev names start (plain (CHR '' '' # decimal n @ rest) lt ns os v) =
    Some (Running (plain rest TOK_NUM (word_of_int n # ns) os v))"
proof -
  obtain c s where cs: "decimal n = c # s" using decimal_head [OF assms(1)] by blast
  have dc: "c_isdigit c" using decimal_isdigit [OF assms(1)] cs by simp
  note strto_arith_t_decimal [OF assms]
  then show ?thesis
    using digit_not_name [OF dc] dc cs
    by (simp add: math_step_def plain_def Let_def endofname_def push_num_def)
qed

lemma find_op_text:
  assumes "op \<in> set (unary_ops @ binary_ops) \<union> {TOK_LPAREN, TOK_RPAREN}" "delim rest"
  shows "find_op op_tokens (op_text op @ rest) =
    Some (if op = TOK_UMINUS then TOK_SUB else if op = TOK_UPLUS then TOK_ADD else op, rest)"
  using assms
  by (auto simp: unary_ops_def binary_ops_def delim_def op_text_def op_tokens_def)

lemma op_text_head:
  assumes "op \<in> set (unary_ops @ binary_ops) \<union> {TOK_LPAREN, TOK_RPAREN}" "delim rest"
  obtains c e' where "op_text op @ rest = c # e'" "\<not> c_space c" "\<not> is_name c" "\<not> c_isdigit c"
    "c \<in> {CHR ''+'', CHR ''-''} \<Longrightarrow> cur e' \<noteq> c"
  using assms
  by (auto simp: unary_ops_def binary_ops_def delim_def op_text_def op_tokens_def c_space_def
      is_name_def ctype_ascii code_def ascii_def)

lemma step_operator:
  assumes "op \<in> set (unary_ops @ binary_ops) \<union> {TOK_LPAREN, TOK_RPAREN}" "delim rest"
  shows "math_step lk sv ev names start (plain (CHR '' '' # op_text op @ rest) lt ns os v) =
    operator_step lk sv ev names
      (if op = TOK_UMINUS then TOK_SUB else if op = TOK_UPLUS then TOK_ADD else op) rest
      (plain (CHR '' '' # op_text op @ rest) lt ns os v)"
proof -
  obtain c e' where e: "op_text op @ rest = c # e'" "\<not> c_space c" "\<not> is_name c" "\<not> c_isdigit c"
    and c: "c \<in> {CHR ''+'', CHR ''-''} \<Longrightarrow> cur e' \<noteq> c"
    using op_text_head [OF assms] by blast
  have f: "find_op op_tokens (c # e') =
      Some (if op = TOK_UMINUS then TOK_SUB else if op = TOK_UPLUS then TOK_ADD else op, rest)"
    using find_op_text [OF assms] e(1) by simp
  have skip: "skip_whitespace (CHR '' '' # op_text op @ rest) = c # e'"
    using e by simp
  have "endofname (c # e') = c # e'" using e by (simp add: endofname_def)
  with skip f e c show ?thesis
    by (auto simp: math_step_def plain_def Let_def simp del: find_op.simps skip_whitespace.simps)
qed

section \<open>Applying operators to plain numbers\<close>

definition app :: "operator \<Rightarrow> i64 list \<Rightarrow> math_err + i64 list" where
  "app op ns =
     (case ns of [] \<Rightarrow> Inl Arith_syntax
      | x # below \<Rightarrow>
          (case unary_value op x of
             Some r \<Rightarrow> Inr (r # below)
           | None \<Rightarrow>
               (case below of [] \<Rightarrow> Inl Arith_syntax
                | l # below' \<Rightarrow>
                    (case binary_value op l x of Inl e \<Rightarrow> Inl e | Inr r \<Rightarrow> Inr (r # below')))))"

fun app_all :: "operator list \<Rightarrow> i64 list \<Rightarrow> math_err + i64 list" where
  "app_all [] ns = Inr ns"
| "app_all (p # ps) ns = (case app p ns of Inl e \<Rightarrow> Inl e | Inr ns' \<Rightarrow> app_all ps ns')"

lemma app_all_append:
  "app_all (ps @ qs) ns = (case app_all ps ns of Inl e \<Rightarrow> Inl e | Inr ns' \<Rightarrow> app_all qs ns')"
  by (induction ps arbitrary: ns) (auto split: sum.split)

abbreviation pure_ops :: "operator set" where
  "pure_ops \<equiv> set (unary_ops @ binary_ops)"

lemma pure_not_assign: "op \<in> pure_ops \<Longrightarrow> \<not> is_assign_op op"
  by (auto simp: unary_ops_def binary_ops_def is_assign_op_def fix_assignment_prec_def)

lemma pure_op_facts:
  "op \<in> set binary_ops \<Longrightarrow> unary_value op x = None"
  "op \<in> set unary_ops \<Longrightarrow> \<exists>r. unary_value op x = Some r"
  "op \<in> pure_ops \<Longrightarrow> op \<noteq> TOK_CONDITIONAL \<and> op \<noteq> TOK_CONDITIONAL_SEP \<and> op \<noteq> TOK_ASSIGN
     \<and> op \<noteq> TOK_LPAREN \<and> op \<noteq> TOK_RPAREN \<and> 1 \<le> PREC op \<and> fix_assignment_prec (PREC op) = PREC op"
  by (auto simp: unary_ops_def binary_ops_def fix_assignment_prec_def)

lemma new_number_simps [simp]:
  "val (new_number x) = x" "var (new_number x) = None"
  "second_val_present (new_number x) = False"
  "(new_number x)\<lparr>val := y, var := None\<rparr> = new_number y"
  by (simp_all add: new_number_def)

lemma finish_plain:
  "op \<in> pure_ops \<Longrightarrow> apply_finish sv op v t y below = Some (v, Inr (t\<lparr>val := y, var := None\<rparr> # below))"
  using pure_not_assign by (simp add: apply_finish_def)

lemma apply_binary_plain:
  assumes "op \<in> pure_ops"
  shows "apply_binary lk sv ev names op v (new_number x) (new_number l) (map new_number below) =
    Some (v, case binary_value op l x of Inl e \<Rightarrow> Inl e | Inr r \<Rightarrow> Inr (map new_number (r # below)))"
  using pure_op_facts(3) [OF assms]
  by (simp add: apply_binary_def arith_lookup_val_def Let_def finish_plain [OF assms] split: sum.split)

lemma lookup_plain: "arith_lookup_val lk ev names v (new_number x) = Some (v, Inr (new_number x))"
  by (simp add: arith_lookup_val_def)

lemma arith_apply_plain:
  assumes "op \<in> pure_ops"
  shows "arith_apply lk sv ev names op v (map new_number ns) =
    Some (v, map_sum id (map new_number) (app op ns))"
proof (cases ns)
  case (Cons x below)
  note top = finish_plain [OF assms] apply_binary_plain [OF assms]
  show ?thesis
  proof (cases "unary_value op x")
    case None
    note n = this
    show ?thesis
    proof (cases below)
      case Nil
      then show ?thesis by (simp add: arith_apply_def lookup_plain app_def Cons n)
    next
      case (Cons l below')
      have "arith_apply lk sv ev names op v (map new_number ns) =
          apply_binary lk sv ev names op v (new_number x) (new_number l) (map new_number below')"
        by (simp add: arith_apply_def lookup_plain \<open>ns = x # below\<close> Cons n)
      also note top(2)
      also have "(case binary_value op l x of Inl e \<Rightarrow> Inl e
          | Inr r \<Rightarrow> Inr (map new_number (r # below'))) = map_sum id (map new_number) (app op ns)"
        by (simp add: app_def \<open>ns = x # below\<close> Cons n split: sum.split)
      finally show ?thesis .
    qed
  next
    case (Some r)
    then show ?thesis by (simp add: arith_apply_def lookup_plain app_def Cons top(1))
  qed
qed (simp add: arith_apply_def app_def)

text \<open>Which operator on the stack stops the reduction for a new binary operator.\<close>

definition stops :: "operator \<Rightarrow> operator \<Rightarrow> bool" where
  "stops op p \<longleftrightarrow> PREC p < PREC op \<or> PREC p = PREC op \<and> op = TOK_EXPONENT"

lemma stops_iff:
  assumes "op \<in> set binary_ops"
  shows "fix_assignment_prec (PREC p) < PREC op \<or>
      (fix_assignment_prec (PREC p) = PREC op \<and> is_right_associative (PREC op)) \<longleftrightarrow> stops op p"
proof -
  have op: "PREC op \<noteq> 2 \<and> PREC op \<noteq> 3 \<and> PREC op \<noteq> 4 \<and> (PREC op = 15 \<longleftrightarrow> op = TOK_EXPONENT)"
    using assms by (auto simp: binary_ops_def)
  then show ?thesis
    by (auto simp: stops_def is_right_associative_def fix_assignment_prec_def)
qed

lemma reduce_binary:
  assumes "op \<in> set binary_ops" and "set new \<subseteq> pure_ops" and "\<forall>p \<in> set new. \<not> stops op p"
    and "os = [] \<or> stops op (hd os)"
  shows "reduce_loop (\<lambda>v op nums. arith_apply lk sv ev names op v nums) op (PREC op) v
      (map new_number ns) (new @ os) =
    Some (v, case app_all new ns of Inl e \<Rightarrow> Inl e | Inr ns' \<Rightarrow> Inr (map new_number ns', os, False))"
  using assms(2,3)
proof (induction new arbitrary: ns)
  case Nil
  have "op \<in> pure_ops" using assms(1) by simp
  note f = pure_op_facts(3) [OF this]
  show ?case
  proof (cases os)
    case (Cons p ps)
    with assms(4) have "stops op p" by simp
    with Cons f stops_iff [OF assms(1), of p] show ?thesis by (auto simp: Let_def)
  qed simp
next
  case (Cons p new)
  have "op \<in> pure_ops" using assms(1) by simp
  note f = pure_op_facts(3) [OF this]
  have p: "p \<in> pure_ops" "\<not> stops op p" using Cons.prems by auto
  have ns: "\<not> (fix_assignment_prec (PREC p) < PREC op \<or>
      (fix_assignment_prec (PREC p) = PREC op \<and> is_right_associative (PREC op)))"
    using stops_iff [OF assms(1), of p] p(2) by blast
  show ?case
    using Cons.IH Cons.prems f ns
    by (simp add: Let_def arith_apply_plain [OF p(1)] map_sum_def split: sum.split)
qed

lemma reduce_paren:
  assumes "set new \<subseteq> pure_ops"
  shows "reduce_loop (\<lambda>v op nums. arith_apply lk sv ev names op v nums) TOK_RPAREN prec v
      (map new_number ns) (new @ TOK_LPAREN # os) =
    Some (v, case app_all new ns of Inl e \<Rightarrow> Inl e | Inr ns' \<Rightarrow> Inr (map new_number ns', os, True))"
  using assms
proof (induction new arbitrary: ns)
  case (Cons p new)
  have p: "p \<in> pure_ops" using Cons.prems by auto
  with Cons.IH Cons.prems pure_op_facts(3) [OF p] show ?case
    by (simp add: arith_apply_plain [OF p] map_sum_def split: sum.split)
qed simp


section \<open>Following a subexpression through the machine\<close>

definition fits :: "nat \<Rightarrow> operator list \<Rightarrow> bool" where
  "fits k os \<longleftrightarrow> os = [] \<or> 16 \<le> k \<or> PREC (hd os) < (if k = 15 then 16 else k)"

lemma fits_mono: "fits k os \<Longrightarrow> k \<le> k' \<Longrightarrow> fits k' os"
  by (auto simp: fits_def split: if_splits)

lemma fits_paren: "1 \<le> k \<Longrightarrow> fits k (TOK_LPAREN # os)"
  by (simp add: fits_def)

lemma PREC_binary:
  "op \<in> set binary_ops \<Longrightarrow> 1 \<le> PREC op \<and> PREC op \<le> 15 \<and> (PREC op = 15 \<longleftrightarrow> op = TOK_EXPONENT)"
  by (auto simp: binary_ops_def)

lemma fits_right: "op \<in> set binary_ops \<Longrightarrow> fits (right_level op) (op # os)"
  using PREC_binary [of op] by (auto simp: fits_def right_level_def)

lemma fits_stops: "op \<in> set binary_ops \<Longrightarrow> fits (PREC op) os \<Longrightarrow> os = [] \<or> stops op (hd os)"
  using PREC_binary [of op] by (auto simp: fits_def stops_def split: if_splits)

lemma not_stops_left:
  "op \<in> set binary_ops \<Longrightarrow> left_level op \<le> PREC p \<Longrightarrow> \<not> stops op p"
  using PREC_binary [of op] by (auto simp: left_level_def stops_def split: if_splits)

lemma side_levels:
  "op \<in> set binary_ops \<Longrightarrow> PREC op \<le> left_level op \<and> PREC op \<le> right_level op"
  using PREC_binary [of op] by (auto simp: left_level_def right_level_def)

text \<open>The tokens after which an operand may start.\<close>

definition operand_next :: "operator \<Rightarrow> bool" where
  "operand_next lt \<longleftrightarrow> lt \<noteq> TOK_NUM \<and> lt \<noteq> TOK_POST_INC \<and> lt \<noteq> TOK_POST_DEC"

lemma operand_next_ops: "op \<in> pure_ops \<Longrightarrow> operand_next op"
  by (auto simp: unary_ops_def binary_ops_def operand_next_def)

text \<open>From any state in which an operand may start, the machine reads the text \<open>s\<close> and either
  stops with the error that is its value, or leaves operators \<open>new\<close> of precedence at least
  \<open>k\<close> above the old ones, which applied in turn give the value.\<close>

definition settles ::
    "('v math_state \<Rightarrow> ('v, i64) res) \<Rightarrow> 'v \<Rightarrow> nat \<Rightarrow> math_err + i64 \<Rightarrow> string \<Rightarrow> i64 list
      \<Rightarrow> operator list \<Rightarrow> 'v math_state \<Rightarrow> bool" where
  "settles run v k vl rest ns os st \<longleftrightarrow>
     (\<exists>err. vl = Inl err \<and> run st = Some (v, Inl err)) \<or>
     (\<exists>ns' new. run st = run (plain rest TOK_NUM ns' (new @ os) v) \<and> set new \<subseteq> pure_ops \<and>
        (\<forall>p \<in> set new. k \<le> PREC p) \<and> app_all new ns' = map_sum id (\<lambda>x. x # ns) vl)"

definition runs ::
    "('v math_state \<Rightarrow> ('v, i64) res) \<Rightarrow> 'v \<Rightarrow> nat \<Rightarrow> string \<Rightarrow> math_err + i64 \<Rightarrow> bool" where
  "runs run v k s vl \<longleftrightarrow>
     (\<forall>os rest lt ns. fits k os \<longrightarrow> delim rest \<longrightarrow> operand_next lt \<longrightarrow>
       settles run v k vl rest ns os (plain (s @ rest) lt ns os v))"

lemma runsD:
  "runs run v k s vl \<Longrightarrow> fits k os \<Longrightarrow> delim rest \<Longrightarrow> operand_next lt \<Longrightarrow>
     settles run v k vl rest ns os (plain (s @ rest) lt ns os v)"
  by (simp add: runs_def)

lemma settlesE:
  assumes "settles run v k vl rest ns os st"
  obtains (failed) err where "vl = Inl err" "run st = Some (v, Inl err)"
    | (left) ns' new where "run st = run (plain rest TOK_NUM ns' (new @ os) v)"
      "set new \<subseteq> pure_ops" "\<forall>p \<in> set new. k \<le> PREC p"
      "app_all new ns' = map_sum id (\<lambda>x. x # ns) vl"
  using assms unfolding settles_def by blast

lemma settles_left:
  "run st = run (plain rest TOK_NUM ns' (new @ os) v) \<Longrightarrow> set new \<subseteq> pure_ops \<Longrightarrow>
     \<forall>p \<in> set new. k \<le> PREC p \<Longrightarrow> app_all new ns' = map_sum id (\<lambda>x. x # ns) vl \<Longrightarrow>
     settles run v k vl rest ns os st"
  unfolding settles_def by blast

lemma settles_failed:
  "run st = Some (v, Inl err) \<Longrightarrow> vl = Inl err \<Longrightarrow> settles run v k vl rest ns os st"
  unfolding settles_def by blast

lemma settles_mono:
  assumes "settles run v k vl rest ns os st" "k' \<le> k"
  shows "settles run v k' vl rest ns os st"
  using assms(1)
proof (cases rule: settlesE)
  case (left ns' new)
  have "\<forall>p \<in> set new. k' \<le> PREC p" using left(3) assms(2) by auto
  with left show ?thesis by (blast intro: settles_left)
qed (rule settles_failed)

lemma runs_mono:
  assumes "runs run v k s r" "k' \<le> k"
  shows "runs run v k' s r"
  unfolding runs_def
  by (intro allI impI settles_mono [OF runsD [OF assms(1)] assms(2)]) (rule fits_mono [OF _ assms(2)])

lemma loop_running:
  "math_step lk sv ev names start st = Some (Running st') \<Longrightarrow>
     math_loop lk sv ev names start st = math_loop lk sv ev names start st'"
  by (subst math_loop.simps) simp

lemma loop_finished:
  "math_step lk sv ev names start st = Some (Finished v r) \<Longrightarrow>
     math_loop lk sv ev names start st = Some (v, r)"
  by (subst math_loop.simps) simp

text \<open>Pushing a prefix operator or an opening parenthesis.\<close>

lemma step_prefix:
  assumes "op \<in> set unary_ops \<union> {TOK_LPAREN}" "delim rest" "operand_next lt"
  shows "math_step lk sv ev names start (plain (CHR '' '' # op_text op @ rest) lt ns os v) =
    Some (Running (plain rest op ns (op # os) v))"
proof -
  have op: "op \<in> set (unary_ops @ binary_ops) \<union> {TOK_LPAREN, TOK_RPAREN}" using assms(1) by auto
  show ?thesis
    unfolding step_operator [OF op assms(2)]
    using assms(1,3)
    by (auto simp: operator_step_def unary_ops_def unary_variant_def is_nonprefix_def UNARYPREC_def
        SPEC_PREC_def plain_def operand_next_def Let_def)
qed

lemma binary_nonprefix: "op \<in> set binary_ops \<Longrightarrow> is_nonprefix op \<and> op \<noteq> TOK_RPAREN
    \<and> op \<noteq> TOK_UMINUS \<and> op \<noteq> TOK_UPLUS"
  by (auto simp: binary_ops_def is_nonprefix_def UNARYPREC_def)

lemma step_binary:
  assumes "op \<in> set binary_ops" "delim rest" and "set new \<subseteq> pure_ops"
    and "\<forall>p \<in> set new. \<not> stops op p" and "os = [] \<or> stops op (hd os)"
  shows "math_step lk sv ev names start
      (plain (CHR '' '' # op_text op @ rest) TOK_NUM ns (new @ os) v) =
    Some (case app_all new ns of Inl e \<Rightarrow> Finished v (Inl e)
      | Inr ns' \<Rightarrow> Running (plain rest op ns' (op # os) v))"
proof -
  have op: "op \<in> set (unary_ops @ binary_ops) \<union> {TOK_LPAREN, TOK_RPAREN}" using assms(1) by auto
  show ?thesis
    unfolding step_operator [OF op assms(2)]
    using binary_nonprefix [OF assms(1)] reduce_binary [OF assms(1,3,4,5), of lk sv ev names v ns]
    by (simp add: operator_step_def plain_def Let_def split: sum.split)
qed

lemma step_rparen:
  assumes "delim rest" and "set new \<subseteq> pure_ops"
  shows "math_step lk sv ev names start
      (plain (CHR '' '' # op_text TOK_RPAREN @ rest) TOK_NUM ns (new @ TOK_LPAREN # os) v) =
    Some (case app_all new ns of Inl e \<Rightarrow> Finished v (Inl e)
      | Inr ns' \<Rightarrow> Running (plain rest TOK_NUM ns' os v))"
proof -
  have "TOK_RPAREN \<in> set (unary_ops @ binary_ops) \<union> {TOK_LPAREN, TOK_RPAREN}" by simp
  moreover have "is_nonprefix TOK_RPAREN" by (simp add: is_nonprefix_def SPEC_PREC_def UNARYPREC_def)
  ultimately show ?thesis
    unfolding step_operator [OF \<open>TOK_RPAREN \<in> _\<close> assms(1)]
    using reduce_paren [OF assms(2), of lk sv ev names "PREC TOK_RPAREN" v ns os]
    by (simp add: operator_step_def plain_def Let_def split: sum.split)
qed


lemma delim_blank [simp]: "delim (CHR '' '' # s)" "delim []"
  by (simp_all add: delim_def)

lemma show_body_blank: "\<exists>t. show_body e = CHR '' '' # t"
proof (induction e)
  case (Binop op a b)
  then show ?case by (auto simp: parens_def)
qed simp_all

lemma delim_body [simp]: "delim (show_body e @ rest)" "delim (parens p (show_body e) @ rest)"
  using show_body_blank [of e] by (auto simp: parens_def)

lemma level_ge_1: "wf_expr e \<Longrightarrow> 1 \<le> level e"
  by (cases e) (auto dest: PREC_binary)

abbreviation machine ::
    "'v lookup \<Rightarrow> 'v setter \<Rightarrow> 'v nested \<Rightarrow> string list \<Rightarrow> string \<Rightarrow> 'v math_state \<Rightarrow> ('v, i64) res" where
  "machine \<equiv> math_loop"

lemma op_text_parens: "op_text TOK_LPAREN = ''(''" "op_text TOK_RPAREN = '')''"
  by (simp_all add: op_text_def op_tokens_def)

lemma runs_parens:
  assumes "runs (machine lk sv ev names start) v l s vl" "1 \<le> l"
    and "\<And>rest. delim (s @ rest)"
  shows "runs (machine lk sv ev names start) v k (parens (l < k) s) vl"
proof (cases "l < k")
  case False
  with runs_mono [OF assms(1), of k] show ?thesis by (simp add: parens_def)
next
  case True
  show ?thesis unfolding runs_def
  proof (intro allI impI)
    fix os rest lt ns
    assume rest: "delim rest" and lt: "operand_next lt"
    let ?run = "machine lk sv ev names start"
    let ?r = "CHR '' '' # op_text TOK_RPAREN @ rest"
    have "?run (plain (parens (l < k) s @ rest) lt ns os v) =
        ?run (plain (CHR '' '' # op_text TOK_LPAREN @ (s @ ?r)) lt ns os v)"
      using True by (simp add: parens_def op_text_parens)
    also have "\<dots> = ?run (plain (s @ ?r) TOK_LPAREN ns (TOK_LPAREN # os) v)"
      by (rule loop_running, rule step_prefix) (simp_all add: lt assms(3))
    finally have open_paren: "?run (plain (parens (l < k) s @ rest) lt ns os v) =
        ?run (plain (s @ ?r) TOK_LPAREN ns (TOK_LPAREN # os) v)" .
    have inner: "settles ?run v l vl ?r ns (TOK_LPAREN # os)
        (plain (s @ ?r) TOK_LPAREN ns (TOK_LPAREN # os) v)"
      by (rule runsD [OF assms(1) fits_paren [OF assms(2)]]) (simp_all add: operand_next_def)
    show "settles ?run v k vl rest ns os (plain (parens (l < k) s @ rest) lt ns os v)"
      using inner
    proof (cases rule: settlesE)
      case (failed err)
      with open_paren show ?thesis by (intro settles_failed) simp_all
    next
      case (left ns' new)
      note step = step_rparen [OF rest left(2), of lk sv ev names start ns' os v]
      show ?thesis
      proof (cases vl)
        case (Inl err)
        with left step have "?run (plain ?r TOK_NUM ns' (new @ TOK_LPAREN # os) v) = Some (v, Inl err)"
          by (intro loop_finished) simp
        with left(1) open_paren Inl show ?thesis by (intro settles_failed) simp_all
      next
        case (Inr x)
        with left step have "?run (plain ?r TOK_NUM ns' (new @ TOK_LPAREN # os) v) =
            ?run (plain rest TOK_NUM (x # ns) os v)"
          by (intro loop_running) simp
        with left(1) open_paren Inr show ?thesis
          by (intro settles_left [where new = "[]" and ns' = "x # ns"]) simp_all
      qed
    qed
  qed
qed

lemma runs_lit:
  assumes "0 \<le> n" "n < 2 ^ 63"
  shows "runs (machine lk sv ev names start) v 20 (CHR '' '' # decimal n) (Inr (word_of_int n))"
  unfolding runs_def
proof (intro allI impI)
  fix os rest lt ns
  assume "delim rest"
  from loop_running [OF step_number [OF assms this]]
  show "settles (machine lk sv ev names start) v 20 (Inr (word_of_int n)) rest ns os
      (plain ((CHR '' '' # decimal n) @ rest) lt ns os v)"
    by (intro settles_left [where new = "[]" and ns' = "word_of_int n # ns"]) simp_all
qed

lemma app_unary: "u \<in> set unary_ops \<Longrightarrow> app u (x # ns) = Inr (the (unary_value u x) # ns)"
  using pure_op_facts(2) [of u x] by (auto simp: app_def)

lemma app_binary: "op \<in> set binary_ops \<Longrightarrow>
    app op (y # x # ns) = map_sum id (\<lambda>r. r # ns) (binary_value op x y)"
  using pure_op_facts(1) [of op y] by (simp add: app_def map_sum_def split: sum.split)


lemma runs_unop:
  assumes u: "u \<in> set unary_ops"
    and e: "runs (machine lk sv ev names start) v 16 s vl" and s: "\<And>rest. delim (s @ rest)"
  shows "runs (machine lk sv ev names start) v 16 (CHR '' '' # op_text u @ s)
    (case vl of Inl err \<Rightarrow> Inl err | Inr x \<Rightarrow> Inr (the (unary_value u x)))"
  unfolding runs_def
proof (intro allI impI)
  fix os rest lt ns
  assume rest: "delim rest" and lt: "operand_next lt"
  let ?run = "machine lk sv ev names start"
  let ?v = "case vl of Inl err \<Rightarrow> Inl err | Inr x \<Rightarrow> Inr (the (unary_value u x))"
  have "?run (plain (CHR '' '' # op_text u @ (s @ rest)) lt ns os v) = ?run (plain (s @ rest) u ns (u # os) v)"
    by (rule loop_running, rule step_prefix) (simp_all add: lt u s)
  then have push: "?run (plain ((CHR '' '' # op_text u @ s) @ rest) lt ns os v) =
      ?run (plain (s @ rest) u ns (u # os) v)" by simp
  have "operand_next u" using u by (intro operand_next_ops) simp
  then have inner: "settles ?run v 16 vl rest ns (u # os) (plain (s @ rest) u ns (u # os) v)"
    by (intro runsD [OF e _ rest]) (simp_all add: fits_def)
  have "16 \<le> PREC u" using u by (auto simp: unary_ops_def)
  show "settles ?run v 16 ?v rest ns os (plain ((CHR '' '' # op_text u @ s) @ rest) lt ns os v)"
    using inner
  proof (cases rule: settlesE)
    case (failed err)
    with push show ?thesis by (intro settles_failed) simp_all
  next
    case (left ns' new)
    with push u \<open>16 \<le> PREC u\<close> show ?thesis
      by (intro settles_left [where new = "new @ [u]" and ns' = ns'])
        (auto simp: app_all_append app_unary split: sum.split)
  qed
qed

lemma runs_binop:
  assumes op: "op \<in> set binary_ops"
    and a: "runs (machine lk sv ev names start) v (left_level op) sa va"
    and b: "runs (machine lk sv ev names start) v (right_level op) sb vb"
    and sb: "\<And>rest. delim (sb @ rest)"
  shows "runs (machine lk sv ev names start) v (PREC op) (sa @ CHR '' '' # op_text op @ sb)
    (case va of Inl err \<Rightarrow> Inl err
     | Inr x \<Rightarrow> (case vb of Inl err \<Rightarrow> Inl err | Inr y \<Rightarrow> binary_value op x y))" (is "runs ?run v _ ?s ?v")
  unfolding runs_def
proof (intro allI impI)
  fix os rest lt ns
  assume os: "fits (PREC op) os" and rest: "delim rest" and lt: "operand_next lt"
  let ?r = "CHR '' '' # op_text op @ (sb @ rest)"
  have "settles ?run v (left_level op) va ?r ns os (plain (sa @ ?r) lt ns os v)"
    by (rule runsD [OF a _ _ lt]) (use fits_mono [OF os] side_levels [OF op] in auto)
  then have left: "settles ?run v (left_level op) va ?r ns os (plain (?s @ rest) lt ns os v)" by simp
  show "settles ?run v (PREC op) ?v rest ns os (plain (?s @ rest) lt ns os v)"
    using left
  proof (cases rule: settlesE)
    case (failed err)
    then show ?thesis by (intro settles_failed) simp_all
  next
    case (left ns1 new1)
    have "\<forall>p \<in> set new1. \<not> stops op p" using left(3) not_stops_left [OF op] by blast
    note step = step_binary [OF op sb left(2) this fits_stops [OF op os], of lk sv ev names start rest ns1 v]
    show ?thesis
    proof (cases va)
      case (Inl err)
      with left(4) step have "?run (plain ?r TOK_NUM ns1 (new1 @ os) v) = Some (v, Inl err)"
        by (intro loop_finished) simp
      with left(1) Inl show ?thesis by (intro settles_failed) simp_all
    next
      case (Inr x)
      with left(4) step have "?run (plain ?r TOK_NUM ns1 (new1 @ os) v) =
          ?run (plain (sb @ rest) op (x # ns) (op # os) v)"
        by (intro loop_running) simp
      with left(1) have eq: "?run (plain (?s @ rest) lt ns os v) =
          ?run (plain (sb @ rest) op (x # ns) (op # os) v)" by simp
      have "operand_next op" using op by (intro operand_next_ops) simp
      from runsD [OF b fits_right [OF op] rest this]
      have "settles ?run v (right_level op) vb rest (x # ns) (op # os)
        (plain (sb @ rest) op (x # ns) (op # os) v)" .
      then show ?thesis
      proof (cases rule: settlesE)
        case (failed err)
        with eq Inr show ?thesis by (intro settles_failed) simp_all
      next
        case (left ns2 new2)
        have "\<forall>p \<in> set new2. PREC op \<le> PREC p" using left(3) side_levels [OF op] by fastforce
        with left eq Inr op show ?thesis
          by (intro settles_left [where new = "new2 @ [op]" and ns' = ns2])
            (auto simp: app_all_append app_binary map_sum_def split: sum.split)
      qed
    qed
  qed
qed

lemma runs_expr:
  "wf_expr e \<Longrightarrow> runs (machine lk sv ev names start) v (level e) (show_body e) (veval e)"
proof (induction e)
  case (Lit n)
  then show ?case by (simp add: runs_lit)
next
  case (Unop u e)
  then have "1 \<le> level e" using level_ge_1 by simp
  from runs_parens [OF _ this, of lk sv ev names start v "show_body e" "veval e" 16] Unop
  show ?case by (simp add: runs_unop)
next
  case (Binop op a b)
  then have "1 \<le> level a" "1 \<le> level b" using level_ge_1 by simp_all
  from runs_parens [OF _ this(1), of lk sv ev names start v "show_body a" "veval a" "left_level op"]
    runs_parens [OF _ this(2), of lk sv ev names start v "show_body b" "veval b" "right_level op"] Binop
  show ?case by (simp add: runs_binop)
qed


section \<open>The whole evaluation\<close>

lemma operator_step_expr_irrelevant:
  "operator_step lk sv ev names op rest (st\<lparr>expr := x\<rparr>) = operator_step lk sv ev names op rest st"
  by (simp add: operator_step_def Let_def split: option.split prod.split sum.split)

lemma math_step_skip:
  "math_step lk sv ev names start (st\<lparr>expr := skip_whitespace (expr st)\<rparr>) =
   math_step lk sv ev names start st"
  by (simp add: math_step_def operator_step_expr_irrelevant push_num_def Let_def
      split: list.split option.split prod.split)

lemma math_loop_skip:
  "math_loop lk sv ev names start (st\<lparr>expr := skip_whitespace (expr st)\<rparr>) =
   math_loop lk sv ev names start st"
  by (subst (1 2) math_loop.simps) (simp only: math_step_skip)

lemma loop_closing:
  assumes "start \<noteq> []" "set new \<subseteq> pure_ops"
  shows "math_loop lk sv ev names start (plain [] TOK_NUM ns (new @ [TOK_LPAREN]) v) =
    (case app_all new ns of Inl err \<Rightarrow> Some (v, Inl err)
     | Inr [x] \<Rightarrow> Some (v, Inr x) | Inr _ \<Rightarrow> Some (v, Inl Arith_syntax))"
proof -
  let ?run = "math_loop lk sv ev names start"
  let ?close = "\<lambda>e ns os. (plain e TOK_NUM ns os v)\<lparr>closing := True\<rparr>"
  have 1: "?run (plain [] TOK_NUM ns (new @ [TOK_LPAREN]) v) = ?run (?close '')'' ns (new @ [TOK_LPAREN]))"
    by (rule loop_running) (simp add: math_step_def plain_def assms(1))
  have tok: "find_op op_tokens '')'' = Some (TOK_RPAREN, [])" "endofname '')'' = '')''"
    "\<not> c_isdigit (CHR '')'')" "\<not> c_space (CHR '')'')" by code_simp+
  have np: "is_nonprefix TOK_RPAREN" by (simp add: is_nonprefix_def SPEC_PREC_def UNARYPREC_def)
  have 2: "math_step lk sv ev names start (?close '')'' ns (new @ [TOK_LPAREN])) =
      Some (case app_all new ns of Inl e \<Rightarrow> Finished v (Inl e) | Inr ns' \<Rightarrow> Running (?close [] ns' []))"
    using tok np reduce_paren [OF assms(2), of lk sv ev names "PREC TOK_RPAREN" v ns "[]"]
    by (simp add: math_step_def plain_def operator_step_def Let_def split: sum.split)
  have 3: "math_step lk sv ev names start (?close [] ns' []) =
      Some (Finished v (case ns' of [x] \<Rightarrow> Inr x | _ \<Rightarrow> Inl Arith_syntax))" for ns'
    using assms(1) by (simp add: math_step_def plain_def arith_lookup_val_def split: list.split)
  show ?thesis
  proof (cases "app_all new ns")
    case (Inl err)
    with 2 have "?run (?close '')'' ns (new @ [TOK_LPAREN])) = Some (v, Inl err)"
      by (intro loop_finished) simp
    with 1 Inl show ?thesis by simp
  next
    case (Inr ns')
    with 2 have "?run (?close '')'' ns (new @ [TOK_LPAREN])) = ?run (?close [] ns' [])"
      by (intro loop_running) simp
    also have "\<dots> = Some (v, case ns' of [x] \<Rightarrow> Inr x | _ \<Rightarrow> Inl Arith_syntax)"
      by (rule loop_finished [OF 3])
    finally show ?thesis using 1 Inr by (simp split: list.split)
  qed
qed

lemma skip_whitespace_empty: "skip_whitespace s = [] \<longleftrightarrow> (\<forall>c \<in> set s. c_space c)"
  by (induction s) auto

lemma op_text_visible: "op \<in> pure_ops \<Longrightarrow> \<exists>c \<in> set (op_text op). \<not> c_space c"
proof -
  assume "op \<in> pure_ops"
  then have "op \<in> set (unary_ops @ binary_ops) \<union> {TOK_LPAREN, TOK_RPAREN}" by simp
  then show ?thesis by (rule op_text_head [where rest = "[]"]) auto
qed

lemma show_body_visible: "wf_expr e \<Longrightarrow> \<exists>c \<in> set (show_body e). \<not> c_space c"
proof (cases e)
  case (Lit n)
  assume "wf_expr e"
  with Lit obtain c s where "decimal n = c # s" "c_isdigit c"
    using decimal_head [of n] decimal_isdigit [of n] by auto
  with Lit digit_not_name show ?thesis by auto
next
  case (Unop u a)
  assume "wf_expr e"
  with Unop op_text_visible [of u] show ?thesis by auto
next
  case (Binop op a b)
  assume "wf_expr e"
  with Binop op_text_visible [of op] show ?thesis by auto
qed

lemma evaluate_show_body:
  assumes "wf_expr e"
  shows "evaluate_string lk sv (Suc depth) names v (show_body e) = Some (v, veval e)"
proof -
  obtain t where t: "show_body e = CHR '' '' # t" using show_body_blank by blast
  let ?start = "skip_whitespace (show_body e)"
  let ?run = "math_loop lk sv (evaluate_string lk sv depth) names ?start"
  have "?run (initial_state ?start v) = ?run ((plain (show_body e) TOK_LPAREN [] [TOK_LPAREN] v)
      \<lparr>expr := skip_whitespace (expr (plain (show_body e) TOK_LPAREN [] [TOK_LPAREN] v))\<rparr>)"
    by (simp add: initial_state_def plain_def)
  also have "\<dots> = ?run (plain (show_body e @ []) TOK_LPAREN [] [TOK_LPAREN] v)"
    by (simp only: math_loop_skip append_Nil2)
  finally have start: "?run (initial_state ?start v) = \<dots>" .
  have ne: "?start \<noteq> []" using show_body_visible [OF assms] skip_whitespace_empty by blast
  have "fits (level e) [TOK_LPAREN]" by (rule fits_paren [OF level_ge_1 [OF assms]])
  from runsD [OF runs_expr [OF assms] this, where rest = "[]" and lt = TOK_LPAREN and ns = "[]"]
  have "settles ?run v (level e) (veval e) [] [] [TOK_LPAREN]
      (plain (show_body e @ []) TOK_LPAREN [] [TOK_LPAREN] v)"
    by (simp add: operand_next_def)
  then have "?run (initial_state ?start v) = Some (v, veval e)"
  proof (cases rule: settlesE)
    case (failed err)
    with start show ?thesis by simp
  next
    case (left ns' new)
    with start loop_closing [OF ne left(2), of lk sv "evaluate_string lk sv depth" names ns' v]
    show ?thesis by (cases "veval e") simp_all
  qed
  then show ?thesis by (simp add: Let_def)
qed

section \<open>The C operators, stated on integers\<close>

text \<open>
  The specification shares nothing with the program: it has its own operators, its own table
  of symbols, of precedence levels and of associativity (those of the C language, with
  \<open>**\<close> above the multiplicative operators and associating to the right), and the operations
  on mathematical integers, reduced to 64 bits in two's complement.
\<close>

datatype c_unop = C_Minus | C_Plus | C_Not | C_Compl

datatype c_binop =
    C_Comma | C_Lor | C_Land | C_Or | C_Xor | C_And | C_Eq | C_Ne | C_Lt | C_Gt | C_Ge | C_Le
  | C_Shl | C_Shr | C_Add | C_Sub | C_Mul | C_Div | C_Rem | C_Pow

datatype c_expr = C_Lit int | C_Unop c_unop c_expr | C_Binop c_binop c_expr c_expr

definition wrap64 :: "int \<Rightarrow> int" where
  "wrap64 n = (n + 2 ^ 63) mod 2 ^ 64 - 2 ^ 63"

definition flag :: "bool \<Rightarrow> int" where
  "flag b = (if b then 1 else 0)"

fun c_unary :: "c_unop \<Rightarrow> int \<Rightarrow> int" where
  "c_unary C_Minus x = wrap64 (- x)"
| "c_unary C_Plus x = x"
| "c_unary C_Not x = flag (x = 0)"
| "c_unary C_Compl x = - x - 1"

fun c_binary :: "c_binop \<Rightarrow> int \<Rightarrow> int \<Rightarrow> math_err + int" where
  "c_binary C_Comma x y = Inr y"
| "c_binary C_Lor x y = Inr (flag (x \<noteq> 0 \<or> y \<noteq> 0))"
| "c_binary C_Land x y = Inr (flag (x \<noteq> 0 \<and> y \<noteq> 0))"
| "c_binary C_Or x y = Inr (x OR y)"
| "c_binary C_Xor x y = Inr (x XOR y)"
| "c_binary C_And x y = Inr (x AND y)"
| "c_binary C_Eq x y = Inr (flag (x = y))"
| "c_binary C_Ne x y = Inr (flag (x \<noteq> y))"
| "c_binary C_Lt x y = Inr (flag (x < y))"
| "c_binary C_Gt x y = Inr (flag (x > y))"
| "c_binary C_Ge x y = Inr (flag (x \<ge> y))"
| "c_binary C_Le x y = Inr (flag (x \<le> y))"
| "c_binary C_Shl x y = Inr (wrap64 (x * 2 ^ nat (y mod 64)))"
| "c_binary C_Shr x y = Inr (x div 2 ^ nat (y mod 64))"
| "c_binary C_Add x y = Inr (wrap64 (x + y))"
| "c_binary C_Sub x y = Inr (wrap64 (x - y))"
| "c_binary C_Mul x y = Inr (wrap64 (x * y))"
| "c_binary C_Div x y = (if y = 0 then Inl Divide_by_zero else Inr (wrap64 (x sdiv y)))"
| "c_binary C_Rem x y = (if y = 0 then Inl Divide_by_zero else Inr (x smod y))"
| "c_binary C_Pow x y = (if y < 0 then Inl Exponent_negative else Inr (wrap64 (x ^ nat y)))"

fun c_value :: "c_expr \<Rightarrow> math_err + int" where
  "c_value (C_Lit n) = Inr n"
| "c_value (C_Unop u e) = map_sum id (c_unary u) (c_value e)"
| "c_value (C_Binop op a b) =
     (case c_value a of Inl err \<Rightarrow> Inl err
      | Inr x \<Rightarrow> (case c_value b of Inl err \<Rightarrow> Inl err | Inr y \<Rightarrow> c_binary op x y))"

fun c_unop_symbol :: "c_unop \<Rightarrow> string" where
  "c_unop_symbol C_Minus = ''-''" | "c_unop_symbol C_Plus = ''+''"
| "c_unop_symbol C_Not = ''!''" | "c_unop_symbol C_Compl = ''~''"

fun c_symbol :: "c_binop \<Rightarrow> string" where
  "c_symbol C_Comma = '',''" | "c_symbol C_Lor = ''||''" | "c_symbol C_Land = ''&&''"
| "c_symbol C_Or = ''|''" | "c_symbol C_Xor = ''^''" | "c_symbol C_And = ''&''"
| "c_symbol C_Eq = ''==''" | "c_symbol C_Ne = ''!=''" | "c_symbol C_Lt = ''<''"
| "c_symbol C_Gt = ''>''" | "c_symbol C_Ge = ''>=''" | "c_symbol C_Le = ''<=''"
| "c_symbol C_Shl = ''<<''" | "c_symbol C_Shr = ''>>''" | "c_symbol C_Add = ''+''"
| "c_symbol C_Sub = ''-''" | "c_symbol C_Mul = ''*''" | "c_symbol C_Div = ''/''"
| "c_symbol C_Rem = ''%''" | "c_symbol C_Pow = ''**''"

text \<open>How tightly an operator binds; a constant binds tighter than all of them, the prefix
  operators tighter than the binary ones.\<close>

fun c_binds :: "c_binop \<Rightarrow> nat" where
  "c_binds C_Comma = 1" | "c_binds C_Lor = 2" | "c_binds C_Land = 3" | "c_binds C_Or = 4"
| "c_binds C_Xor = 5" | "c_binds C_And = 6" | "c_binds C_Eq = 7" | "c_binds C_Ne = 7"
| "c_binds C_Lt = 8" | "c_binds C_Gt = 8" | "c_binds C_Ge = 8" | "c_binds C_Le = 8"
| "c_binds C_Shl = 9" | "c_binds C_Shr = 9" | "c_binds C_Add = 10" | "c_binds C_Sub = 10"
| "c_binds C_Mul = 11" | "c_binds C_Div = 11" | "c_binds C_Rem = 11" | "c_binds C_Pow = 12"

fun c_level :: "c_expr \<Rightarrow> nat" where
  "c_level (C_Lit n) = 14"
| "c_level (C_Unop u e) = 13"
| "c_level (C_Binop op a b) = c_binds op"

text \<open>The text of an expression: parentheses around an operand that binds less tightly than
  its operator, and around one that binds equally on the side the operator does not
  associate to.\<close>

fun show_c :: "c_expr \<Rightarrow> string" where
  "show_c (C_Lit n) = CHR '' '' # decimal n"
| "show_c (C_Unop u e) = CHR '' '' # c_unop_symbol u @ parens (c_level e < 13) (show_c e)"
| "show_c (C_Binop op a b) =
     parens (if op = C_Pow then c_level a \<le> c_binds op else c_level a < c_binds op) (show_c a) @
     CHR '' '' # c_symbol op @
     parens (if op = C_Pow then c_level b < c_binds op else c_level b \<le> c_binds op) (show_c b)"

fun c_wf :: "c_expr \<Rightarrow> bool" where
  "c_wf (C_Lit n) \<longleftrightarrow> 0 \<le> n \<and> n < 2 ^ 63"
| "c_wf (C_Unop u e) \<longleftrightarrow> c_wf e"
| "c_wf (C_Binop op a b) \<longleftrightarrow> c_wf a \<and> c_wf b"

section \<open>The operators of the program are the C operators\<close>

fun unop_token :: "c_unop \<Rightarrow> operator" where
  "unop_token C_Minus = TOK_UMINUS" | "unop_token C_Plus = TOK_UPLUS"
| "unop_token C_Not = TOK_NOT" | "unop_token C_Compl = TOK_BNOT"

fun binop_token :: "c_binop \<Rightarrow> operator" where
  "binop_token C_Comma = TOK_COMMA" | "binop_token C_Lor = TOK_OR"
| "binop_token C_Land = TOK_AND" | "binop_token C_Or = TOK_BOR"
| "binop_token C_Xor = TOK_BXOR" | "binop_token C_And = TOK_BAND"
| "binop_token C_Eq = TOK_EQ" | "binop_token C_Ne = TOK_NE" | "binop_token C_Lt = TOK_LT"
| "binop_token C_Gt = TOK_GT" | "binop_token C_Ge = TOK_GE" | "binop_token C_Le = TOK_LE"
| "binop_token C_Shl = TOK_LSHIFT" | "binop_token C_Shr = TOK_RSHIFT"
| "binop_token C_Add = TOK_ADD" | "binop_token C_Sub = TOK_SUB" | "binop_token C_Mul = TOK_MUL"
| "binop_token C_Div = TOK_DIV" | "binop_token C_Rem = TOK_REM"
| "binop_token C_Pow = TOK_EXPONENT"

fun to_aexp :: "c_expr \<Rightarrow> aexp" where
  "to_aexp (C_Lit n) = Lit n"
| "to_aexp (C_Unop u e) = Unop (unop_token u) (to_aexp e)"
| "to_aexp (C_Binop op a b) = Binop (binop_token op) (to_aexp a) (to_aexp b)"

lemma wf_to_aexp: "c_wf e \<Longrightarrow> wf_expr (to_aexp e)"
proof (induction e)
  case (C_Unop u e)
  then show ?case by (cases u) (simp_all add: unary_ops_def)
next
  case (C_Binop op a b)
  then show ?case by (cases op) (simp_all add: binary_ops_def)
qed simp

lemma unop_text: "op_text (unop_token u) = c_unop_symbol u"
  by (cases u) (simp_all add: op_text_def op_tokens_def)

lemma binop_text: "op_text (binop_token op) = c_symbol op"
  by (cases op) (simp_all add: op_text_def op_tokens_def)

text \<open>The precedences of the program order the operators as the table above does.\<close>

lemma unary_parens: "level (to_aexp e) < 16 \<longleftrightarrow> c_level e < 13"
proof (cases e)
  case (C_Binop op a b)
  then show ?thesis by (cases op) simp_all
qed simp_all

lemma left_parens:
  "level (to_aexp e) < left_level (binop_token op) \<longleftrightarrow>
    (if op = C_Pow then c_level e \<le> c_binds op else c_level e < c_binds op)"
proof (cases e)
  case (C_Binop op' a b)
  then show ?thesis by (cases op; cases op'; simp add: left_level_def)
next
  case (C_Lit n)
  then show ?thesis by (cases op; simp add: left_level_def)
next
  case (C_Unop u a)
  then show ?thesis by (cases op; simp add: left_level_def)
qed

lemma right_parens:
  "level (to_aexp e) < right_level (binop_token op) \<longleftrightarrow>
    (if op = C_Pow then c_level e < c_binds op else c_level e \<le> c_binds op)"
proof (cases e)
  case (C_Binop op' a b)
  then show ?thesis by (cases op; cases op'; simp add: right_level_def)
next
  case (C_Lit n)
  then show ?thesis by (cases op; simp add: right_level_def)
next
  case (C_Unop u a)
  then show ?thesis by (cases op; simp add: right_level_def)
qed

lemma show_to_aexp: "show_body (to_aexp e) = show_c e"
  by (induction e) (simp_all add: unop_text binop_text unary_parens left_parens right_parens)

lemma sint_wrap64: "sint (word_of_int n :: i64) = wrap64 n"
  by (simp add: int_word_sint wrap64_def)

lemma sint_of_flag [simp]: "sint (of_flag b) = flag b"
  by (simp add: of_flag_def flag_def)

lemma sint_shift_count: "shift_count y = nat (sint y mod 64)"
proof -
  have m: "y AND 63 = take_bit 6 y" by (simp add: take_bit_eq_mask mask_numeral)
  have "int (shift_count y) = uint (take_bit 6 y)"
    by (simp only: shift_count_def m) simp
  also have "\<dots> = take_bit 6 (uint y)" by (rule unsigned_take_bit_eq)
  also have "take_bit 6 (uint y) = take_bit 6 (sint y)"
    by (simp add: sint_uint take_bit_signed_take_bit)
  finally show ?thesis by (simp add: take_bit_eq_mod flip: nat_int)
qed

text \<open>A word that is given by an integer expression of its operands has its wrapped value.\<close>

lemma sint_words:
  "sint (a + b :: i64) = wrap64 (sint a + sint b)" "sint (a - b :: i64) = wrap64 (sint a - sint b)"
  "sint (a * b :: i64) = wrap64 (sint a * sint b)" "sint (- a :: i64) = wrap64 (- sint a)"
  "sint (push_bit n a :: i64) = wrap64 (sint a * 2 ^ n)" "sint (a ^ n :: i64) = wrap64 (sint a ^ n)"
  by (simp_all flip: sint_wrap64 add: push_bit_eq_mult)

lemma sint_logic:
  "sint (a OR b :: i64) = sint a OR sint b" "sint (a AND b :: i64) = sint a AND sint b"
  "sint (a XOR b :: i64) = sint a XOR sint b" "sint (NOT a :: i64) = - sint a - 1"
proof -
  have "NOT a = word_of_int (- sint a - 1)" by (simp add: not_eq_complement)
  then have "sint (NOT a) = wrap64 (- sint a - 1)" by (simp only: sint_wrap64)
  also have "\<dots> = - sint a - 1"
    using sint_ge [of a] sint_lt [of a] by (simp add: wrap64_def)
  finally show "sint (NOT a) = - sint a - 1" .
qed (simp_all add: signed_or_eq signed_and_eq signed_xor_eq)

lemma sint_eq_0: "a = 0 \<longleftrightarrow> sint (a :: i64) = 0"
  by (metis signed_word_eqI sint_0)

lemma sint_eq: "a = b \<longleftrightarrow> sint a = sint (b :: i64)"
  by (metis signed_word_eqI)

lemma wrap64_smod:
  assumes "sint (y :: i64) \<noteq> 0"
  shows "wrap64 (sint (x :: i64) smod sint y) = sint x smod sint y"
proof -
  have "\<bar>sint y\<bar> \<le> 2 ^ 63" using sint_ge [of y] sint_lt [of y] by (simp add: abs_le_iff)
  then have "- (2 ^ 63) \<le> sint x smod sint y \<and> sint x smod sint y < 2 ^ 63"
    using smod_int_range [OF assms, of "sint x"] by auto
  then show ?thesis by (simp add: wrap64_def)
qed

lemma unary_token_value: "map_option sint (unary_value (unop_token u) x) = Some (c_unary u (sint x))"
  by (cases u) (simp_all add: sint_words sint_logic sint_eq_0)

lemma unat_sint: "0 \<le> sint (y :: i64) \<Longrightarrow> unat y = nat (sint y)"
proof -
  assume "0 \<le> sint y"
  then have "int (unat y) < int (2 ^ 63)" by (simp only: sint_nonneg_iff of_nat_less_iff)
  then have "uint y < 2 ^ 63" by simp
  moreover have "- (2 ^ 63) \<le> uint y" by (rule order_trans [OF _ uint_ge_0]) simp
  ultimately have "sint y = uint y" by (simp add: sint_uint signed_take_bit_int_eq_self)
  then show ?thesis by simp
qed

lemma binary_token_value:
  "map_sum id sint (binary_value (binop_token op) x y) = c_binary op (sint x) (sint y)"
proof (cases "op \<in> {C_Div, C_Rem}")
  case True
  then show ?thesis
    by (auto simp: conjunct1 [OF division_value] conjunct2 [OF division_value] sint_wrap64 sint_eq_0 wrap64_smod simp del: binary_value.simps)
next
  case False
  then show ?thesis
    by (cases op) (auto simp: sint_words sint_logic sint_eq_0 sint_eq sint_shift_count
        sint_signed_drop_bit_eq drop_bit_eq_div pow_loop_eq unat_sint intro!: arg_cong [of _ _ flag])
qed

lemma value_to_aexp: "c_wf e \<Longrightarrow> map_sum id sint (veval (to_aexp e)) = c_value e"
proof (induction e)
  case (C_Lit n)
  then show ?case by (simp add: sint_wrap64 wrap64_def)
next
  case (C_Unop u e)
  have "sint (the (unary_value (unop_token u) x)) = c_unary u (sint x)" for x
    using unary_token_value [of u x] by auto
  moreover have "c_value e = map_sum id sint (veval (to_aexp e))"
    by (rule C_Unop.IH [symmetric]) (use C_Unop.prems in simp)
  ultimately show ?case by (cases "veval (to_aexp e)") simp_all
next
  case (C_Binop op a b)
  have "c_value a = map_sum id sint (veval (to_aexp a))" "c_value b = map_sum id sint (veval (to_aexp b))"
    by (rule C_Binop.IH [symmetric], use C_Binop.prems in simp)+
  then show ?case
    by (cases "veval (to_aexp a)"; cases "veval (to_aexp b)") (simp_all flip: binary_token_value id_def)
qed

text \<open>C1: the precedence-climbing loop computes C expressions.  For every tree over decimal
  constants below 2^63, the four prefix operators and the twenty binary operators (all but
  assignment, ++, -- and ?:), written with parentheses only where the table of levels and
  associativities above needs them, \<open>evaluate_string\<close> returns exactly the value of the tree on
  mathematical integers reduced to 64 bits: operands are evaluated from left to right, the first
  error (division by zero, negative exponent) is the result, and the variables are not touched.\<close>

theorem arith_computes_expression:
  assumes "c_wf e"
  shows "evaluate_string lk sv (Suc depth) names v (show_c e) =
    Some (v, map_sum id word_of_int (c_value e))"
proof -
  have "map_sum id word_of_int (map_sum id sint (veval (to_aexp e))) = veval (to_aexp e)"
    by (cases "veval (to_aexp e)") simp_all
  then show ?thesis
    using evaluate_show_body [OF wf_to_aexp [OF assms], of lk sv depth names v]
    by (simp only: show_to_aexp value_to_aexp [OF assms])
qed

lemma arith_computes_expression_witness:
  "evaluate_string (\<lambda>v nm. None) (\<lambda>v nm x. v) 1 [] () '' 2 + 3 * 4 ** ( - 1 - 1 )'' =
     Some ((), Inl Exponent_negative) \<and>
   evaluate_string (\<lambda>v nm. None) (\<lambda>v nm x. v) 1 [] () (show_c
     (C_Binop C_Pow (C_Unop C_Minus (C_Lit 2)) (C_Binop C_Add (C_Lit 1) (C_Lit 2)))) =
   Some ((), Inr (- 8))"
proof -
  let ?e = "C_Binop C_Add (C_Lit 2) (C_Binop C_Mul (C_Lit 3) (C_Binop C_Pow (C_Lit 4)
    (C_Binop C_Sub (C_Unop C_Minus (C_Lit 1)) (C_Lit 1))))"
  let ?f = "C_Binop C_Pow (C_Unop C_Minus (C_Lit 2)) (C_Binop C_Add (C_Lit 1) (C_Lit 2))"
  have "show_c ?e = '' 2 + 3 * 4 ** ( - 1 - 1 )''" by code_simp
  moreover have "c_value ?e = Inl Exponent_negative" "c_value ?f = Inr (- 8)" by code_simp+
  ultimately show ?thesis
    using arith_computes_expression [of ?e "\<lambda>v nm. None" "\<lambda>v nm x. v" 0 "[]" "()"]
      arith_computes_expression [of ?f "\<lambda>v nm. None" "\<lambda>v nm x. v" 0 "[]" "()"] by simp
qed

end
