(* ===== verification/BaseCode.thy ===== *)
theory BaseCode imports Libbb begin

unbundle bit_operations_syntax

text \<open>
  The uuencode, base64 and base32 codecs: \<open>libbb/uuencode.c\<close> (\<open>bb_uuencode\<close>,
  \<open>decode_base64\<close>, \<open>decode_base32\<close>, \<open>read_base64\<close>) and the applets of
  \<open>coreutils/uudecode.c\<close> and \<open>coreutils/uuencode.c\<close>.

  Data is a list of bytes, text a string.  The decoders work in place in the source; what they
  write never overtakes what they read, so the model keeps input and output apart.  A stream is
  the list of its remaining characters, and EOF is its end.
\<close>

section \<open>Encoding\<close>

definition bb_uuenc_tbl_base32 :: string where
  "bb_uuenc_tbl_base32 = ''ABCDEFGHIJKLMNOPQRSTUVWXYZ234567''"

definition bb_uuenc_tbl_base64 :: string where
  "bb_uuenc_tbl_base64 = ''ABCDEFGHIJKLMNOPQRSTUVWXYZabcdefghijklmnopqrstuvwxyz0123456789+/=''"

text \<open>The table of the standard format starts and ends with a back quote; the codes 32 to 95
  are in order except for the blank.\<close>

definition bb_uuenc_tbl_std :: string where
  "bb_uuenc_tbl_std =
     CHR 0x60 # map char_of [33..<(96::nat)] @ [CHR 0x60]"

definition tbl_at :: "string \<Rightarrow> u8 \<Rightarrow> char" where
  "tbl_at tbl w = tbl ! unat w"

text \<open>The four characters for three bytes.\<close>

definition quad :: "string \<Rightarrow> u8 \<Rightarrow> u8 \<Rightarrow> u8 \<Rightarrow> string" where
  "quad tbl s0 s1 s2 =
     [tbl_at tbl (drop_bit 2 s0),
      tbl_at tbl (push_bit 4 (s0 AND 3) + drop_bit 4 s1),
      tbl_at tbl (push_bit 2 (s1 AND 0xf) + drop_bit 6 s2),
      tbl_at tbl (s2 AND 0x3f)]"

fun uuencode_loop :: "string \<Rightarrow> u8 list \<Rightarrow> string" where
  "uuencode_loop tbl [] = []"
| "uuencode_loop tbl [s0] = quad tbl s0 0 0"
| "uuencode_loop tbl [s0, s1] = quad tbl s0 s1 0"
| "uuencode_loop tbl (s0 # s1 # s2 # s) = quad tbl s0 s1 s2 @ uuencode_loop tbl s"

text \<open>\<open>length\<close> ends as 0, -1 or -2; that many characters are overwritten from the end.\<close>

definition bb_uuencode :: "u8 list \<Rightarrow> string \<Rightarrow> string" where
  "bb_uuencode src tbl =
     (let p = uuencode_loop tbl src; pad = (3 - length src mod 3) mod 3
      in take (length p - pad) p @ replicate pad (tbl ! 64))"

text \<open>\<open>bb_b32encode\<close>: five bytes to eight characters.  A byte past the end reads as 0.\<close>

definition octet :: "u8 \<Rightarrow> u8 \<Rightarrow> u8 \<Rightarrow> u8 \<Rightarrow> u8 \<Rightarrow> string" where
  "octet s0 s1 s2 s3 s4 = map (tbl_at bb_uuenc_tbl_base32)
     [drop_bit 3 s0,
      push_bit 2 (s0 AND 7) + drop_bit 6 s1,
      drop_bit 1 (s1 AND 0x3f),
      push_bit 4 ((s1 AND 0x3f) AND 1) + drop_bit 4 s2,
      push_bit 1 (s2 AND 0xf) + drop_bit 7 s3,
      drop_bit 2 (s3 AND 0x7f),
      push_bit 3 ((s3 AND 0x7f) AND 3) + drop_bit 5 s4,
      s4 AND 0x1f]"

fun b32encode_loop :: "u8 list \<Rightarrow> string" where
  "b32encode_loop [] = []"
| "b32encode_loop [s0] = octet s0 0 0 0 0"
| "b32encode_loop [s0, s1] = octet s0 s1 0 0 0"
| "b32encode_loop [s0, s1, s2] = octet s0 s1 s2 0 0"
| "b32encode_loop [s0, s1, s2, s3] = octet s0 s1 s2 s3 0"
| "b32encode_loop (s0 # s1 # s2 # s3 # s4 # s) = octet s0 s1 s2 s3 s4 @ b32encode_loop s"

definition bb_b32encode :: "u8 list \<Rightarrow> string" where
  "bb_b32encode src =
     (let p = b32encode_loop src; missing = (5 - length src mod 5) mod 5; pad = missing * 3 div 2
      in take (length p - pad) p @ replicate pad (CHR ''=''))"

section \<open>Decoding a buffer\<close>

text \<open>The value of a character with \<open>i\<close> symbols of the group already read and \<open>next\<close> the
  character after it; None: skip the character.\<close>

definition symbol64 :: "nat \<Rightarrow> char \<Rightarrow> char \<Rightarrow> u32 option" where
  "symbol64 i c nxt =
     (let t = of_char c :: u32 in
      if t \<ge> 48 \<and> t \<le> 57 then Some (t - 48 + 52)
      else if t \<ge> 65 \<and> t \<le> 90 then Some (t - 65)
      else if t \<ge> 97 \<and> t \<le> 122 then Some (t - 97 + 26)
      else if t = 43 then Some 62
      else if t = 47 then Some 63
      else if t = 61 \<and> (i = 3 \<or> (i = 2 \<and> nxt = CHR ''='')) then Some 0x1000000
      else None)"

text \<open>\<open>seen\<close> holds the characters before \<open>src\<close>, the nearest first: \<open>src - i\<close> is
  \<open>rev (take i seen)\<close> in front of the rest.\<close>

fun decode64_loop :: "u32 \<Rightarrow> nat \<Rightarrow> u8 list \<Rightarrow> string \<Rightarrow> string \<Rightarrow> u8 list \<times> string" where
  "decode64_loop ch i dst seen [] = (dst, rev (take i seen))"
| "decode64_loop ch i dst seen (c # src) =
     (case symbol64 i c (cur src) of
        None \<Rightarrow> decode64_loop ch i dst (c # seen) src
      | Some t \<Rightarrow>
          let ch = push_bit 6 ch OR t; i = (i + 1) mod 4 in
          if i = 0 then
            let dst = dst @ [ucast (drop_bit 16 ch), ucast (drop_bit 8 ch), ucast ch] in
            if ch AND 0x1000000 \<noteq> 0 then
              (if ch AND push_bit 6 0x1000000 \<noteq> 0 then butlast (butlast dst) else butlast dst, src)
            else decode64_loop 0 i dst (c # seen) src
          else decode64_loop ch i dst (c # seen) src)"

definition decode_base64 :: "string \<Rightarrow> u8 list \<times> string" where
  "decode_base64 src = decode64_loop 0 0 [] [] src"

definition symbol32 :: "nat \<Rightarrow> char \<Rightarrow> u32 option" where
  "symbol32 i c =
     (let t = of_char c :: u32 in
      if t \<ge> 50 \<and> t \<le> 55 then Some (t - 50 + 26)
      else if t = 61 \<and> i > 1 then Some 0
      else let t = (t OR 0x20) - 97 in if t > 25 then None else Some t)"

fun decode32_loop :: "u64 \<Rightarrow> nat \<Rightarrow> u8 list \<Rightarrow> string \<Rightarrow> string \<Rightarrow> u8 list \<times> string" where
  "decode32_loop ch i dst seen [] = (dst, rev (take i seen))"
| "decode32_loop ch i dst seen (c # src) =
     (case symbol32 i c of
        None \<Rightarrow> decode32_loop ch i dst (c # seen) src
      | Some t \<Rightarrow>
          let ch = push_bit 5 ch OR ucast t; i = (i + 1) mod 8 in
          if i = 0 then
            let dst = dst @ [ucast (drop_bit 32 ch), ucast (drop_bit 24 ch), ucast (drop_bit 16 ch),
                             ucast (drop_bit 8 ch), ucast ch] in
            if c = CHR ''='' then
              let i = length (takeWhile (\<lambda>c. c = CHR ''='') (c # seen))
              in (take (length dst - (i + 1) * 2 div 3) dst, src)
            else decode32_loop ch i dst (c # seen) src
          else decode32_loop ch i dst (c # seen) src)"

definition decode_base32 :: "string \<Rightarrow> u8 list \<times> string" where
  "decode_base32 src = decode32_loop 0 0 [] [] src"

section \<open>Decoding a stream\<close>

text \<open>The inner loop of \<open>read_base64\<close>: None is the return on \<open>exit_char\<close> with an empty
  buffer; otherwise the buffer, \<open>term_seen\<close> and the stream.\<close>

function fill_buf :: "int \<Rightarrow> string \<Rightarrow> string \<Rightarrow> (string \<times> bool \<times> string) option" where
  "fill_buf exit_char buf s =
     (if length buf < 80 then
        (case s of
           [] \<Rightarrow> if exit_char = - 1 \<and> buf = [] then None else Some (buf, True, [])
         | c # s' \<Rightarrow>
             if of_char c = exit_char then (if buf = [] then None else Some (buf, True, s'))
             else if of_char c \<le> (32 :: int) then Some (buf, False, s')
             else fill_buf exit_char (buf @ [c]) s')
      else Some (buf, False, s))"
  by pat_completeness auto
termination by (relation "measure (\<lambda>(_, _, s). length s)") auto

declare fill_buf.simps [simp del]
lemma of_char_not_eof [simp]: "of_char c \<noteq> (- 1 :: int)"
  using of_nat_of_char [of c, where ?'a = int] by (metis neg_0_le_iff_le not_one_le_zero of_nat_0_le_iff)

lemma fill_buf_progress:
  "fill_buf x buf s = Some (buf', False, s') \<Longrightarrow>
     length s' + length buf' \<le> length s + length buf \<and>
     (length s' + length buf' < length s + length buf \<or> 80 \<le> length buf')"
proof (induction s arbitrary: buf)
  case Nil
  then show ?case by (subst (asm) fill_buf.simps) (auto split: if_splits)
next
  case (Cons c s)
  from Cons.prems have "80 \<le> length buf \<and> buf' = buf \<and> s' = c # s \<or> buf' = buf \<and> s' = s \<or>
      fill_buf x (buf @ [c]) s = Some (buf', False, s')"
    by (subst (asm) fill_buf.simps) (auto split: if_splits)
  then show ?case using Cons.IH [of "buf @ [c]"] by auto
qed

definition decode_any :: "bool \<Rightarrow> string \<Rightarrow> u8 list \<times> string" where
  "decode_any base32 buf = (if base32 then decode_base32 buf else decode_base64 buf)"

definition rest_ok :: "nat \<Rightarrow> string \<Rightarrow> string \<Rightarrow> string \<Rightarrow> bool" where
  "rest_ok k seen src r \<longleftrightarrow>
     length r \<le> length seen + length src \<and> (length r \<le> k \<or> length r < length src)"

lemma rest_ok_step: "rest_ok k (c # seen) src r \<Longrightarrow> rest_ok k seen (c # src) r"
  "rest_ok k seen (c # src) src"
  by (auto simp: rest_ok_def)

lemma decode64_rest: "i < 4 \<Longrightarrow> rest_ok 3 seen src (snd (decode64_loop ch i dst seen src))"
proof (induction src arbitrary: ch i dst seen)
  case (Cons c src)
  then show ?case by (auto simp: Let_def split: option.split intro!: rest_ok_step)
qed (simp add: rest_ok_def)

lemma decode32_rest: "i < 8 \<Longrightarrow> rest_ok 7 seen src (snd (decode32_loop ch i dst seen src))"
proof (induction src arbitrary: ch i dst seen)
  case (Cons c src)
  then show ?case by (auto simp: Let_def split: option.split intro!: rest_ok_step)
qed (simp add: rest_ok_def)

lemma decode_any_rest:
  "length (snd (decode_any b buf)) \<le> length buf \<and>
     (length (snd (decode_any b buf)) < length buf \<or> length buf < 80)"
  using decode64_rest [of 0 "[]" buf 0 "[]"] decode32_rest [of 0 "[]" buf 0 "[]"]
  by (auto simp: rest_ok_def decode_any_def decode_base64_def decode_base32_def)

lemma read_loop_less:
  assumes "fill_buf x buf s = Some (buf', False, s')" "(out, tail) = decode_any b buf'"
  shows "length tail + length s' < length buf + length s"
  using fill_buf_progress [OF assms(1)] decode_any_rest [of b buf']
  by (auto simp flip: assms(2))

text \<open>\<open>while (1)\<close> of \<open>read_base64\<close>: what was written, and False for the death with
  "truncated input".\<close>

function read_loop :: "int \<Rightarrow> bool \<Rightarrow> bool \<Rightarrow> string \<Rightarrow> string \<Rightarrow> u8 list \<times> bool" where
  "read_loop exit_char uu_style_end base32 buf s =
     (case fill_buf exit_char buf s of
        None \<Rightarrow> ([], True)
      | Some (buf, term_seen, s) \<Rightarrow>
          if uu_style_end \<and> buf = ''===='' then ([], True)
          else
            let (out, in_tail) = decode_any base32 buf in
            if term_seen then (out, in_tail = [])
            else
              let (more, ok) = read_loop exit_char uu_style_end base32 in_tail s
              in (out @ more, ok))"
  by pat_completeness auto
termination
  by (relation "measure (\<lambda>(_, _, _, buf, s). length buf + length s)")
    (auto, (metis read_loop_less)+)

declare read_loop.simps [simp del]

definition read_base64 :: "nat \<Rightarrow> string \<Rightarrow> u8 list \<times> bool" where
  "read_base64 flags src =
     (let exit_char = sint (of_nat flags :: u8) in
      read_loop exit_char (flags AND 0x100 \<noteq> 0) (flags AND 0x200 \<noteq> 0) [] src)"

section \<open>The applets\<close>

text \<open>The line wrapping of \<open>baseNUM_main\<close> for one encoded buffer and \<open>col \<noteq> 0\<close>:
  the text printed and the room left on the line.\<close>

function emit_loop :: "nat \<Rightarrow> nat \<Rightarrow> string \<Rightarrow> string \<times> nat" where
  "emit_loop col rem result =
     (let out = min (length result) rem; rem = rem - out;
          text = take out result @ (if rem \<noteq> 0 then [] else [CHR 0x0A])
      in if rem \<noteq> 0 then (text, rem)
         else if drop out result = [] \<or> out = 0 then (text, rem)
         else let (more, rem) = emit_loop col col (drop out result) in (text @ more, rem))"
  by pat_completeness auto
termination by (relation "measure (\<lambda>(_, _, r). length r)") auto

declare emit_loop.simps [simp del]

definition src_buf_size :: nat where "src_buf_size = 3 * 5 * 32"

function encode_file :: "bool \<Rightarrow> nat \<Rightarrow> nat \<Rightarrow> u8 list \<Rightarrow> string" where
  "encode_file base32 col rem src =
     (if src = [] then (if rem \<noteq> 0 then [CHR 0x0A] else [])
      else
        let chunk = take src_buf_size src;
            dst_buf = (if base32 then bb_b32encode chunk else bb_uuencode chunk bb_uuenc_tbl_base64)
        in if col = 0 then dst_buf @ encode_file base32 col rem (drop src_buf_size src)
           else
             let (text, rem) = emit_loop col (if rem = 0 then col else rem) dst_buf
             in text @ encode_file base32 col rem (drop src_buf_size src))"
  by pat_completeness auto
termination
  by (relation "measure (\<lambda>(_, _, _, src). length src)") (auto simp: src_buf_size_def)

declare encode_file.simps [simp del]

text \<open>\<open>base32 [-d] [-w COL]\<close> and \<open>base64 [-d] [-w COL]\<close> on standard input.\<close>

definition baseNUM_encode :: "bool \<Rightarrow> nat \<Rightarrow> u8 list \<Rightarrow> string" where
  "baseNUM_encode base32 col src = encode_file base32 col 0 src"

definition baseNUM_decode :: "bool \<Rightarrow> string \<Rightarrow> u8 list \<times> bool" where
  "baseNUM_decode base32 src = read_base64 (0xff + (if base32 then 0x200 else 0)) src"

end
