(* ===== verification/BaseCodeProps.thy ===== *)
theory BaseCodeProps imports BaseCode begin

unbundle bit_operations_syntax

text \<open>
  Round trips of the base64 and base32 codecs.  The reader of a stream is verified once, in the
  locale \<open>stream_codec\<close>, from what it needs of a decoder: on a prefix of an encoded
  text the decoder returns the bytes of the complete groups and hands back the characters of the
  incomplete one.  Both decoders are interpretations.
\<close>

section \<open>One group of base64\<close>

lemma sums_are_or:
  fixes s t :: u8
  shows "push_bit 4 (s AND 3) + drop_bit 4 t = push_bit 4 (s AND 3) OR drop_bit 4 t"
    "push_bit 2 (s AND 0xf) + drop_bit 6 t = push_bit 2 (s AND 0xf) OR drop_bit 6 t"
    "push_bit 2 (s AND 7) + drop_bit 6 t = push_bit 2 (s AND 7) OR drop_bit 6 t"
    "push_bit 4 ((s AND 0x3f) AND 1) + drop_bit 4 t = push_bit 4 ((s AND 0x3f) AND 1) OR drop_bit 4 t"
    "push_bit 1 (s AND 0xf) + drop_bit 7 t = push_bit 1 (s AND 0xf) OR drop_bit 7 t"
    "push_bit 3 ((s AND 0x7f) AND 3) + drop_bit 5 t = push_bit 3 ((s AND 0x7f) AND 3) OR drop_bit 5 t"
  by (rule byte_add_or; simp add: byte_bits)+

lemma less_bits:
  fixes w :: u8
  shows "\<not> bit w 6 \<Longrightarrow> \<not> bit w 7 \<Longrightarrow> unat w < 64" 
    "\<not> bit w 5 \<Longrightarrow> \<not> bit w 6 \<Longrightarrow> \<not> bit w 7 \<Longrightarrow> unat w < 32"
proof -
  have "w = take_bit 6 w" if "\<not> bit w 6" "\<not> bit w 7"
    by (rule byte_eqI) (use that in \<open>simp_all add: byte_bits\<close>)
  moreover have "unat (take_bit 6 w) < 64"
    by (simp only: unsigned_take_bit_eq) (rule less_le_trans [OF take_bit_nat_less_exp], simp)
  ultimately show "\<not> bit w 6 \<Longrightarrow> \<not> bit w 7 \<Longrightarrow> unat w < 64" by metis
  have "w = take_bit 5 w" if "\<not> bit w 5" "\<not> bit w 6" "\<not> bit w 7"
    by (rule byte_eqI) (use that in \<open>simp_all add: byte_bits\<close>)
  moreover have "unat (take_bit 5 w) < 32"
    by (simp only: unsigned_take_bit_eq) (rule less_le_trans [OF take_bit_nat_less_exp], simp)
  ultimately show "\<not> bit w 5 \<Longrightarrow> \<not> bit w 6 \<Longrightarrow> \<not> bit w 7 \<Longrightarrow> unat w < 32" by metis
qed

lemma u32_of_char: "unat (of_char c :: u32) = of_char c"
proof -
  have "of_char c < (256 :: nat)" using ascii_less [of c] unfolding ascii_def .
  then have "of_char c < (2 :: nat) ^ LENGTH(32)" by (rule less_le_trans) simp
  then have "unat (of_nat (of_char c) :: u32) = of_char c" by (simp only: unat_of_nat mod_less)
  then show ?thesis by (simp only: of_nat_of_char)
qed

lemma u32_char_pad: "(of_char c :: u32) = 61 \<longleftrightarrow> c = CHR ''=''"
proof
  assume "(of_char c :: u32) = 61"
  with u32_of_char [of c] have "of_char c = (61 :: nat)" by simp
  then have "char_of (of_char c :: nat) = (char_of (61 :: nat) :: char)" by simp
  also have "\<dots> = CHR ''=''" by code_simp
  finally show "c = CHR ''=''" by (simp only: char_of_char)
qed simp

lemma symbol64_other: "c \<noteq> CHR ''='' \<Longrightarrow> symbol64 i c nxt = symbol64 0 c (CHR ''a'')"
  using u32_char_pad [of c] by (simp add: symbol64_def Let_def)

lemma table64:
  "\<forall>n \<in> {..<64}. let c = bb_uuenc_tbl_base64 ! n in
     c \<noteq> CHR ''='' \<and> symbol64 0 c (CHR ''a'') = Some (of_nat n) \<and> of_char c > (32 :: int)"
proof -
  have "list_all (\<lambda>n. let c = bb_uuenc_tbl_base64 ! n in
     c \<noteq> CHR ''='' \<and> symbol64 0 c (CHR ''a'') = Some (of_nat n) \<and> of_char c > (32 :: int)) [0..<64]"
    by code_simp
  then show ?thesis by (simp only: list_all_iff set_upt atLeast_upt)
qed

lemma symbol64_tbl:
  assumes "unat w < 64"
  shows "symbol64 i (tbl_at bb_uuenc_tbl_base64 w) nxt = Some (ucast w)"
    "tbl_at bb_uuenc_tbl_base64 w \<noteq> CHR ''=''" "of_char (tbl_at bb_uuenc_tbl_base64 w) > (32 :: int)"
  using table64 [THEN bspec, of "unat w"] assms symbol64_other [of "tbl_at bb_uuenc_tbl_base64 w" i nxt]
  by (simp_all add: tbl_at_def Let_def)

lemma symbol64_pad: "symbol64 3 (CHR ''='') nxt = Some 0x1000000"
  "symbol64 2 (CHR ''='') (CHR ''='') = Some 0x1000000"
  by (simp_all add: symbol64_def)

text \<open>The four indices of a group and the accumulator the decoder builds from them.\<close>

abbreviation "ix0 s0 \<equiv> drop_bit 2 (s0 :: u8)"
abbreviation "ix1 s0 s1 \<equiv> push_bit 4 (s0 AND 3) OR drop_bit 4 (s1 :: u8)"
abbreviation "ix2 s1 s2 \<equiv> push_bit 2 (s1 AND 0xf) OR drop_bit 6 (s2 :: u8)"
abbreviation "ix3 s2 \<equiv> (s2 :: u8) AND 0x3f"

lemma ix_less: "unat (ix0 s0) < 64" "unat (ix1 s0 s1) < 64" "unat (ix2 s1 s2) < 64" "unat (ix3 s2) < 64"
  by (rule less_bits; simp add: byte_bits)+

lemma quad_ix: "quad tbl s0 s1 s2 = map (tbl_at tbl) [ix0 s0, ix1 s0 s1, ix2 s1 s2, ix3 s2]"
  by (simp only: quad_def sums_are_or list.map)

abbreviation acc2 :: "u8 \<Rightarrow> u8 \<Rightarrow> u32" where
  "acc2 s0 s1 \<equiv> push_bit 6 (ucast (ix0 s0)) OR ucast (ix1 s0 s1)"
abbreviation acc3 :: "u8 \<Rightarrow> u8 \<Rightarrow> u8 \<Rightarrow> u32" where
  "acc3 s0 s1 s2 \<equiv> push_bit 6 (acc2 s0 s1) OR ucast (ix2 s1 s2)"
abbreviation acc4 :: "u8 \<Rightarrow> u8 \<Rightarrow> u8 \<Rightarrow> u32" where
  "acc4 s0 s1 s2 \<equiv> push_bit 6 (acc3 s0 s1 s2) OR ucast (ix3 s2)"

lemma acc4_bytes:
  "ucast (drop_bit 16 (acc4 s0 s1 s2)) = s0" "ucast (drop_bit 8 (acc4 s0 s1 s2)) = s1"
  "ucast (acc4 s0 s1 s2) = s2"
  by (rule byte_eqI; simp add: byte_bits)+

lemma flag_bit:
  fixes w :: u32
  shows "w AND 0x1000000 = 0 \<longleftrightarrow> \<not> bit w 24" "w AND 0x40000000 = 0 \<longleftrightarrow> \<not> bit w 30"
  using and_exp_eq_0_iff_not_bit [of w 24] and_exp_eq_0_iff_not_bit [of w 30] by simp_all

lemma acc4_flag: "acc4 s0 s1 s2 AND 0x1000000 = 0"
  by (simp add: flag_bit byte_bits)

lemma acc3_pad:
  "ucast (drop_bit 16 (push_bit 6 (acc3 s0 s1 0) OR 0x1000000 :: u32)) = s0"
  "ucast (drop_bit 8 (push_bit 6 (acc3 s0 s1 0) OR 0x1000000 :: u32)) = s1"
  "(push_bit 6 (acc3 s0 s1 0) OR 0x1000000) AND 0x1000000 \<noteq> 0"
  "(push_bit 6 (acc3 s0 s1 0) OR 0x1000000) AND 0x40000000 = 0"
  by (rule byte_eqI; simp add: byte_bits)+ (simp_all add: flag_bit byte_bits)

lemma acc2_pad:
  "ucast (drop_bit 16 (push_bit 6 (push_bit 6 (acc2 s0 0) OR 0x1000000) OR 0x1000000 :: u32)) = s0"
  "(push_bit 6 (push_bit 6 (acc2 s0 0) OR 0x1000000) OR 0x1000000) AND (0x1000000 :: u32) \<noteq> 0"
  "(push_bit 6 (push_bit 6 (acc2 s0 0) OR 0x1000000) OR 0x1000000) AND (0x40000000 :: u32) \<noteq> 0"
  by (rule byte_eqI; simp add: byte_bits)+ (simp_all add: flag_bit byte_bits)

lemma quad_length [simp]: "length (quad tbl s0 s1 s2) = 4"
  by (simp add: quad_def)

abbreviation "b64 w \<equiv> tbl_at bb_uuenc_tbl_base64 w"

lemma decode64_quad:
  "decode64_loop 0 0 dst seen (quad bb_uuenc_tbl_base64 s0 s1 s2 @ src) =
   decode64_loop 0 0 (dst @ [s0, s1, s2]) (rev (quad bb_uuenc_tbl_base64 s0 s1 s2) @ seen) src"
proof -
  note sym = symbol64_tbl [OF ix_less(1) [of s0]] symbol64_tbl [OF ix_less(2) [of s0 s1]]
    symbol64_tbl [OF ix_less(3) [of s1 s2]] symbol64_tbl [OF ix_less(4) [of s2]]
  show ?thesis
    unfolding quad_ix list.map append.simps
    by (simp only: decode64_loop.simps sym option.case Let_def push_bit_of_0 or.left_neutral
        acc4_bytes acc4_flag) simp
qed

lemma decode64_partial:
  assumes "\<forall>c \<in> set cs. \<exists>w. unat w < 64 \<and> c = b64 w" "length cs < 4"
  shows "decode64_loop 0 0 dst seen cs = (dst, cs)"
proof -
  have sym: "\<exists>t. symbol64 i c nxt = Some t" if "c \<in> set cs" for i c nxt
    using assms(1) that by (auto simp: symbol64_tbl(1))
  consider "cs = []" | a where "cs = [a]" | a b where "cs = [a, b]" | a b c where "cs = [a, b, c]"
    using assms(2) by (auto simp: less_Suc_eq numeral_eq_Suc length_Suc_conv)
  then show ?thesis
  proof cases
    case (2 a)
    with sym [of a 0 cnul] show ?thesis by (auto simp: Let_def cur_def cnul_def)
  next
    case (3 a b)
    with sym [of a 0 b] sym [of b 1 cnul] show ?thesis by (auto simp: Let_def cur_def cnul_def)
  next
    case (4 a b c)
    with sym [of a 0 b] sym [of b 1 c] sym [of c 2 cnul] show ?thesis
      by (auto simp: Let_def cur_def cnul_def numeral_2_eq_2)
  qed simp
qed

lemma decode64_pad1:
  "decode64_loop 0 0 dst seen [b64 (ix0 s0), b64 (ix1 s0 s1), b64 (ix2 s1 0), CHR ''=''] =
     (dst @ [s0, s1], [])"
proof -
  note sym = symbol64_tbl [OF ix_less(1) [of s0]] symbol64_tbl [OF ix_less(2) [of s0 s1]]
    symbol64_tbl [OF ix_less(3) [of s1 0]]
  have three: "(0 + 1) mod 4 = (1 :: nat)" "(1 + 1) mod 4 = (2 :: nat)" "(2 + 1) mod 4 = (3 :: nat)"
    "(3 + 1) mod 4 = (0 :: nat)" by simp_all
  have flag: "push_bit 6 0x1000000 = (0x40000000 :: u32)" by code_simp
  show ?thesis
    by (simp only: decode64_loop.simps sym option.case Let_def push_bit_of_0 or.left_neutral three
        symbol64_pad acc3_pad flag) (simp add: butlast_append)
qed

lemma decode64_pad2:
  "decode64_loop 0 0 dst seen [b64 (ix0 s0), b64 (ix1 s0 0), CHR ''='', CHR ''=''] = (dst @ [s0], [])"
proof -
  note sym = symbol64_tbl [OF ix_less(1) [of s0]] symbol64_tbl [OF ix_less(2) [of s0 0]]
  have three: "(0 + 1) mod 4 = (1 :: nat)" "(1 + 1) mod 4 = (2 :: nat)" "(2 + 1) mod 4 = (3 :: nat)"
    "(3 + 1) mod 4 = (0 :: nat)" by simp_all
  have flag: "push_bit 6 0x1000000 = (0x40000000 :: u32)" by code_simp
  have c: "cur [CHR ''=''] = CHR ''=''" by (simp add: cur_def)
  show ?thesis
    by (simp only: decode64_loop.simps sym option.case Let_def push_bit_of_0 or.left_neutral three c
        symbol64_pad acc2_pad flag) (simp add: butlast_append)
qed

declare decode64_loop.simps [simp del]

abbreviation enc64 :: "u8 list \<Rightarrow> string" where
  "enc64 xs \<equiv> bb_uuencode xs bb_uuenc_tbl_base64"

lemma uuencode_loop_length: "length (uuencode_loop tbl xs) = 4 * ((length xs + 2) div 3)"
proof (induction tbl xs rule: uuencode_loop.induct)
  case (4 tbl s0 s1 s2 s)
  have "(length (s0 # s1 # s2 # s) + 2) div 3 = Suc ((length s + 2) div 3)"
    using div_add_self2 [of 3 "length s + 2"] by (simp add: add.commute)
  with 4 show ?case by (simp add: quad_def)
qed (simp_all add: quad_def)

lemma pad_shift: "(3 - Suc (Suc (Suc n)) mod 3) mod 3 = (3 - n mod 3) mod (3 :: nat)"
  by (simp add: mod_Suc)

lemma pad_le: "(3 - n mod 3) mod 3 \<le> 4 * ((n + 2) div 3 :: nat)"
proof (cases "n = 0")
  case False
  then have "1 \<le> (n + 2) div 3" by (simp add: less_eq_div_iff_mult_less_eq)
  moreover have "(3 - n mod 3) mod 3 < 3" by simp
  ultimately show ?thesis by linarith
qed simp

lemma bb_uuencode_simps:
  "bb_uuencode [] tbl = []"
  "bb_uuencode [s0] tbl = take 2 (quad tbl s0 0 0) @ [tbl ! 64, tbl ! 64]"
  "bb_uuencode [s0, s1] tbl = take 3 (quad tbl s0 s1 0) @ [tbl ! 64]"
  "bb_uuencode (s0 # s1 # s2 # xs) tbl = quad tbl s0 s1 s2 @ bb_uuencode xs tbl"
proof -
  show "bb_uuencode [] tbl = []" "bb_uuencode [s0] tbl = take 2 (quad tbl s0 0 0) @ [tbl ! 64, tbl ! 64]"
    "bb_uuencode [s0, s1] tbl = take 3 (quad tbl s0 s1 0) @ [tbl ! 64]"
    by (simp_all add: bb_uuencode_def quad_def Let_def numeral_2_eq_2)
  show "bb_uuencode (s0 # s1 # s2 # xs) tbl = quad tbl s0 s1 s2 @ bb_uuencode xs tbl"
    using pad_shift [of "length xs"] pad_le [of "length xs"]
    by (simp add: bb_uuencode_def quad_def Let_def uuencode_loop_length Suc_diff_le)
qed

lemma pad64: "bb_uuenc_tbl_base64 ! 64 = CHR ''=''" by code_simp

lemma enc64_simps:
  "enc64 [] = []"
  "enc64 [s0] = [b64 (ix0 s0), b64 (ix1 s0 0), CHR ''='', CHR ''='']"
  "enc64 [s0, s1] = [b64 (ix0 s0), b64 (ix1 s0 s1), b64 (ix2 s1 0), CHR ''='']"
  "enc64 (s0 # s1 # s2 # xs) = quad bb_uuenc_tbl_base64 s0 s1 s2 @ enc64 xs"
  by (simp_all only: bb_uuencode_simps pad64 quad_ix) (simp_all add: numeral_2_eq_2 numeral_3_eq_3)


text \<open>A newline must not separate the two pad characters.\<close>

definition lone_pad :: "string \<Rightarrow> string \<Rightarrow> bool" where
  "lone_pad before after \<longleftrightarrow> after = ''='' \<and> before \<noteq> [] \<and> last before = CHR ''=''"

definition prefix_decoded ::
    "(string \<Rightarrow> u8 list \<times> string) \<Rightarrow> (u8 list \<Rightarrow> string) \<Rightarrow> nat \<Rightarrow> u8 list \<Rightarrow> string \<Rightarrow> string
      \<Rightarrow> u8 list \<Rightarrow> bool" where
  "prefix_decoded dec enc blk dst buf more xs \<longleftrightarrow>
     (\<exists>out part pre ys. dec buf = (dst @ out, part) \<and> xs = out @ ys \<and> part @ more = enc ys \<and>
        length part < blk \<and> buf = pre @ part)"

lemma prefix_decodedI:
  "dec buf = (dst @ out, part) \<Longrightarrow> xs = out @ ys \<Longrightarrow> part @ more = enc ys \<Longrightarrow> length part < blk \<Longrightarrow>
     buf = pre @ part \<Longrightarrow> prefix_decoded dec enc blk dst buf more xs"
  by (auto simp: prefix_decoded_def)

lemma prefix_decoded_group:
  assumes "prefix_decoded dec enc blk (dst @ grp) buf more xs" "dec' (pre @ buf) = dec buf"
  shows "prefix_decoded dec' enc blk dst (pre @ buf) more (grp @ xs)"
proof -
  obtain out part pre' ys where "dec buf = ((dst @ grp) @ out, part)" "xs = out @ ys"
    "part @ more = enc ys" "length part < blk" "buf = pre' @ part"
    using assms(1) by (auto simp: prefix_decoded_def)
  with assms(2) show ?thesis
    by (intro prefix_decodedI [where out = "grp @ out" and pre = "pre @ pre'"]) simp_all
qed

lemma b64_set: "c \<in> set [b64 (ix0 s0), b64 (ix1 s0 s1), b64 (ix2 s1 s2), b64 (ix3 s2)] \<Longrightarrow>
    \<exists>w. unat w < 64 \<and> c = b64 w"
  using ix_less by (simp only: list.set insert_iff empty_iff) blast

lemmas triple_induct = uuencode_loop.induct [of "\<lambda>_ xs. P xs" "[]" for P, case_names none one two more]

lemma decode64_incomplete:
  assumes "\<forall>c \<in> set buf. \<exists>w. unat w < 64 \<and> c = b64 w" "length buf < 4" "buf @ more = enc64 xs"
  shows "prefix_decoded (decode64_loop 0 0 dst seen) enc64 4 dst buf more xs"
  using decode64_partial [OF assms(1,2)] assms(2,3)
  by (intro prefix_decodedI [where out = "[]" and pre = "[]" and part = buf and ys = xs]) simp_all

lemma split_quad:
  assumes "buf @ more = [a, b, c, d]"
  shows "buf = [] \<or> buf = [a] \<or> buf = [a, b] \<or> buf = [a, b, c] \<and> more = [d] \<or> buf = [a, b, c, d] \<and> more = []"
  using assms by (auto simp: append_eq_Cons_conv)

lemma decode64_prefix:
  assumes "buf @ more = enc64 xs" "\<not> lone_pad buf more"
  shows "prefix_decoded (decode64_loop 0 0 dst seen) enc64 4 dst buf more xs"
  using assms
proof (induction xs arbitrary: dst seen buf rule: triple_induct)
  case none
  then show ?case by (intro decode64_incomplete) (simp_all add: enc64_simps)
next
  case (one tbl s0)
  note splits = split_quad [OF one.prems(1) [unfolded enc64_simps]]
  from splits show ?case
  proof (elim disjE conjE)
    assume b: "buf = [b64 (ix0 s0), b64 (ix1 s0 0), CHR ''='', CHR ''='']" "more = []"
    show ?thesis unfolding b(1)
      by (rule prefix_decodedI [where out = "[s0]" and part = "[]" and ys = "[]" and pre = buf], rule decode64_pad2)
        (simp_all add: b enc64_simps)
  next
    assume "buf = [b64 (ix0 s0), b64 (ix1 s0 0), CHR ''='']" "more = ''=''"
    with one.prems(2) show ?thesis by (simp add: lone_pad_def)
  qed (rule decode64_incomplete; use one.prems(1) ix_less ix_less(2) [of s0 0] in auto)+
next
  case (two tbl s0 s1)
  note splits = split_quad [OF two.prems(1) [unfolded enc64_simps]]
  from splits show ?case
  proof (elim disjE conjE)
    assume b: "buf = [b64 (ix0 s0), b64 (ix1 s0 s1), b64 (ix2 s1 0), CHR ''='']" "more = []"
    show ?thesis unfolding b(1)
      by (rule prefix_decodedI [where out = "[s0, s1]" and part = "[]" and ys = "[]" and pre = buf], rule decode64_pad1)
        (simp_all add: b enc64_simps)
  qed (rule decode64_incomplete; use two.prems(1) ix_less ix_less(3) [of s1 0] in auto)+
next
  case (more tbl s0 s1 s2 xs)
  let ?q = "quad bb_uuenc_tbl_base64 s0 s1 s2"
  show ?case
  proof (cases "length buf < 4")
    case True
    have "buf = take (length buf) (?q @ enc64 xs)"
      using more.prems(1) by (metis append_eq_conv_conj enc64_simps(4))
    also have "\<dots> = take (length buf) ?q" using True by simp
    finally have "set buf \<subseteq> set ?q" by (metis set_take_subset)
    with True more.prems(1) b64_set [of _ s0 s1 s2] show ?thesis
      by (intro decode64_incomplete) (auto simp only: quad_ix list.map)
  next
    case False
    then have "length ?q \<le> length buf" by simp
    with more.prems(1) obtain buf' where buf: "buf = ?q @ buf'" "buf' @ more = enc64 xs"
      by (metis append_eq_append_conv_if append_take_drop_id enc64_simps(4) append_eq_append_conv2 append_assoc same_append_eq)
    have "\<not> lone_pad buf' more" using more.prems(2) buf(1) by (auto simp: lone_pad_def)
    from more.IH [OF buf(2) this]
    have "prefix_decoded (decode64_loop 0 0 (dst @ [s0, s1, s2]) (rev ?q @ seen)) enc64 4
        (dst @ [s0, s1, s2]) buf' more xs" .
    from prefix_decoded_group [OF this, of "decode64_loop 0 0 dst seen" ?q]
    show ?thesis by (simp only: buf(1) decode64_quad append_Cons append_Nil)
  qed
qed


section \<open>One group of base32\<close>

abbreviation "b32 w \<equiv> tbl_at bb_uuenc_tbl_base32 w"

lemma table32:
  "\<forall>n \<in> {..<32}. let c = bb_uuenc_tbl_base32 ! n in
     c \<noteq> CHR ''='' \<and> symbol32 0 c = Some (of_nat n) \<and> of_char c > (32 :: int)"
proof -
  have "list_all (\<lambda>n. let c = bb_uuenc_tbl_base32 ! n in
     c \<noteq> CHR ''='' \<and> symbol32 0 c = Some (of_nat n) \<and> of_char c > (32 :: int)) [0..<32]"
    by code_simp
  then show ?thesis by (simp only: list_all_iff set_upt atLeast_upt)
qed

lemma symbol32_tbl:
  assumes "unat w < 32"
  shows "symbol32 i (b32 w) = Some (ucast w)" "b32 w \<noteq> CHR ''=''" "of_char (b32 w) > (32 :: int)"
proof -
  note t = table32 [THEN bspec, of "unat w"]
  show p: "b32 w \<noteq> CHR ''=''" "of_char (b32 w) > (32 :: int)"
    using t assms by (simp_all add: tbl_at_def Let_def)
  have "symbol32 0 (b32 w) = Some (ucast w)" using t assms by (simp add: tbl_at_def Let_def)
  moreover have "symbol32 i (b32 w) = symbol32 0 (b32 w)"
    using p(1) u32_char_pad [of "b32 w"] by (simp add: symbol32_def Let_def)
  ultimately show "symbol32 i (b32 w) = Some (ucast w)" by simp
qed

lemma symbol32_pad: "1 < i \<Longrightarrow> symbol32 i (CHR ''='') = Some 0"
  by (simp add: symbol32_def)

definition acc5 :: "u64 \<Rightarrow> u32 list \<Rightarrow> u64" where
  "acc5 ch ts = foldl (\<lambda>ch t. push_bit 5 ch OR ucast t) ch ts"

definition bytes5 :: "u64 \<Rightarrow> u8 list" where
  "bytes5 ch = [ucast (drop_bit 32 ch), ucast (drop_bit 24 ch), ucast (drop_bit 16 ch),
     ucast (drop_bit 8 ch), ucast ch]"

definition indices5 :: "u8 \<Rightarrow> u8 \<Rightarrow> u8 \<Rightarrow> u8 \<Rightarrow> u8 \<Rightarrow> u8 list" where
  "indices5 s0 s1 s2 s3 s4 =
     [drop_bit 3 s0, push_bit 2 (s0 AND 7) OR drop_bit 6 s1, drop_bit 1 (s1 AND 0x3f),
      push_bit 4 ((s1 AND 0x3f) AND 1) OR drop_bit 4 s2, push_bit 1 (s2 AND 0xf) OR drop_bit 7 s3,
      drop_bit 2 (s3 AND 0x7f), push_bit 3 ((s3 AND 0x7f) AND 3) OR drop_bit 5 s4, s4 AND 0x1f]"

lemma octet_indices: "octet s0 s1 s2 s3 s4 = map b32 (indices5 s0 s1 s2 s3 s4)"
  by (simp only: octet_def indices5_def sums_are_or)

lemma indices5_length [simp]: "length (indices5 s0 s1 s2 s3 s4) = 8"
  by (simp add: indices5_def)

lemma indices5_less: "w \<in> set (indices5 s0 s1 s2 s3 s4) \<Longrightarrow> unat w < 32"
proof -
  have "list_all (\<lambda>w. \<not> bit w 5 \<and> \<not> bit w 6 \<and> \<not> bit w 7) (indices5 s0 s1 s2 s3 s4)"
    by (simp add: indices5_def byte_bits)
  then show "w \<in> set (indices5 s0 s1 s2 s3 s4) \<Longrightarrow> unat w < 32"
    using less_bits(2) [of w] by (simp add: list_all_iff)
qed

lemma bytes5_indices: "bytes5 (acc5 ch (map ucast (indices5 s0 s1 s2 s3 s4))) = [s0, s1, s2, s3, s4]"
proof -
  let ?a = "acc5 ch (map ucast (indices5 s0 s1 s2 s3 s4))"
  have "ucast (drop_bit 32 ?a) = s0" "ucast (drop_bit 24 ?a) = s1" "ucast (drop_bit 16 ?a) = s2"
    "ucast (drop_bit 8 ?a) = s3" "ucast ?a = s4"
    unfolding acc5_def indices5_def list.map foldl.simps
    by (rule byte_eqI; simp add: byte_bits)+
  then show ?thesis by (simp add: bytes5_def)
qed

text \<open>A run of symbols that does not complete the group.\<close>

lemma decode32_run:
  assumes "i + length cs < 8" "\<forall>k < length cs. \<exists>t. symbol32 (i + k) (cs ! k) = Some t"
  shows "\<exists>ts. length ts = length cs \<and> (\<forall>k < length cs. symbol32 (i + k) (cs ! k) = Some (ts ! k)) \<and>
    decode32_loop ch i dst seen (cs @ src) =
    decode32_loop (acc5 ch ts) (i + length cs) dst (rev cs @ seen) src"
  using assms
proof (induction cs arbitrary: ch i seen)
  case Nil
  then show ?case by (simp add: acc5_def)
next
  case (Cons c cs)
  obtain t where t: "symbol32 i c = Some t" using Cons.prems(2) by force
  have "Suc i + length cs < 8" "\<forall>k < length cs. \<exists>t. symbol32 (Suc i + k) (cs ! k) = Some t"
    using Cons.prems by force+
  from Cons.IH [OF this, of "push_bit 5 ch OR ucast t" "c # seen"]
  obtain ts where ts: "length ts = length cs" "\<forall>k < length cs. symbol32 (Suc i + k) (cs ! k) = Some (ts ! k)"
    "decode32_loop (push_bit 5 ch OR ucast t) (Suc i) dst (c # seen) (cs @ src) =
     decode32_loop (acc5 (push_bit 5 ch OR ucast t) ts) (Suc i + length cs) dst (rev cs @ c # seen) src"
    by blast
  have "decode32_loop ch i dst seen ((c # cs) @ src) =
      decode32_loop (push_bit 5 ch OR ucast t) (Suc i) dst (c # seen) (cs @ src)"
    using Cons.prems(1) t by (simp add: Let_def)
  with ts t show ?case
    by (intro exI [of _ "t # ts"]) (auto simp: acc5_def nth_Cons split: nat.split)
qed


lemma decode32_group:
  assumes len: "length cs = 8" "length ts = 8"
    and sym: "\<forall>k < 8. symbol32 k (cs ! k) = Some (ts ! k)"
  shows "decode32_loop ch 0 dst seen (cs @ src) =
    (let ch = acc5 ch ts; dst = dst @ bytes5 ch in
     if last cs = CHR ''='' then
       (take (length dst - (length (takeWhile (\<lambda>c. c = CHR ''='') (rev cs @ seen)) + 1) * 2 div 3) dst, src)
     else decode32_loop ch 0 dst (rev cs @ seen) src)"
proof -
  obtain cs' c where cs: "cs = cs' @ [c]" using len(1) by (cases cs rule: rev_cases) auto
  then have len': "length cs' = 7" using len(1) by simp
  have symk: "symbol32 k (cs' ! k) = Some (ts ! k)" if "k < 7" for k
    using sym [rule_format, of k] that cs len' by (simp add: nth_append)
  have c: "symbol32 7 c = Some (ts ! 7)"
    using sym [rule_format, of 7] cs len' by (simp add: nth_append)
  have "0 + length cs' < 8" "\<forall>k < length cs'. \<exists>t. symbol32 (0 + k) (cs' ! k) = Some t"
    using len' symk by auto
  from decode32_run [OF this, of ch dst seen "c # src"]
  obtain us where us: "length us = 7" "\<forall>k < 7. symbol32 k (cs' ! k) = Some (us ! k)"
    "decode32_loop ch 0 dst seen (cs @ src) = decode32_loop (acc5 ch us) 7 dst (rev cs' @ seen) (c # src)"
    using len' cs by auto
  have "us = take 7 ts" using us(1,2) symk len(2) by (intro nth_equalityI) auto
  moreover have "ts = take 7 ts @ [ts ! 7]" using len(2) take_Suc_conv_app_nth [of 7 ts] by simp
  ultimately have ts: "ts = us @ [ts ! 7]" by simp
  have "acc5 ch ts = push_bit 5 (acc5 ch us) OR ucast (ts ! 7)"
    by (subst ts) (simp add: acc5_def)
  then show ?thesis
    using us(3) c cs by (simp add: Let_def bytes5_def)
qed

declare decode32_loop.simps [simp del]

lemma bb_b32encode_simps:
  "bb_b32encode [] = []"
  "bb_b32encode [s0] = map b32 (take 2 (indices5 s0 0 0 0 0)) @ replicate 6 (CHR ''='')"
  "bb_b32encode [s0, s1] = map b32 (take 4 (indices5 s0 s1 0 0 0)) @ replicate 4 (CHR ''='')"
  "bb_b32encode [s0, s1, s2] = map b32 (take 5 (indices5 s0 s1 s2 0 0)) @ replicate 3 (CHR ''='')"
  "bb_b32encode [s0, s1, s2, s3] = map b32 (take 7 (indices5 s0 s1 s2 s3 0)) @ replicate 1 (CHR ''='')"
  by (simp_all add: bb_b32encode_def octet_indices take_map indices5_def)

lemma b32encode_loop_length: "length (b32encode_loop xs) = 8 * ((length xs + 4) div 5)"
proof (induction xs rule: b32encode_loop.induct)
  case (6 s0 s1 s2 s3 s4 s)
  have "(length (s0 # s1 # s2 # s3 # s4 # s) + 4) div 5 = Suc ((length s + 4) div 5)"
    using div_add_self2 [of 5 "length s + 4"] by (simp add: add.commute)
  with 6 show ?case by (simp add: octet_def)
qed (simp_all add: octet_def)

lemma pad32_le: "((5 - n mod 5) mod 5) * 3 div 2 \<le> 8 * ((n + 4) div 5 :: nat)"
proof (cases "n = 0")
  case False
  then have "1 \<le> (n + 4) div 5" by (simp add: less_eq_div_iff_mult_less_eq)
  moreover have "(5 - n mod 5) mod 5 < 5" by simp
  ultimately show ?thesis by linarith
qed simp

lemma bb_b32encode_group:
  "bb_b32encode (s0 # s1 # s2 # s3 # s4 # xs) = octet s0 s1 s2 s3 s4 @ bb_b32encode xs"
proof -
  have "(5 - length (s0 # s1 # s2 # s3 # s4 # xs) mod 5) mod 5 = (5 - length xs mod 5) mod 5"
    by (simp add: mod_Suc)
  then show ?thesis
    using pad32_le [of "length xs"]
    by (simp add: bb_b32encode_def octet_def Let_def b32encode_loop_length Suc_diff_le)
qed


lemma decode32_incomplete:
  assumes "\<forall>k < length buf. \<exists>t. symbol32 k (buf ! k) = Some t" "length buf < 8"
    "buf @ more = bb_b32encode xs"
  shows "prefix_decoded (decode32_loop ch 0 dst seen) bb_b32encode 8 dst buf more xs"
proof -
  have "0 + length buf < 8" "\<forall>k < length buf. \<exists>t. symbol32 (0 + k) (buf ! k) = Some t"
    using assms by auto
  from decode32_run [OF this, of ch dst seen "[]"]
  have "decode32_loop ch 0 dst seen buf = (dst, buf)"
    by (auto simp: decode32_loop.simps)
  with assms(2,3) show ?thesis
    by (intro prefix_decodedI [where out = "[]" and pre = "[]" and part = buf and ys = xs]) simp_all
qed

text \<open>The last group of a text: the indices of the bytes that are there, then pad characters.\<close>

lemma decode32_tail:
  assumes bytes: "take n [s0, s1, s2, s3, s4] = xs" "n < 5" and n: "n + (8 - kept + 1) * 2 div 3 = 5"
    and kept: "2 \<le> kept" "kept < 8"
    and zero: "\<forall>w \<in> set (drop kept (indices5 s0 s1 s2 s3 s4)). w = 0"
    and eq: "buf @ more = bb_b32encode xs"
    and enc: "bb_b32encode xs = map b32 (take kept (indices5 s0 s1 s2 s3 s4)) @ replicate (8 - kept) (CHR ''='')"
  shows "prefix_decoded (decode32_loop ch 0 dst seen) bb_b32encode 8 dst buf more xs"
proof -
  let ?ix = "indices5 s0 s1 s2 s3 s4"
  let ?t = "bb_b32encode xs"
  have ix: "length ?ix = 8" by (simp add: indices5_def)
  then have t: "length ?t = 8" using kept by (simp add: enc)
  have sym: "symbol32 k (?t ! k) = Some (map ucast ?ix ! k)" if "k < 8" for k
  proof (cases "k < kept")
    case True
    then have "?t ! k = b32 (?ix ! k)" using ix kept by (simp add: enc nth_append)
    moreover have "unat (?ix ! k) < 32" using ix that by (intro indices5_less [of _ s0 s1 s2 s3 s4] nth_mem) simp
    ultimately show ?thesis using symbol32_tbl(1) ix that by simp
  next
    case False
    have "?ix ! k \<in> set (drop kept ?ix)"
      using nth_mem [of "k - kept" "drop kept ?ix"] False that ix by simp
    then have "?ix ! k = 0" using zero by blast
    moreover have "?t ! k = CHR ''=''" using False that ix kept by (simp add: enc nth_append)
    ultimately show ?thesis using False kept that ix by (simp add: symbol32_pad)
  qed
  show ?thesis
  proof (cases "length buf < 8")
    case True
    have "\<forall>k < length buf. \<exists>t. symbol32 k (buf ! k) = Some t"
    proof (intro allI impI)
      fix k assume "k < length buf"
      with sym [of k] True show "\<exists>t. symbol32 k (buf ! k) = Some t"
        unfolding eq [symmetric] by (simp add: nth_append)
    qed
    from decode32_incomplete [OF this True eq] show ?thesis .
  next
    case False
    have "length buf + length more = 8" using t by (simp flip: eq)
    with False have "length more = 0" by linarith
    then have more: "more = []" by simp
    with eq have buf: "buf = ?t" by simp
    have "takeWhile (\<lambda>c. c = CHR ''='') (rev ?t @ seen) = replicate (8 - kept) (CHR ''='')"
    proof -
      have "take kept ?ix \<noteq> []" using ix kept by (cases ?ix) auto
      then obtain ws w where w: "take kept ?ix = ws @ [w]" by (metis rev_exhaust)
      then have "w \<in> set ?ix" by (metis in_set_conv_decomp set_take_subset subsetD append_Nil2)
      then have "b32 w \<noteq> CHR ''=''" using indices5_less symbol32_tbl(2) by blast
      then show ?thesis by (simp add: enc w takeWhile_append)
    qed
    moreover have "last ?t = CHR ''=''" using kept by (simp add: enc)
    moreover have "length (dst @ [s0, s1, s2, s3, s4]) - (8 - kept + 1) * 2 div 3 = length dst + n"
      using n by simp
    moreover have "take (length dst + n) (dst @ [s0, s1, s2, s3, s4]) = dst @ xs"
      by (simp add: bytes)
    ultimately have "decode32_loop ch 0 dst seen ?t = (dst @ xs, [])"
      using decode32_group [of ?t "map ucast ?ix" ch dst seen "[]"] sym t ix
      by (simp only: bytes5_indices Let_def if_True append_Nil2 length_replicate length_map) simp
    then show ?thesis unfolding buf(1)
      by (intro prefix_decodedI [where out = xs and part = "[]" and ys = "[]" and pre = ?t])
        (simp_all add: more bb_b32encode_simps)
  qed
qed


lemmas quintuple_induct =
  b32encode_loop.induct [case_names none one two three four more]

lemma octet_length [simp]: "length (octet s0 s1 s2 s3 s4) = 8"
  by (simp add: octet_def)

lemma decode32_octet:
  "decode32_loop ch 0 dst seen (octet s0 s1 s2 s3 s4 @ src) =
   decode32_loop (acc5 ch (map ucast (indices5 s0 s1 s2 s3 s4))) 0 (dst @ [s0, s1, s2, s3, s4])
     (rev (octet s0 s1 s2 s3 s4) @ seen) src"
proof -
  let ?ix = "indices5 s0 s1 s2 s3 s4"
  have ix: "length ?ix = 8" by (simp add: indices5_def)
  have less: "unat (?ix ! k) < 32" if "k < 8" for k
    using ix that by (intro indices5_less [of _ s0 s1 s2 s3 s4] nth_mem) simp
  have sym: "\<forall>k < 8. symbol32 k (octet s0 s1 s2 s3 s4 ! k) = Some (map ucast ?ix ! k)"
    using less symbol32_tbl(1) ix by (simp add: octet_indices)
  have "?ix \<noteq> []" by (simp add: indices5_def)
  then have "last ?ix \<in> set ?ix" by (rule last_in_set)
  then have "unat (last ?ix) < 32" by (rule indices5_less)
  moreover have "last (octet s0 s1 s2 s3 s4) = b32 (last ?ix)"
    unfolding octet_indices by (rule last_map) fact
  ultimately have "last (octet s0 s1 s2 s3 s4) \<noteq> CHR ''=''" using symbol32_tbl(2) by simp
  then show ?thesis
    using decode32_group [OF _ _ sym, of ch dst seen src] ix by (simp add: bytes5_indices)
qed

lemma decode32_prefix:
  assumes "buf @ more = bb_b32encode xs"
  shows "prefix_decoded (decode32_loop ch 0 dst seen) bb_b32encode 8 dst buf more xs"
  using assms
proof (induction xs arbitrary: ch dst seen buf rule: quintuple_induct)
  case none
  then show ?case by (intro decode32_incomplete) (simp_all add: bb_b32encode_simps)
next
  case (one s0)
  show ?case
    by (rule decode32_tail [where n = 1 and kept = 2 and ?s0.0 = s0 and ?s1.0 = 0 and ?s2.0 = 0
          and ?s3.0 = 0 and ?s4.0 = 0])
      (use one.prems in \<open>simp_all add: indices5_def bb_b32encode_simps\<close>)
next
  case (two s0 s1)
  show ?case
    by (rule decode32_tail [where n = 2 and kept = 4 and ?s0.0 = s0 and ?s1.0 = s1 and ?s2.0 = 0
          and ?s3.0 = 0 and ?s4.0 = 0])
      (use two.prems in \<open>simp_all add: indices5_def bb_b32encode_simps\<close>)
next
  case (three s0 s1 s2)
  show ?case
    by (rule decode32_tail [where n = 3 and kept = 5 and ?s0.0 = s0 and ?s1.0 = s1 and ?s2.0 = s2
          and ?s3.0 = 0 and ?s4.0 = 0])
      (use three.prems in \<open>simp_all add: indices5_def bb_b32encode_simps\<close>)
next
  case (four s0 s1 s2 s3)
  show ?case
    by (rule decode32_tail [where n = 4 and kept = 7 and ?s0.0 = s0 and ?s1.0 = s1 and ?s2.0 = s2
          and ?s3.0 = s3 and ?s4.0 = 0])
      (use four.prems in \<open>simp_all add: indices5_def bb_b32encode_simps\<close>)
next
  case (more s0 s1 s2 s3 s4 xs)
  let ?o = "octet s0 s1 s2 s3 s4"
  show ?case
  proof (cases "length buf < 8")
    case True
    have sym: "\<exists>t. symbol32 k (?o ! k) = Some t" if "k < 8" for k
    proof -
      have "unat (indices5 s0 s1 s2 s3 s4 ! k) < 32"
        using that by (intro indices5_less [of _ s0 s1 s2 s3 s4] nth_mem) simp
      then show ?thesis using that symbol32_tbl(1) by (simp add: octet_indices)
    qed
    have "\<forall>k < length buf. buf ! k = ?o ! k"
      using True more.prems by (metis bb_b32encode_group nth_append octet_length order_less_trans)
    with sym True more.prems show ?thesis by (intro decode32_incomplete) auto
  next
    case False
    then have "length ?o \<le> length buf" by simp
    with more.prems obtain buf' where buf: "buf = ?o @ buf'" "buf' @ more = bb_b32encode xs"
      by (metis append_eq_append_conv_if append_take_drop_id bb_b32encode_group append_assoc same_append_eq)
    from more.IH [OF buf(2)]
    have "prefix_decoded (decode32_loop (acc5 ch (map ucast (indices5 s0 s1 s2 s3 s4))) 0
        (dst @ [s0, s1, s2, s3, s4]) (rev ?o @ seen)) bb_b32encode 8
        (dst @ [s0, s1, s2, s3, s4]) buf' more xs" .
    from prefix_decoded_group [OF this, of "decode32_loop ch 0 dst seen" ?o]
    show ?thesis by (simp only: buf(1) decode32_octet append_Cons append_Nil)
  qed
qed


section \<open>The stream reader, for any codec\<close>

abbreviation ctl :: "char \<Rightarrow> bool" where "ctl c \<equiv> of_char c \<le> (32 :: int)"

definition visible :: "string \<Rightarrow> string" where
  "visible s = filter (\<lambda>c. \<not> ctl c) s"

lemma visible_simps [simp]:
  "visible [] = []" "visible (c # s) = (if ctl c then visible s else c # visible s)"
  "visible (s @ t) = visible s @ visible t"
  by (simp_all add: visible_def)

text \<open>What filling the buffer does on a stream that ends at EOF: \<open>s1\<close> is the part
  of the stream it took.\<close>

definition filled :: "string \<Rightarrow> string \<Rightarrow> string \<Rightarrow> bool \<Rightarrow> string \<Rightarrow> string \<Rightarrow> bool" where
  "filled buf s buf' t s' s1 \<longleftrightarrow>
     s = s1 @ s' \<and> buf' = buf @ visible s1 \<and>
     (if t then s' = [] else length buf' = 80 \<or> (s1 \<noteq> [] \<and> ctl (last s1)))"

lemma filled_step:
  "filled (buf @ [c]) s buf' t s' s1 \<Longrightarrow> \<not> ctl c \<Longrightarrow> filled buf (c # s) buf' t s' (c # s1)"
  by (auto simp: filled_def)

lemma fill_buf_eof:
  assumes "length buf \<le> 80"
  shows "fill_buf (- 1) buf s = None \<Longrightarrow> buf = [] \<and> s = []"
    and "fill_buf (- 1) buf s = Some (buf', t, s') \<Longrightarrow> \<exists>s1. filled buf s buf' t s' s1"
  using assms
proof (induction s arbitrary: buf)
  case Nil
  {
    case 1
    then show ?case by (subst (asm) fill_buf.simps) (auto split: if_splits)
  next
    case 2
    then show ?case
      by (subst (asm) fill_buf.simps) (auto simp: filled_def split: if_splits)
  }
next
  case (Cons c s)
  have step: "fill_buf (- 1) buf (c # s) =
      (if length buf < 80 then if ctl c then Some (buf, False, s) else fill_buf (- 1) (buf @ [c]) s
       else Some (buf, False, c # s))" for buf
    by (subst fill_buf.simps) simp
  {
    case 1
    with Cons.IH(1) [of "buf @ [c]"] show ?case by (auto simp: step split: if_splits)
  next
    case 2
    consider "length buf = 80" | "length buf < 80" "ctl c" | "length buf < 80" "\<not> ctl c"
      using 2(2) by linarith
    then show ?case
    proof cases
      case 3
      with 2 have "fill_buf (- 1) (buf @ [c]) s = Some (buf', t, s')" by (simp add: step)
      from Cons.IH(2) [OF this] 3 filled_step show ?thesis by force
    qed (use 2 in \<open>auto simp: step filled_def intro: exI [of _ "[]"] exI [of _ "[c]"]\<close>)
  }
qed


text \<open>The contract between \<open>read_base64\<close> and a decoder of groups of \<open>blk\<close> characters.
  \<open>bad\<close> holds of the two sides of a place where a line must not end.\<close>

locale stream_codec =
  fixes base32 :: bool and enc :: "u8 list \<Rightarrow> string" and blk :: nat
    and bad :: "string \<Rightarrow> string \<Rightarrow> bool"
  assumes blk: "0 < blk" "blk \<le> 8" "blk dvd 80"
    and enc_groups: "blk dvd length (enc xs)"
    and enc_visible: "c \<in> set (enc xs) \<Longrightarrow> \<not> ctl c"
    and enc_Nil: "enc xs = [] \<Longrightarrow> xs = []"
    and prefix_law: "buf @ more = enc xs \<Longrightarrow> \<not> bad buf more \<Longrightarrow>
      prefix_decoded (decode_any base32) enc blk [] buf more xs"
    and bad_aligned: "bad buf more \<Longrightarrow> \<not> blk dvd length more"
    and bad_longer: "bad buf more \<Longrightarrow> bad (pre @ buf) more"
begin

text \<open>No line of the stream ends at a bad place.\<close>

definition lines_ok :: "string \<Rightarrow> string \<Rightarrow> bool" where
  "lines_ok part s \<longleftrightarrow>
     (\<forall>s1 c s2. s = s1 @ c # s2 \<longrightarrow> ctl c \<longrightarrow> \<not> bad (part @ visible s1) (visible s2))"

lemma lines_ok_rest:
  assumes "lines_ok part s" "s = s1 @ s'" "part @ visible s1 = pre @ part'"
  shows "lines_ok part' s'"
  unfolding lines_ok_def
proof (intro allI impI notI)
  fix t1 c t2
  assume "s' = t1 @ c # t2" "ctl c" and bad: "bad (part' @ visible t1) (visible t2)"
  moreover from this have "s = (s1 @ t1) @ c # t2" using assms(2) by simp
  ultimately have "\<not> bad (part @ visible (s1 @ t1)) (visible t2)"
    using assms(1) unfolding lines_ok_def by blast
  moreover have "part @ visible (s1 @ t1) = pre @ (part' @ visible t1)"
    using assms(3) by simp
  ultimately show False using bad_longer [OF bad, of pre] by metis
qed

lemma filled_not_bad:
  assumes "filled part s buf False s' s1" "lines_ok part s" "part @ visible s = enc xs"
  shows "\<not> bad buf (visible s')"
proof (cases "length buf = 80")
  case True
  have "length (enc xs) = 80 + length (visible s')"
    using assms(1,3) True by (auto simp: filled_def simp flip: assms(3))
  with enc_groups [of xs] blk(3) have "blk dvd length (visible s')"
    by (simp add: dvd_add_right_iff)
  with bad_aligned show ?thesis by blast
next
  case False
  with assms(1) have f: "s1 \<noteq> []" "ctl (last s1)" "s = s1 @ s'" "buf = part @ visible s1"
    by (auto simp: filled_def)
  then obtain s2 where s2: "s1 = s2 @ [last s1]" by (metis append_butlast_last_id)
  with f have "s = s2 @ last s1 # s'" by simp
  with assms(2) f(2) have "\<not> bad (part @ visible s2) (visible s')" by (auto simp: lines_ok_def)
  moreover have "visible s1 = visible s2" using s2 f(2) by (metis append_Nil2 visible_simps)
  ultimately show ?thesis using f(4) by simp
qed

lemma stream_decoded:
  "part @ visible s = enc xs \<Longrightarrow> length part < blk \<Longrightarrow> lines_ok part s \<Longrightarrow>
     read_loop (- 1) False base32 part s = (xs, True)"
proof (induction "length part + length s" arbitrary: part s xs rule: less_induct)
  case less
  have len: "length part \<le> 80" using less.prems(2) blk by simp
  show ?case
  proof (cases "fill_buf (- 1) part s")
    case None
    with fill_buf_eof(1) [OF len None] less.prems(1) enc_Nil [of xs] show ?thesis
      by (subst read_loop.simps) auto
  next
    case (Some r)
    obtain buf t s' where r: "r = (buf, t, s')" by (cases r) auto
    from fill_buf_eof(2) [OF len Some [unfolded r]] obtain s1 where
      f: "filled part s buf t s' s1" by blast
    have eq: "buf @ visible s' = enc xs" using f less.prems(1) by (simp add: filled_def)
    have "\<not> bad buf (visible s')"
    proof (cases t)
      case True
      with f bad_aligned [of buf "[]"] show ?thesis by (auto simp: filled_def)
    next
      case False
      with f have "filled part s buf False s' s1" by simp
      from filled_not_bad [OF this less.prems(3,1)] show ?thesis .
    qed
    from prefix_law [OF eq this] obtain out part' pre ys where
      d: "decode_any base32 buf = (out, part')" "xs = out @ ys" "part' @ visible s' = enc ys"
        "length part' < blk" "buf = pre @ part'"
      by (auto simp: prefix_decoded_def)
    show ?thesis
    proof (cases t)
      case True
      then have s': "s' = []" using f by (simp add: filled_def)
      then have "blk dvd length part'" using d(3) enc_groups [of ys] by simp
      with d(4) have "part' = []" using blk(1) by (auto dest: dvd_imp_le)
      moreover from this have "ys = []" using d(3) s' enc_Nil [of ys] by simp
      ultimately show ?thesis
        using Some r True d by (subst read_loop.simps) simp
    next
      case False
      have "lines_ok part' s'"
        using lines_ok_rest [OF less.prems(3), of s1 s' pre part'] f d(5) by (simp add: filled_def)
      moreover have "length part' + length s' < length part + length s"
        using read_loop_less [OF Some [unfolded r, simplified False] d(1) [symmetric]] by simp
      ultimately have "read_loop (- 1) False base32 part' s' = (ys, True)"
        using less.hyps d(3,4) by blast
      then show ?thesis using Some r False d(1,2) by (subst read_loop.simps) simp
    qed
  qed
qed

end

lemma char64_visible: "unat w < 64 \<Longrightarrow> \<not> ctl (b64 w)" and char32_visible: "unat v < 32 \<Longrightarrow> \<not> ctl (b32 v)"
  using symbol64_tbl(3) [of w] symbol32_tbl(3) [of v] by simp_all

lemma enc64_visible: "c \<in> set (enc64 xs) \<Longrightarrow> \<not> ctl c"
proof (induction xs rule: triple_induct)
  case (more tbl s0 s1 s2 xs)
  then show ?case
    using char64_visible [OF ix_less(1) [of s0]] char64_visible [OF ix_less(2) [of s0 s1]]
      char64_visible [OF ix_less(3) [of s1 s2]] char64_visible [OF ix_less(4) [of s2]]
    by (auto simp only: enc64_simps quad_ix list.map list.set set_append Un_iff insert_iff empty_iff)
next
  case (one tbl s0)
  then show ?case
    using char64_visible [OF ix_less(1) [of s0]] char64_visible [OF ix_less(2) [of s0 0]]
    by (auto simp only: enc64_simps list.set insert_iff empty_iff) simp_all
next
  case (two tbl s0 s1)
  then show ?case
    using char64_visible [OF ix_less(1) [of s0]] char64_visible [OF ix_less(2) [of s0 s1]]
      char64_visible [OF ix_less(3) [of s1 0]]
    by (auto simp only: enc64_simps list.set insert_iff empty_iff) simp_all
qed (simp add: enc64_simps)

lemma enc64_length: "length (enc64 xs) = 4 * ((length xs + 2) div 3)"
  using pad_le [of "length xs"] by (simp add: bb_uuencode_def Let_def uuencode_loop_length)

interpretation base64: stream_codec False enc64 4 lone_pad
proof
  fix buf more xs
  show "buf @ more = enc64 xs \<Longrightarrow> \<not> lone_pad buf more \<Longrightarrow>
      prefix_decoded (decode_any False) enc64 4 [] buf more xs"
    using decode64_prefix [of buf more xs "[]" "[]"]
    by (simp add: prefix_decoded_def decode_any_def decode_base64_def)
next
  fix xs :: "u8 list"
  show "enc64 xs = [] \<Longrightarrow> xs = []"
    using enc64_length [of xs] by (cases xs) auto
qed (auto simp: enc64_length enc64_visible lone_pad_def)


lemma enc32_length: "length (bb_b32encode xs) = 8 * ((length xs + 4) div 5)"
  using pad32_le [of "length xs"] by (simp add: bb_b32encode_def Let_def b32encode_loop_length)

lemma indices5_visible: "w \<in> set (indices5 s0 s1 s2 s3 s4) \<Longrightarrow> \<not> ctl (b32 w)"
  using indices5_less char32_visible by blast

lemma enc32_visible: "c \<in> set (bb_b32encode xs) \<Longrightarrow> \<not> ctl c"
proof (induction xs rule: quintuple_induct)
  case (more s0 s1 s2 s3 s4 xs)
  then show ?case
    using indices5_visible
    by (auto simp only: bb_b32encode_group octet_indices set_append Un_iff set_map image_iff)
qed (auto simp: bb_b32encode_simps dest!: in_set_takeD dest: indices5_visible)

interpretation base32: stream_codec True bb_b32encode 8 "\<lambda>_ _. False"
proof
  fix buf more xs
  show "buf @ more = bb_b32encode xs \<Longrightarrow> \<not> False \<Longrightarrow>
      prefix_decoded (decode_any True) bb_b32encode 8 [] buf more xs"
    using decode32_prefix [of buf more xs 0 "[]" "[]"]
    by (simp add: prefix_decoded_def decode_any_def decode_base32_def)
next
  fix xs :: "u8 list"
  show "bb_b32encode xs = [] \<Longrightarrow> xs = []"
    using enc32_length [of xs] by (cases xs) auto
qed (auto simp: enc32_length enc32_visible)

section \<open>Line wrapping\<close>

fun wrap :: "nat \<Rightarrow> nat \<Rightarrow> string \<Rightarrow> string" where
  "wrap col rem [] = (if rem \<noteq> 0 then [CHR 0x0A] else [])"
| "wrap col rem (c # t) =
     (let rem = (if rem = 0 then col else rem) - 1
      in c # (if rem = 0 then [CHR 0x0A] else []) @ wrap col rem t)"

lemma wrap_line:
  "u \<noteq> [] \<Longrightarrow> length u \<le> rem \<Longrightarrow>
     wrap col rem (u @ t) = u @ (if length u = rem then [CHR 0x0A] else []) @ wrap col (rem - length u) t"
proof (induction u arbitrary: rem)
  case (Cons c u)
  show ?case
  proof (cases "u = []")
    case True
    with Cons.prems show ?thesis by simp
  next
    case False
    then have "0 < length u" by simp
    then have "\<not> rem \<le> Suc 0" using Cons.prems(2) unfolding list.size by linarith
    with Cons.prems Cons.IH [OF False, of "rem - 1"] show ?thesis by auto
  qed
qed simp

lemma wrap_fresh: "t \<noteq> [] \<Longrightarrow> wrap col 0 t = wrap col col t"
  by (cases t) simp_all

lemma emit_loop_wrap:
  "r \<noteq> [] \<Longrightarrow> rem \<noteq> 0 \<Longrightarrow> col \<noteq> 0 \<Longrightarrow> emit_loop col rem r = (txt0, rem') \<Longrightarrow>
     wrap col rem (r @ t) = txt0 @ wrap col rem' t"
proof (induction "length r" arbitrary: r rem txt0 rem' rule: less_induct)
  case less
  let ?out = "min (length r) rem"
  show ?case
  proof (cases "rem \<le> length r")
    case False
    with less.prems have "txt0 = r" "rem' = rem - length r"
      by (subst (asm) emit_loop.simps; simp)+
    with False less.prems wrap_line [of r rem col t] show ?thesis by simp
  next
    case le: True
    show ?thesis
    proof (cases "drop rem r = []")
      case True
      with le less.prems have "txt0 = r @ [CHR 0x0A]" "rem' = 0"
        by (subst (asm) emit_loop.simps; simp)+
      with le True less.prems wrap_line [of r rem col t] show ?thesis by simp
    next
      case False
      obtain more r2 where e: "emit_loop col col (drop rem r) = (more, r2)" by fastforce
      with le False less.prems have x: "txt0 = take rem r @ [CHR 0x0A] @ more" "rem' = r2"
        by (subst (asm) emit_loop.simps; simp)+
      have "wrap col rem (take rem r @ drop rem r @ t) =
          take rem r @ [CHR 0x0A] @ wrap col 0 (drop rem r @ t)"
        using wrap_line [of "take rem r" rem col "drop rem r @ t"] le less.prems by simp
      also have "wrap col 0 (drop rem r @ t) = wrap col col (drop rem r @ t)"
        using False by (intro wrap_fresh) simp
      also have "\<dots> = more @ wrap col r2 t"
        using less.hyps [OF _ False _ _ e] False less.prems le by simp
      finally show ?thesis using x by (simp flip: append_assoc)
    qed
  qed
qed

lemma enc64_append: "length xs mod 3 = 0 \<Longrightarrow> enc64 (xs @ ys) = enc64 xs @ enc64 ys"
  by (induction xs rule: triple_induct) (simp_all add: enc64_simps mod_Suc split: if_splits)

lemma enc32_append: "length xs mod 5 = 0 \<Longrightarrow> bb_b32encode (xs @ ys) = bb_b32encode xs @ bb_b32encode ys"
  by (induction xs rule: quintuple_induct)
    (simp_all add: bb_b32encode_simps(1) bb_b32encode_group mod_Suc split: if_splits)

definition enc_any :: "bool \<Rightarrow> u8 list \<Rightarrow> string" where
  "enc_any base32 xs = (if base32 then bb_b32encode xs else enc64 xs)"

lemma enc_any_chunks:
  "enc_any b xs = enc_any b (take src_buf_size xs) @ enc_any b (drop src_buf_size xs)"
proof (cases "length xs < src_buf_size")
  case True
  then show ?thesis by (simp add: enc_any_def enc64_simps bb_b32encode_simps)
next
  case False
  then have "length (take src_buf_size xs) mod 3 = 0" "length (take src_buf_size xs) mod 5 = 0"
    by (simp_all add: src_buf_size_def)
  from enc64_append [OF this(1)] enc32_append [OF this(2)] show ?thesis
    unfolding enc_any_def by (metis append_take_drop_id)
qed

lemma enc_any_Nil: "enc_any b xs = [] \<longleftrightarrow> xs = []"
  using base64.enc_Nil [of xs] base32.enc_Nil [of xs]
  by (auto simp: enc_any_def enc64_simps bb_b32encode_simps)

lemma encode_file_plain: "encode_file b 0 0 src = enc_any b src"
proof (induction "length src" arbitrary: src rule: less_induct)
  case less
  show ?case
  proof (cases "src = []")
    case True
    moreover from this have "enc_any b src = []" by (simp add: enc_any_Nil)
    ultimately show ?thesis by (subst encode_file.simps) simp
  next
    case False
    then have "length (drop src_buf_size src) < length src" by (simp add: src_buf_size_def)
    from less [OF this] False show ?thesis
      by (subst encode_file.simps, subst enc_any_chunks) (simp add: Let_def enc_any_def)
  qed
qed

lemma encode_file_wrap: "col \<noteq> 0 \<Longrightarrow> encode_file b col rem src = wrap col rem (enc_any b src)"
proof (induction "length src" arbitrary: src rem rule: less_induct)
  case less
  show ?case
  proof (cases "src = []")
    case True
    then have "enc_any b src = []" by (simp add: enc_any_Nil)
    with True show ?thesis by (subst encode_file.simps) simp
  next
    case False
    let ?r = "if rem = 0 then col else rem"
    let ?c = "enc_any b (take src_buf_size src)" and ?d = "drop src_buf_size src"
    have ne: "?c \<noteq> []" using False by (simp add: enc_any_Nil src_buf_size_def)
    obtain txt0 r' where e: "emit_loop col ?r ?c = (txt0, r')" by fastforce
    have "length ?d < length src" using False by (simp add: src_buf_size_def)
    note IH = less.hyps [OF this less.prems]
    have "wrap col rem (enc_any b src) = wrap col ?r (?c @ enc_any b ?d)"
      using enc_any_chunks [of b src] wrap_fresh [of "?c @ enc_any b ?d" col] ne by auto
    also have "\<dots> = txt0 @ wrap col r' (enc_any b ?d)"
      using emit_loop_wrap [OF ne _ less.prems e] less.prems by simp
    also have "\<dots> = encode_file b col rem src"
      using False less.prems e IH
      by (subst encode_file.simps) (simp add: Let_def enc_any_def)
    finally show ?thesis by simp
  qed
qed


lemma visible_wrap: "\<forall>c \<in> set t. \<not> ctl c \<Longrightarrow> visible (wrap col rem t) = t"
  by (induction t arbitrary: rem) (auto simp: Let_def)

text \<open>Where a wrapped text has its newlines.\<close>

lemma wrap_newlines:
  assumes "\<forall>c \<in> set t. \<not> ctl c" "0 < col" "rem \<le> col" "wrap col rem t = s1 @ c # s2" "ctl c"
  shows "visible s2 = [] \<or> length (visible s1) mod col = rem mod col"
  using assms(1,3,4)
proof (induction t arbitrary: rem s1)
  case Nil
  then show ?case by (auto simp: Cons_eq_append_conv split: if_splits)
next
  case (Cons x t)
  let ?room = "if rem = 0 then col else rem"
  let ?r = "?room - 1"
  have x: "\<not> ctl x" using Cons.prems(1) by simp
  have r: "?room mod col = rem mod col" by simp
  have "0 < ?room" "?room \<le> col" using Cons.prems(2) assms(2) by simp_all
  then have r: "?room mod col = rem mod col" "?room = Suc ?r" "?r \<le> col" using r by linarith+
  have eq: "x # (if ?r = 0 then [CHR 0x0A] else []) @ wrap col ?r t = s1 @ c # s2"
    using Cons.prems(3) by (simp add: Let_def)
  then obtain s1' where s1: "s1 = x # s1'"
    and eq': "(if ?r = 0 then [CHR 0x0A] else []) @ wrap col ?r t = s1' @ c # s2"
    using x assms(5) by (cases s1) auto
  have step: "visible s2 = [] \<or> Suc (length (visible v)) mod col = rem mod col"
    if w: "wrap col ?r t = v @ c # s2" for v
  proof -
    have "\<forall>c \<in> set t. \<not> ctl c" using Cons.prems(1) by simp
    from Cons.IH [OF this r(3) w] show ?thesis
    proof
      assume "length (visible v) mod col = ?r mod col"
      then have "Suc (length (visible v)) mod col = Suc ?r mod col"
        by (metis mod_Suc_eq)
      then show ?thesis unfolding r(2) [symmetric] r(1) by (rule disjI2)
    qed (rule disjI1)
  qed
  show ?case
  proof (cases "?r = 0")
    case False
    with eq' step [of s1'] x s1 show ?thesis by simp
  next
    case True
    then have nl: "CHR 0x0A # wrap col ?r t = s1' @ c # s2" using eq' by simp
    show ?thesis
    proof (cases s1')
      case Nil
      with s1 x r(1,2) True show ?thesis by simp
    next
      case (Cons n v)
      with nl have "wrap col ?r t = v @ c # s2" "n = CHR 0x0A" by auto
      with step [of v] s1 x Cons show ?thesis by simp
    qed
  qed
qed

lemma no_ctl_split: "\<forall>c \<in> set t. \<not> ctl c \<Longrightarrow> t = s1 @ c # s2 \<Longrightarrow> \<not> ctl c"
  by simp

lemma read_base64_flags:
  "baseNUM_decode b s = read_loop (- 1) False b [] s"
proof -
  have "sint (of_nat 0xff :: u8) = - 1" "sint (of_nat (0xff + 0x200) :: u8) = - 1" by code_simp+
  moreover have "(0xff AND 0x100 :: nat) = 0" "(0xff AND 0x200 :: nat) = 0"
    "((0xff + 0x200) AND 0x100 :: nat) = 0" "((0xff + 0x200) AND 0x200 :: nat) \<noteq> 0" by code_simp+
  ultimately show ?thesis
    by (cases b) (simp_all add: baseNUM_decode_def read_base64_def)
qed

text \<open>C11: \<open>base32 -d\<close> undoes \<open>base32\<close>.  Whatever the file and wherever the lines
  are wrapped (or not at all), decoding the applet's output gives the file back and succeeds.\<close>

theorem base32_file_roundtrip: "baseNUM_decode True (baseNUM_encode True col xs) = (xs, True)"
proof -
  have "visible (baseNUM_encode True col xs) = bb_b32encode xs"
    using encode_file_plain [of True xs] encode_file_wrap [of col True 0 xs] enc32_visible [of _ xs]
      visible_wrap [of "bb_b32encode xs" col 0]
    by (cases "col = 0") (auto simp: baseNUM_encode_def enc_any_def visible_def filter_id_conv)
  then show ?thesis
    unfolding read_base64_flags
    by (intro base32.stream_decoded) (simp_all add: base32.lines_ok_def)
qed

lemma enc64_last:
  "xs \<noteq> [] \<Longrightarrow> length xs mod 3 \<noteq> 1 \<Longrightarrow> \<exists>t x y. enc64 xs = t @ [x, y] \<and> x \<noteq> CHR ''=''"
proof (induction xs rule: triple_induct)
  case (two tbl s0 s1)
  have "b64 (ix2 s1 0) \<noteq> CHR ''=''" by (rule symbol64_tbl(2) [OF ix_less(3)])
  then show ?case
    unfolding enc64_simps
    by (intro exI [of _ "[b64 (ix0 s0), b64 (ix1 s0 s1)]"] exI [of _ "b64 (ix2 s1 0)"]
        exI [of _ "CHR ''=''"]) simp
next
  case (more tbl s0 s1 s2 xs)
  show ?case
  proof (cases "xs = []")
    case True
    have "b64 (ix2 s1 s2) \<noteq> CHR ''=''" by (rule symbol64_tbl(2) [OF ix_less(3)])
    then show ?thesis
      unfolding enc64_simps quad_ix True
      by (intro exI [of _ "[b64 (ix0 s0), b64 (ix1 s0 s1)]"] exI [of _ "b64 (ix2 s1 s2)"]
          exI [of _ "b64 (ix3 s2)"]) simp
  next
    case False
    have "length (s0 # s1 # s2 # xs) = length xs + 3" by simp
    with more.prems(2) have "length xs mod 3 \<noteq> 1" by (simp only: mod_add_self2) simp
    from more.IH [OF False this] obtain t x y where "enc64 xs = t @ [x, y]" "x \<noteq> CHR ''=''" by blast
    then show ?thesis unfolding enc64_simps by (metis append_assoc)
  qed
qed simp_all

lemma enc64_lone_pad:
  assumes "lone_pad a b" "a @ b = enc64 xs"
  shows "length xs mod 3 = 1"
proof (rule ccontr)
  assume n: "length xs mod 3 \<noteq> 1"
  have "xs \<noteq> []" using assms by (auto simp: lone_pad_def enc64_simps)
  from enc64_last [OF this n] obtain t x y where "a @ b = t @ [x, y]" "x \<noteq> CHR ''=''"
    using assms(2) by auto
  then have "a = t @ [x]" "b = [y]" using assms(1) by (auto simp: lone_pad_def)
  with \<open>x \<noteq> CHR ''=''\<close> show False using assms(1) by (simp add: lone_pad_def)
qed

text \<open>C9: \<open>base64 -d\<close> undoes \<open>base64\<close>, unless the line length puts the second pad
  character on a line of its own: for every file, without wrapping or when the file does not end
  in a group of one byte or when the line length does not divide the encoded length less one
  (no multiple of 4, such as the default 76, does), decoding the applet's output gives the file
  back and succeeds.\<close>

theorem base64_file_roundtrip:
  assumes "col = 0 \<or> length xs mod 3 \<noteq> 1 \<or> (4 * ((length xs + 2) div 3) - 1) mod col \<noteq> 0"
  shows "baseNUM_decode False (baseNUM_encode False col xs) = (xs, True)"
proof -
  let ?s = "baseNUM_encode False col xs"
  have s: "?s = (if col = 0 then enc64 xs else wrap col 0 (enc64 xs))"
    using encode_file_plain [of False xs] encode_file_wrap [of col False 0 xs]
    by (simp add: baseNUM_encode_def enc_any_def)
  have vis: "visible ?s = enc64 xs"
    unfolding s using enc64_visible [of _ xs] visible_wrap [of "enc64 xs" col 0]
    by (auto simp: visible_def filter_id_conv)
  have "base64.lines_ok [] ?s"
    unfolding base64.lines_ok_def append_Nil
  proof (intro allI impI notI)
    fix s1 c s2
    assume split: "?s = s1 @ c # s2" "ctl c" and bad: "lone_pad (visible s1) (visible s2)"
    have eq: "visible s1 @ visible s2 = enc64 xs" using vis split by simp
    have len: "Suc (length (visible s1)) = length (enc64 xs)"
      using bad arg_cong [OF eq, of length] by (simp add: lone_pad_def)
    have "col \<noteq> 0" using split enc64_visible [of c xs] s by (auto split: if_splits)
    moreover have "length (visible s1) mod col = 0 mod col"
      using wrap_newlines [of "enc64 xs" col 0 s1 c s2] split enc64_visible [of _ xs] s bad
        \<open>col \<noteq> 0\<close> by (auto simp: lone_pad_def)
    moreover have "length xs mod 3 = 1" by (rule enc64_lone_pad [OF bad eq])
    moreover have "length (visible s1) = 4 * ((length xs + 2) div 3) - 1"
      using len enc64_length [of xs] by simp
    ultimately show False using assms by simp
  qed
  then show ?thesis
    unfolding read_base64_flags
    by (intro base64.stream_decoded) (simp_all add: vis)
qed

lemma base64_file_roundtrip_witness:
  "baseNUM_decode False (baseNUM_encode False 2 [72, 105, 33, 10]) = ([72, 105, 33, 10], True)"
  by (rule base64_file_roundtrip) simp

section \<open>The lost byte\<close>

lemma decode64_lone:
  assumes "buf @ ''='' = enc64 xs" "lone_pad buf ''=''"
  shows "\<exists>q. unat q < 64 \<and> decode64_loop 0 0 dst seen buf = (dst @ butlast xs, [b64 q, CHR ''=''])"
  using assms
proof (induction xs arbitrary: dst seen buf rule: triple_induct)
  case none
  then show ?case by (simp add: enc64_simps)
next
  case (one tbl s0)
  then have b: "buf = [b64 (ix0 s0), b64 (ix1 s0 0), CHR ''='']" by (simp add: enc64_simps)
  note sym = symbol64_tbl(1) [OF ix_less(1) [of s0]] symbol64_tbl(1) [OF ix_less(2) [of s0 0]]
  have skip: "symbol64 (((0 + 1) mod 4 + 1) mod 4) (CHR ''='') (cur []) = None" by code_simp
  have "decode64_loop 0 0 dst seen buf = (dst, [b64 (ix1 s0 0), CHR ''=''])"
    unfolding b by (simp only: decode64_loop.simps sym skip option.case Let_def) simp
  then show ?case using ix_less(2) [of s0 0] by auto
next
  case (two tbl s0 s1)
  then have "buf = [b64 (ix0 s0), b64 (ix1 s0 s1), b64 (ix2 s1 0)]" by (simp add: enc64_simps)
  with two.prems(2) symbol64_tbl(2) [OF ix_less(3) [of s1 0]] show ?case by (simp add: lone_pad_def)
next
  case (more tbl s0 s1 s2 xs)
  let ?q = "quad bb_uuenc_tbl_base64 s0 s1 s2"
  have eq: "buf @ ''='' = ?q @ enc64 xs" using more.prems(1) by (simp only: enc64_simps)
  have ne: "xs \<noteq> []"
  proof
    assume "xs = []"
    with eq have "CHR ''='' = last ?q" by (metis append_Nil2 enc64_simps(1) last_snoc)
    with symbol64_tbl(2) [OF ix_less(4) [of s2]] show False by (simp add: quad_ix)
  qed
  then have "length (enc64 xs) \<ge> 4" using enc64_length [of xs] by (cases xs) simp_all
  then have "length ?q \<le> length buf" using arg_cong [OF eq, of length] by simp
  then obtain buf' where buf: "buf = ?q @ buf'" using eq
    by (metis append_eq_append_conv_if append_eq_conv_conj append_take_drop_id)
  with eq have eq': "buf' @ ''='' = enc64 xs" by simp
  have "length buf' \<ge> 3" using \<open>length (enc64 xs) \<ge> 4\<close> by (simp flip: eq')
  then have "lone_pad buf' ''=''" using more.prems(2)
    by (cases "buf' = []") (auto simp: lone_pad_def buf last_append simp del: last_ConsR)
  from more.IH [OF eq' this, of "dst @ [s0, s1, s2]" "rev ?q @ seen"] ne
  show ?case unfolding buf decode64_quad by auto
qed

text \<open>Filling the buffer never goes past the end of a line.\<close>

lemma fill_buf_filled:
  "fill_buf (- 1) buf s = Some (buf', t, s') \<Longrightarrow> length buf \<le> 80 \<Longrightarrow>
   \<exists>s1. filled buf s buf' t s' s1 \<and> (\<forall>c \<in> set (butlast s1). \<not> ctl c) \<and>
     (s1 \<noteq> [] \<and> ctl (last s1) \<longrightarrow> \<not> t)"
proof (induction s arbitrary: buf)
  case Nil
  then show ?case
    by (subst (asm) fill_buf.simps) (auto simp: filled_def split: if_splits)
next
  case (Cons c s)
  consider "length buf = 80" | "length buf < 80" "ctl c" | "length buf < 80" "\<not> ctl c"
    using Cons.prems(2) by linarith
  then show ?case
  proof cases
    case 3
    with Cons.prems(1) have "fill_buf (- 1) (buf @ [c]) s = Some (buf', t, s')"
      by (subst (asm) fill_buf.simps) simp
    from Cons.IH [OF this] 3 obtain s1 where "filled (buf @ [c]) s buf' t s' s1"
      "\<forall>c \<in> set (butlast s1). \<not> ctl c" "s1 \<noteq> [] \<and> ctl (last s1) \<longrightarrow> \<not> t" by auto
    with 3 filled_step [of buf c s buf' t s' s1] show ?thesis
      by (intro exI [of _ "c # s1"]) auto
  next
    case 1
    with Cons.prems(1) have "buf' = buf" "\<not> t" "s' = c # s"
      by (subst (asm) fill_buf.simps; simp)+
    with 1 show ?thesis by (intro exI [of _ "[]"]) (simp add: filled_def)
  next
    case 2
    with Cons.prems(1) have "buf' = buf" "\<not> t" "s' = s"
      by (subst (asm) fill_buf.simps; simp)+
    with 2 show ?thesis by (intro exI [of _ "[c]"]) (simp add: filled_def)
  qed
qed

definition lone_line :: "string \<Rightarrow> string \<Rightarrow> string \<Rightarrow> bool" where
  "lone_line part w s \<longleftrightarrow> s = w @ [CHR 0x0A, CHR ''='', CHR 0x0A] \<and> lone_pad (part @ visible w) ''='' \<and>
     (w = [] \<or> \<not> ctl (last w))"

text \<open>What is left of the last group is dropped, and the reader ends without complaint.\<close>

lemma read_leftover:
  assumes "unat q < 64"
  shows "read_loop (- 1) False False [b64 q, CHR ''=''] [CHR ''='', CHR 0x0A] = ([], True)"
proof -
  note sym = symbol64_tbl(1) [OF assms]
  have skip: "symbol64 ((0 + 1) mod 4) (CHR ''='') nxt = None" "symbol64 0 (CHR ''='') nxt = None" for nxt
    by (simp_all add: symbol64_def)
  have d: "decode_any False [b64 q, CHR ''='', CHR ''=''] = ([], [CHR ''=''])"
    by (simp only: decode_any_def decode_base64_def decode64_loop.simps sym skip option.case Let_def) simp
  have e: "decode_any False [CHR ''=''] = ([], [])"
    by (simp only: decode_any_def decode_base64_def decode64_loop.simps skip option.case Let_def) simp
  have "fill_buf (- 1) [b64 q, CHR ''=''] [CHR ''='', CHR 0x0A] = Some ([b64 q, CHR ''='', CHR ''=''], False, [])"
    "fill_buf (- 1) [CHR ''=''] [] = Some ([CHR ''=''], True, [])"
    by (simp_all add: fill_buf.simps)
  then show ?thesis using d e
    by (subst read_loop.simps, simp) (subst read_loop.simps, simp)
qed

lemma read_lone_line:
  "part @ visible s = enc64 xs \<Longrightarrow> length part < 4 \<Longrightarrow> lone_line part w s \<Longrightarrow>
     read_loop (- 1) False False part s = (butlast xs, True)"
proof (induction "length part + length s" arbitrary: part s w xs rule: less_induct)
  case less
  note w = less.prems(3) [unfolded lone_line_def]
  have len: "length part \<le> 80" using less.prems(2) by simp
  obtain buf t s' where Some: "fill_buf (- 1) part s = Some (buf, t, s')"
    using fill_buf_eof(1) [OF len] w by (cases "fill_buf (- 1) part s") auto
  from fill_buf_filled [OF this len] obtain s1 where f: "filled part s buf t s' s1"
    and body: "\<forall>c \<in> set (butlast s1). \<not> ctl c" and t': "s1 \<noteq> [] \<and> ctl (last s1) \<longrightarrow> \<not> t" by blast
  have eq: "buf @ visible s' = enc64 xs" using f less.prems(1) by (simp add: filled_def)
  have s: "w @ [CHR 0x0A, CHR ''='', CHR 0x0A] = s1 @ s'" using w f by (simp add: filled_def)
  have t: "\<not> t"
  proof
    assume t
    then have "s1 = w @ [CHR 0x0A, CHR ''='', CHR 0x0A]" using f s by (simp add: filled_def)
    with t' \<open>t\<close> show False by simp
  qed
  then have stop: "length buf = 80 \<or> (s1 \<noteq> [] \<and> ctl (last s1))" using f by (simp only: filled_def if_False) blast
  consider (early) v where "w = s1 @ v" "s' = v @ [CHR 0x0A, CHR ''='', CHR 0x0A]"
    | (line) "s1 = w @ [CHR 0x0A]" "s' = [CHR ''='', CHR 0x0A]"
  proof -
    obtain u where "w = s1 @ u \<and> u @ [CHR 0x0A, CHR ''='', CHR 0x0A] = s' \<or>
        w @ u = s1 \<and> [CHR 0x0A, CHR ''='', CHR 0x0A] = u @ s'"
      using s unfolding append_eq_append_conv2 by blast
    then consider v where "w = s1 @ v" "s' = v @ [CHR 0x0A, CHR ''='', CHR 0x0A]"
      | u where "u \<noteq> []" "s1 = w @ u" "[CHR 0x0A, CHR ''='', CHR 0x0A] = u @ s'"
      by (cases "u = []") auto
    then show ?thesis
    proof cases
      case (2 u)
      then obtain u' where "u = CHR 0x0A # u'" by (cases u) auto
      moreover have "u' = []"
      proof (rule ccontr)
        assume "u' \<noteq> []"
        then have "CHR 0x0A \<in> set (butlast s1)" using 2(2) \<open>u = _\<close> by (simp add: butlast_append)
        with body have "\<not> ctl (CHR 0x0A)" by blast
        then show False by simp
      qed
      ultimately show ?thesis using 2 that(2) by simp
    qed (rule that(1))
  qed
  then show ?case
  proof cases
    case line
    then have buf: "buf = part @ visible w" using f by (simp add: filled_def)
    have "buf @ ''='' = enc64 xs" using eq line by simp
    from decode64_lone [OF this, of "[]" "[]"] w buf obtain q where q: "unat q < 64"
      "decode_any False buf = (butlast xs, [b64 q, CHR ''=''])"
      by (auto simp: decode_any_def decode_base64_def)
    with Some t line read_leftover [OF q(1)] show ?thesis
      by (subst read_loop.simps) simp
  next
    case (early v)
    have vis: "visible s' = visible v @ ''=''" using early by simp
    have "\<not> lone_pad buf (visible s')"
    proof
      assume bad: "lone_pad buf (visible s')"
      then have v: "visible v = []" using vis by (simp add: lone_pad_def)
      have "v = []"
      proof (rule ccontr)
        assume "v \<noteq> []"
        then have "\<not> ctl (last v)" using w early by simp
        then show False using v \<open>v \<noteq> []\<close> by (auto simp: visible_def filter_empty_conv)
      qed
      with w early stop have "length buf = 80" by auto
      with eq bad have "length (enc64 xs) = 81" by (simp add: lone_pad_def flip: eq)
      then show False using enc64_length [of xs] by presburger
    qed
    from base64.prefix_law [OF eq this] obtain out part' pre ys where
      d: "decode_any False buf = (out, part')" "xs = out @ ys" "part' @ visible s' = enc64 ys"
        "length part' < 4" "buf = pre @ part'"
      by (auto simp: prefix_decoded_def)
    have "lone_line part' v s'"
    proof -
      have "pre @ part' @ visible v = part @ visible w" using f d(5) early by (simp add: filled_def)
      moreover have "part' @ visible v \<noteq> []"
      proof
        assume "part' @ visible v = []"
        then have "length (enc64 ys) = 1" using d(3) vis by (simp flip: d(3))
        then show False using enc64_length [of ys] by presburger
      qed
      ultimately have "last (part' @ visible v) = last (part @ visible w)"
        by (metis append_is_Nil_conv last_append)
      then show ?thesis using w early \<open>part' @ visible v \<noteq> []\<close>
        by (auto simp: lone_line_def lone_pad_def)
    qed
    moreover have "length part' + length s' < length part + length s"
      using read_loop_less [OF Some [simplified t] d(1) [symmetric]] t Some by simp
    ultimately have "read_loop (- 1) False False part' s' = (butlast ys, True)"
      using less.hyps d(3,4) by blast
    moreover have "ys \<noteq> []" using d(3) vis by (auto simp: enc64_simps)
    ultimately show ?thesis using Some t d(1,2) by (subst read_loop.simps) (simp add: butlast_append)
  qed
qed

lemma wrap_lines:
  "length t = k * col \<Longrightarrow> 0 < col \<Longrightarrow> u \<noteq> [] \<Longrightarrow> 0 < k \<Longrightarrow>
   \<exists>w. wrap col 0 (t @ u) = w @ CHR 0x0A # wrap col 0 u \<and> set w \<subseteq> insert (CHR 0x0A) (set t) \<and>
     visible w = visible t \<and> w \<noteq> [] \<and> last w = last t"
proof (induction k arbitrary: t)
  case (Suc k)
  let ?l = "take col t" and ?r = "drop col t"
  have l: "?l \<noteq> []" "length ?l = col" using Suc.prems by auto
  have "wrap col 0 (t @ u) = wrap col col (?l @ (?r @ u))"
    using Suc.prems(3) wrap_fresh [of "t @ u" col]
    by (simp flip: append_assoc)
  also have "\<dots> = ?l @ CHR 0x0A # wrap col 0 (?r @ u)"
    using wrap_line [OF l(1), of col col "?r @ u"] l(2) by simp
  finally have eq: "wrap col 0 (t @ u) = ?l @ CHR 0x0A # wrap col 0 (?r @ u)" .
  show ?case
  proof (cases k)
    case 0
    then have "?r = []" "?l = t" using Suc.prems(1) by simp_all
    with eq l show ?thesis by (intro exI [of _ t]) auto
  next
    case (Suc j)
    have r: "length ?r = k * col" using Suc.prems(1) by simp
    from Suc.IH [OF this Suc.prems(2,3)] Suc obtain w where
      w: "wrap col 0 (?r @ u) = w @ CHR 0x0A # wrap col 0 u" "set w \<subseteq> insert (CHR 0x0A) (set ?r)"
        "visible w = visible ?r" "w \<noteq> []" "last w = last ?r" by auto
    have "?r \<noteq> []" using r Suc Suc.prems(2) by auto
    then have "last ?r = last t" by (simp add: last_drop)
    moreover have "visible t = visible ?l @ visible ?r"
      by (metis append_take_drop_id visible_simps(3))
    ultimately show ?thesis using w eq
      by (intro exI [of _ "?l @ CHR 0x0A # w"]) (auto dest: in_set_dropD in_set_takeD)
  qed
qed simp

lemma enc64_two_pads:
  "length xs mod 3 = 1 \<Longrightarrow> \<exists>t. enc64 xs = t @ ''=='' \<and> t \<noteq> []"
proof (induction xs rule: triple_induct)
  case (more tbl s0 s1 s2 xs)
  have "length (s0 # s1 # s2 # xs) = length xs + 3" by simp
  with more.prems have "length xs mod 3 = 1" by (simp only: mod_add_self2)
  from more.IH [OF this] obtain t where "enc64 xs = t @ ''==''" by blast
  then show ?case unfolding enc64_simps
    by (intro exI [of _ "quad bb_uuenc_tbl_base64 s0 s1 s2 @ t"]) (simp add: quad_def)
qed (simp_all add: enc64_simps)

text \<open>C40: the exception is real, and silent: whenever the line length puts the second pad
  character on a line of its own, decoding the applet's own output loses the last byte of the file
  and reports success.\<close>

theorem base64_lost_byte:
  assumes "length xs mod 3 = 1" "col \<noteq> 0" "(4 * ((length xs + 2) div 3) - 1) mod col = 0"
  shows "baseNUM_decode False (baseNUM_encode False col xs) = (butlast xs, True)"
proof -
  obtain t where t: "enc64 xs = (t @ ''='') @ ''=''" using enc64_two_pads [OF assms(1)] by auto
  have len: "length (t @ ''='') = 4 * ((length xs + 2) div 3) - 1"
    using arg_cong [OF t, of length] by (simp add: enc64_length)
  define k where "k = length (t @ ''='') div col"
  have k: "length (t @ ''='') = k * col"
    unfolding k_def using assms(3) by (simp only: len [symmetric] mod_0_imp_dvd dvd_div_mult_self)
  have "k \<noteq> 0"
  proof
    assume "k = 0"
    with k show False by simp
  qed
  with wrap_lines [OF k, of "''=''"] assms(2) obtain w where
    w: "wrap col 0 ((t @ ''='') @ ''='') = w @ CHR 0x0A # wrap col 0 ''=''"
      "visible w = visible (t @ ''='')" "w \<noteq> []" "last w = CHR ''=''" by auto
  have "\<forall>c \<in> set (t @ ''=''). \<not> ctl c" using enc64_visible [of _ xs] t by auto
  then have vis: "visible (t @ ''='') = t @ ''=''" by (simp add: visible_def filter_id_conv)
  have "wrap col 0 ''='' = [CHR ''='', CHR 0x0A]" using assms(2) by (simp add: Let_def)
  with w have s: "baseNUM_encode False col xs = w @ [CHR 0x0A, CHR ''='', CHR 0x0A]"
    using encode_file_wrap [of col False 0 xs] assms(2) t by (simp add: baseNUM_encode_def enc_any_def)
  have "lone_line [] w (baseNUM_encode False col xs)"
    using w vis by (simp add: lone_line_def s lone_pad_def)
  moreover have "visible (baseNUM_encode False col xs) = enc64 xs"
    unfolding s t using w(2) vis by simp
  ultimately show ?thesis
    unfolding read_base64_flags by (intro read_lone_line) simp_all
qed

theorem base64_lost_byte_witness:
  "baseNUM_decode False (baseNUM_encode False 7 [104, 101, 108, 108]) = ([104, 101, 108], True)"
  using base64_lost_byte [of "[104, 101, 108, 108]" 7] by simp

end
