(* ===== verification/Uuencode.thy ===== *)
theory Uuencode imports BaseCodeProps begin

unbundle bit_operations_syntax

text \<open>
  The applets \<open>uuencode\<close> (\<open>coreutils/uuencode.c\<close>) and \<open>uudecode\<close>
  (\<open>coreutils/uudecode.c\<close>), in both formats, and their round trip.  The file mode of the
  begin line is printed but not read back.
\<close>

section \<open>Encoding a file\<close>

definition uu_src_buf_size :: nat where "uu_src_buf_size = 15 * 3"

text \<open>\<open>printf("%o")\<close>.\<close>

function oct_digits :: "nat \<Rightarrow> string" where
  "oct_digits n =
     (if n < 8 then [char_of (48 + n)] else oct_digits (n div 8) @ [char_of (48 + n mod 8)])"
  by pat_completeness auto
termination by (relation "measure (\<lambda>n. n)") auto

declare oct_digits.simps [simp del]

function uu_body :: "string \<Rightarrow> u8 list \<Rightarrow> string" where
  "uu_body tbl src =
     (if src = [] then []
      else
        let chunk = take uu_src_buf_size src
        in CHR 0x0A # (if tbl = bb_uuenc_tbl_std then [tbl ! length chunk] else []) @
           take (4 * ((length chunk + 2) div 3)) (bb_uuencode chunk tbl) @
           uu_body tbl (drop uu_src_buf_size src))"
  by pat_completeness auto
termination by (relation "measure (\<lambda>(_, src). length src)") (auto simp: uu_src_buf_size_def)

declare uu_body.simps [simp del]

definition uuencode_main :: "bool \<Rightarrow> nat \<Rightarrow> string \<Rightarrow> u8 list \<Rightarrow> string" where
  "uuencode_main opt_m mode name src =
     (let tbl = (if opt_m then bb_uuenc_tbl_base64 else bb_uuenc_tbl_std)
      in ''begin'' @ (if tbl = bb_uuenc_tbl_std then '''' else ''-base64'') @ '' '' @
         oct_digits mode @ '' '' @ name @ uu_body tbl src @
         (if tbl = bb_uuenc_tbl_std then [CHR 0x0A, CHR 0x60, CHR 0x0A] @ ''end'' @ [CHR 0x0A]
          else [CHR 0x0A] @ ''===='' @ [CHR 0x0A]))"

section \<open>Decoding a file\<close>

text \<open>\<open>xmalloc_fgets_str_len(file, "\n", &maxsz)\<close>: the limit is looked at when the buffer
  grows, every 200 characters.\<close>

fun fgets_str :: "nat \<Rightarrow> string \<Rightarrow> string \<Rightarrow> string \<times> string" where
  "fgets_str maxsz buf [] = (buf, [])"
| "fgets_str maxsz buf (c # s) =
     (if length buf mod 200 = 0 \<and> maxsz \<le> length buf then (buf @ [c], s)
      else if c = CHR 0x0A then (buf @ [c], s)
      else fgets_str maxsz (buf @ [c]) s)"

lemma fgets_str_rest: "s \<noteq> [] \<Longrightarrow> length (snd (fgets_str maxsz buf s)) < length s"
proof (induction maxsz buf s rule: fgets_str.induct)
  case (2 maxsz buf c s)
  then show ?case by (cases s) auto
qed simp

text \<open>The line without its end, for Unix and DOS text.\<close>

definition strip_eol :: "string \<Rightarrow> string" where
  "strip_eol line = rev (dropWhile (\<lambda>c. c = CHR 0x0A \<or> c = CHR 0x0D) (rev line))"

definition uu_code :: "char \<Rightarrow> u8" where
  "uu_code c = (code c - 0x20) AND 0x3f"

definition at_ptr :: "u8 list \<Rightarrow> nat \<Rightarrow> u8" where
  "at_ptr p k = (if k < length p then p ! k else 0)"

text \<open>The \<open>do ... while\<close> that merges four 6-bit characters; past the end of the line it reads
  the terminating NUL.\<close>

function uu_groups :: "u8 list \<Rightarrow> nat \<Rightarrow> u8 list" where
  "uu_groups p n =
     (push_bit 2 (at_ptr p 0) OR drop_bit 4 (at_ptr p 1)) #
     (if n - 1 = 0 then []
      else (push_bit 4 (at_ptr p 1) OR drop_bit 2 (at_ptr p 2)) #
        (if n - 1 - 1 = 0 then []
         else (push_bit 6 (at_ptr p 2) OR at_ptr p 3) #
           (if int n - 1 - 1 - 2 > 0 then uu_groups (drop 4 p) (n - 4) else [])))"
  by pat_completeness auto
termination by (relation "measure (\<lambda>(_, n). n)") auto

declare uu_groups.simps [simp del]

datatype uu_result = Uu_done | Short_file | Line_too_long | Truncated_input

function read_stduu :: "string \<Rightarrow> u8 list \<times> uu_result" where
  "read_stduu src =
     (if src = [] then ([], Short_file)
      else
        let (raw, rest) = fgets_str (64 * 1024) [] src;
            line = c_string (strip_eol raw)
        in
        if line = ''end'' then ([], Uu_done)
        else
          let codes = map uu_code line;
              encoded_len = (if codes = [] then 0 else unat (hd codes) * 4 div 3)
          in
          if length codes \<le> encoded_len then ([], Short_file)
          else if encoded_len = 0 then read_stduu rest
          else if encoded_len > 60 then ([], Line_too_long)
          else let (more, r) = read_stduu rest in (uu_groups (tl codes) encoded_len @ more, r))"
  by pat_completeness auto
termination
proof (relation "measure length", goal_cases)
  case (2 src p raw rest)
  then show ?case using fgets_str_rest [of src "64 * 1024" "[]"] by (metis in_measure snd_conv)
next
  case (3 src p raw rest)
  then show ?case using fgets_str_rest [of src "64 * 1024" "[]"] by (metis in_measure snd_conv)
qed simp

declare read_stduu.simps [simp del]

text \<open>\<open>uudecode_main\<close>: the search for the begin line.  \<open>outname\<close> is the -o option; the
  result is the name and the data, or None for "no 'begin' line".\<close>

function uudecode_main :: "string option \<Rightarrow> string \<Rightarrow> (string \<times> u8 list \<times> uu_result) option" where
  "uudecode_main outname src =
     (case xmalloc_fgetline src of
        None \<Rightarrow> None
      | Some (line, rest) \<Rightarrow>
          (case (case is_prefixed_with line ''begin-base64 '' of
                   Some p \<Rightarrow> Some (p, True)
                 | None \<Rightarrow> (case is_prefixed_with line ''begin '' of
                     Some p \<Rightarrow> Some (p, False) | None \<Rightarrow> None)) of
             None \<Rightarrow> uudecode_main outname rest
           | Some (line_ptr, base64) \<Rightarrow>
               let name = (case outname of Some n \<Rightarrow> Some n
                           | None \<Rightarrow>
                               let q = dropWhile (\<lambda>c. c \<noteq> CHR '' '') line_ptr
                               in if q = [] \<or> trim (tl q) = [] then None else Some (trim (tl q)))
               in (case name of
                     None \<Rightarrow> None
                   | Some n \<Rightarrow>
                       if base64 then
                         let (out, ok) = read_base64 (0x100 + 0x80) rest
                         in Some (n, out, if ok then Uu_done else Truncated_input)
                       else Some (n, read_stduu rest))))"
  by pat_completeness auto
termination
  by (relation "measure (\<lambda>(_, src). length src)") (auto dest: xmalloc_fgetline_less)

declare uudecode_main.simps [simp del]

section \<open>The standard format: one line\<close>

lemma table_std:
  "\<forall>n \<in> {..<64}. let c = bb_uuenc_tbl_std ! n in
     uu_code c = of_nat n \<and> c \<noteq> CHR 0x0A \<and> c \<noteq> CHR 0x0D \<and> c \<noteq> cnul \<and> c \<noteq> CHR ''e''"
proof -
  have "list_all (\<lambda>n. let c = bb_uuenc_tbl_std ! n in
     uu_code c = of_nat n \<and> c \<noteq> CHR 0x0A \<and> c \<noteq> CHR 0x0D \<and> c \<noteq> cnul \<and> c \<noteq> CHR ''e'') [0..<64]"
    by code_simp
  then show ?thesis by (simp only: list_all_iff set_upt atLeast_upt)
qed

abbreviation "std w \<equiv> tbl_at bb_uuenc_tbl_std w"

abbreviation line_char :: "char \<Rightarrow> bool" where
  "line_char c \<equiv> c \<noteq> CHR 0x0A \<and> c \<noteq> CHR 0x0D \<and> c \<noteq> cnul \<and> c \<noteq> CHR ''e''"

lemma std_char:
  assumes "unat w < 64"
  shows "uu_code (std w) = w" "line_char (std w)"
  using table_std [THEN bspec, of "unat w"] assms by (simp_all add: tbl_at_def Let_def)

abbreviation ixs :: "u8 \<Rightarrow> u8 \<Rightarrow> u8 \<Rightarrow> u8 list" where
  "ixs s0 s1 s2 \<equiv> [ix0 s0, ix1 s0 s1, ix2 s1 s2, ix3 s2]"

lemma ixs_less: "w \<in> set (ixs s0 s1 s2) \<Longrightarrow> unat w < 64"
  using ix_less by (simp only: list.set insert_iff empty_iff) blast

lemma quad_std:
  "map uu_code (quad bb_uuenc_tbl_std s0 s1 s2) = ixs s0 s1 s2"
  "\<forall>c \<in> set (quad bb_uuenc_tbl_std s0 s1 s2). line_char c"
  by (simp_all only: quad_ix list.map std_char(1) [OF ix_less(1)] std_char(1) [OF ix_less(2)]
      std_char(1) [OF ix_less(3)] std_char(1) [OF ix_less(4)])
    (use std_char(2) [OF ix_less(1)] std_char(2) [OF ix_less(2)] std_char(2) [OF ix_less(3)]
      std_char(2) [OF ix_less(4)] in \<open>simp only: list.set ball_simps simp_thms\<close>)

fun all_ixs :: "u8 list \<Rightarrow> u8 list" where
  "all_ixs [] = []"
| "all_ixs [s0] = ixs s0 0 0"
| "all_ixs [s0, s1] = ixs s0 s1 0"
| "all_ixs (s0 # s1 # s2 # s) = ixs s0 s1 s2 @ all_ixs s"

lemma std_pad: "bb_uuencode src bb_uuenc_tbl_std = uuencode_loop bb_uuenc_tbl_std src"
proof (induction src rule: triple_induct)
  case (more tbl s0 s1 s2 s)
  then show ?case by (simp add: bb_uuencode_simps)
next
  case (two tbl s0 s1)
  have "bb_uuenc_tbl_std ! 64 = std 0" by code_simp
  then show ?case by (simp add: bb_uuencode_simps quad_def)
next
  case (one tbl s0)
  have "bb_uuenc_tbl_std ! 64 = std 0" by code_simp
  then show ?case by (simp add: bb_uuencode_simps quad_def numeral_2_eq_2)
qed (simp add: bb_uuencode_simps)

lemma encoded_line: "map uu_code (uuencode_loop bb_uuenc_tbl_std src) = all_ixs src"
  by (induction src rule: triple_induct)
    (simp_all only: uuencode_loop.simps all_ixs.simps map_append quad_std list.map)

lemma encoded_line_chars: "\<forall>c \<in> set (uuencode_loop bb_uuenc_tbl_std src). line_char c"
proof (induction src rule: triple_induct)
  case (more tbl s0 s1 s2 s)
  show ?case
    unfolding uuencode_loop.simps set_append ball_Un by (intro conjI quad_std(2) more.IH)
next
  case (one tbl s0)
  show ?case unfolding uuencode_loop.simps by (rule quad_std(2))
next
  case (two tbl s0 s1)
  show ?case unfolding uuencode_loop.simps by (rule quad_std(2))
qed simp

lemma merge_ixs:
  "push_bit 2 (ix0 s0) OR drop_bit 4 (ix1 s0 s1) = s0"
  "push_bit 4 (ix1 s0 s1) OR drop_bit 2 (ix2 s1 s2) = s1"
  "push_bit 6 (ix2 s1 s2) OR ix3 s2 = s2"
  by (rule byte_eqI; simp add: byte_bits)+

lemma at_ixs:
  "at_ptr (ixs s0 s1 s2 @ r) 0 = ix0 s0" "at_ptr (ixs s0 s1 s2 @ r) 1 = ix1 s0 s1"
  "at_ptr (ixs s0 s1 s2 @ r) 2 = ix2 s1 s2" "at_ptr (ixs s0 s1 s2 @ r) 3 = ix3 s2"
  "drop 4 (ixs s0 s1 s2 @ r) = r"
  by (simp_all add: at_ptr_def)

lemma four: "(4 + k - 1 = 0) = False" "(4 + k - 1 - 1 = 0) = False" "4 + k - 4 = (k :: nat)"
  "(int (4 + k) - 1 - 1 - 2 > 0) = (0 < k)"
  by simp_all

lemma uu_groups_ixs: "src \<noteq> [] \<Longrightarrow> uu_groups (all_ixs src) (length src * 4 div 3) = src"
proof (induction src rule: triple_induct)
  case (one tbl s0)
  then show ?case using merge_ixs(1) [of s0 0]
    by (subst uu_groups.simps) (simp add: at_ptr_def)
next
  case (two tbl s0 s1)
  then show ?case using merge_ixs(1) [of s0 s1] merge_ixs(2) [of s0 s1 0]
    by (subst uu_groups.simps) (simp add: at_ptr_def)
next
  case (more tbl s0 s1 s2 s)
  have n: "length (s0 # s1 # s2 # s) * 4 div 3 = 4 + length s * 4 div 3" by simp
  have "uu_groups (ixs s0 s1 s2 @ all_ixs s) (4 + length s * 4 div 3) =
      s0 # s1 # s2 # (if 0 < length s * 4 div 3 then uu_groups (all_ixs s) (length s * 4 div 3) else [])"
    by (subst uu_groups.simps) (simp only: at_ixs merge_ixs four if_False)
  also have "\<dots> = s0 # s1 # s2 # s" using more.IH by (cases s) auto
  finally show ?case by (simp only: n all_ixs.simps)
qed simp


section \<open>Round trip of the standard format\<close>

lemma fgets_str_line:
  "CHR 0x0A \<notin> set l \<Longrightarrow> length buf + length l < maxsz \<Longrightarrow>
     fgets_str maxsz buf (l @ CHR 0x0A # s) = (buf @ l @ [CHR 0x0A], s)"
  by (induction l arbitrary: buf) auto

abbreviation plain_char :: "char \<Rightarrow> bool" where
  "plain_char c \<equiv> c \<noteq> CHR 0x0A \<and> c \<noteq> CHR 0x0D \<and> c \<noteq> cnul"

lemma strip_eol_line:
  assumes "\<forall>c \<in> set l. plain_char c"
  shows "c_string (strip_eol (l @ [CHR 0x0A])) = l"
proof -
  have "\<forall>c \<in> set (rev l). \<not> (c = CHR 0x0A \<or> c = CHR 0x0D)" using assms by simp
  then have "dropWhile (\<lambda>c. c = CHR 0x0A \<or> c = CHR 0x0D) (rev l) = rev l"
    by (cases "rev l") simp_all
  moreover have "cnul \<notin> set l" using assms by blast
  ultimately show ?thesis by (simp add: strip_eol_def c_string_id)
qed

lemma read_stduu_step:
  assumes "\<forall>c \<in> set l. plain_char c" "length l < 64 * 1024"
  shows "read_stduu (l @ CHR 0x0A # s) =
    (if l = ''end'' then ([], Uu_done)
     else
       let codes = map uu_code l; encoded_len = (if codes = [] then 0 else unat (hd codes) * 4 div 3)
       in
       if length codes \<le> encoded_len then ([], Short_file)
       else if encoded_len = 0 then read_stduu s
       else if encoded_len > 60 then ([], Line_too_long)
       else let (more, r) = read_stduu s in (uu_groups (tl codes) encoded_len @ more, r))"
proof -
  have "CHR 0x0A \<notin> set l" using assms(1) by blast
  then have "fgets_str (64 * 1024) [] (l @ CHR 0x0A # s) = (l @ [CHR 0x0A], s)"
    using fgets_str_line [of l "[]" "64 * 1024" s] assms(2) by simp
  moreover have "(l @ CHR 0x0A # s = []) = False" by simp
  ultimately show ?thesis
    by (subst read_stduu.simps) (simp only: strip_eol_line [OF assms(1)] Let_def prod.case if_False)
qed

definition std_line :: "u8 list \<Rightarrow> string" where
  "std_line chunk = std (of_nat (length chunk)) # uuencode_loop bb_uuenc_tbl_std chunk"

lemma std_line_facts:
  assumes "chunk \<noteq> []" "length chunk \<le> 45"
  shows "\<forall>c \<in> set (std_line chunk). line_char c" "length (std_line chunk) \<le> 61"
    "map uu_code (std_line chunk) = of_nat (length chunk) # all_ixs chunk"
    "unat (of_nat (length chunk) :: u8) = length chunk"
proof -
  show n: "unat (of_nat (length chunk) :: u8) = length chunk"
    using assms(2) by (simp add: unat_of_nat)
  then have "unat (of_nat (length chunk) :: u8) < 64" using assms(2) by simp
  note c = std_char [OF this]
  show "\<forall>c \<in> set (std_line chunk). line_char c"
    using encoded_line_chars [of chunk] c(2) by (simp add: std_line_def)
  show "map uu_code (std_line chunk) = of_nat (length chunk) # all_ixs chunk"
    using encoded_line [of chunk] c(1) by (simp add: std_line_def)
  have "(length chunk + 2) div 3 \<le> 15" using assms(2) by linarith
  then show "length (std_line chunk) \<le> 61" by (simp add: std_line_def uuencode_loop_length)
qed

lemma all_ixs_length: "length (all_ixs s) = 4 * ((length s + 2) div 3)"
  by (metis encoded_line length_map uuencode_loop_length)

lemma read_stduu_line:
  assumes "chunk \<noteq> []" "length chunk \<le> 45"
  shows "read_stduu (std_line chunk @ CHR 0x0A # s) =
    (chunk @ fst (read_stduu s), snd (read_stduu s))"
proof -
  note f = std_line_facts [OF assms]
  have pl: "\<forall>c \<in> set (std_line chunk). plain_char c" using f(1) by blast
  have len: "length (std_line chunk) < 64 * 1024" using f(2) by simp
  have "CHR ''e'' \<notin> set (std_line chunk)" using f(1) by blast
  then have ne: "std_line chunk \<noteq> ''end''" by auto
  have pos: "0 < length chunk" using assms(1) by simp
  have enc: "length chunk * 4 div 3 \<le> 60" "0 < length chunk * 4 div 3"
    "length chunk * 4 div 3 \<le> 4 * ((length chunk + 2) div 3)"
    using assms(2) pos by linarith+
  have "read_stduu (std_line chunk @ CHR 0x0A # s) =
      (let (more, r) = read_stduu s in (uu_groups (all_ixs chunk) (length chunk * 4 div 3) @ more, r))"
    unfolding read_stduu_step [OF pl len] f(3) Let_def
    using ne enc f(4) by (simp add: all_ixs_length)
  then show ?thesis by (simp add: uu_groups_ixs [OF assms(1)] split: prod.split)
qed

lemma read_stduu_trailer:
  "read_stduu ([CHR 0x60, CHR 0x0A] @ ''end'' @ [CHR 0x0A]) = ([], Uu_done)"
proof -
  have "uu_code (CHR 0x60) = 0" by code_simp
  then have "read_stduu ([CHR 0x60] @ CHR 0x0A # ''end'' @ CHR 0x0A # []) = read_stduu (''end'' @ CHR 0x0A # [])"
    by (subst read_stduu_step) (simp_all add: cnul_def)
  also have "\<dots> = ([], Uu_done)"
    by (subst read_stduu_step) (simp_all add: cnul_def)
  finally show ?thesis by simp
qed

lemma uu_body_std:
  "uu_body bb_uuenc_tbl_std src @ CHR 0x0A # t = CHR 0x0A # s \<Longrightarrow>
     read_stduu s = (src @ fst (read_stduu t), snd (read_stduu t))"
proof (induction "length src" arbitrary: src s rule: less_induct)
  case less
  show ?case
  proof (cases "src = []")
    case True
    with less.prems show ?thesis by (simp add: uu_body.simps)
  next
    case False
    let ?c = "take uu_src_buf_size src" and ?d = "drop uu_src_buf_size src"
    have c: "?c \<noteq> []" "length ?c \<le> 45" using False by (simp_all add: uu_src_buf_size_def)
    have line: "uu_body bb_uuenc_tbl_std src = CHR 0x0A # std_line ?c @ uu_body bb_uuenc_tbl_std ?d"
      using False std_line_facts(4) [OF c]
      by (subst uu_body.simps) (simp add: Let_def std_pad std_line_def uuencode_loop_length tbl_at_def)
    obtain s' where s': "uu_body bb_uuenc_tbl_std ?d @ CHR 0x0A # t = CHR 0x0A # s'"
      by (cases "?d = []") (simp_all add: uu_body.simps Let_def)
    have "s = std_line ?c @ CHR 0x0A # s'" using less.prems unfolding line by (simp flip: s')
    moreover have "length ?d < length src" using False by (simp add: uu_src_buf_size_def)
    ultimately show ?thesis
      using read_stduu_line [OF c, of s'] less.hyps [OF _ s'] by (simp flip: append_assoc)
  qed
qed


section \<open>Round trip of the base64 format\<close>

lemma fill_buf_line:
  assumes "\<forall>c \<in> set u. \<not> ctl c" "length buf + length u < 80" "x < 0"
  shows "fill_buf x buf (u @ CHR 0x0A # r) = Some (buf @ u, False, r)"
  using assms(1,2)
proof (induction u arbitrary: buf)
  case Nil
  have "of_char (CHR 0x0A) \<noteq> x" using assms(3) by simp
  with Nil show ?case by (subst fill_buf.simps) simp
next
  case (Cons c u)
  have "(0 :: int) \<le> of_char c" using Cons.prems(1) by force
  then have "of_char c \<noteq> x" using assms(3) by simp
  with Cons show ?case by (subst fill_buf.simps) simp
qed

lemma decode_base64_whole: "decode_any False (enc64 xs) = (xs, [])"
proof -
  have "prefix_decoded (decode_any False) enc64 4 [] (enc64 xs) [] xs"
    by (rule base64.prefix_law) (simp_all add: lone_pad_def)
  then obtain out part ys where *: "decode_any False (enc64 xs) = (out, part)" "xs = out @ ys"
    "part = enc64 ys" "length part < 4"
    unfolding prefix_decoded_def by auto
  then have "ys = []" using enc64_length [of ys] by (cases ys) auto
  with * show ?thesis by (simp add: enc64_simps)
qed

lemma enc64_not_rule: "xs \<noteq> [] \<Longrightarrow> enc64 xs \<noteq> ''===='' "
proof
  assume "xs \<noteq> []" "enc64 xs = ''===='' "
  with decode_base64_whole [of xs] have "decode_any False ''===='' = (xs, [])" by simp
  moreover have "decode_any False ''===='' = ([], [])" by code_simp
  ultimately show False using \<open>xs \<noteq> []\<close> by simp
qed

lemma read_loop_line:
  assumes "xs \<noteq> []" "length (enc64 xs) < 80" "x < 0"
  shows "read_loop x True False [] (enc64 xs @ CHR 0x0A # r) =
    (xs @ fst (read_loop x True False [] r), snd (read_loop x True False [] r))"
proof -
  have "\<forall>c \<in> set (enc64 xs). \<not> ctl c" using enc64_visible by blast
  from fill_buf_line [OF this, of "[]" x r] assms enc64_not_rule [OF assms(1)] decode_base64_whole [of xs]
  show ?thesis by (subst read_loop.simps) (simp split: prod.split)
qed

lemma read_loop_rule: "x < 0 \<Longrightarrow> read_loop x True False [] (''====''  @ CHR 0x0A # r) = ([], True)"
  using fill_buf_line [of "''===='' " "[]" x r] by (subst read_loop.simps) simp

lemma uu_body_base64:
  "x < 0 \<Longrightarrow> uu_body bb_uuenc_tbl_base64 src @ CHR 0x0A # t = CHR 0x0A # s \<Longrightarrow>
     read_loop x True False [] s =
       (src @ fst (read_loop x True False [] t), snd (read_loop x True False [] t))"
proof (induction "length src" arbitrary: src s rule: less_induct)
  case less
  show ?case
  proof (cases "src = []")
    case True
    with less.prems show ?thesis by (simp add: uu_body.simps)
  next
    case False
    let ?c = "take uu_src_buf_size src" and ?d = "drop uu_src_buf_size src"
    have "length ?c \<le> 45" by (simp add: uu_src_buf_size_def)
    then have "(length ?c + 2) div 3 \<le> 15" by linarith
    then have c: "?c \<noteq> []" "length (enc64 ?c) < 80"
      using False by (simp_all add: enc64_length uu_src_buf_size_def)
    have whole: "take (4 * ((length ?c + 2) div 3)) (enc64 ?c) = enc64 ?c"
      by (simp only: enc64_length [symmetric]) simp
    have tbl: "(bb_uuenc_tbl_base64 = bb_uuenc_tbl_std) = False" by code_simp
    have line: "uu_body bb_uuenc_tbl_base64 src = CHR 0x0A # enc64 ?c @ uu_body bb_uuenc_tbl_base64 ?d"
      using False whole
      by (subst uu_body.simps) (simp only: Let_def tbl if_False append_Nil)
    obtain s' where s': "uu_body bb_uuenc_tbl_base64 ?d @ CHR 0x0A # t = CHR 0x0A # s'"
      by (cases "?d = []") (simp_all add: uu_body.simps Let_def)
    have "s = enc64 ?c @ CHR 0x0A # s'" using less.prems(2) unfolding line by (simp flip: s')
    moreover have "length ?d < length src" using False by (simp add: uu_src_buf_size_def)
    ultimately show ?thesis
      using read_loop_line [OF c less.prems(1), of s'] less.hyps [OF _ less.prems(1) s']
      by (simp flip: append_assoc)
  qed
qed

section \<open>The whole applets\<close>

lemma oct_digits_chars: "c \<in> set (oct_digits n) \<Longrightarrow> c \<noteq> CHR '' '' \<and> c \<noteq> cnul \<and> c \<noteq> CHR 0x0A"
proof (induction n rule: oct_digits.induct)
  case (1 n)
  have digit: "char_of (48 + k) \<noteq> CHR '' '' \<and> char_of (48 + k) \<noteq> cnul \<and> char_of (48 + k) \<noteq> CHR 0x0A"
    if "k < 8" for k :: nat
  proof -
    have "list_all (\<lambda>k :: nat. char_of (48 + k) \<noteq> CHR '' '' \<and> char_of (48 + k) \<noteq> cnul \<and>
        char_of (48 + k) \<noteq> CHR 0x0A) [0..<8]" by code_simp
    with that show ?thesis by (simp only: list_all_iff set_upt atLeast_upt) simp
  qed
  show ?case
    using 1 digit by (subst (asm) oct_digits.simps) (auto split: if_splits)
qed

lemma trim_name: "\<forall>c \<in> set name. \<not> c_isspace c \<Longrightarrow> name \<noteq> [] \<Longrightarrow> trim name = name"
proof -
  assume n: "\<forall>c \<in> set name. \<not> c_isspace c" "name \<noteq> []"
  have sp: "c_space c \<Longrightarrow> c_isspace c" for c
    by (auto simp: c_space_def ctype_ascii range_ctl code_le) (simp_all add: ascii_def)
  have "\<forall>c \<in> set (rev name). \<not> c_isspace c" using n by simp
  then have "dropWhile c_isspace (rev name) = rev name" by (cases "rev name") simp_all
  moreover have "skip_whitespace name = name" using n sp by (cases name) auto
  ultimately show ?thesis by (simp add: trim_def)
qed


definition begin_line :: "bool \<Rightarrow> nat \<Rightarrow> string \<Rightarrow> string" where
  "begin_line opt_m mode name =
     (if opt_m then ''begin-base64 '' else ''begin '') @ oct_digits mode @ '' '' @ name"

lemma begin_line_plain:
  assumes "\<forall>c \<in> set name. \<not> c_isspace c" "cnul \<notin> set name"
  shows "cnul \<notin> set (begin_line m mode name)" "CHR 0x0A \<notin> set (begin_line m mode name)"
proof -
  have "c_isspace (CHR 0x0A)" by code_simp
  then show "cnul \<notin> set (begin_line m mode name)" "CHR 0x0A \<notin> set (begin_line m mode name)"
    using assms oct_digits_chars [of _ mode] by (auto simp: begin_line_def cnul_def)
qed

lemma uudecode_main_begin:
  assumes "\<forall>c \<in> set name. \<not> c_isspace c" "cnul \<notin> set name" "name \<noteq> []"
  shows "uudecode_main None (begin_line m mode name @ CHR 0x0A # s) =
    (if m then let (out, ok) = read_base64 (0x100 + 0x80) s
               in Some (name, out, if ok then Uu_done else Truncated_input)
     else Some (name, read_stduu s))"
proof -
  have line: "xmalloc_fgetline (begin_line m mode name @ CHR 0x0A # s) = Some (begin_line m mode name, s)"
    by (rule xmalloc_fgetline_line [OF begin_line_plain [OF assms(1,2)]])
  have arg: "dropWhile (\<lambda>c. c \<noteq> CHR '' '') (oct_digits mode @ '' '' @ name) = '' '' @ name"
    using oct_digits_chars [of _ mode] by (subst dropWhile_append2) auto
  have name: "trim name = name" by (rule trim_name [OF assms(1,3)])
  have pre: "is_prefixed_with (begin_line m mode name) ''begin-base64 '' =
      (if m then Some (oct_digits mode @ '' '' @ name) else None)"
    "\<not> m \<Longrightarrow> is_prefixed_with (begin_line m mode name) ''begin '' = Some (oct_digits mode @ '' '' @ name)"
    by (simp_all add: begin_line_def)
  show ?thesis
    using assms(3) pre(2)
    by (subst uudecode_main.simps) (simp add: line pre(1) arg [simplified] name Let_def split: prod.split)
qed

lemma read_base64_uu: "read_base64 384 s = read_loop (- 128) True False [] s"
proof -
  have "sint (of_nat 384 :: u8) = - 128" by code_simp
  moreover have "(384 AND 0x100 :: nat) \<noteq> 0" "(384 AND 0x200 :: nat) = 0"
    by code_simp+
  ultimately show ?thesis by (simp add: read_base64_def)
qed

text \<open>C21: \<open>uudecode\<close> undoes \<open>uuencode\<close>, in both formats: for every file, mode and
  name without white space, decoding the output of the encoder finds the name, writes exactly the
  file and ends at the proper trailer.\<close>

theorem uuencode_roundtrip:
  assumes "\<forall>c \<in> set name. \<not> c_isspace c" "cnul \<notin> set name" "name \<noteq> []"
  shows "uudecode_main None (uuencode_main opt_m mode name src) = Some (name, src, Uu_done)"
proof -
  have tbl: "(bb_uuenc_tbl_base64 = bb_uuenc_tbl_std) = False" by code_simp
  show ?thesis
  proof (cases opt_m)
    case True
    let ?t = "''===='' @ [CHR 0x0A]"
    obtain s where s: "uu_body bb_uuenc_tbl_base64 src @ CHR 0x0A # ?t = CHR 0x0A # s"
      by (cases "src = []") (simp_all add: uu_body.simps Let_def)
    have "uuencode_main opt_m mode name src =
        begin_line True mode name @ uu_body bb_uuenc_tbl_base64 src @ CHR 0x0A # ?t"
      using True tbl by (simp add: uuencode_main_def begin_line_def Let_def)
    also have "\<dots> = begin_line True mode name @ CHR 0x0A # s" by (simp only: s)
    finally show ?thesis
      using uudecode_main_begin [OF assms, of True mode s] uu_body_base64 [OF _ s, of "- 128"]
        read_loop_rule [of "- 128" "[]"]
      by (simp add: read_base64_uu split: prod.split)
  next
    case False
    let ?t = "[CHR 0x60, CHR 0x0A] @ ''end'' @ [CHR 0x0A]"
    obtain s where s: "uu_body bb_uuenc_tbl_std src @ CHR 0x0A # ?t = CHR 0x0A # s"
      by (cases "src = []") (simp_all add: uu_body.simps Let_def)
    have "uuencode_main opt_m mode name src =
        begin_line False mode name @ uu_body bb_uuenc_tbl_std src @ CHR 0x0A # ?t"
      using False by (simp add: uuencode_main_def begin_line_def Let_def)
    also have "\<dots> = begin_line False mode name @ CHR 0x0A # s" by (simp only: s)
    finally show ?thesis
      using uudecode_main_begin [OF assms, of False mode s] uu_body_std [OF s] read_stduu_trailer
      by simp
  qed
qed

lemma uuencode_roundtrip_witness:
  "uudecode_main None (uuencode_main False 420 ''a.txt'' [1, 2, 3, 255]) =
     Some (''a.txt'', [1, 2, 3, 255], Uu_done)"
proof -
  have "\<forall>c \<in> set ''a.txt''. \<not> c_isspace c" "cnul \<notin> set ''a.txt''" by code_simp+
  from uuencode_roundtrip [OF this] show ?thesis by simp
qed

end
