(* ===== verification/CLib.thy ===== *)
theory CLib imports Libbb begin

text \<open>
  The functions of the C library that the programs of \<open>cagent-test\<close> use on strings and
  decimal numbers, in the C locale.
\<close>

abbreviation nl :: string where "nl \<equiv> [CHR 0x0A]"
abbreviation crlf :: string where "crlf \<equiv> [CHR 0x0D, CHR 0x0A]"

definition tolower :: "char \<Rightarrow> char" where
  "tolower c = (if c_isupper c then char_of (ascii c + 32) else c)"

fun strstr :: "string \<Rightarrow> string \<Rightarrow> string option" where
  "strstr s w =
     (if take (length w) s = w then Some s
      else case s of [] \<Rightarrow> None | _ # t \<Rightarrow> strstr t w)"

declare strstr.simps [simp del]

fun strcasestr :: "string \<Rightarrow> string \<Rightarrow> bool" where
  "strcasestr s w =
     (if map tolower (take (length w) s) = map tolower w then True
      else case s of [] \<Rightarrow> False | _ # t \<Rightarrow> strcasestr t w)"

declare strcasestr.simps [simp del]

text \<open>\<open>%d\<close> and \<open>%04x\<close> of the C library.\<close>

fun dec_digits :: "nat \<Rightarrow> string" where
  "dec_digits n = (if n < 10 then [char_of (48 + n)] else dec_digits (n div 10) @ [char_of (48 + n mod 10)])"

declare dec_digits.simps [simp del]

definition fmt_d :: "int \<Rightarrow> string" where
  "fmt_d i = (if i < 0 then CHR ''-'' # dec_digits (nat (- i)) else dec_digits (nat i))"

definition hex_char :: "nat \<Rightarrow> char" where
  "hex_char n = (if n < 10 then char_of (48 + n) else char_of (87 + n))"

definition fmt_04x :: "nat \<Rightarrow> string" where
  "fmt_04x n = [hex_char (n div 4096 mod 16), hex_char (n div 256 mod 16), hex_char (n div 16 mod 16), hex_char (n mod 16)]"

text \<open>\<open>atoi\<close>: \<open>strtol\<close> in base 10, clamped to 64 bits, converted to \<open>int\<close>.\<close>

definition atoi :: "string \<Rightarrow> int" where
  "atoi s =
     (let t = dropWhile c_isspace s;
          neg = (cur t = CHR ''-'');
          ds = takeWhile c_isdigit (if neg \<or> cur t = CHR ''+'' then tl t else t);
          v = (if neg then - digits_val 10 ds else digits_val 10 ds);
          v = max (- (2 ^ 63)) (min (2 ^ 63 - 1) v)
      in sint (word_of_int v :: 32 word))"

end
