(* ===== verification/Json.thy ===== *)
theory Json imports CLib begin

text \<open>
  \<open>cagent-test/third_party/cJSON/cJSON.c\<close>: the JSON values the agent and the test server
  exchange, the parser, the printer, and the operations on values they use.

  A \<open>cJSON\<close> item is the tree below it: the \<open>child\<close> list is a HOL list, a member of an
  object carries its \<open>string\<close>, and a NULL item is None.  Allocation succeeds and a printed
  text stays below INT_MAX bytes.  A parse buffer is the suffix of its content at
  \<open>offset\<close>; the content includes the terminating NUL, as in \<open>cJSON_Parse\<close>.  The
  position recorded for \<open>cJSON_GetErrorPtr\<close> is not modelled.

  A \<open>double\<close> is a value of a type \<open>'d\<close>, with the operations of C's arithmetic and of
  its library on doubles in the record \<open>double_ops\<close>.
\<close>

section \<open>Values\<close>

datatype 'd cJSON =
    cJSON_NULL
  | cJSON_False
  | cJSON_True
  | cJSON_Number 'd
  | cJSON_String string
  | cJSON_Raw string
  | cJSON_Array "'d cJSON list"
  | cJSON_Object "(string \<times> 'd cJSON) list"

record 'd double_ops =
  strtod :: "string \<Rightarrow> 'd \<times> nat"  \<comment> \<open>the value and how many characters were used\<close>
  isnan :: "'d \<Rightarrow> bool"
  isinf :: "'d \<Rightarrow> bool"
  of_int32 :: "int \<Rightarrow> 'd"
  to_int32 :: "'d \<Rightarrow> int"
  d_eq :: "'d \<Rightarrow> 'd \<Rightarrow> bool"
  d_le :: "'d \<Rightarrow> 'd \<Rightarrow> bool"
  d_less :: "'d \<Rightarrow> 'd \<Rightarrow> bool"
  fabs :: "'d \<Rightarrow> 'd"
  d_sub :: "'d \<Rightarrow> 'd \<Rightarrow> 'd"
  d_mul :: "'d \<Rightarrow> 'd \<Rightarrow> 'd"
  dbl_epsilon :: 'd
  fmt_g :: "nat \<Rightarrow> 'd \<Rightarrow> string"  \<comment> \<open>\<open>%1.<n>g\<close>\<close>

definition INT_MAX :: int where "INT_MAX = 2147483647"
definition INT_MIN :: int where "INT_MIN = - 2147483648"

definition valueint :: "'d double_ops \<Rightarrow> 'd \<Rightarrow> int" where
  "valueint D number =
     (if d_le D (of_int32 D INT_MAX) number then INT_MAX
      else if d_le D number (of_int32 D INT_MIN) then INT_MIN
      else to_int32 D number)"

section \<open>Building and reading values\<close>

fun cJSON_CreateString :: "string \<Rightarrow> 'd cJSON" where
  "cJSON_CreateString s = cJSON_String (c_string s)"

fun children :: "'d cJSON \<Rightarrow> (string option \<times> 'd cJSON) list" where
  "children (cJSON_Array vs) = map (Pair None) vs"
| "children (cJSON_Object ms) = map (\<lambda>(k, v). (Some k, v)) ms"
| "children _ = []"

definition cJSON_GetArraySize :: "'d cJSON option \<Rightarrow> nat" where
  "cJSON_GetArraySize a = (case a of None \<Rightarrow> 0 | Some v \<Rightarrow> length (children v))"

fun nth_child :: "(string option \<times> 'd cJSON) list \<Rightarrow> nat \<Rightarrow> 'd cJSON option" where
  "nth_child [] _ = None"
| "nth_child ((k, v) # cs) i = (if 0 < i then nth_child cs (i - 1) else Some v)"

definition get_array_item :: "'d cJSON option \<Rightarrow> nat \<Rightarrow> 'd cJSON option" where
  "get_array_item a i = (case a of None \<Rightarrow> None | Some v \<Rightarrow> nth_child (children v) i)"

text \<open>\<open>case_insensitive_strcmp\<close>: the sign of the result is not used, only whether it is 0.\<close>

fun strcasecmp_loop :: "string \<Rightarrow> string \<Rightarrow> int" where
  "strcasecmp_loop [] [] = 0"
| "strcasecmp_loop [] (d # t) = int (ascii (tolower cnul)) - int (ascii (tolower d))"
| "strcasecmp_loop (c # s) [] = int (ascii (tolower c)) - int (ascii (tolower cnul))"
| "strcasecmp_loop (c # s) (d # t) =
     (if tolower c = tolower d then strcasecmp_loop s t
      else int (ascii (tolower c)) - int (ascii (tolower d)))"

definition case_insensitive_strcmp :: "string option \<Rightarrow> string option \<Rightarrow> int" where
  "case_insensitive_strcmp a b =
     (case (a, b) of (Some s, Some t) \<Rightarrow> strcasecmp_loop s t | _ \<Rightarrow> 1)"

fun find_insensitive ::
    "string \<Rightarrow> (string option \<times> 'd cJSON) list \<Rightarrow> (string option \<times> 'd cJSON) option" where
  "find_insensitive name [] = None"
| "find_insensitive name ((k, v) # cs) =
     (if case_insensitive_strcmp (Some name) k \<noteq> 0 then find_insensitive name cs else Some (k, v))"

fun find_sensitive ::
    "string \<Rightarrow> (string option \<times> 'd cJSON) list \<Rightarrow> (string option \<times> 'd cJSON) option" where
  "find_sensitive name [] = None"
| "find_sensitive name ((k, v) # cs) =
     (if k \<noteq> None \<and> name \<noteq> the k then find_sensitive name cs else Some (k, v))"

definition get_object_item :: "'d cJSON option \<Rightarrow> string \<Rightarrow> bool \<Rightarrow> 'd cJSON option" where
  "get_object_item obj name case_sensitive =
     (case obj of
        None \<Rightarrow> None
      | Some v \<Rightarrow>
          (case (if case_sensitive then find_sensitive name (children v)
                 else find_insensitive name (children v)) of
             None \<Rightarrow> None
           | Some (None, _) \<Rightarrow> None
           | Some (Some _, e) \<Rightarrow> Some e))"

definition cJSON_GetObjectItem :: "'d cJSON option \<Rightarrow> string \<Rightarrow> 'd cJSON option" where
  "cJSON_GetObjectItem obj name = get_object_item obj name False"

definition cJSON_IsString :: "'d cJSON option \<Rightarrow> bool" where
  "cJSON_IsString v = (case v of Some (cJSON_String _) \<Rightarrow> True | _ \<Rightarrow> False)"

definition cJSON_IsArray :: "'d cJSON option \<Rightarrow> bool" where
  "cJSON_IsArray v = (case v of Some (cJSON_Array _) \<Rightarrow> True | _ \<Rightarrow> False)"

text \<open>\<open>valuestring\<close>: NULL unless the item is a string (or raw text).\<close>

fun valuestring :: "'d cJSON \<Rightarrow> string option" where
  "valuestring (cJSON_String s) = Some s"
| "valuestring (cJSON_Raw s) = Some s"
| "valuestring _ = None"

definition str_of :: "'d cJSON option \<Rightarrow> string option" where
  "str_of v = (if cJSON_IsString v then valuestring (the v) else None)"

text \<open>\<open>add_item_to_array\<close>: appends the item, unless it is NULL.  On an object the item goes
  under its own key, which only \<open>add_item_to_object\<close> sets.\<close>

fun cJSON_AddItemToArray :: "'d cJSON \<Rightarrow> 'd cJSON option \<Rightarrow> 'd cJSON" where
  "cJSON_AddItemToArray (cJSON_Array vs) (Some v) = cJSON_Array (vs @ [v])"
| "cJSON_AddItemToArray a _ = a"

fun cJSON_AddItemToObject :: "'d cJSON \<Rightarrow> string \<Rightarrow> 'd cJSON option \<Rightarrow> 'd cJSON" where
  "cJSON_AddItemToObject (cJSON_Object ms) k (Some v) = cJSON_Object (ms @ [(c_string k, v)])"
| "cJSON_AddItemToObject a _ _ = a"

definition cJSON_AddStringToObject :: "'d cJSON \<Rightarrow> string \<Rightarrow> string \<Rightarrow> 'd cJSON" where
  "cJSON_AddStringToObject obj name s = cJSON_AddItemToObject obj name (Some (cJSON_CreateString s))"

definition cJSON_AddNumberToObject :: "'d cJSON \<Rightarrow> string \<Rightarrow> 'd \<Rightarrow> 'd cJSON" where
  "cJSON_AddNumberToObject obj name d = cJSON_AddItemToObject obj name (Some (cJSON_Number d))"

text \<open>\<open>cJSON_Duplicate(item, 1)\<close> rebuilds the tree.\<close>

fun duplicate :: "'d cJSON \<Rightarrow> 'd cJSON" where
  "duplicate (cJSON_Array vs) = cJSON_Array (map duplicate vs)"
| "duplicate (cJSON_Object ms) = cJSON_Object (map (\<lambda>(k, v). (k, duplicate v)) ms)"
| "duplicate v = v"

definition cJSON_Duplicate :: "'d cJSON option \<Rightarrow> 'd cJSON option" where
  "cJSON_Duplicate v = map_option duplicate v"

section \<open>Parsing\<close>

definition ws :: "char \<Rightarrow> bool" where
  "ws c \<longleftrightarrow> ascii c \<le> 32"

text \<open>Skipping to the end of the buffer steps back to its last character.\<close>

definition buffer_skip_whitespace :: "string \<Rightarrow> string" where
  "buffer_skip_whitespace p =
     (if p = [] then []
      else let q = dropWhile ws p in if q = [] then [last p] else q)"

definition skip_utf8_bom :: "string \<Rightarrow> string" where
  "skip_utf8_bom p =
     (if 4 < length p \<and> take 3 p = [CHR 0xEF, CHR 0xBB, CHR 0xBF] then drop 3 p else p)"

definition number_char :: "char \<Rightarrow> bool" where
  "number_char c \<longleftrightarrow> c_isdigit c \<or> c \<in> set ''+-eE.''"

definition parse_number :: "'d double_ops \<Rightarrow> string \<Rightarrow> ('d cJSON \<times> string) option" where
  "parse_number D p =
     (let number_c_string = takeWhile number_char (take 63 p);
          (number, used) = strtod D number_c_string
      in if used = 0 then None else Some (cJSON_Number number, drop used p))"

text \<open>\<open>parse_hex4\<close>: 0 when one of the four characters is not a hexadecimal digit.\<close>

fun hex_digit :: "char \<Rightarrow> u32 option" where
  "hex_digit c =
     (if 48 \<le> ascii c \<and> ascii c \<le> 57 then Some (of_nat (ascii c) - 48)
      else if 65 \<le> ascii c \<and> ascii c \<le> 70 then Some (10 + of_nat (ascii c) - 65)
      else if 97 \<le> ascii c \<and> ascii c \<le> 102 then Some (10 + of_nat (ascii c) - 97)
      else None)"

text \<open>\<open>n\<close> digits are still to be read.\<close>

fun hex4_loop :: "nat \<Rightarrow> u32 \<Rightarrow> string \<Rightarrow> u32" where
  "hex4_loop 0 h s = h"
| "hex4_loop (Suc n) h s =
     (case hex_digit (cur s) of
        None \<Rightarrow> 0
      | Some d \<Rightarrow> hex4_loop n (if 0 < n then push_bit 4 (h + d) else h + d) (tl s))"

definition parse_hex4 :: "string \<Rightarrow> u32" where
  "parse_hex4 s = hex4_loop 4 0 s"

definition byte :: "u64 \<Rightarrow> char" where
  "byte w = char_of (unat (w AND 0xFF))"

text \<open>The continuation bytes, last first, in front of \<open>acc\<close>; what is left of the codepoint.\<close>

fun utf8_tail :: "nat \<Rightarrow> u64 \<Rightarrow> string \<Rightarrow> u64 \<times> string" where
  "utf8_tail 0 cp acc = (cp, acc)"
| "utf8_tail (Suc n) cp acc = utf8_tail n (drop_bit 6 cp) (byte ((cp OR 0x80) AND 0xBF) # acc)"

definition encode_utf8 :: "u64 \<Rightarrow> string option" where
  "encode_utf8 codepoint =
     (let enc = \<lambda>n mark. (let (cp, acc) = utf8_tail (n - 1) codepoint []
                          in Some ((if 1 < n then byte ((cp OR mark) AND 0xFF)
                                    else byte (cp AND 0x7F)) # acc))
      in if codepoint < 0x80 then enc 1 0
         else if codepoint < 0x800 then enc 2 0xC0
         else if codepoint < 0x10000 then enc 3 0xE0
         else if codepoint \<le> 0x10FFFF then enc 4 0xF0
         else None)"

text \<open>\<open>utf16_literal_to_utf8\<close> at a backslash and \<open>u\<close>: the bytes it stores and how
  many characters of the literal it used.\<close>

definition utf16_literal_to_utf8 :: "string \<Rightarrow> (string \<times> nat) option" where
  "utf16_literal_to_utf8 p =
     (if length p < 6 then None
      else
        let first_code = parse_hex4 (drop 2 p)
        in if 0xDC00 \<le> first_code \<and> first_code \<le> 0xDFFF then None
           else if 0xD800 \<le> first_code \<and> first_code \<le> 0xDBFF then
             let q = drop 6 p
             in if length q < 6 then None
                else if take 2 q \<noteq> [CHR 0x5C, CHR ''u''] then None
                else
                  let second_code = parse_hex4 (drop 2 q)
                  in if second_code < 0xDC00 \<or> 0xDFFF < second_code then None
                     else map_option (\<lambda>o'. (o', 12))
                       (encode_utf8 (0x10000 +
                          (push_bit 10 (ucast (first_code AND 0x3FF)) OR ucast (second_code AND 0x3FF))))
           else map_option (\<lambda>o'. (o', 6)) (encode_utf8 (ucast first_code)))"

text \<open>The first loop of \<open>parse_string\<close>: the text of the literal and what follows its
  closing quote.\<close>

fun scan_literal :: "string \<Rightarrow> string \<Rightarrow> (string \<times> string) option" where
  "scan_literal acc [] = None"
| "scan_literal acc [c] =
     (if c = CHR 0x22 then Some (rev acc, []) else None)"
| "scan_literal acc (c # d # s) =
     (if c = CHR 0x22 then Some (rev acc, d # s)
      else if c = CHR 0x5C then scan_literal (d # c # acc) s
      else scan_literal (c # acc) (d # s))"

fun simple_escape :: "char \<Rightarrow> char option" where
  "simple_escape c =
     (if c = CHR ''b'' then Some (CHR 0x08)
      else if c = CHR ''f'' then Some (CHR 0x0C)
      else if c = CHR ''n'' then Some (CHR 0x0A)
      else if c = CHR ''r'' then Some (CHR 0x0D)
      else if c = CHR ''t'' then Some (CHR 0x09)
      else if c \<in> {CHR 0x22, CHR 0x5C, CHR ''/''} then Some c
      else None)"

lemma utf16_literal_used: "utf16_literal_to_utf8 p = Some (bytes, used) \<Longrightarrow> 0 < used \<and> p \<noteq> []"
  by (auto simp: utf16_literal_to_utf8_def Let_def split: if_splits)

text \<open>The second loop of \<open>parse_string\<close>, over the text of the literal; the character
  after its last one is the closing quote.\<close>

function unescape :: "string \<Rightarrow> string option" where
  "unescape p =
     (case p of
        [] \<Rightarrow> Some []
      | c # s \<Rightarrow>
          if c \<noteq> CHR 0x5C then map_option ((#) c) (unescape s)
          else
            let e = (case s of [] \<Rightarrow> CHR 0x22 | e # _ \<Rightarrow> e)
            in if e = CHR ''u'' then
                 (case utf16_literal_to_utf8 p of
                    None \<Rightarrow> None
                  | Some (bytes, used) \<Rightarrow> map_option ((@) bytes) (unescape (drop used p)))
               else
                 (case simple_escape e of
                    None \<Rightarrow> None
                  | Some o' \<Rightarrow> map_option ((#) o') (unescape (tl s))))"
  by auto
termination
  by (relation "measure length") (auto dest!: utf16_literal_used simp del: length_drop simp: length_drop)

declare unescape.simps [simp del]

text \<open>The item's string is read up to its first NUL.\<close>

definition parse_string :: "string \<Rightarrow> (string \<times> string) option" where
  "parse_string p =
     (if cur p \<noteq> CHR 0x22 then None
      else case scan_literal [] (tl p) of
             None \<Rightarrow> None
           | Some (raw, rest) \<Rightarrow>
               (case unescape raw of
                  None \<Rightarrow> None
                | Some out \<Rightarrow> Some (c_string out, rest)))"


definition can_read_text :: "string \<Rightarrow> string \<Rightarrow> bool" where
  "can_read_text p w \<longleftrightarrow> length w \<le> length p \<and> take (length w) p = w"

text \<open>A parser of values, for the elements of arrays and objects.  The outer option of the two
  loops is for returning at all, the inner one for success; that they always return is the
  theorem \<open>json_loops_end\<close> of \<open>JsonProps\<close>.\<close>

type_synonym 'd parser = "string \<Rightarrow> ('d cJSON \<times> string) option"

partial_function (option) parse_elements ::
    "'d parser \<Rightarrow> 'd cJSON list \<Rightarrow> string \<Rightarrow> ('d cJSON \<times> string) option option" where
  "parse_elements pv acc p =
     (case pv (buffer_skip_whitespace p) of
        None \<Rightarrow> Some None
      | Some (v, q) \<Rightarrow>
          let q = buffer_skip_whitespace q
          in if q \<noteq> [] \<and> cur q = CHR '','' then parse_elements pv (acc @ [v]) (tl q)
             else if q = [] \<or> cur q \<noteq> CHR '']'' then Some None
             else Some (Some (cJSON_Array (acc @ [v]), tl q)))"

definition parse_array :: "'d parser \<Rightarrow> string \<Rightarrow> ('d cJSON \<times> string) option" where
  "parse_array pv p =
     (if cur p \<noteq> CHR ''['' then None
      else
        let q = buffer_skip_whitespace (tl p)
        in if q \<noteq> [] \<and> cur q = CHR '']'' then Some (cJSON_Array [], tl q)
           else if q = [] then None
           else case parse_elements pv [] q of None \<Rightarrow> None | Some r \<Rightarrow> r)"

partial_function (option) parse_members ::
    "'d parser \<Rightarrow> (string \<times> 'd cJSON) list \<Rightarrow> string \<Rightarrow> ('d cJSON \<times> string) option option" where
  "parse_members pv acc p =
     (if p = [] then Some None
      else case parse_string (buffer_skip_whitespace p) of
        None \<Rightarrow> Some None
      | Some (k, q) \<Rightarrow>
          let q = buffer_skip_whitespace q
          in if q = [] \<or> cur q \<noteq> CHR '':'' then Some None
             else case pv (buffer_skip_whitespace (tl q)) of
               None \<Rightarrow> Some None
             | Some (v, r) \<Rightarrow>
                 let r = buffer_skip_whitespace r
                 in if r \<noteq> [] \<and> cur r = CHR '','' then parse_members pv (acc @ [(k, v)]) (tl r)
                    else if r = [] \<or> cur r \<noteq> CHR ''}'' then Some None
                    else Some (Some (cJSON_Object (acc @ [(k, v)]), tl r)))"

definition parse_object :: "'d parser \<Rightarrow> string \<Rightarrow> ('d cJSON \<times> string) option" where
  "parse_object pv p =
     (if p = [] \<or> cur p \<noteq> CHR ''{'' then None
      else
        let q = buffer_skip_whitespace (tl p)
        in if q \<noteq> [] \<and> cur q = CHR ''}'' then Some (cJSON_Object [], tl q)
           else if q = [] then None
           else case parse_members pv [] q of None \<Rightarrow> None | Some r \<Rightarrow> r)"

text \<open>One level of \<open>parse_value\<close>.  \<open>sub\<close> parses what is nested in an array or object;
  it is None at the nesting limit.\<close>

definition value_step :: "'d double_ops \<Rightarrow> 'd parser option \<Rightarrow> 'd parser" where
  "value_step D sub p =
     (if can_read_text p ''null'' then Some (cJSON_NULL, drop 4 p)
      else if can_read_text p ''false'' then Some (cJSON_False, drop 5 p)
      else if can_read_text p ''true'' then Some (cJSON_True, drop 4 p)
      else if p \<noteq> [] \<and> cur p = CHR 0x22 then
        map_option (\<lambda>(s, q). (cJSON_String s, q)) (parse_string p)
      else if p \<noteq> [] \<and> (cur p = CHR ''-'' \<or> 48 \<le> ascii (cur p) \<and> ascii (cur p) \<le> 57) then
        parse_number D p
      else if p \<noteq> [] \<and> cur p = CHR ''['' then
        (case sub of None \<Rightarrow> None | Some pv \<Rightarrow> parse_array pv p)
      else if p \<noteq> [] \<and> cur p = CHR ''{'' then
        (case sub of None \<Rightarrow> None | Some pv \<Rightarrow> parse_object pv p)
      else None)"

text \<open>\<open>parse_value\<close> with \<open>room\<close> levels left below CJSON_NESTING_LIMIT.\<close>

primrec parse_value :: "'d double_ops \<Rightarrow> nat \<Rightarrow> 'd parser" where
  "parse_value D 0 = value_step D None"
| "parse_value D (Suc room) = value_step D (Some (parse_value D room))"

definition CJSON_NESTING_LIMIT :: nat where
  "CJSON_NESTING_LIMIT = 1000"

definition cJSON_ParseWithLengthOpts :: "'d double_ops \<Rightarrow> string \<Rightarrow> bool \<Rightarrow> 'd cJSON option" where
  "cJSON_ParseWithLengthOpts D buf require_null_terminated =
     (if buf = [] then None
      else
        case parse_value D CJSON_NESTING_LIMIT (buffer_skip_whitespace (skip_utf8_bom buf)) of
          None \<Rightarrow> None
        | Some (v, p) \<Rightarrow>
            if require_null_terminated then
              let p = buffer_skip_whitespace p
              in if p = [] \<or> cur p \<noteq> cnul then None else Some v
            else Some v)"

definition cJSON_ParseWithOpts :: "'d double_ops \<Rightarrow> string \<Rightarrow> bool \<Rightarrow> 'd cJSON option" where
  "cJSON_ParseWithOpts D text_in require_null_terminated =
     cJSON_ParseWithLengthOpts D (text_in @ [cnul]) require_null_terminated"

definition cJSON_Parse :: "'d double_ops \<Rightarrow> string \<Rightarrow> 'd cJSON option" where
  "cJSON_Parse D text_in = cJSON_ParseWithOpts D text_in False"

section \<open>Printing\<close>

definition compare_double :: "'d double_ops \<Rightarrow> 'd \<Rightarrow> 'd \<Rightarrow> bool" where
  "compare_double D a b =
     (let maxVal = (if d_less D (fabs D b) (fabs D a) then fabs D a else fabs D b)
      in d_le D (fabs D (d_sub D a b)) (d_mul D maxVal (dbl_epsilon D)))"

definition print_number :: "'d double_ops \<Rightarrow> 'd \<Rightarrow> string option" where
  "print_number D d =
     (let number_buffer =
        (if isnan D d \<or> isinf D d then ''null''
         else if d_eq D d (of_int32 D (valueint D d)) then fmt_d (valueint D d)
         else
           let s = fmt_g D 15 d; (test, used) = strtod D s
           in if used = 0 \<or> \<not> compare_double D test d then fmt_g D 17 d else s)
      in if 25 < length number_buffer then None else Some number_buffer)"

text \<open>\<open>print_string_ptr\<close>: a string that needs no escape is copied.\<close>

definition escape_count :: "char \<Rightarrow> nat" where
  "escape_count c =
     (if c \<in> {CHR 0x22, CHR 0x5C, CHR 0x08, CHR 0x0C, CHR 0x0A, CHR 0x0D, CHR 0x09} then 1
      else if ascii c < 32 then 5 else 0)"

definition escape_char :: "char \<Rightarrow> string" where
  "escape_char c =
     (if 31 < ascii c \<and> c \<noteq> CHR 0x22 \<and> c \<noteq> CHR 0x5C then [c]
      else CHR 0x5C #
        (if c = CHR 0x5C then [CHR 0x5C]
         else if c = CHR 0x22 then [CHR 0x22]
         else if c = CHR 0x08 then ''b''
         else if c = CHR 0x0C then ''f''
         else if c = CHR 0x0A then ''n''
         else if c = CHR 0x0D then ''r''
         else if c = CHR 0x09 then ''t''
         else CHR ''u'' # fmt_04x (ascii c)))"

definition print_string_ptr :: "string \<Rightarrow> string" where
  "print_string_ptr s =
     (if sum_list (map escape_count s) = 0 then CHR 0x22 # s @ [CHR 0x22]
      else CHR 0x22 # concat (map escape_char s) @ [CHR 0x22])"

text \<open>\<open>print_value\<close>, \<open>print_array\<close>, \<open>print_object\<close>; \<open>depth\<close> counts the
  arrays and objects around the value.\<close>

fun print_value :: "'d double_ops \<Rightarrow> bool \<Rightarrow> nat \<Rightarrow> 'd cJSON \<Rightarrow> string option"
  and print_elements :: "'d double_ops \<Rightarrow> bool \<Rightarrow> nat \<Rightarrow> 'd cJSON list \<Rightarrow> string option"
  and print_members :: "'d double_ops \<Rightarrow> bool \<Rightarrow> nat \<Rightarrow> (string \<times> 'd cJSON) list \<Rightarrow> string option"
where
  "print_value D fm depth cJSON_NULL = Some ''null''"
| "print_value D fm depth cJSON_False = Some ''false''"
| "print_value D fm depth cJSON_True = Some ''true''"
| "print_value D fm depth (cJSON_Number d) = print_number D d"
| "print_value D fm depth (cJSON_Raw s) = Some s"
| "print_value D fm depth (cJSON_String s) = Some (print_string_ptr s)"
| "print_value D fm depth (cJSON_Array vs) =
     map_option (\<lambda>s. ''['' @ s @ '']'') (print_elements D fm (depth + 1) vs)"
| "print_value D fm depth (cJSON_Object ms) =
     map_option (\<lambda>s. ''{'' @ (if fm then [CHR 0x0A] else []) @ s
                     @ (if fm then replicate depth (CHR 0x09) else []) @ ''}'')
       (print_members D fm (depth + 1) ms)"
| "print_elements D fm depth [] = Some []"
| "print_elements D fm depth (v # vs) =
     (case print_value D fm depth v of
        None \<Rightarrow> None
      | Some s \<Rightarrow>
          map_option (\<lambda>t. s @ (if vs \<noteq> [] then '','' @ (if fm then '' '' else []) else []) @ t)
            (print_elements D fm depth vs))"
| "print_members D fm depth [] = Some []"
| "print_members D fm depth ((k, v) # ms) =
     (case print_value D fm depth v of
        None \<Rightarrow> None
      | Some s \<Rightarrow>
          map_option (\<lambda>t. (if fm then replicate depth (CHR 0x09) else [])
              @ print_string_ptr k @ '':'' @ (if fm then [CHR 0x09] else []) @ s
              @ (if ms \<noteq> [] then '','' else []) @ (if fm then [CHR 0x0A] else []) @ t)
            (print_members D fm depth ms))"

definition print_json :: "'d double_ops \<Rightarrow> 'd cJSON \<Rightarrow> bool \<Rightarrow> string option" where
  "print_json D v fm = print_value D fm 0 v"

definition cJSON_PrintUnformatted :: "'d double_ops \<Rightarrow> 'd cJSON \<Rightarrow> string option" where
  "cJSON_PrintUnformatted D v = print_json D v False"

end
