(* ===== verification/JsonProps.thy ===== *)
theory JsonProps imports Json begin

text \<open>
  Properties of the JSON library: printing and parsing are inverse, what the parser
  accepts is well formed, and member lookup ignores case.
\<close>

section \<open>Strings round-trip\<close>

lemma scan_quote [simp]: "scan_literal acc (CHR 0x22 # r) = Some (rev acc, r)"
  by (cases r) auto

lemma scan_escape [simp]: "scan_literal acc (CHR 0x5C # d # r) = scan_literal (d # CHR 0x5C # acc) r"
  by simp

lemma scan_plain:
  "c \<noteq> CHR 0x22 \<Longrightarrow> c \<noteq> CHR 0x5C \<Longrightarrow> scan_literal acc (c # r) = scan_literal (c # acc) r"
  by (cases r) auto

lemma hex_char_plain: "hex_char (n mod 16) \<noteq> CHR 0x22" "hex_char (n mod 16) \<noteq> CHR 0x5C"
proof -
  have "ascii (hex_char (n mod 16)) \<noteq> 0x22" "ascii (hex_char (n mod 16)) \<noteq> 0x5C"
    by (auto simp: hex_char_def ascii_def)
  then show "hex_char (n mod 16) \<noteq> CHR 0x22" "hex_char (n mod 16) \<noteq> CHR 0x5C"
    by (auto simp: ascii_def)
qed

lemma scan_fmt_04x: "scan_literal acc (fmt_04x n @ r) = scan_literal (rev (fmt_04x n) @ acc) r"
  by (simp add: fmt_04x_def scan_plain hex_char_plain)

lemma scan_escape_char: "scan_literal acc (escape_char c @ r) = scan_literal (rev (escape_char c) @ acc) r"
  by (auto simp: escape_char_def scan_plain scan_fmt_04x)

lemma scan_escaped:
  "scan_literal acc (concat (map escape_char s) @ CHR 0x22 # r) = Some (rev acc @ concat (map escape_char s), r)"
  by (induction s arbitrary: acc) (simp_all add: scan_escape_char)

lemma ascii_char_of [simp]: "ascii (char_of n) = n mod 256"
  by (simp add: ascii_def)

lemma hex_digit_char: "n < 16 \<Longrightarrow> hex_digit (hex_char n) = Some (of_nat n)"
  by (auto simp: hex_char_def)

lemma hex4_unroll: "hex4_loop 4 h s = hex4_loop (Suc (Suc (Suc (Suc 0)))) h s"
  by (simp add: numeral_eq_Suc del: hex_digit.simps hex4_loop.simps)

lemma parse_hex4_fmt:
  assumes "n < 256"
  shows "parse_hex4 (fmt_04x n @ r) = of_nat n"
proof -
  have z: "n div 4096 = 0" "n div 256 = 0" "n div 16 mod 16 = n div 16" "n div 16 < 16"
    using assms by auto
  have "n mod 16 + 16 * (n div 16) = n" by simp
  then have "of_nat (n mod 16 + 16 * (n div 16)) = (of_nat n :: u32)"
    by (rule arg_cong)
  then have "of_nat (n mod 16) + 16 * of_nat (n div 16) = (of_nat n :: u32)"
    by (simp only: of_nat_add of_nat_mult of_nat_numeral)
  then show ?thesis
    by (simp add: parse_hex4_def fmt_04x_def z hex4_unroll hex_digit_char push_bit_eq_mult algebra_simps
        del: hex_digit.simps)
qed

lemma encode_ascii:
  assumes "cp < 0x80"
  shows "encode_utf8 cp = Some [char_of (unat cp)]"
proof -
  have u: "unat cp < 128" using assms by (simp add: word_less_nat_alt)
  have m: "(0x7F :: u64) = mask 7" "(0xFF :: u64) = mask 8" by (simp_all add: mask_eq_exp_minus_1)
  have "unat (take_bit 7 cp) = unat cp" "unat (take_bit 8 cp) = unat cp"
    using u by (simp_all add: unsigned_take_bit_eq take_bit_nat_eq_self)
  then have "cp AND 0x7F = cp" "cp AND 0xFF = cp"
    unfolding m by (simp_all add: take_bit_eq_mask [symmetric] word_unat_eq_iff)
  then show ?thesis using assms by (simp add: encode_utf8_def byte_def)
qed

lemma utf16_control:
  assumes "ascii c < 32"
  shows "utf16_literal_to_utf8 (CHR 0x5C # CHR ''u'' # fmt_04x (ascii c) @ r) = Some ([c], 6)"
proof -
  have h: "parse_hex4 (fmt_04x (ascii c) @ r) = of_nat (ascii c)"
    using assms by (simp add: parse_hex4_fmt)
  have l: "length (fmt_04x (ascii c)) = 4" by (simp add: fmt_04x_def)
  have u: "unat (of_nat (ascii c) :: u32) = ascii c" "unat (of_nat (ascii c) :: u64) = ascii c"
    using assms by (simp_all add: unat_of_nat)
  have lt: "(of_nat (ascii c) :: u32) < 0xD800" "(of_nat (ascii c) :: u64) < 0x80"
    using assms u by (simp_all add: word_less_nat_alt)
  then have "\<not> 0xDC00 \<le> (of_nat (ascii c) :: u32)" "\<not> 0xD800 \<le> (of_nat (ascii c) :: u32)" by unat_arith+
  moreover have "ucast (of_nat (ascii c) :: u32) = (of_nat (ascii c) :: u64)"
    using u by (simp add: word_unat_eq_iff unat_ucast_up)
  moreover have "char_of (ascii c) = c" by (simp add: ascii_def)
  ultimately show ?thesis
    using encode_ascii [OF lt(2)] u by (simp add: utf16_literal_to_utf8_def h l Let_def)
qed

lemma append_Cons_fun: "(@) [c] = (#) c"
  by auto

lemma unescape_plain: "c \<noteq> CHR 0x5C \<Longrightarrow> unescape (c # s) = map_option ((#) c) (unescape s)"
  by (subst unescape.simps) simp

lemma unescape_simple:
  "simple_escape e = Some o' \<Longrightarrow> unescape (CHR 0x5C # e # s) = map_option ((#) o') (unescape s)"
  by (subst unescape.simps) (auto split: if_splits)

lemma unescape_escape_char: "unescape (escape_char c @ s) = map_option ((#) c) (unescape s)"
proof -
  have u: "unescape (CHR 0x5C # CHR ''u'' # fmt_04x (ascii c) @ s) = map_option ((#) c) (unescape s)"
    if "ascii c < 32"
    by (subst unescape.simps) (simp add: utf16_control [OF that], simp add: fmt_04x_def append_Cons_fun)
  show ?thesis
    by (auto simp: escape_char_def unescape_plain unescape_simple u)
qed

lemma unescape_escaped: "unescape (concat (map escape_char s)) = Some s"
  by (induction s) (simp_all add: unescape_escape_char, subst unescape.simps, simp)

lemma escape_none: "escape_count c = 0 \<Longrightarrow> escape_char c = [c]"
  by (auto simp: escape_count_def escape_char_def split: if_splits)

lemma print_string_eq: "print_string_ptr s = CHR 0x22 # concat (map escape_char s) @ [CHR 0x22]"
proof -
  have "concat (map escape_char s) = s" if "sum_list (map escape_count s) = 0"
    using that by (induction s) (simp_all add: escape_none)
  then show ?thesis by (simp add: print_string_ptr_def)
qed

lemma parse_print_string:
  "cnul \<notin> set s \<Longrightarrow> parse_string (print_string_ptr s @ r) = Some (s, r)"
  by (simp add: parse_string_def print_string_eq scan_escaped unescape_escaped c_string_id)

section \<open>Values round-trip\<close>

definition number_ok :: "'d double_ops \<Rightarrow> 'd \<Rightarrow> bool" where
  "number_ok D d =
     (case print_number D d of
        None \<Rightarrow> False
      | Some s \<Rightarrow> s \<noteq> [] \<and> list_all number_char s \<and> (hd s = CHR ''-'' \<or> c_isdigit (hd s))
                 \<and> strtod D s = (d, length s))"

text \<open>The shape of a value that nests at most \<open>room\<close> levels, with \<open>N\<close> for its numbers.\<close>

fun json_shape :: "('d \<Rightarrow> bool) \<Rightarrow> nat \<Rightarrow> 'd cJSON \<Rightarrow> bool" where
  "json_shape N room (cJSON_Number d) = N d"
| "json_shape N room (cJSON_String s) = (cnul \<notin> set s)"
| "json_shape N room (cJSON_Raw s) = False"
| "json_shape N room (cJSON_Array vs) = (0 < room \<and> list_all (json_shape N (room - 1)) vs)"
| "json_shape N room (cJSON_Object ms) =
     (0 < room \<and> list_all (\<lambda>(k, v). cnul \<notin> set k \<and> json_shape N (room - 1) v) ms)"
| "json_shape N room v = True"

abbreviation json_ok :: "'d double_ops \<Rightarrow> nat \<Rightarrow> 'd cJSON \<Rightarrow> bool" where
  "json_ok D \<equiv> json_shape (number_ok D)"

definition follow :: "string \<Rightarrow> bool" where
  "follow r \<longleftrightarrow> r \<noteq> [] \<and> \<not> number_char (hd r)"

lemma follow_punct:
  "follow (CHR '','' # r)" "follow (CHR '']'' # r)" "follow (CHR ''}'' # r)" "follow (CHR 0x0A # r)" "follow (cnul # r)"
  by (simp_all add: follow_def number_char_def ctype_ascii ascii_def cnul_def)

definition starts :: "string \<Rightarrow> bool" where
  "starts s \<longleftrightarrow> s \<noteq> [] \<and> \<not> ws (hd s) \<and> hd s \<noteq> CHR '']'' \<and> hd s \<noteq> CHR 0xEF"

lemma skip_ws_append:
  "list_all ws w \<Longrightarrow> s \<noteq> [] \<Longrightarrow> \<not> ws (hd s) \<Longrightarrow> buffer_skip_whitespace (w @ s) = s"
  by (induction w) (auto simp: buffer_skip_whitespace_def Let_def neq_Nil_conv dropWhile_append3)

lemma skip_ws_id: "s \<noteq> [] \<Longrightarrow> \<not> ws (hd s) \<Longrightarrow> buffer_skip_whitespace s = s"
  using skip_ws_append [of "[]" s] by simp

lemma ws_facts [simp]:
  "ws (CHR 0x09)" "ws (CHR 0x0A)" "ws (CHR '' '')" "\<not> ws (CHR '','')" "\<not> ws (CHR '']'')" "\<not> ws (CHR ''}'')"
  "\<not> ws (CHR 0x22)" "\<not> ws (CHR '':'')" "\<not> ws (CHR ''['')" "\<not> ws (CHR ''{'')" "ws cnul"
  by (simp_all add: ws_def ascii_def cnul_def)

lemma number_char_not_ws: "c_isdigit c \<Longrightarrow> \<not> ws c"
  by (simp add: ctype_ascii ws_def)

definition parses :: "'d double_ops \<Rightarrow> nat \<Rightarrow> bool \<Rightarrow> nat \<Rightarrow> 'd cJSON \<Rightarrow> bool" where
  "parses D room fm depth v \<longleftrightarrow>
     (\<forall>s. print_value D fm depth v = Some s \<longrightarrow> starts s \<and>
        (\<forall>r. follow r \<longrightarrow> parse_value D room (s @ r) = Some (v, r)))"

lemma parse_value_step: "\<exists>sub. parse_value D room = value_step D sub"
  by (cases room) auto

lemma parses_literal:
  "parses D room fm depth cJSON_NULL" "parses D room fm depth cJSON_True" "parses D room fm depth cJSON_False"
  using parse_value_step [of D room]
  by (auto simp: parses_def value_step_def can_read_text_def starts_def ws_def ascii_def)

lemma takeWhile_all_follow: "list_all P s \<Longrightarrow> \<not> P c \<Longrightarrow> takeWhile P (s @ c # r) = s"
  by (induction s) auto

lemma parses_number:
  assumes "number_ok D d"
  shows "parses D room fm depth (cJSON_Number d)"
  unfolding parses_def
proof (intro allI impI conjI)
  fix s assume p: "print_value D fm depth (cJSON_Number d) = Some s"
  then have len: "length s \<le> 25" by (auto simp: print_number_def Let_def split: if_splits)
  have ok: "s \<noteq> []" "list_all number_char s" "hd s = CHR ''-'' \<or> c_isdigit (hd s)" "strtod D s = (d, length s)"
    using assms p by (auto simp: number_ok_def)
  show "starts s"
    using ok by (auto simp: starts_def number_char_not_ws) (auto simp: ws_def ctype_ascii ascii_def)
  fix r assume "follow r"
  then obtain c r' where r: "r = c # r'" "\<not> number_char c"
    by (cases r) (auto simp: follow_def)
  have "takeWhile number_char (take 63 (s @ r)) = s"
  proof -
    have "take 63 (s @ r) = s @ c # take (62 - length s) r'"
      using len r by (simp add: take_Cons')
    then show ?thesis using r ok(2) by (simp add: takeWhile_all_follow)
  qed
  then have n: "parse_number D (s @ r) = Some (cJSON_Number d, r)"
    using ok by (simp add: parse_number_def)
  obtain h t where s: "s = h # t" using ok(1) by (cases s) auto
  have h: "h \<notin> {CHR ''n'', CHR ''f'', CHR ''t'', CHR 0x22}" "h = CHR ''-'' \<or> 48 \<le> ascii h \<and> ascii h \<le> 57"
    using ok(3) s by (auto simp: ctype_ascii) (auto simp: ascii_def)
  obtain sub where sub: "parse_value D room = value_step D sub" using parse_value_step by metis
  show "parse_value D room (s @ r) = Some (cJSON_Number d, r)"
    using n h by (simp add: sub value_step_def can_read_text_def s)
qed

lemma parses_string:
  assumes "cnul \<notin> set s"
  shows "parses D room fm depth (cJSON_String s)"
proof -
  obtain sub where sub: "parse_value D room = value_step D sub" using parse_value_step by metis
  have "parse_value D room (print_string_ptr s @ r) = Some (cJSON_String s, r)" for r
    using parse_print_string [OF assms, of r]
    by (simp add: sub value_step_def can_read_text_def print_string_eq)
  then show ?thesis by (simp add: parses_def starts_def print_string_eq)
qed

lemma starts_head: "starts s \<Longrightarrow> s @ r \<noteq> [] \<and> \<not> ws (hd (s @ r)) \<and> cur (s @ r) \<noteq> CHR '']''"
  by (cases s) (auto simp: starts_def)

lemma elements_start:
  assumes "\<forall>v \<in> set vs. parses D room fm depth v" "vs \<noteq> []" "print_elements D fm depth vs = Some s"
  shows "starts s \<and> length vs \<le> length s"
  using assms(2,3,1)
proof (induction vs arbitrary: s)
  case (Cons v vs)
  obtain a t where p: "print_value D fm depth v = Some a" "print_elements D fm depth vs = Some t"
    and s: "s = a @ (if vs \<noteq> [] then '','' @ (if fm then '' '' else []) else []) @ t"
    using Cons.prems(2) by (auto split: option.splits)
  have a: "starts a" using p(1) Cons.prems(3) by (simp add: parses_def)
  then have "starts s" using starts_head [OF a] by (auto simp: s starts_def)
  moreover have "1 \<le> length a" using a by (cases a) (auto simp: starts_def)
  moreover have "vs \<noteq> [] \<Longrightarrow> length vs \<le> length t" using Cons p(2) by auto
  ultimately show ?case by (cases "vs = []") (auto simp: s)
qed simp

lemma elements_parse:
  assumes "\<forall>v \<in> set vs. parses D room fm depth v" "vs \<noteq> []" "print_elements D fm depth vs = Some s"
    "list_all ws w"
  shows "parse_elements (parse_value D room) acc (w @ s @ CHR '']'' # r) = Some (Some (cJSON_Array (acc @ vs), r))"
  using assms
proof (induction vs arbitrary: s w acc)
  case (Cons v vs)
  obtain a t where p: "print_value D fm depth v = Some a" "print_elements D fm depth vs = Some t"
    and s: "s = a @ (if vs \<noteq> [] then '','' @ (if fm then '' '' else []) else []) @ t"
    using Cons.prems(3) by (auto split: option.splits)
  have a: "starts a" "\<And>r. follow r \<Longrightarrow> parse_value D room (a @ r) = Some (v, r)"
    using p(1) Cons.prems(1) by (simp_all add: parses_def)
  have skip: "buffer_skip_whitespace (w @ a @ x) = a @ x" for x
    using starts_head [OF a(1), of x] Cons.prems(4) by (simp add: skip_ws_append)
  show ?case
  proof (cases "vs = []")
    case True
    then have "t = []" using p(2) by simp
    then show ?thesis
      using True by (subst parse_elements.simps) (simp add: s skip a(2) follow_punct skip_ws_id Let_def)
  next
    case False
    have "parse_elements (parse_value D room) (acc @ [v]) ((if fm then '' '' else []) @ t @ CHR '']'' # r)
        = Some (Some (cJSON_Array ((acc @ [v]) @ vs), r))"
      using Cons.prems False p(2) by (intro Cons.IH) auto
    then show ?thesis
      using False by (subst parse_elements.simps) (simp add: s skip a(2) follow_punct skip_ws_id Let_def)
  qed
qed simp

lemma parses_array:
  assumes "\<forall>v \<in> set vs. parses D room fm (depth + 1) v"
  shows "parses D (Suc room) fm depth (cJSON_Array vs)"
  unfolding parses_def
proof (intro allI impI)
  fix s assume "print_value D fm depth (cJSON_Array vs) = Some s"
  then obtain t where t: "print_elements D fm (depth + 1) vs = Some t" and s: "s = CHR ''['' # t @ '']''"
    by auto
  have arr: "parse_array (parse_value D room) (s @ r) = Some (cJSON_Array vs, r)" for r
  proof (cases "vs = []")
    case True
    then show ?thesis using t by (simp add: s parse_array_def skip_ws_id Let_def)
  next
    case False
    note st = elements_start [OF assms False t]
    note h = starts_head [OF conjunct1 [OF st], of "CHR '']'' # r"]
    have "parse_elements (parse_value D room) [] ([] @ t @ CHR '']'' # r) = Some (Some (cJSON_Array ([] @ vs), r))"
      by (intro elements_parse [OF assms False t]) auto
    then show ?thesis using h by (simp add: s parse_array_def skip_ws_id Let_def)
  qed
  show "starts s \<and> (\<forall>r. follow r \<longrightarrow> parse_value D (Suc room) (s @ r) = Some (cJSON_Array vs, r))"
    using arr by (auto simp: s starts_def value_step_def can_read_text_def ascii_def)
qed


lemma ws_not_number: "ws c \<Longrightarrow> \<not> number_char c"
  by (auto simp: ws_def number_char_def ctype_ascii ascii_def)

lemma follow_ws: "list_all ws x \<Longrightarrow> follow (x @ CHR ''}'' # r)"
  using follow_punct(3) [of r] by (cases x) (auto simp: follow_def ws_not_number)

lemma members_parse:
  assumes "\<forall>(k, v) \<in> set ms. cnul \<notin> set k \<and> parses D room fm depth v" "ms \<noteq> []"
    "print_members D fm depth ms = Some s" "list_all ws w" "list_all ws w'"
  shows "parse_members (parse_value D room) acc (w @ s @ w' @ CHR ''}'' # r) = Some (Some (cJSON_Object (acc @ ms), r))"
  using assms
proof (induction ms arbitrary: s w acc)
  case (Cons kv ms)
  obtain k v where kv: "kv = (k, v)" by (cases kv) auto
  obtain a t where p: "print_value D fm depth v = Some a" "print_members D fm depth ms = Some t"
    and s: "s = (if fm then replicate depth (CHR 0x09) else []) @ print_string_ptr k @ '':''
        @ (if fm then [CHR 0x09] else []) @ a @ (if ms \<noteq> [] then '','' else []) @ (if fm then [CHR 0x0A] else []) @ t"
    using Cons.prems(3) by (auto simp: kv split: option.splits)
  have a: "starts a" "\<And>r. follow r \<Longrightarrow> parse_value D room (a @ r) = Some (v, r)"
    using p(1) Cons.prems(1) by (simp_all add: parses_def kv)
  let ?w = "w @ (if fm then replicate depth (CHR 0x09) else [])"
  have w: "list_all ws ?w" using Cons.prems(4) by (auto simp: list_all_iff)
  have key: "parse_string (print_string_ptr k @ x) = Some (k, x)" for x
    using Cons.prems(1) by (simp add: kv parse_print_string)
  have skip_key: "buffer_skip_whitespace (?w @ print_string_ptr k @ x) = print_string_ptr k @ x" for x
    using w by (intro skip_ws_append) (auto simp: print_string_eq)
  have skip_val: "buffer_skip_whitespace ((if fm then [CHR 0x09] else []) @ a @ x) = a @ x" for x
    using starts_head [OF a(1), of x] by (intro skip_ws_append) auto
  let ?rest = "(if ms \<noteq> [] then '','' else []) @ (if fm then [CHR 0x0A] else []) @ t @ w' @ CHR ''}'' # r"
  have fol: "follow (x @ w' @ CHR ''}'' # r)" if "list_all ws x" for x
    using follow_ws [of "x @ w'" r] that Cons.prems(5) by simp
  define wd where "wd = (if fm then replicate depth (CHR 0x09) else [])"
  define nl where "nl = (if fm then [CHR 0x0A] else [])"
  define tb where "tb = (if fm then [CHR 0x09] else [])"
  have fst_step: "parse_members (parse_value D room) acc (w @ s @ w' @ CHR ''}'' # r) =
      (let r = buffer_skip_whitespace ?rest
       in if r \<noteq> [] \<and> cur r = CHR '','' then parse_members (parse_value D room) (acc @ [(k, v)]) (tl r)
          else if r = [] \<or> cur r \<noteq> CHR ''}'' then Some None
          else Some (Some (cJSON_Object (acc @ [(k, v)]), tl r)))"
    if "follow ?rest"
  proof -
    have eq: "w @ s @ w' @ CHR ''}'' # r = w @ wd @ print_string_ptr k @ CHR '':'' # tb @ a @ ?rest"
      by (simp add: s wd_def tb_def)
    have ne: "w @ wd @ print_string_ptr k @ x \<noteq> []" for x by (simp add: print_string_eq)
    have sk: "buffer_skip_whitespace (w @ wd @ print_string_ptr k @ x) = print_string_ptr k @ x" for x
      using skip_key by (simp add: wd_def)
    have sc: "buffer_skip_whitespace (CHR '':'' # x) = CHR '':'' # x" for x by (simp add: skip_ws_id)
    have sv: "buffer_skip_whitespace (tb @ a @ x) = a @ x" for x using skip_val by (simp add: tb_def)
    show ?thesis
      unfolding eq
      by (subst parse_members.simps, subst sk, subst key) (simp add: ne sc sv a(2) [OF that] Let_def)
  qed
  show ?case
  proof (cases "ms = []")
    case True
    then have "t = []" using p(2) by simp
    moreover have "buffer_skip_whitespace (((if fm then [CHR 0x0A] else []) @ w') @ CHR ''}'' # r) = CHR ''}'' # r"
      using Cons.prems(5) by (intro skip_ws_append) auto
    moreover have "follow ((if fm then [CHR 0x0A] else []) @ w' @ CHR ''}'' # r)" by (rule fol) simp
    ultimately show ?thesis
      using True fst_step by (simp add: kv)
  next
    case False
    have "parse_members (parse_value D room) (acc @ [kv]) ((if fm then [CHR 0x0A] else []) @ t @ w' @ CHR ''}'' # r)
        = Some (Some (cJSON_Object ((acc @ [kv]) @ ms), r))"
      using Cons.prems False p(2) by (intro Cons.IH) auto
    then show ?thesis
      using False fst_step follow_punct by (simp add: kv skip_ws_id Let_def)
  qed
qed simp


lemma members_start:
  "print_members D fm depth ms = Some s \<Longrightarrow> ms \<noteq> [] \<Longrightarrow>
     \<exists>t. s = (if fm then replicate depth (CHR 0x09) else []) @ CHR 0x22 # t"
  by (cases ms) (auto simp: print_string_eq split: option.splits)

lemma parses_object:
  assumes "\<forall>(k, v) \<in> set ms. cnul \<notin> set k \<and> parses D room fm (depth + 1) v"
  shows "parses D (Suc room) fm depth (cJSON_Object ms)"
  unfolding parses_def
proof (intro allI impI)
  fix s assume "print_value D fm depth (cJSON_Object ms) = Some s"
  then obtain t where t: "print_members D fm (depth + 1) ms = Some t"
    and s: "s = CHR ''{'' # (if fm then [CHR 0x0A] else []) @ t @ (if fm then replicate depth (CHR 0x09) else []) @ ''}''"
    by auto
  let ?nl = "if fm then [CHR 0x0A] else []" and ?w' = "if fm then replicate depth (CHR 0x09) else []"
  have w': "list_all ws ?w'" "list_all ws ?nl" by (auto simp: list_all_iff)
  have obj: "parse_object (parse_value D room) (s @ r) = Some (cJSON_Object ms, r)" for r
  proof (cases "ms = []")
    case True
    have "buffer_skip_whitespace ((?nl @ ?w') @ CHR ''}'' # r) = CHR ''}'' # r"
      using w' by (intro skip_ws_append) auto
    then show ?thesis using True t by (simp add: s parse_object_def)
  next
    case False
    obtain u where u: "t = (if fm then replicate (depth + 1) (CHR 0x09) else []) @ CHR 0x22 # u"
      using members_start [OF t False] by auto
    let ?q = "CHR 0x22 # u @ ?w' @ CHR ''}'' # r"
    have "buffer_skip_whitespace ((?nl @ (if fm then replicate (depth + 1) (CHR 0x09) else [])) @ ?q) = ?q"
      by (intro skip_ws_append) (auto simp: list_all_iff)
    then have q: "buffer_skip_whitespace (?nl @ t @ ?w' @ CHR ''}'' # r) = ?q"
      by (simp add: u)
    have strip: "parse_members pv [] (w @ ?q) = parse_members pv [] ?q" if "list_all ws w" for pv :: "'a parser" and w
      using that skip_ws_append [of w ?q] skip_ws_id [of ?q] by (subst (1 2) parse_members.simps) simp
    have tabs: "list_all ws (if fm then replicate (depth + 1) (CHR 0x09) else [])"
      by (auto simp: list_all_iff)
    have e: "t @ ?w' @ CHR ''}'' # r = (if fm then replicate (depth + 1) (CHR 0x09) else []) @ ?q"
      by (simp add: u)
    have "parse_members (parse_value D room) [] ([] @ t @ ?w' @ CHR ''}'' # r) = Some (Some (cJSON_Object ([] @ ms), r))"
      by (rule members_parse [OF assms False t _ w'(1)]) simp
    then have "parse_members (parse_value D room) [] ?q = Some (Some (cJSON_Object ms, r))"
      unfolding append_Nil e strip [OF tabs] .
    then show ?thesis by (simp add: s parse_object_def q)
  qed
  show "starts s \<and> (\<forall>r. follow r \<longrightarrow> parse_value D (Suc room) (s @ r) = Some (cJSON_Object ms, r))"
    using obj by (auto simp: s starts_def value_step_def can_read_text_def ascii_def)
qed

lemma parses_ok: "json_ok D room v \<Longrightarrow> parses D room fm depth v"
proof (induction v arbitrary: room depth)
  case (cJSON_Array vs)
  then show ?case by (cases room) (auto simp: list_all_iff intro!: parses_array)
next
  case (cJSON_Object ms)
  then show ?case by (cases room) (fastforce simp: list_all_iff intro!: parses_object)+
qed (auto simp: parses_literal parses_number parses_string)

lemma print_parse:
  assumes "json_ok D CJSON_NESTING_LIMIT v"
    and "print_json D v fm = Some s"
  shows "cJSON_Parse D s = Some v"
proof -
  have "parses D CJSON_NESTING_LIMIT fm 0 v" using assms(1) by (rule parses_ok)
  then have s: "starts s" "parse_value D CJSON_NESTING_LIMIT (s @ [cnul]) = Some (v, [cnul])"
    using assms(2) follow_punct(5) by (auto simp: parses_def print_json_def)
  have bom: "skip_utf8_bom (s @ [cnul]) = s @ [cnul]"
    using s(1) by (cases s) (auto simp: skip_utf8_bom_def starts_def)
  show ?thesis
    using s(2) starts_head [OF s(1), of "[cnul]"]
    by (simp add: cJSON_Parse_def cJSON_ParseWithOpts_def cJSON_ParseWithLengthOpts_def bom skip_ws_id)
qed


lemma print_elements_total:
  "\<forall>v \<in> set vs. \<exists>s. print_value D fm depth v = Some s \<Longrightarrow> \<exists>s. print_elements D fm depth vs = Some s"
proof (induction vs)
  case (Cons v vs)
  then obtain s t where "print_value D fm depth v = Some s" "print_elements D fm depth vs = Some t" by auto
  then show ?case by simp
qed simp

lemma print_members_total:
  "\<forall>(k, v) \<in> set ms. \<exists>s. print_value D fm depth v = Some s \<Longrightarrow> \<exists>s. print_members D fm depth ms = Some s"
proof (induction ms)
  case (Cons m ms)
  then obtain k v s t where "m = (k, v)" "print_value D fm depth v = Some s" "print_members D fm depth ms = Some t"
    by (cases m) auto
  then show ?case by simp
qed simp

lemma print_total: "json_ok D room v \<Longrightarrow> \<exists>s. print_value D fm depth v = Some s"
proof (induction v arbitrary: room depth)
  case (cJSON_Number d)
  then show ?case by (auto simp: number_ok_def split: option.splits)
next
  case (cJSON_Array vs)
  then have "\<exists>s. print_elements D fm (depth + 1) vs = Some s"
    by (intro print_elements_total) (auto simp: list_all_iff)
  then show ?case by auto
next
  case (cJSON_Object ms)
  then have "\<exists>s. print_members D fm (depth + 1) ms = Some s"
    by (intro print_members_total) (fastforce simp: list_all_iff)
  then show ?case by auto
qed auto

text \<open>What the programs rely on: a text codec of values.\<close>

locale codec =
  fixes ok :: "'v \<Rightarrow> bool" and enc :: "'v \<Rightarrow> string option" and dec :: "string \<Rightarrow> 'v option"
  assumes enc_total: "ok v \<Longrightarrow> \<exists>s. enc v = Some s"
    and dec_enc: "ok v \<Longrightarrow> enc v = Some s \<Longrightarrow> dec s = Some v"
begin

lemma transmitted: "ok v \<Longrightarrow> Option.bind (enc v) dec = Some v"
  using enc_total [of v] dec_enc [of v] by auto

lemma enc_inj: "ok v \<Longrightarrow> ok w \<Longrightarrow> enc v = enc w \<Longrightarrow> v = w"
  by (metis enc_total dec_enc option.inject)

end

interpretation json: codec "json_ok D CJSON_NESTING_LIMIT" "cJSON_PrintUnformatted D" "cJSON_Parse D" for D
  by unfold_locales
    (simp_all add: cJSON_PrintUnformatted_def print_parse, simp add: print_json_def print_total)

text \<open>C8: printing and parsing are inverse, formatted or not: a value whose strings hold no
  NUL, whose numbers are printed in a form that \<open>strtod\<close> reads back, and which nests at
  most CJSON_NESTING_LIMIT levels, is returned by \<open>cJSON_Parse\<close> from the text the printer
  gives for it.\<close>

theorem json_roundtrip:
  assumes "json_ok D CJSON_NESTING_LIMIT v"
    and "print_json D v fm = Some s"
  shows "cJSON_Parse D s = Some v"
  using assms by (rule print_parse)

section \<open>What the parser accepts\<close>

lemma skip_ws_length: "length (buffer_skip_whitespace p) \<le> length p"
  by (cases p) (auto simp: buffer_skip_whitespace_def Let_def length_dropWhile_le intro: le_SucI)

lemma scan_literal_length: "scan_literal acc p = Some (raw, q) \<Longrightarrow> length q < length p"
  by (induction acc p rule: scan_literal.induct) (auto split: if_splits)

lemma parse_string_shorter: "parse_string p = Some (s, q) \<Longrightarrow> length q < length p"
  by (cases p) (auto simp: parse_string_def split: if_splits option.splits dest: scan_literal_length)

lemma parse_string_no_nul: "parse_string p = Some (s, q) \<Longrightarrow> cnul \<notin> set s"
  by (auto simp: parse_string_def c_string_def split: if_splits option.splits dest: set_takeWhileD)

text \<open>A parser that gives values of shape \<open>P\<close> and uses at least one character.\<close>

definition sound_parser :: "('d cJSON \<Rightarrow> bool) \<Rightarrow> 'd parser \<Rightarrow> bool" where
  "sound_parser P pv \<longleftrightarrow> (\<forall>p v q. pv p = Some (v, q) \<longrightarrow> P v \<and> length q < length p)"

lemma sound_parserD: "sound_parser P pv \<Longrightarrow> pv p = Some (v, q) \<Longrightarrow> P v \<and> length q < length p"
  by (auto simp: sound_parser_def)

lemma skip_shorter: "length q < length (buffer_skip_whitespace p) \<Longrightarrow> length (tl (buffer_skip_whitespace q)) < length p"
  using skip_ws_length [of p] skip_ws_length [of q] by simp

lemma parse_elements_sound:
  assumes "sound_parser P pv" "parse_elements pv acc p = Some (Some (v, q))" "list_all P acc"
  shows "(\<exists>vs. v = cJSON_Array vs \<and> list_all P vs) \<and> length q < length p"
  using assms(2,3)
proof (induction "length p" arbitrary: acc p rule: less_induct)
  case less
  note eq = less.prems(1) [unfolded parse_elements.simps [of pv acc p]]
  obtain x r where x: "pv (buffer_skip_whitespace p) = Some (x, r)"
    using eq by (auto split: option.splits)
  have s: "P x" "length r < length (buffer_skip_whitespace p)"
    using sound_parserD [OF assms(1) x] by auto
  note l = skip_shorter [OF s(2)]
  show ?case
  proof (cases "cur (buffer_skip_whitespace r) = CHR '','' \<and> buffer_skip_whitespace r \<noteq> []")
    case True
    then have "parse_elements pv (acc @ [x]) (tl (buffer_skip_whitespace r)) = Some (Some (v, q))"
      using eq x by (simp add: Let_def)
    from less.hyps [OF l this] less.prems(2) s(1) l show ?thesis by fastforce
  next
    case False
    then show ?thesis
      using eq less.prems(2) x s(1) l by (auto simp: Let_def split: if_splits)
  qed
qed

lemma parse_array_sound:
  assumes "sound_parser P pv" "parse_array pv p = Some (v, q)"
  shows "(\<exists>vs. v = cJSON_Array vs \<and> list_all P vs) \<and> length q < length p"
proof -
  have "p \<noteq> []" using assms(2) by (auto simp: parse_array_def)
  then have l: "length (buffer_skip_whitespace (tl p)) < length p"
    using skip_ws_length [of "tl p"] by (cases p) auto
  show ?thesis
    using assms(2) l parse_elements_sound [OF assms(1), of "[]"]
    by (auto simp: parse_array_def Let_def split: if_splits option.splits) fastforce+
qed

lemma parse_members_sound:
  assumes "sound_parser P pv" "parse_members pv acc p = Some (Some (v, q))"
    "list_all (\<lambda>(k, v). cnul \<notin> set k \<and> P v) acc"
  shows "(\<exists>ms. v = cJSON_Object ms \<and> list_all (\<lambda>(k, v). cnul \<notin> set k \<and> P v) ms) \<and> length q < length p"
  using assms(2,3)
proof (induction "length p" arbitrary: acc p rule: less_induct)
  case less
  note eq = less.prems(1) [unfolded parse_members.simps [of pv acc p]]
  obtain k r where k: "parse_string (buffer_skip_whitespace p) = Some (k, r)"
    using eq by (auto split: option.splits if_splits)
  let ?c = "buffer_skip_whitespace r"
  obtain x t where x: "pv (buffer_skip_whitespace (tl ?c)) = Some (x, t)"
    using eq k by (auto simp: Let_def split: option.splits if_splits)
  have s: "P x" "length t < length (buffer_skip_whitespace (tl ?c))"
    using sound_parserD [OF assms(1) x] by auto
  have "length (tl ?c) < length p"
    by (rule skip_shorter [OF parse_string_shorter [OF k]])
  then have l: "length (tl (buffer_skip_whitespace t)) < length p"
    using skip_shorter [OF s(2)] by simp
  note nk = parse_string_no_nul [OF k]
  show ?case
  proof (cases "cur (buffer_skip_whitespace t) = CHR '','' \<and> buffer_skip_whitespace t \<noteq> []")
    case True
    then have "parse_members pv (acc @ [(k, x)]) (tl (buffer_skip_whitespace t)) = Some (Some (v, q))"
      using eq x k by (simp add: Let_def split: if_splits)
    from less.hyps [OF l this] less.prems(2) s(1) nk l show ?thesis by fastforce
  next
    case False
    then show ?thesis
      using eq less.prems(2) x k s(1) nk l by (auto simp: Let_def split: if_splits)
  qed
qed

lemma parse_object_sound:
  assumes "sound_parser P pv" "parse_object pv p = Some (v, q)"
  shows "(\<exists>ms. v = cJSON_Object ms \<and> list_all (\<lambda>(k, v). cnul \<notin> set k \<and> P v) ms) \<and> length q < length p"
proof -
  have "p \<noteq> []" using assms(2) by (auto simp: parse_object_def)
  then have l: "length (buffer_skip_whitespace (tl p)) < length p"
    using skip_ws_length [of "tl p"] by (cases p) auto
  show ?thesis
    using assms(2) l parse_members_sound [OF assms(1), of "[]"]
    by (auto simp: parse_object_def Let_def split: if_splits option.splits) fastforce+
qed

lemma parse_number_sound: "parse_number D p = Some (v, q) \<Longrightarrow> p \<noteq> [] \<Longrightarrow> (\<exists>d. v = cJSON_Number d) \<and> length q < length p"
  by (auto simp: parse_number_def Let_def split: prod.splits if_splits)

lemma can_read_shorter: "can_read_text p w \<Longrightarrow> w \<noteq> [] \<Longrightarrow> length (drop (length w) p) < length p"
  by (cases w) (auto simp: can_read_text_def)

lemma value_step_result:
  assumes "value_step D sub p = Some (v, q)"
  shows "(v = cJSON_NULL \<or> v = cJSON_False \<or> v = cJSON_True) \<and> length q < length p
    \<or> (\<exists>s. v = cJSON_String s \<and> parse_string p = Some (s, q))
    \<or> (\<exists>d. v = cJSON_Number d) \<and> length q < length p
    \<or> (\<exists>pv. sub = Some pv \<and> parse_array pv p = Some (v, q))
    \<or> (\<exists>pv. sub = Some pv \<and> parse_object pv p = Some (v, q))"
  using assms can_read_shorter [of p "''null''"] can_read_shorter [of p "''false''"] can_read_shorter [of p "''true''"]
  unfolding value_step_def
  by (auto split: if_splits option.splits dest!: parse_number_sound)

lemma value_step_sound:
  assumes sub: "\<And>pv. sub = Some pv \<Longrightarrow> 0 < room \<and> sound_parser (json_shape (\<lambda>_. True) (room - 1)) pv"
  shows "sound_parser (json_shape (\<lambda>_. True) room) (value_step D sub)"
  unfolding sound_parser_def
proof (intro allI impI)
  fix p v q assume "value_step D sub p = Some (v, q)"
  from value_step_result [OF this] show "json_shape (\<lambda>_. True) room v \<and> length q < length p"
  proof (elim disjE exE conjE)
    fix s assume "v = cJSON_String s" and s: "parse_string p = Some (s, q)"
    then show ?thesis using parse_string_no_nul [OF s] parse_string_shorter [OF s] by simp
  next
    fix pv assume pv: "sub = Some pv" "parse_array pv p = Some (v, q)"
    then show ?thesis using sub [OF pv(1)] parse_array_sound [OF _ pv(2)] by fastforce
  next
    fix pv assume pv: "sub = Some pv" "parse_object pv p = Some (v, q)"
    then show ?thesis using sub [OF pv(1)] parse_object_sound [OF _ pv(2)] by fastforce
  qed auto
qed

lemma parse_value_sound: "sound_parser (json_shape (\<lambda>_. True) room) (parse_value D room)"
proof (induction room)
  case 0
  show ?case by (simp, rule value_step_sound) simp
next
  case (Suc room)
  then show ?case by (simp, intro value_step_sound) simp
qed

text \<open>C29: every value the parser returns is well formed: its strings hold no NUL, it has no
  raw item, and it nests at most CJSON_NESTING_LIMIT levels, whatever the text was.\<close>

theorem json_parse_shape:
  assumes "cJSON_Parse D s = Some v"
  shows "json_shape (\<lambda>_. True) CJSON_NESTING_LIMIT v"
  using assms
  by (auto dest: sound_parserD [OF parse_value_sound] simp: cJSON_Parse_def cJSON_ParseWithOpts_def cJSON_ParseWithLengthOpts_def split: option.splits)

section \<open>The loops return\<close>

lemma parse_elements_returns:
  assumes "sound_parser P pv"
  shows "\<exists>r. parse_elements pv acc p = Some r"
proof (induction "length p" arbitrary: acc p rule: less_induct)
  case less
  show ?case
  proof (cases "pv (buffer_skip_whitespace p)")
    case (Some xr)
    obtain x r where xr: "xr = (x, r)" by (cases xr)
    have "length (tl (buffer_skip_whitespace r)) < length p"
      by (rule skip_shorter) (use sound_parserD [OF assms(1) Some [unfolded xr]] in simp)
    from less [OF this, of "acc @ [x]"] show ?thesis
      using Some xr by (subst parse_elements.simps) (simp add: Let_def)
  qed (subst parse_elements.simps, simp)
qed

lemma parse_members_returns:
  assumes "sound_parser P pv"
  shows "\<exists>r. parse_members pv acc p = Some r"
proof (induction "length p" arbitrary: acc p rule: less_induct)
  case less
  show ?case
  proof (cases "parse_string (buffer_skip_whitespace p)")
    case (Some kr)
    note key = this
    obtain k r where kr: "kr = (k, r)" by (cases kr)
    let ?c = "buffer_skip_whitespace r"
    show ?thesis
    proof (cases "pv (buffer_skip_whitespace (tl ?c))")
      case (Some xt)
      obtain x t where xt: "xt = (x, t)" by (cases xt)
      have "length (tl ?c) < length p"
        by (rule skip_shorter [OF parse_string_shorter]) (use key kr in simp)
      then have "length (tl (buffer_skip_whitespace t)) < length p"
        using skip_shorter [of t "tl ?c"] sound_parserD [OF assms(1) Some [unfolded xt]] by simp
      from less [OF this, of "acc @ [(k, x)]"] show ?thesis
        using key kr Some xt by (subst parse_members.simps) (simp add: Let_def)
    qed (use key kr in \<open>subst parse_members.simps, simp add: Let_def\<close>)
  qed (subst parse_members.simps, simp)
qed

text \<open>C30: the loops over array elements and object members return, on every text and at
  every nesting level: with success or with a parse error, but they never run for ever.\<close>

theorem json_loops_end:
  "(\<exists>r. parse_elements (parse_value D room) acc p = Some r) \<and>
   (\<exists>r. parse_members (parse_value D room) macc p = Some r)"
  using parse_elements_returns [OF parse_value_sound] parse_members_returns [OF parse_value_sound] by blast

section \<open>Looking up members\<close>

lemma ascii_eq: "ascii c = ascii d \<longleftrightarrow> c = d"
  by (simp add: ascii_def)

lemma tolower_nul: "ascii (tolower cnul) = 0" "ascii (tolower c) = 0 \<longleftrightarrow> c = cnul"
  by (auto simp: tolower_def cnul_def ctype_ascii ascii_eq [symmetric]) (simp_all add: ascii_def)

lemma strcasecmp_0: "cnul \<notin> set s \<Longrightarrow> cnul \<notin> set t \<Longrightarrow> strcasecmp_loop s t = 0 \<longleftrightarrow> map tolower s = map tolower t"
  by (induction s t rule: strcasecmp_loop.induct) (auto simp: tolower_nul ascii_eq)

text \<open>\<open>cJSON_GetObjectItem\<close> returns the value of the first member whose name agrees
  with the given one up to the case of ASCII letters, and NULL when there is none.\<close>

theorem json_lookup:
  assumes "cnul \<notin> set name" "\<forall>(k, v) \<in> set ms. cnul \<notin> set k"
  shows "cJSON_GetObjectItem (Some (cJSON_Object ms)) name =
    map_option snd (find (\<lambda>(k, v). map tolower name = map tolower k) ms)"
  using assms(2)
  by (induction ms) (auto simp: cJSON_GetObjectItem_def get_object_item_def case_insensitive_strcmp_def
      strcasecmp_0 [OF assms(1)])

section \<open>Numbers that are integers\<close>

lemma dec_digits_length: "n < 10 ^ k \<Longrightarrow> 0 < k \<Longrightarrow> length (dec_digits n) \<le> k"
proof (induction k arbitrary: n)
  case (Suc k)
  show ?case
  proof (cases "n < 10")
    case False
    then have "0 < k" using Suc.prems by (cases k) auto
    moreover have "n div 10 < 10 ^ k" using Suc.prems by (simp add: less_mult_imp_div_less mult.commute)
    ultimately have "length (dec_digits (n div 10)) \<le> k" by (intro Suc.IH)
    then show ?thesis using False by (subst dec_digits.simps) simp
  qed (subst dec_digits.simps, simp)
qed simp

lemma isdigit_char: "(n :: nat) < 10 \<Longrightarrow> c_isdigit (char_of (48 + n))"
  by (simp add: ctype_ascii)

lemma dec_digits_digits: "list_all c_isdigit (dec_digits n) \<and> dec_digits n \<noteq> []"
proof (induction n rule: less_induct)
  case (less n)
  then show ?case by (cases "n < 10") (subst dec_digits.simps, simp add: isdigit_char)+
qed

lemma fmt_d_form:
  "fmt_d i \<noteq> []" "list_all number_char (fmt_d i)" "hd (fmt_d i) = CHR ''-'' \<or> c_isdigit (hd (fmt_d i))"
  using dec_digits_digits [of "nat i"] dec_digits_digits [of "nat (- i)"]
  by (auto simp: fmt_d_def number_char_def list_all_iff hd_in_set)

lemma fmt_d_length: "INT_MIN \<le> i \<Longrightarrow> i \<le> INT_MAX \<Longrightarrow> length (fmt_d i) \<le> 11"
  using dec_digits_length [of "nat i" 10] dec_digits_length [of "nat (- i)" 10]
  by (auto simp: fmt_d_def INT_MIN_def INT_MAX_def nat_less_iff)

text \<open>What the C standard says of the integers of type \<open>int\<close> among the doubles: they are
  represented exactly, ordered as integers, and \<open>strtod\<close> reads them from their decimal
  digits.\<close>

definition int_laws :: "'d double_ops \<Rightarrow> bool" where
  "int_laws D \<longleftrightarrow> (\<forall>i j. INT_MIN \<le> i \<and> i \<le> INT_MAX \<and> INT_MIN \<le> j \<and> j \<le> INT_MAX \<longrightarrow>
     \<not> isnan D (of_int32 D i) \<and> \<not> isinf D (of_int32 D i)
     \<and> (d_eq D (of_int32 D i) (of_int32 D j) \<longleftrightarrow> i = j)
     \<and> (d_le D (of_int32 D i) (of_int32 D j) \<longleftrightarrow> i \<le> j)
     \<and> to_int32 D (of_int32 D i) = i
     \<and> strtod D (fmt_d i) = (of_int32 D i, length (fmt_d i)))"

lemma int_lawsD:
  assumes "int_laws D" "INT_MIN \<le> i" "i \<le> INT_MAX"
  shows "\<not> isnan D (of_int32 D i)" "\<not> isinf D (of_int32 D i)" "valueint D (of_int32 D i) = i"
    "d_eq D (of_int32 D i) (of_int32 D i)" "strtod D (fmt_d i) = (of_int32 D i, length (fmt_d i))"
proof -
  have b: "INT_MIN \<le> INT_MAX" by (simp add: INT_MIN_def INT_MAX_def)
  note L = assms(1) [unfolded int_laws_def, rule_format]
  show "\<not> isnan D (of_int32 D i)" "\<not> isinf D (of_int32 D i)"
    "d_eq D (of_int32 D i) (of_int32 D i)" "strtod D (fmt_d i) = (of_int32 D i, length (fmt_d i))"
    using L [of i i] assms(2,3) by simp_all
  show "valueint D (of_int32 D i) = i"
    using L [of i INT_MIN] L [of INT_MAX i] assms(2,3) b by (auto simp: valueint_def)
qed

lemma int_number_ok:
  assumes "int_laws D" "INT_MIN \<le> i" "i \<le> INT_MAX"
  shows "print_number D (of_int32 D i) = Some (fmt_d i) \<and> number_ok D (of_int32 D i)"
  using int_lawsD [OF assms] fmt_d_length [OF assms(2,3)] fmt_d_form [of i]
  by (simp add: print_number_def number_ok_def)

text \<open>Under the C standard's laws for integral doubles, an \<open>int\<close> is printed as its
  decimal digits and read back as the same double.\<close>

theorem json_int_roundtrip:
  assumes "int_laws D" "INT_MIN \<le> i" "i \<le> INT_MAX"
  shows "print_number D (of_int32 D i) = Some (fmt_d i) \<and> number_ok D (of_int32 D i)"
  using assms by (rule int_number_ok)

text \<open>The doubles that are integers, as an instance.\<close>

definition int_strtod :: "string \<Rightarrow> int \<times> nat" where
  "int_strtod s =
     (let neg = (cur s = CHR ''-''); ds = takeWhile c_isdigit (if neg then tl s else s)
      in if ds = [] then (0, 0)
         else (if neg then - digits_val 10 ds else digits_val 10 ds, length ds + (if neg then 1 else 0)))"

definition integral_doubles :: "int double_ops" where
  "integral_doubles =
     \<lparr>strtod = int_strtod, isnan = \<lambda>_. False, isinf = \<lambda>_. False, of_int32 = \<lambda>i. i, to_int32 = \<lambda>i. i,
      d_eq = (=), d_le = (\<le>), d_less = (<), fabs = abs, d_sub = (-), d_mul = (*), dbl_epsilon = 0,
      fmt_g = \<lambda>_. fmt_d\<rparr>"

lemma dec_digits_val: "digits_val 10 (dec_digits n) = int n"
proof (induction n rule: less_induct)
  case (less n)
  show ?case
  proof (cases "n < 10")
    case True
    then show ?thesis
      by (subst dec_digits.simps) (simp add: digits_val_def digit_val_def isdigit_char)
  next
    case False
    then have "digits_val 10 (dec_digits (n div 10)) = int (n div 10)" by (intro less) simp
    moreover have "int (n div 10) * 10 + int (n mod 10) = int n" by presburger
    ultimately show ?thesis using False
      by (subst dec_digits.simps) (simp add: digits_val_def digit_val_def isdigit_char)
  qed
qed

lemma integral_doubles_laws: "int_laws integral_doubles"
proof -
  have t: "takeWhile c_isdigit (dec_digits n) = dec_digits n" for n
    using dec_digits_digits [of n] by (simp add: takeWhile_eq_all_conv list_all_iff)
  have nm: "cur (dec_digits n) \<noteq> CHR ''-''" for n
    using dec_digits_digits [of n] by (cases "dec_digits n") (auto simp: ctype_ascii ascii_def)
  have "int_strtod (fmt_d i) = (i, length (fmt_d i))" for i
    using dec_digits_digits by (auto simp: int_strtod_def fmt_d_def Let_def t nm dec_digits_val)
  then show ?thesis
    by (simp add: int_laws_def integral_doubles_def)
qed


lemma json_int_roundtrip_witness:
  "print_number integral_doubles (of_int32 integral_doubles (- 42)) = Some (fmt_d (- 42))
   \<and> number_ok integral_doubles (of_int32 integral_doubles (- 42))"
  by (rule json_int_roundtrip [OF integral_doubles_laws]) (simp_all add: INT_MIN_def INT_MAX_def)

definition sample :: "int cJSON" where
  "sample = cJSON_Object [(''Key'', cJSON_Array [cJSON_Number (- 42), cJSON_True]),
     (CHR 0x01 # ''q'', cJSON_String [CHR 0x22, CHR 0x0A])]"

lemma sample_number: "print_number integral_doubles (- 42) = Some (fmt_d (- 42)) \<and> number_ok integral_doubles (- 42)"
  using int_number_ok [OF integral_doubles_laws, of "- 42"]
  by (simp add: INT_MIN_def INT_MAX_def integral_doubles_def)

lemma sample_ok: "json_ok integral_doubles CJSON_NESTING_LIMIT sample"
  using sample_number
  by (simp add: sample_def CJSON_NESTING_LIMIT_def cnul_def)

lemma json_roundtrip_witness:
  "\<exists>s. print_json integral_doubles sample True = Some s \<and> cJSON_Parse integral_doubles s = Some sample"
proof -
  obtain s where s: "print_json integral_doubles sample True = Some s"
    using sample_number
    by (simp add: print_json_def sample_def)
  then show ?thesis using json_roundtrip [OF sample_ok s] by blast
qed

lemma json_lookup_witness:
  "cJSON_GetObjectItem (Some (cJSON_Object [(''Key'', cJSON_True :: int cJSON)])) ''kEY'' = Some cJSON_True"
proof -
  have "map tolower ''kEY'' = map tolower ''Key''" by code_simp
  then show ?thesis
    using json_lookup [of "''kEY''" "[(''Key'', cJSON_True :: int cJSON)]"]
    by (simp add: cnul_def del: list.map)
qed

lemma json_parse_shape_witness:
  "json_shape (\<lambda>_ :: int. True) CJSON_NESTING_LIMIT (cJSON_String ''a'')
   \<and> cJSON_Parse integral_doubles (print_string_ptr ''a'') = Some (cJSON_String ''a'')"
proof -
  have "parses integral_doubles CJSON_NESTING_LIMIT True 0 (cJSON_String ''a'')"
    by (rule parses_string) (simp add: cnul_def)
  then have "cJSON_Parse integral_doubles (print_string_ptr ''a'') = Some (cJSON_String ''a'')"
    using follow_punct(5) [of "[]"]
    by (simp add: parses_def cJSON_Parse_def cJSON_ParseWithOpts_def cJSON_ParseWithLengthOpts_def
        print_string_eq skip_utf8_bom_def skip_ws_id)
  from json_parse_shape [OF this] this show ?thesis by blast
qed

text \<open>An escape whose four characters after the \<open>u\<close> are not all hexadecimal digits is
  not rejected: \<open>parse_hex4\<close> returns 0 for it, a NUL is stored, and the string the program
  sees ends there.\<close>

theorem json_bad_hex:
  assumes "\<forall>c \<in> {a, b, c, d}. c \<noteq> CHR 0x22 \<and> c \<noteq> CHR 0x5C"
    and "\<exists>c \<in> {a, b, c, d}. hex_digit c = None"
    and "cnul \<notin> set r" "CHR 0x22 \<notin> set r" "CHR 0x5C \<notin> set r"
  shows "cJSON_Parse D (CHR 0x22 # CHR 0x5C # CHR ''u'' # a # b # c # d # r @ [CHR 0x22]) = Some (cJSON_String [])"
proof -
  have hex: "parse_hex4 (a # b # c # d # s) = 0" for s
    using assms(2) by (auto simp: parse_hex4_def hex4_unroll simp del: hex_digit.simps split: option.splits)
  have scan: "scan_literal acc (r @ CHR 0x22 # s) = Some (rev acc @ r, s)" for acc s
    using assms(4,5) by (induction r arbitrary: acc) (auto simp: scan_plain)
  have un: "unescape r = Some r"
    using assms(5)
  proof (induction r)
    case (Cons c r)
    then show ?case using unescape_plain [of c r] by auto
  qed (subst unescape.simps, simp)
  have nul: "char_of (0 :: nat) = cnul"
    by (simp add: ascii_eq [symmetric]) (simp add: ascii_def cnul_def)
  have u16: "utf16_literal_to_utf8 (CHR 0x5C # CHR ''u'' # a # b # c # d # r) = Some ([cnul], 6)"
    using encode_ascii [of 0] by (simp add: utf16_literal_to_utf8_def hex Let_def nul)
  have lit: "unescape (CHR 0x5C # CHR ''u'' # a # b # c # d # r) = Some (cnul # r)"
    by (subst unescape.simps) (simp add: u16 un)
  have p: "parse_string (CHR 0x22 # CHR 0x5C # CHR ''u'' # a # b # c # d # r @ [CHR 0x22, cnul]) = Some ([], [cnul])"
    using assms(1) by (simp add: parse_string_def scan_plain scan lit c_string_def)
  obtain sub where sub: "parse_value D CJSON_NESTING_LIMIT = value_step D sub" using parse_value_step by metis
  show ?thesis
    by (simp add: cJSON_Parse_def cJSON_ParseWithOpts_def cJSON_ParseWithLengthOpts_def skip_utf8_bom_def
        skip_ws_id sub value_step_def can_read_text_def p)
qed


lemma json_bad_hex_witness:
  "cJSON_Parse integral_doubles (CHR 0x22 # CHR 0x5C # ''u00zzlost'' @ [CHR 0x22]) = Some (cJSON_String [])"
  using json_bad_hex [of "CHR ''0''" "CHR ''0''" "CHR ''z''" "CHR ''z''" "''lost''" integral_doubles]
  by (simp add: ascii_def cnul_def)


section \<open>Evaluating look-ups\<close>

lemma tolower_lit [simp]:
"tolower (CHR ''a'') = CHR ''a''" "tolower (CHR ''b'') = CHR ''b''" "tolower (CHR ''c'')
= CHR ''c''" "tolower (CHR ''d'') = CHR ''d''" "tolower (CHR ''e'') = CHR ''e''"
"tolower (CHR ''f'') = CHR ''f''" "tolower (CHR ''g'') = CHR ''g''" "tolower (CHR ''h'')
= CHR ''h''" "tolower (CHR ''i'') = CHR ''i''" "tolower (CHR ''j'') = CHR ''j''"
"tolower (CHR ''k'') = CHR ''k''" "tolower (CHR ''l'') = CHR ''l''" "tolower (CHR ''m'')
= CHR ''m''" "tolower (CHR ''n'') = CHR ''n''" "tolower (CHR ''o'') = CHR ''o''"
"tolower (CHR ''p'') = CHR ''p''" "tolower (CHR ''q'') = CHR ''q''" "tolower (CHR ''r'')
= CHR ''r''" "tolower (CHR ''s'') = CHR ''s''" "tolower (CHR ''t'') = CHR ''t''"
"tolower (CHR ''u'') = CHR ''u''" "tolower (CHR ''v'') = CHR ''v''" "tolower (CHR ''w'')
= CHR ''w''" "tolower (CHR ''x'') = CHR ''x''" "tolower (CHR ''y'') = CHR ''y''"
"tolower (CHR ''z'') = CHR ''z''" "tolower (CHR ''_'') = CHR ''_''"
  by (simp_all add: tolower_def ctype_ascii ascii_def)

lemma lookup_Cons:
  "cJSON_GetObjectItem (Some (cJSON_Object ((k, v) # ms))) name =
     (if strcasecmp_loop name k = 0 then Some v else cJSON_GetObjectItem (Some (cJSON_Object ms)) name)"
  by (simp add: cJSON_GetObjectItem_def get_object_item_def case_insensitive_strcmp_def)

lemma lookup_Nil: "cJSON_GetObjectItem (Some (cJSON_Object [])) name = None"
  "cJSON_GetObjectItem None name = None"
  by (simp_all add: cJSON_GetObjectItem_def get_object_item_def)

lemmas lookup_eval = lookup_Cons lookup_Nil ascii_def cnul_def

lemma c_string_no_nul [simp]: "cnul \<notin> set (c_string s)"
  by (auto simp: c_string_def dest: set_takeWhileD)

end
