(* ===== verification/Agent.thy ===== *)
theory Agent imports Json CLib begin

text \<open>
  \<open>cagent-test/agent_lite.c\<close>: the string buffer, the HTTP client, the four tools, and the
  loop that sends the conversation to the language model and runs the tool calls it answers
  with.

  The operating system and the network are operations on a world of type \<open>'w\<close>: opening,
  reading and writing files, listing a directory, running a command, and the exchange with
  the server.  Allocation succeeds.  Standard output and standard error are the texts
  \<open>out\<close> and \<open>err\<close> of the agent's state.
\<close>

section \<open>The string buffer\<close>

text \<open>\<open>data\<close> is the allocated block, NULL after \<open>sb_take\<close>; a byte that was never written
  is None.\<close>

record StrBuf =
  data :: "char option list option"
  len :: nat
  capacity :: nat

definition sb_init :: StrBuf where
  "sb_init = \<lparr>data = Some ((replicate 1024 None)[0 := Some cnul]), len = 0, capacity = 1024\<rparr>"

text \<open>\<open>realloc\<close> keeps the bytes; what it adds is indeterminate.\<close>

definition realloc :: "char option list option \<Rightarrow> nat \<Rightarrow> char option list option" where
  "realloc d n =
     (case d of None \<Rightarrow> Some (replicate n None)
      | Some b \<Rightarrow> Some (take n b @ replicate (n - length b) None))"

text \<open>The growing loop; it does not end on a buffer of capacity 0.\<close>

partial_function (option) sb_grow :: "nat \<Rightarrow> StrBuf \<Rightarrow> StrBuf option" where
  "sb_grow str_len sb =
     (if len sb + str_len + 1 > capacity sb then
        sb_grow str_len (sb\<lparr>capacity := capacity sb * 2, data := realloc (data sb) (capacity sb * 2)\<rparr>)
      else Some sb)"

definition memcpy :: "char option list \<Rightarrow> nat \<Rightarrow> string \<Rightarrow> char option list" where
  "memcpy b at_pos s = take at_pos b @ map Some s @ drop (at_pos + length s) b"

definition sb_append :: "StrBuf \<Rightarrow> string \<Rightarrow> StrBuf option" where
  "sb_append sb str =
     (case sb_grow (length str) sb of
        None \<Rightarrow> None
      | Some sb \<Rightarrow>
          Some (sb\<lparr>data := map_option (\<lambda>b. memcpy b (len sb) (str @ [cnul])) (data sb),
                  len := len sb + length str\<rparr>))"

text \<open>\<open>sb_appendf\<close> with the formatted text: \<open>vsnprintf\<close> cuts it to 4095 characters.\<close>

definition sb_appendf :: "StrBuf \<Rightarrow> string \<Rightarrow> StrBuf option" where
  "sb_appendf sb formatted = sb_append sb (take 4095 formatted)"

text \<open>\<open>sb_take\<close>: the string in the buffer, and the emptied buffer.\<close>

fun buffer_text :: "char option list \<Rightarrow> string" where
  "buffer_text (Some c # b) = (if c = cnul then [] else c # buffer_text b)"
| "buffer_text _ = []"

definition sb_text :: "StrBuf \<Rightarrow> string" where
  "sb_text sb = (case data sb of None \<Rightarrow> [] | Some b \<Rightarrow> buffer_text b)"

definition sb_take :: "StrBuf \<Rightarrow> string \<times> StrBuf" where
  "sb_take sb = (sb_text sb, sb\<lparr>data := None, len := 0, capacity := 0\<rparr>)"

text \<open>A new buffer to which pieces are appended, and what it then holds.\<close>

fun sb_appends :: "StrBuf \<Rightarrow> string list \<Rightarrow> StrBuf option" where
  "sb_appends sb [] = Some sb"
| "sb_appends sb (s # ss) =
     (case sb_append sb s of None \<Rightarrow> None | Some sb \<Rightarrow> sb_appends sb ss)"

definition sb_build :: "string list \<Rightarrow> string" where
  "sb_build ss = fst (sb_take (the (sb_appends sb_init ss)))"

definition sb_buildf :: "string \<Rightarrow> string" where
  "sb_buildf formatted = fst (sb_take (the (sb_appendf sb_init formatted)))"

section \<open>The HTTP client\<close>

record HttpClient =
  host :: string
  port :: int
  api_key :: "string option"
  model :: string

datatype net_result =
    Socket_failed
  | Invalid_address
  | Connection_failed
  | Replied "string list"  \<comment> \<open>what each \<open>recv\<close> returned\<close>

record 'w os =
  fopen_r :: "string \<Rightarrow> 'w \<Rightarrow> string option"  \<comment> \<open>the bytes \<open>fread\<close> gives\<close>
  fopen_w :: "string \<Rightarrow> string \<Rightarrow> 'w \<Rightarrow> bool \<times> 'w"  \<comment> \<open>whether it opened, after writing and closing\<close>
  readdir :: "string \<Rightarrow> 'w \<Rightarrow> (string \<times> bool) list option"  \<comment> \<open>names and whether DT_DIR\<close>
  popen :: "string \<Rightarrow> 'w \<Rightarrow> (string \<times> int \<times> 'w) option"  \<comment> \<open>output and status\<close>
  exchange :: "string \<Rightarrow> 16 word \<Rightarrow> string \<Rightarrow> 'w \<Rightarrow> net_result \<times> 'w"  \<comment> \<open>address, port, what is sent\<close>

definition request_pieces :: "HttpClient \<Rightarrow> string \<Rightarrow> string \<Rightarrow> string list" where
  "request_pieces client path body =
     [take 4095 (''POST '' @ path @ '' HTTP/1.1'' @ crlf),
      take 4095 (''Host: '' @ host client @ '':'' @ fmt_d (port client) @ crlf),
      ''Content-Type: application/json'' @ crlf]
     @ (case api_key client of None \<Rightarrow> []
        | Some key \<Rightarrow> [take 4095 (''Authorization: Bearer '' @ key @ crlf)])
     @ [take 4095 (''Content-Length: '' @ fmt_d (int (length body)) @ crlf),
        ''Connection: close'' @ crlf,
        crlf,
        body]"

definition http_post ::
    "'w os \<Rightarrow> HttpClient \<Rightarrow> string \<Rightarrow> string \<Rightarrow> 'w \<Rightarrow> string option \<times> string \<times> 'w" where
  "http_post os client path body w =
     (let request = sb_build (request_pieces client path body);
          (reply, w) = exchange os (host client) (word_of_int (port client)) request w
      in case reply of
           Socket_failed \<Rightarrow> (None, ''Socket creation failed'' @ nl, w)
         | Invalid_address \<Rightarrow> (None, ''Invalid address'' @ nl, w)
         | Connection_failed \<Rightarrow>
             (None, ''Connection failed to '' @ host client @ '':'' @ fmt_d (port client) @ nl, w)
         | Replied chunks \<Rightarrow>
             (map_option (drop 4) (strstr (sb_build (map c_string chunks)) (crlf @ crlf)), [], w))"

section \<open>The tools\<close>

record ToolResult =
  tool_output :: string
  success :: bool

text \<open>\<open>snprintf\<close> into an array of 1024 characters.\<close>

definition full_path :: "string \<Rightarrow> string \<Rightarrow> string" where
  "full_path workspace file_path = take 1023 (workspace @ ''/'' @ file_path)"

definition tool_read_file :: "'w os \<Rightarrow> string \<Rightarrow> string \<Rightarrow> 'w \<Rightarrow> ToolResult" where
  "tool_read_file os workspace file_path w =
     (case fopen_r os (full_path workspace file_path) w of
        None \<Rightarrow> \<lparr>tool_output = sb_buildf (''Error: Cannot open file '' @ file_path), success = False\<rparr>
      | Some content \<Rightarrow> \<lparr>tool_output = c_string content, success = True\<rparr>)"

definition tool_write_file :: "'w os \<Rightarrow> string \<Rightarrow> string \<Rightarrow> string \<Rightarrow> 'w \<Rightarrow> ToolResult \<times> 'w" where
  "tool_write_file os workspace file_path content w =
     (let (opened, w) = fopen_w os (full_path workspace file_path) content w
      in if \<not> opened then
           (\<lparr>tool_output = sb_buildf (''Error: Cannot write to file '' @ file_path), success = False\<rparr>, w)
         else (\<lparr>tool_output = sb_buildf (''Successfully wrote to '' @ file_path), success = True\<rparr>, w))"

definition entry_pieces :: "string \<times> bool \<Rightarrow> string list" where
  "entry_pieces entry =
     (case entry of (name, is_dir) \<Rightarrow>
        if name = ''.'' \<or> name = ''..'' then []
        else [name] @ (if is_dir then [''/''] else []) @ [nl])"

definition tool_list_files :: "'w os \<Rightarrow> string \<Rightarrow> string \<Rightarrow> 'w \<Rightarrow> ToolResult" where
  "tool_list_files os workspace path w =
     (let dir = (if path \<noteq> [] then full_path workspace path else take 1023 workspace)
      in case readdir os dir w of
           None \<Rightarrow> \<lparr>tool_output = sb_buildf (''Error: Cannot open directory '' @ path), success = False\<rparr>
         | Some entries \<Rightarrow> \<lparr>tool_output = sb_build (concat (map entry_pieces entries)), success = True\<rparr>)"

text \<open>\<open>fgets\<close> into an array of 1024 characters, until end of file.\<close>

fun fgets_chunk :: "nat \<Rightarrow> string \<Rightarrow> string \<times> string" where
  "fgets_chunk 0 s = ([], s)"
| "fgets_chunk (Suc n) [] = ([], [])"
| "fgets_chunk (Suc n) (c # s) =
     (if c = CHR 0x0A then ([c], s) else let (l, r) = fgets_chunk n s in (c # l, r))"

lemma fgets_chunk_le: "length (snd (fgets_chunk n s)) \<le> length s"
  by (induction n s rule: fgets_chunk.induct) (auto split: prod.splits)

lemma fgets_chunk_length: "0 < n \<Longrightarrow> s \<noteq> [] \<Longrightarrow> length (snd (fgets_chunk n s)) < length s"
  using fgets_chunk_le [of "n - 1" "tl s"]
  by (cases n; cases s) (auto simp: le_imp_less_Suc split: prod.splits)

function fgets_chunks :: "string \<Rightarrow> string list" where
  "fgets_chunks s =
     (if s = [] then [] else let (l, r) = fgets_chunk 1023 s in l # fgets_chunks r)"
  by auto
termination
proof (relation "measure length")
  fix s :: string and x y z
  assume "s \<noteq> []" "x = fgets_chunk 1023 s" "(y, z) = x"
  then show "(z, s) \<in> measure length"
    using fgets_chunk_length [of 1023 s] by (metis in_measure snd_conv zero_less_numeral)
qed simp

declare fgets_chunks.simps [simp del]

definition tool_bash :: "'w os \<Rightarrow> string \<Rightarrow> 'w \<Rightarrow> ToolResult \<times> 'w" where
  "tool_bash os command w =
     (case popen os command w of
        None \<Rightarrow> (\<lparr>tool_output = ''Error: Failed to execute command'', success = False\<rparr>, w)
      | Some (text_out, status, w) \<Rightarrow>
          (\<lparr>tool_output = sb_build (map c_string (fgets_chunks text_out)), success = (status = 0)\<rparr>, w))"

definition tool_error :: ToolResult where
  "tool_error = \<lparr>tool_output = ''Error: Unknown tool or invalid arguments'', success = False\<rparr>"

definition execute_tool ::
    "'w os \<Rightarrow> string \<Rightarrow> string \<Rightarrow> 'd cJSON option \<Rightarrow> 'w \<Rightarrow> ToolResult \<times> 'w" where
  "execute_tool os workspace tool_name arguments w =
     (if tool_name = ''read_file'' then
        (case str_of (cJSON_GetObjectItem arguments ''file_path'') of
           Some path \<Rightarrow> (tool_read_file os workspace path w, w)
         | None \<Rightarrow> (tool_error, w))
      else if tool_name = ''write_file'' then
        (case (str_of (cJSON_GetObjectItem arguments ''file_path''),
               str_of (cJSON_GetObjectItem arguments ''content'')) of
           (Some path, Some content) \<Rightarrow> tool_write_file os workspace path content w
         | _ \<Rightarrow> (tool_error, w))
      else if tool_name = ''list_files'' then
        (tool_list_files os workspace
           (case str_of (cJSON_GetObjectItem arguments ''path'') of Some p \<Rightarrow> p | None \<Rightarrow> []) w, w)
      else if tool_name = ''bash'' then
        (case str_of (cJSON_GetObjectItem arguments ''command'') of
           Some command \<Rightarrow> tool_bash os command w
         | None \<Rightarrow> (tool_error, w))
      else (tool_error, w))"


section \<open>The request\<close>

text \<open>The description of a tool, as \<open>build_request\<close> builds each of the four.\<close>

definition string_props :: "string list \<Rightarrow> 'd cJSON" where
  "string_props ps =
     foldl (\<lambda>obj p. cJSON_AddItemToObject obj p
              (Some (cJSON_AddStringToObject (cJSON_Object []) ''type'' ''string'')))
       (cJSON_Object []) ps"

definition tool_json :: "string \<Rightarrow> string \<Rightarrow> string list \<Rightarrow> string list option \<Rightarrow> 'd cJSON" where
  "tool_json name description props required =
     (let params = cJSON_AddStringToObject (cJSON_Object []) ''type'' ''object'';
          params = cJSON_AddItemToObject params ''properties'' (Some (string_props props));
          params =
            (case required of None \<Rightarrow> params
             | Some req \<Rightarrow> cJSON_AddItemToObject params ''required''
                 (Some (foldl (\<lambda>a r. cJSON_AddItemToArray a (Some (cJSON_CreateString r))) (cJSON_Array []) req)));
          func = cJSON_AddStringToObject (cJSON_Object []) ''name'' name;
          func = cJSON_AddStringToObject func ''description'' description;
          func = cJSON_AddItemToObject func ''parameters'' (Some params);
          tool = cJSON_AddStringToObject (cJSON_Object []) ''type'' ''function''
      in cJSON_AddItemToObject tool ''function'' (Some func))"

definition tools_json :: "'d cJSON" where
  "tools_json =
     foldl (\<lambda>a t. cJSON_AddItemToArray a (Some t)) (cJSON_Array [])
       [tool_json ''read_file'' ''Read contents of a file'' [''file_path''] (Some [''file_path'']),
        tool_json ''write_file'' ''Write content to a file'' [''file_path'', ''content'']
          (Some [''file_path'', ''content'']),
        tool_json ''list_files'' ''List files in a directory'' [''path''] None,
        tool_json ''bash'' ''Execute a bash command'' [''command''] (Some [''command''])]"

definition request_json :: "'d cJSON \<Rightarrow> string \<Rightarrow> 'd cJSON" where
  "request_json messages model_name =
     (let root = cJSON_AddStringToObject (cJSON_Object []) ''model'' model_name;
          root = cJSON_AddItemToObject root ''messages'' (cJSON_Duplicate (Some messages))
      in cJSON_AddItemToObject root ''tools'' (Some tools_json))"

definition build_request :: "'d double_ops \<Rightarrow> 'd cJSON \<Rightarrow> string \<Rightarrow> string option" where
  "build_request D messages model_name = cJSON_PrintUnformatted D (request_json messages model_name)"

section \<open>The loop\<close>

definition MAX_STEPS :: nat where "MAX_STEPS = 50"

record ('d, 'w) agent =
  messages :: "'d cJSON"
  world :: 'w
  out :: string
  err :: string

text \<open>What \<open>agent_run\<close> comes to: a return, or a NULL pointer given to \<open>strlen\<close> or to
  a \<open>%s\<close>, which C leaves undefined.\<close>

datatype outcome = Return int | Null_pointer

definition say :: "string \<Rightarrow> ('d, 'w) agent \<Rightarrow> ('d, 'w) agent" where
  "say s st = st\<lparr>out := out st @ s\<rparr>"

definition complain :: "string \<Rightarrow> ('d, 'w) agent \<Rightarrow> ('d, 'w) agent" where
  "complain s st = st\<lparr>err := err st @ s\<rparr>"

definition push :: "'d cJSON option \<Rightarrow> ('d, 'w) agent \<Rightarrow> ('d, 'w) agent" where
  "push m st = st\<lparr>messages := cJSON_AddItemToArray (messages st) m\<rparr>"

text \<open>One tool call.\<close>

definition tool_message :: "'d cJSON option \<Rightarrow> string \<Rightarrow> 'd cJSON" where
  "tool_message ident result =
     (let m = cJSON_AddStringToObject (cJSON_Object []) ''role'' ''tool'';
          m = (case str_of ident of
                 None \<Rightarrow> m | Some s \<Rightarrow> cJSON_AddStringToObject m ''tool_call_id'' s)
      in cJSON_AddStringToObject m ''content'' result)"

definition tool_step ::
    "'d double_ops \<Rightarrow> 'w os \<Rightarrow> string \<Rightarrow> 'd cJSON option \<Rightarrow> ('d, 'w) agent \<Rightarrow> ('d, 'w) agent" where
  "tool_step D os workspace tool_call st =
     (let ident = cJSON_GetObjectItem tool_call ''id'';
          func = cJSON_GetObjectItem tool_call ''function''
      in if func = None then st
         else
           case str_of (cJSON_GetObjectItem func ''name'') of
             None \<Rightarrow> st
           | Some name \<Rightarrow>
               let arguments = Option.bind (str_of (cJSON_GetObjectItem func ''arguments'')) (cJSON_Parse D);
                   st = say (''  [Tool] '' @ name @ nl) st;
                   (result, w) = execute_tool os workspace name arguments (world st);
                   st = say (''  [Result] '' @ tool_output result @ nl) (st\<lparr>world := w\<rparr>)
               in push (Some (tool_message ident (tool_output result))) st)"

text \<open>\<open>strlen(content->valuestring) > 0\<close>.\<close>

definition say_content :: "'d cJSON option \<Rightarrow> ('d, 'w) agent \<Rightarrow> ('d, 'w) agent" where
  "say_content content st =
     (case str_of content of
        None \<Rightarrow> st
      | Some s \<Rightarrow> if s \<noteq> [] then say (''  [Assistant] '' @ s @ nl) st else st)"

definition final_answer ::
    "'d cJSON option \<Rightarrow> ('d, 'w) agent \<Rightarrow> ('d, 'w) agent \<times> outcome" where
  "final_answer content st =
     (case content of
        None \<Rightarrow> (say (nl @ ''[Final Answer]'' @ nl @ ''(empty)'' @ nl) st, Return 0)
      | Some c \<Rightarrow>
          (case valuestring c of
             None \<Rightarrow> (st, Null_pointer)
           | Some s \<Rightarrow> (say (nl @ ''[Final Answer]'' @ nl @ s @ nl) st, Return 0)))"

text \<open>The part of a step after the response has arrived: it ends the run or goes on.\<close>

definition handle_response ::
    "'d double_ops \<Rightarrow> 'w os \<Rightarrow> string \<Rightarrow> string option \<Rightarrow> ('d, 'w) agent
     \<Rightarrow> ('d, 'w) agent \<times> outcome + ('d, 'w) agent" where
  "handle_response D os workspace response_str st =
     (case response_str of
        None \<Rightarrow> Inl (complain (''Error: Failed to get response from LLM'' @ nl) st, Return (- 1))
      | Some text_in \<Rightarrow>
          (case cJSON_Parse D text_in of
             None \<Rightarrow> Inl (complain (''Error: Failed to parse LLM response'' @ nl) st, Return (- 1))
           | Some response \<Rightarrow>
               let choices = cJSON_GetObjectItem (Some response) ''choices''
               in if choices = None \<or> \<not> cJSON_IsArray choices \<or> cJSON_GetArraySize choices = 0 then
                    Inl (complain (''Error: No choices in response'' @ nl) st, Return (- 1))
                  else
                    let choice = get_array_item choices 0;
                        message = cJSON_GetObjectItem choice ''message'';
                        st = push (cJSON_Duplicate message) st;
                        content = cJSON_GetObjectItem message ''content'';
                        st = say_content content st;
                        tool_calls = cJSON_GetObjectItem message ''tool_calls''
                    in if tool_calls = None \<or> \<not> cJSON_IsArray tool_calls \<or> cJSON_GetArraySize tool_calls = 0 then
                         Inl (final_answer content st)
                       else
                         Inr (foldl (\<lambda>st i. tool_step D os workspace (get_array_item tool_calls i) st) st
                           [0..<cJSON_GetArraySize tool_calls])))"

definition agent_step ::
    "'d double_ops \<Rightarrow> 'w os \<Rightarrow> HttpClient \<Rightarrow> string \<Rightarrow> nat \<Rightarrow> ('d, 'w) agent
     \<Rightarrow> ('d, 'w) agent \<times> outcome + ('d, 'w) agent" where
  "agent_step D os client workspace step st =
     (let st = say (nl @ ''[Step '' @ fmt_d (int step) @ '']'' @ nl) st;
          request_body = build_request D (messages st) (model client);
          st = say (''  Calling LLM...'' @ nl) st
      in case request_body of
           None \<Rightarrow> Inl (st, Null_pointer)
         | Some body \<Rightarrow>
             let (response_str, msg, w) = http_post os client ''/v1/chat/completions'' body (world st)
             in handle_response D os workspace response_str (complain msg (st\<lparr>world := w\<rparr>)))"

text \<open>\<open>left\<close> steps remain below MAX_STEPS.\<close>

fun agent_loop ::
    "'d double_ops \<Rightarrow> 'w os \<Rightarrow> HttpClient \<Rightarrow> string \<Rightarrow> nat \<Rightarrow> ('d, 'w) agent \<Rightarrow> ('d, 'w) agent \<times> outcome" where
  "agent_loop D os client workspace 0 st =
     (complain (''Warning: Reached maximum steps ('' @ fmt_d (int MAX_STEPS) @ '')'' @ nl) st, Return 0)"
| "agent_loop D os client workspace (Suc left) st =
     (case agent_step D os client workspace (MAX_STEPS - left) st of
        Inl result \<Rightarrow> result
      | Inr st \<Rightarrow> agent_loop D os client workspace left st)"

definition system_prompt :: string where
  "system_prompt =
     ''You are a helpful assistant that can use tools to help users. '' @
     ''When a user asks you to do something, use the appropriate tools.''"

definition role_message :: "string \<Rightarrow> string \<Rightarrow> 'd cJSON" where
  "role_message role content =
     cJSON_AddStringToObject (cJSON_AddStringToObject (cJSON_Object []) ''role'' role) ''content'' content"

definition agent_run ::
    "'d double_ops \<Rightarrow> 'w os \<Rightarrow> HttpClient \<Rightarrow> string \<Rightarrow> string \<Rightarrow> ('d, 'w) agent \<Rightarrow> ('d, 'w) agent \<times> outcome" where
  "agent_run D os client workspace user_prompt st =
     (let st = st\<lparr>messages := cJSON_Array []\<rparr>;
          st = push (Some (role_message ''system'' system_prompt)) st;
          st = push (Some (role_message ''user'' user_prompt)) st
      in agent_loop D os client workspace MAX_STEPS st)"


section \<open>The command line\<close>

definition usage :: "string \<Rightarrow> string" where
  "usage argv0 =
     ''Usage: '' @ argv0 @ '' [options] <prompt>'' @ nl @ nl @
     ''Lightweight agent for testing (HTTP only, minimal dependencies)'' @ nl @ nl @
     ''Options:'' @ nl @
     ''  --host <host>         LLM server host (default: 127.0.0.1)'' @ nl @
     ''  --port <port>         LLM server port (default: 8080)'' @ nl @
     ''  --model <id>          Model id (default: test-model)'' @ nl @
     ''  --workspace <dir>     Workspace directory (default: .)'' @ nl @
     ''  --api-key <key>       API key (optional)'' @ nl @
     ''  --help                Show this help'' @ nl @ nl @
     ''Example:'' @ nl @
     ''  '' @ argv0 @ '' --host 127.0.0.1 --port 8080 '' @ [CHR 0x22] @ ''List all files'' @ [CHR 0x22] @ nl"

record options =
  client :: HttpClient
  workspace :: string
  prompt :: "string option"

definition default_options :: options where
  "default_options =
     \<lparr>client = \<lparr>host = ''127.0.0.1'', port = 8080, api_key = None, model = ''test-model''\<rparr>,
      workspace = ''.'', prompt = None\<rparr>"

text \<open>Sets one option; None when it is unknown.\<close>

definition set_option :: "string \<Rightarrow> string \<Rightarrow> options \<Rightarrow> options option" where
  "set_option arg val opts =
     (let c = client opts
      in if arg = ''--host'' then Some (opts\<lparr>client := c\<lparr>host := val\<rparr>\<rparr>)
         else if arg = ''--port'' then Some (opts\<lparr>client := c\<lparr>port := atoi val\<rparr>\<rparr>)
         else if arg = ''--model'' then Some (opts\<lparr>client := c\<lparr>model := val\<rparr>\<rparr>)
         else if arg = ''--workspace'' then Some (opts\<lparr>workspace := val\<rparr>)
         else if arg = ''--api-key'' then Some (opts\<lparr>client := c\<lparr>api_key := Some val\<rparr>\<rparr>)
         else None)"

text \<open>The loop over the arguments: an exit status with the message on standard error, or the
  options.\<close>

fun parse_args :: "string \<Rightarrow> string list \<Rightarrow> options \<Rightarrow> int \<times> string + options" where
  "parse_args argv0 [] opts = Inr opts"
| "parse_args argv0 (arg # rest) opts =
     (if arg = ''--help'' \<or> arg = ''-h'' then Inl (0, usage argv0)
      else if take 2 arg = ''--'' then
        (case rest of
           [] \<Rightarrow> Inl (2, ''Missing value for '' @ arg @ nl)
         | val # rest \<Rightarrow>
             (case set_option arg val opts of
                None \<Rightarrow> Inl (2, ''Unknown option: '' @ arg @ nl)
              | Some opts \<Rightarrow> parse_args argv0 rest opts))
      else if prompt opts \<noteq> None then Inl (2, ''Multiple prompts specified'' @ nl)
      else parse_args argv0 rest (opts\<lparr>prompt := Some arg\<rparr>))"

definition banner :: "options \<Rightarrow> string \<Rightarrow> string" where
  "banner opts prompt_text =
     ''=== Lightweight Agent ==='' @ nl @
     ''LLM: '' @ host (client opts) @ '':'' @ fmt_d (port (client opts)) @ nl @
     ''Model: '' @ model (client opts) @ nl @
     ''Workspace: '' @ workspace opts @ nl @
     ''Prompt: '' @ prompt_text @ nl"

definition agent_main ::
    "'d double_ops \<Rightarrow> 'w os \<Rightarrow> string list \<Rightarrow> ('d, 'w) agent \<Rightarrow> ('d, 'w) agent \<times> outcome" where
  "agent_main D os argv st =
     (let argv0 = hd argv
      in if length argv < 2 then (complain (usage argv0) st, Return 2)
         else case parse_args argv0 (tl argv) default_options of
           Inl (status, msg) \<Rightarrow> (complain msg st, Return status)
         | Inr opts \<Rightarrow>
             (case prompt opts of
                None \<Rightarrow> (complain (''No prompt specified'' @ nl @ usage argv0) st, Return 2)
              | Some prompt_text \<Rightarrow>
                  agent_run D os (client opts) (workspace opts) prompt_text
                    (say (banner opts prompt_text) st)))"

end
