(* ===== verification/AgentProps.thy ===== *)
theory AgentProps imports Agent JsonProps begin

text \<open>
  Properties of the agent: the string buffer, what it sends and receives, the error results
  of a step, the conversation it keeps and the bound on its calls.
\<close>

section \<open>The string buffer\<close>

text \<open>The block holds the text, its NUL, and bytes that do not matter.\<close>

definition sb_inv :: "StrBuf \<Rightarrow> bool" where
  "sb_inv sb \<longleftrightarrow> (\<exists>s junk. data sb = Some (map Some s @ Some cnul # junk) \<and> cnul \<notin> set s
     \<and> len sb = length s \<and> capacity sb = length s + 1 + length junk)"

lemma buffer_text_map: "cnul \<notin> set s \<Longrightarrow> buffer_text (map Some s @ Some cnul # junk) = s"
  by (induction s) auto

lemma sb_invE:
  assumes "sb_inv sb"
  obtains s junk where "data sb = Some (map Some s @ Some cnul # junk)" "cnul \<notin> set s" "sb_text sb = s"
    "len sb = length s" "capacity sb = length s + 1 + length junk"
  using assms by (auto simp: sb_inv_def sb_text_def buffer_text_map)

lemma sb_invI:
  "data sb = Some (map Some s @ Some cnul # junk) \<Longrightarrow> cnul \<notin> set s \<Longrightarrow> len sb = length s
     \<Longrightarrow> capacity sb = length s + 1 + length junk \<Longrightarrow> sb_inv sb \<and> sb_text sb = s"
  by (auto simp: sb_inv_def sb_text_def buffer_text_map)

lemma sb_init_inv: "sb_inv sb_init \<and> sb_text sb_init = []"
proof (rule sb_invI [where s = "[]" and junk = "replicate 1023 None"])
  have "replicate 1024 x = x # replicate 1023 x" for x :: "char option"
    using replicate_Suc [of 1023 x] by simp
  then show "data sb_init = Some (map Some [] @ Some cnul # replicate 1023 None)"
    by (simp add: sb_init_def)
qed (simp_all add: sb_init_def)

lemma sb_grow_capacity_0:
  assumes "sb_grow n sb = Some r"
  shows "capacity sb \<noteq> 0"
  by (rule sb_grow.raw_induct [OF _ assms, where P = "\<lambda>n sb r. capacity sb \<noteq> 0"])
    (fastforce split: if_splits)

lemma sb_grow_returns:
  assumes "0 < capacity sb"
  shows "\<exists>k sb'. sb_grow n sb = Some sb' \<and> len sb' = len sb \<and> capacity sb' = capacity sb * 2 ^ k
    \<and> len sb + n + 1 \<le> capacity sb'"
  using assms
proof (induction "len sb + n + 1 - capacity sb" arbitrary: sb rule: less_induct)
  case less
  show ?case
  proof (cases "len sb + n + 1 > capacity sb")
    case True
    let ?sb = "sb\<lparr>capacity := capacity sb * 2, data := realloc (data sb) (capacity sb * 2)\<rparr>"
    have "len ?sb + n + 1 - capacity ?sb < len sb + n + 1 - capacity sb"
      using True less.prems by simp
    from less.hyps [OF this] less.prems obtain k sb' where
      "sb_grow n ?sb = Some sb'" "len sb' = len sb" "capacity sb' = capacity sb * 2 * 2 ^ k" "len sb + n + 1 \<le> capacity sb'"
      by auto
    moreover have "sb_grow n sb = sb_grow n ?sb" using True by (subst sb_grow.simps) simp
    ultimately show ?thesis by (intro exI [of _ "Suc k"] exI [of _ sb']) simp
  next
    case False
    then show ?thesis by (subst sb_grow.simps) (auto intro: exI [of _ 0])
  qed
qed

lemma sb_grow_inv:
  assumes "sb_grow n sb = Some sb'" "sb_inv sb"
  shows "sb_inv sb' \<and> sb_text sb' = sb_text sb"
proof -
  have "sb_inv sb \<longrightarrow> sb_inv sb' \<and> sb_text sb' = sb_text sb"
  proof (rule sb_grow.raw_induct [OF _ assms(1), where P = "\<lambda>n sb r. sb_inv sb \<longrightarrow> sb_inv r \<and> sb_text r = sb_text sb"], intro impI)
    fix rec :: "nat \<Rightarrow> StrBuf \<Rightarrow> StrBuf option" and n r and sb :: StrBuf
    let ?sb = "sb\<lparr>capacity := capacity sb * 2, data := realloc (data sb) (capacity sb * 2)\<rparr>"
    assume IH: "\<And>n sb r. rec n sb = Some r \<Longrightarrow> sb_inv sb \<longrightarrow> sb_inv r \<and> sb_text r = sb_text sb"
      and r: "(if len sb + n + 1 > capacity sb then rec n ?sb else Some sb) = Some r" and inv: "sb_inv sb"
    from inv obtain s junk where sb: "data sb = Some (map Some s @ Some cnul # junk)" "cnul \<notin> set s" "sb_text sb = s"
      "len sb = length s" "capacity sb = length s + 1 + length junk"
      by (rule sb_invE)
    have "sb_inv ?sb \<and> sb_text ?sb = s"
      by (rule sb_invI [where junk = "junk @ replicate (capacity sb) None"])
        (simp_all add: sb realloc_def)
    then show "sb_inv r \<and> sb_text r = sb_text sb"
      using IH [of n ?sb r] r inv sb(3) by (auto split: if_splits)
  qed
  then show ?thesis using assms(2) by simp
qed

text \<open>Appending to a string buffer returns exactly when the buffer has a block: the
  doubling loop of \<open>sb_append\<close> ends for every positive capacity, and never ends for the
  emptied buffer \<open>sb_take\<close> leaves.\<close>

theorem sb_append_returns: "sb_append sb s \<noteq> None \<longleftrightarrow> 0 < capacity sb"
  using sb_grow_returns [of sb "length s"] sb_grow_capacity_0 [of "length s" sb]
  by (cases "sb_grow (length s) sb"; cases "capacity sb") (auto simp: sb_append_def)

lemma sb_append_text:
  assumes "sb_inv sb" "cnul \<notin> set s"
  obtains sb' where "sb_append sb s = Some sb'" "sb_inv sb'" "sb_text sb' = sb_text sb @ s"
    "\<exists>k. capacity sb' = capacity sb * 2 ^ k"
proof -
  have "0 < capacity sb" using assms(1) by (rule sb_invE) simp
  from sb_grow_returns [OF this, of "length s"] obtain k g where g: "sb_grow (length s) sb = Some g"
    "len g = len sb" "capacity g = capacity sb * 2 ^ k" "len sb + length s + 1 \<le> capacity g" by blast
  have gi: "sb_inv g" "sb_text g = sb_text sb" using sb_grow_inv [OF g(1) assms(1)] by auto
  from gi(1) obtain t junk where t: "data g = Some (map Some t @ Some cnul # junk)" "cnul \<notin> set t" "sb_text g = t"
    "len g = length t" "capacity g = length t + 1 + length junk"
    by (rule sb_invE)
  let ?r = "g\<lparr>data := map_option (\<lambda>b. memcpy b (len g) (s @ [cnul])) (data g), len := len g + length s\<rparr>"
  have l: "length s \<le> length junk" using g(2,4) t(4,5) by simp
  have "sb_inv ?r \<and> sb_text ?r = t @ s"
    by (rule sb_invI [where junk = "drop (length s) junk"])
      (use t assms(2) l in \<open>simp_all add: memcpy_def\<close>)
  moreover have "sb_append sb s = Some ?r" by (simp add: sb_append_def g(1))
  ultimately show ?thesis using that gi(2) t(3) g(3) by auto
qed

text \<open>C28: the string buffer implements concatenation: on a buffer that satisfies the
  invariant (its block has \<open>capacity\<close> bytes, of which the first \<open>len\<close> are the text and
  the next is its NUL), \<open>sb_append\<close> keeps the invariant, its text is the old text with
  the new one appended, and the capacity only doubles.\<close>

theorem sb_append_refines:
  assumes "sb_inv sb" "cnul \<notin> set s"
  shows "\<exists>sb' k. sb_append sb s = Some sb' \<and> sb_inv sb' \<and> sb_text sb' = sb_text sb @ s
    \<and> capacity sb' = capacity sb * 2 ^ k"
  using sb_append_text [OF assms] by metis

lemma sb_append_refines_witness:
  "\<exists>sb' k. sb_append sb_init ''abc'' = Some sb' \<and> sb_inv sb' \<and> sb_text sb' = sb_text sb_init @ ''abc''
    \<and> capacity sb' = capacity sb_init * 2 ^ k"
  by (rule sb_append_refines) (simp_all add: sb_init_inv cnul_def)

lemma sb_appends_text:
  "sb_inv sb \<Longrightarrow> \<forall>s \<in> set ss. cnul \<notin> set s \<Longrightarrow>
     \<exists>sb'. sb_appends sb ss = Some sb' \<and> sb_inv sb' \<and> sb_text sb' = sb_text sb @ concat ss"
proof (induction ss arbitrary: sb)
  case (Cons s ss)
  have "cnul \<notin> set s" using Cons.prems(2) by simp
  from sb_append_text [OF Cons.prems(1) this] obtain sb1 where
    "sb_append sb s = Some sb1" "sb_inv sb1" "sb_text sb1 = sb_text sb @ s" .
  then show ?case using Cons.IH [of sb1] Cons.prems(2) by auto
qed simp

lemma sb_build_concat [simp]: "\<forall>s \<in> set ss. cnul \<notin> set s \<Longrightarrow> sb_build ss = concat ss"
  using sb_appends_text [of sb_init ss] sb_init_inv by (auto simp: sb_build_def sb_take_def)

lemma sb_buildf_take: "cnul \<notin> set s \<Longrightarrow> sb_buildf s = take 4095 s"
proof -
  assume "cnul \<notin> set s"
  then have "cnul \<notin> set (take 4095 s)" by (meson in_set_takeD)
  from sb_append_text [OF conjunct1 [OF sb_init_inv] this] obtain sb' where
    "sb_append sb_init (take 4095 s) = Some sb'" "sb_text sb' = sb_text sb_init @ take 4095 s" .
  then show ?thesis
    using conjunct2 [OF sb_init_inv] by (simp add: sb_buildf_def sb_appendf_def sb_take_def)
qed

section \<open>HTTP texts\<close>

lemma strstr_here: "strstr (w @ s) w = Some (w @ s)"
  by (subst strstr.simps) simp

lemma strstr_skip: "take (length w) (c # s) \<noteq> w \<Longrightarrow> strstr (c # s) w = strstr s w"
  by (subst strstr.simps) simp

lemma strstr_line:
  "CHR 0x0D \<notin> set l \<Longrightarrow> strstr (l @ s) (crlf @ crlf) = strstr s (crlf @ crlf)"
  by (induction l) (auto simp: strstr_skip)

text \<open>Header lines, each ended by CR LF, then an empty line: the body starts after it.\<close>

definition header_line :: "string \<Rightarrow> bool" where
  "header_line l \<longleftrightarrow> l \<noteq> [] \<and> CHR 0x0D \<notin> set l \<and> cnul \<notin> set l"

lemma header_line_skip:
  assumes "header_line l"
  shows "strstr (crlf @ l @ s) (crlf @ crlf) = strstr s (crlf @ crlf)"
proof -
  obtain c t where l: "l = c # t" "c \<noteq> CHR 0x0D" using assms by (cases l) (auto simp: header_line_def)
  have "strstr (crlf @ l @ s) (crlf @ crlf) = strstr (l @ s) (crlf @ crlf)"
    using l by (simp add: strstr_skip)
  also have "\<dots> = strstr s (crlf @ crlf)"
    using assms by (intro strstr_line) (simp add: header_line_def)
  finally show ?thesis .
qed

lemma body_start:
  assumes "\<forall>l \<in> set ls. header_line l" "ls \<noteq> []"
  shows "strstr (concat (map (\<lambda>l. l @ crlf) ls) @ crlf @ body) (crlf @ crlf) = Some (crlf @ crlf @ body)"
proof -
  have *: "strstr (crlf @ concat (map (\<lambda>l. l @ crlf) ks) @ crlf @ body) (crlf @ crlf) = Some (crlf @ crlf @ body)"
    if "\<forall>l \<in> set ks. header_line l" for ks
    using that
  proof (induction ks)
    case Nil
    show ?case using strstr_here [of "crlf @ crlf" body] by simp
  next
    case (Cons k ks)
    then show ?case using header_line_skip [of k] by simp
  qed
  obtain l ks where ls: "ls = l # ks" using assms(2) by (cases ls) auto
  show ?thesis
    using assms(1) * [of ks] strstr_line [of l] by (simp add: ls header_line_def)
qed

section \<open>Printed texts have no NUL\<close>

lemma hex_char_nul: "hex_char (n mod 16) \<noteq> cnul"
proof -
  have "ascii (hex_char (n mod 16)) \<noteq> 0" by (auto simp: hex_char_def)
  then show ?thesis by (auto simp: ascii_def cnul_def)
qed

lemma escape_char_nul: "cnul \<notin> set (escape_char c)"
  using hex_char_nul [of "ascii c div 4096"] hex_char_nul [of "ascii c div 256"]
    hex_char_nul [of "ascii c div 16"] hex_char_nul [of "ascii c"]
  by (auto simp: escape_char_def fmt_04x_def cnul_def ascii_def)

lemma print_string_nul: "cnul \<notin> set (print_string_ptr s)"
  using escape_char_nul by (auto simp: print_string_eq cnul_def)

lemma print_nul:
  fixes v :: "'d cJSON" and vs :: "'d cJSON list" and ms :: "(string \<times> 'd cJSON) list"
  shows "json_ok D room v \<Longrightarrow> print_value D fm depth v = Some s \<Longrightarrow> cnul \<notin> set s"
    "list_all (json_ok D room) vs \<Longrightarrow> print_elements D fm depth vs = Some s \<Longrightarrow> cnul \<notin> set s"
    "list_all (\<lambda>(k, v). json_ok D room v) ms \<Longrightarrow> print_members D fm depth ms = Some s \<Longrightarrow> cnul \<notin> set s"
proof (induction D fm depth v and D fm depth vs and D fm depth ms arbitrary: s room and s room and s room
    rule: print_value_print_elements_print_members.induct)
  case (4 D fm depth d)
  then have "list_all number_char s" by (auto simp: number_ok_def)
  then show ?case by (auto simp: list_all_iff number_char_def ctype_ascii cnul_def ascii_def)
next
  case (8 D fm depth ms)
  then have "list_all (\<lambda>(k, v). json_ok D (room - 1) v) ms" by (auto simp: list_all_iff)
  with 8 show ?case by (auto simp: cnul_def)
qed (auto simp: print_string_nul print_string_nul [unfolded cnul_def] cnul_def split: option.splits)


section \<open>The results of a step\<close>

lemma duplicate_id [simp]: "duplicate v = v"
proof (induction v)
  case (cJSON_Array vs)
  then show ?case by (simp add: map_idI)
next
  case (cJSON_Object ms)
  then have "map (\<lambda>(k, v). (k, duplicate v)) ms = ms" by (intro map_idI) fastforce
  then show ?case by simp
qed simp_all

lemma cJSON_Duplicate_id [simp]: "cJSON_Duplicate v = v"
  by (cases v) (simp_all add: cJSON_Duplicate_def)

text \<open>The assistant message of a response: None when the response is one of the errors, Some
  None when its first choice has no message.\<close>

definition response_message :: "'d double_ops \<Rightarrow> string option \<Rightarrow> 'd cJSON option option" where
  "response_message D response =
     (case Option.bind response (cJSON_Parse D) of
        None \<Rightarrow> None
      | Some v \<Rightarrow>
          (case cJSON_GetObjectItem (Some v) ''choices'' of
             Some (cJSON_Array (c # cs)) \<Rightarrow> Some (cJSON_GetObjectItem (Some c) ''message'')
           | _ \<Rightarrow> None))"

text \<open>The tool calls of a message, and those that name a function.\<close>

definition calls :: "'d cJSON option \<Rightarrow> 'd cJSON list" where
  "calls m = (case cJSON_GetObjectItem m ''tool_calls'' of Some (cJSON_Array cs) \<Rightarrow> cs | _ \<Rightarrow> [])"

definition executed :: "'d cJSON \<Rightarrow> bool" where
  "executed call \<longleftrightarrow> (let f = cJSON_GetObjectItem (Some call) ''function''
                     in f \<noteq> None \<and> str_of (cJSON_GetObjectItem f ''name'') \<noteq> None)"

lemma nth_child_array [simp]: "i < length cs \<Longrightarrow> nth_child (map (Pair None) cs) i = Some (cs ! i)"
  by (induction cs arbitrary: i) (auto simp: nth_Cons')

lemma foldl_index:
  "foldl (\<lambda>st i. f (nth_child (map (Pair None) cs) i) st) st [0..<length cs] = foldl (\<lambda>st c. f (Some c) st) st cs"
proof -
  have "foldl (\<lambda>st i. f (nth_child (map (Pair None) cs) i) st) st [0..<length cs]
      = foldl (\<lambda>st i. f (Some (cs ! i)) st) st [0..<length cs]"
    by (rule foldl_cong) auto
  also have "\<dots> = foldl (\<lambda>st c. f (Some c) st) st (map ((!) cs) [0..<length cs])"
    by (simp add: foldl_map)
  finally show ?thesis by (simp add: map_nth)
qed

lemma handle_response_eq:
  "handle_response D os dir response st =
     (case response_message D response of
        None \<Rightarrow>
          Inl (complain
            (case response of None \<Rightarrow> ''Error: Failed to get response from LLM'' @ nl
             | Some s \<Rightarrow> if cJSON_Parse D s = None then ''Error: Failed to parse LLM response'' @ nl
                         else ''Error: No choices in response'' @ nl) st, Return (- 1))
      | Some m \<Rightarrow>
          let content = cJSON_GetObjectItem m ''content'';
              st = say_content content (push m st)
          in if calls m = [] then Inl (final_answer content st)
             else Inr (foldl (\<lambda>st c. tool_step D os dir (Some c) st) st (calls m)))"
proof (cases "Option.bind response (cJSON_Parse D)")
  case None
  then show ?thesis
    by (cases response) (simp_all add: handle_response_def response_message_def)
next
  case (Some v)
  then obtain s where s: "response = Some s" "cJSON_Parse D s = Some v" by (cases response) auto
  let ?ch = "cJSON_GetObjectItem (Some v) ''choices''"
  show ?thesis
  proof (cases "\<exists>c cs. ?ch = Some (cJSON_Array (c # cs))")
    case False
    then have "?ch = None \<or> \<not> cJSON_IsArray ?ch \<or> cJSON_GetArraySize ?ch = 0"
      by (auto simp: cJSON_IsArray_def cJSON_GetArraySize_def split: option.splits cJSON.splits)
        (metis list.exhaust)
    moreover have "response_message D (Some s) = None"
      using False by (auto simp: response_message_def s(2) split: option.splits cJSON.splits list.splits)
    ultimately show ?thesis by (auto simp: handle_response_def s Let_def)
  next
    case True
    then obtain c cs where ch: "?ch = Some (cJSON_Array (c # cs))" by blast
    let ?m = "cJSON_GetObjectItem (Some c) ''message''"
    have r: "response_message D (Some s) = Some ?m" by (simp add: response_message_def s(2) ch)
    have ok: "cJSON_IsArray ?ch" "cJSON_GetArraySize ?ch \<noteq> 0" "get_array_item ?ch 0 = Some c"
      by (simp_all add: ch cJSON_IsArray_def cJSON_GetArraySize_def get_array_item_def)
    let ?tc = "cJSON_GetObjectItem ?m ''tool_calls''"
    show ?thesis
    proof (cases "calls ?m = []")
      case True
      then have "?tc = None \<or> \<not> cJSON_IsArray ?tc \<or> cJSON_GetArraySize ?tc = 0"
        by (auto simp: calls_def cJSON_IsArray_def cJSON_GetArraySize_def split: option.splits cJSON.splits)
      with True ok ch show ?thesis by (auto simp: handle_response_def s r Let_def)
    next
      case False
      then have tc: "?tc = Some (cJSON_Array (calls ?m))"
        by (auto simp: calls_def split: option.splits cJSON.splits)
      then have "cJSON_IsArray ?tc" "cJSON_GetArraySize ?tc = length (calls ?m)"
        "\<And>i. get_array_item ?tc i = nth_child (map (Pair None) (calls ?m)) i"
        by (simp_all add: cJSON_IsArray_def cJSON_GetArraySize_def get_array_item_def)
      with False ok ch tc show ?thesis
        by (simp add: handle_response_def s r Let_def foldl_index [where f = "tool_step D os dir"])
    qed
  qed
qed


text \<open>C24: what a step comes to, decided by the response alone.  It is an error with
  result -1 exactly when there is no response, it is not JSON, or it has no nonempty array of
  choices; else it goes on exactly when the message of the first choice has tool calls; else
  it ends with 0, unless the message has a content that is not a string, whose NULL text is
  then printed with \<open>%s\<close>.\<close>

theorem agent_response_result:
  "handle_response D os dir response st =
     (case response_message D response of
        None \<Rightarrow> Inl (fst (projl (handle_response D os dir response st)), Return (- 1))
      | Some m \<Rightarrow>
          if calls m \<noteq> [] then Inr (projr (handle_response D os dir response st))
          else Inl (fst (projl (handle_response D os dir response st)),
                    if cJSON_GetObjectItem m ''content'' \<noteq> None
                       \<and> valuestring (the (cJSON_GetObjectItem m ''content'')) = None
                    then Null_pointer else Return 0))"
  by (auto simp: handle_response_eq final_answer_def Let_def split: option.splits)

section \<open>The conversation\<close>

text \<open>What a run exchanges with the server, seen from outside: the system's operations with a
  log of every request sent and of what came of it.  The operations themselves do not change.\<close>

type_synonym traffic = "(string \<times> net_result) list"

definition logged :: "'w os \<Rightarrow> ('w \<times> traffic) os" where
  "logged os =
     \<lparr>fopen_r = (\<lambda>p w. fopen_r os p (fst w)),
      fopen_w = (\<lambda>p c w. case fopen_w os p c (fst w) of (opened, w') \<Rightarrow> (opened, w', snd w)),
      readdir = (\<lambda>p w. readdir os p (fst w)),
      popen = (\<lambda>c w. case popen os c (fst w) of
        None \<Rightarrow> None | Some (text_out, status, w') \<Rightarrow> Some (text_out, status, w', snd w)),
      exchange = (\<lambda>a p request w. case exchange os a p request (fst w) of
        (reply, w') \<Rightarrow> (reply, w', snd w @ [(request, reply)]))\<rparr>"

text \<open>The body of a reply.\<close>

definition reply_body :: "net_result \<Rightarrow> string option" where
  "reply_body reply =
     (case reply of
        Replied chunks \<Rightarrow> map_option (drop 4) (strstr (concat (map c_string chunks)) (crlf @ crlf))
      | _ \<Rightarrow> None)"

text \<open>The messages of the conversation, as they are written.  A tool message answers a call when it
  carries the call's id and what the tool the call names put out for the call's arguments.\<close>

definition text_message :: "string \<Rightarrow> string \<Rightarrow> 'd cJSON" where
  "text_message role content = cJSON_Object [(''role'', cJSON_String role), (''content'', cJSON_String content)]"

definition answer_message :: "string option \<Rightarrow> string \<Rightarrow> 'd cJSON" where
  "answer_message ident content = cJSON_Object ([(''role'', cJSON_String ''tool'')] @
     (case ident of None \<Rightarrow> [] | Some s \<Rightarrow> [(''tool_call_id'', cJSON_String (c_string s))]) @
     [(''content'', cJSON_String (c_string content))])"

definition answers :: "'d double_ops \<Rightarrow> 'w os \<Rightarrow> string \<Rightarrow> 'd cJSON \<Rightarrow> 'd cJSON \<Rightarrow> bool" where
  "answers D os dir call m \<longleftrightarrow>
     (\<exists>func name w.
        cJSON_GetObjectItem (Some call) ''function'' = Some func \<and>
        str_of (cJSON_GetObjectItem (Some func) ''name'') = Some name \<and>
        m = answer_message (str_of (cJSON_GetObjectItem (Some call) ''id''))
          (tool_output (fst (execute_tool os dir name
            (Option.bind (str_of (cJSON_GetObjectItem (Some func) ''arguments'')) (cJSON_Parse D)) w))))"

text \<open>The conversation that belongs to a traffic.  Every request carries the conversation so far;
  a reply that holds an assistant's message adds that message and then exactly one answer to each
  call that names a function, in the order of the calls; any other reply adds nothing.\<close>

inductive conversation ::
    "'d double_ops \<Rightarrow> 'w os \<Rightarrow> HttpClient \<Rightarrow> string \<Rightarrow> string \<Rightarrow> traffic \<Rightarrow> 'd cJSON list \<Rightarrow> bool"
  for D os client dir user_prompt where
  start: "conversation D os client dir user_prompt []
     [text_message ''system'' system_prompt, text_message ''user'' (c_string user_prompt)]"
| no_message: "conversation D os client dir user_prompt log h \<Longrightarrow>
     build_request D (cJSON_Array h) (model client) = Some body \<Longrightarrow>
     request = sb_build (request_pieces client ''/v1/chat/completions'' body) \<Longrightarrow>
     response_message D (reply_body reply) \<in> {None, Some None} \<Longrightarrow>
     conversation D os client dir user_prompt (log @ [(request, reply)]) h"
| round: "conversation D os client dir user_prompt log h \<Longrightarrow>
     build_request D (cJSON_Array h) (model client) = Some body \<Longrightarrow>
     request = sb_build (request_pieces client ''/v1/chat/completions'' body) \<Longrightarrow>
     response_message D (reply_body reply) = Some (Some m) \<Longrightarrow>
     list_all2 (answers D os dir) (filter executed (calls (Some m))) ts \<Longrightarrow>
     conversation D os client dir user_prompt (log @ [(request, reply)]) (h @ m # ts)"

lemma messages_simps [simp]:
  "messages (say s st) = messages st" "messages (complain s st) = messages st"
  "messages (say_content c st) = messages st" "messages (fst (final_answer c st)) = messages st"
  by (simp_all add: say_def complain_def say_content_def final_answer_def split: option.split)

lemma messages_push: "messages st = cJSON_Array h \<Longrightarrow> messages (push m st) = cJSON_Array (case m of None \<Rightarrow> h | Some v \<Rightarrow> h @ [v])"
  by (cases m) (simp_all add: push_def)

lemma world_simps [simp]:
  "world (say s st) = world st" "world (complain s st) = world st" "world (push m st) = world st"
  "world (say_content c st) = world st" "world (fst (final_answer c st)) = world st"
  by (simp_all add: say_def complain_def push_def say_content_def final_answer_def split: option.split)

lemma text_message_eq: "role_message role content = text_message (c_string role) (c_string content)"
  by (simp add: role_message_def text_message_def cJSON_AddStringToObject_def c_string_def cnul_def)

lemma answer_message_eq: "tool_message ident content = answer_message (str_of ident) content"
  by (simp add: tool_message_def answer_message_def Let_def cJSON_AddStringToObject_def c_string_def cnul_def
      split: option.split)

lemma logged_tool:
  "fst (execute_tool (logged os) dir name args w) = fst (execute_tool os dir name args (fst w))"
  "snd (snd (execute_tool (logged os) dir name args w)) = snd w"
  by (simp_all add: execute_tool_def logged_def tool_read_file_def tool_write_file_def tool_list_files_def
      tool_bash_def Let_def split: option.splits prod.splits)

lemma tool_step_none:
  "cJSON_GetObjectItem c ''function'' = None \<Longrightarrow> tool_step D os dir c st = st"
  "str_of (cJSON_GetObjectItem (cJSON_GetObjectItem c ''function'') ''name'') = None \<Longrightarrow> tool_step D os dir c st = st"
  by (simp_all add: tool_step_def Let_def)

lemma tool_step_some:
  assumes "cJSON_GetObjectItem c ''function'' = Some func" "str_of (cJSON_GetObjectItem (Some func) ''name'') = Some name"
    and "execute_tool os dir name (Option.bind (str_of (cJSON_GetObjectItem (Some func) ''arguments'')) (cJSON_Parse D))
      (world st) = (result, w)"
  shows "tool_step D os dir c st =
      push (Some (tool_message (cJSON_GetObjectItem c ''id'') (tool_output result)))
        (say (''  [Result] '' @ tool_output result @ nl) (say (''  [Tool] '' @ name @ nl) st\<lparr>world := w\<rparr>))"
  using assms by (simp add: tool_step_def Let_def)

lemma tool_step_messages:
  assumes "messages st = cJSON_Array h"
  shows "\<exists>ts. messages (tool_step D (logged os) dir (Some c) st) = cJSON_Array (h @ ts)
    \<and> snd (world (tool_step D (logged os) dir (Some c) st)) = snd (world st)
    \<and> (if executed c then \<exists>m. answers D os dir c m \<and> ts = [m] else ts = [])"
proof (cases "executed c")
  case True
  then obtain func name where f: "cJSON_GetObjectItem (Some c) ''function'' = Some func"
    "str_of (cJSON_GetObjectItem (Some func) ''name'') = Some name"
    by (auto simp: executed_def Let_def)
  let ?args = "Option.bind (str_of (cJSON_GetObjectItem (Some func) ''arguments'')) (cJSON_Parse D)"
  obtain result w where r: "execute_tool (logged os) dir name ?args (world st) = (result, w)"
    by (rule prod.exhaust)
  have "result = fst (execute_tool os dir name ?args (fst (world st)))" "snd w = snd (world st)"
    using logged_tool [of os dir name ?args "world st"] r by simp_all
  moreover note tool_step_some [OF f r]
  ultimately show ?thesis
    using True assms f by (auto simp: messages_push answers_def answer_message_eq say_def)
next
  case False
  then have "tool_step D (logged os) dir (Some c) st = st"
    using tool_step_none [of "Some c"] by (auto simp: executed_def Let_def)
  then show ?thesis using False assms by simp
qed

lemma tool_steps_messages:
  "messages st = cJSON_Array h \<Longrightarrow>
     \<exists>ts. messages (foldl (\<lambda>st c. tool_step D (logged os) dir (Some c) st) st cs) = cJSON_Array (h @ ts)
       \<and> snd (world (foldl (\<lambda>st c. tool_step D (logged os) dir (Some c) st) st cs)) = snd (world st)
       \<and> list_all2 (answers D os dir) (filter executed cs) ts"
proof (induction cs arbitrary: st h)
  case (Cons c cs)
  let ?t = "tool_step D (logged os) dir (Some c) st"
  from tool_step_messages [OF Cons.prems] obtain t where
    t: "messages ?t = cJSON_Array (h @ t)" "snd (world ?t) = snd (world st)"
      "if executed c then \<exists>m. answers D os dir c m \<and> t = [m] else t = []" by blast
  from Cons.IH [OF t(1)] obtain ts where
    ts: "messages (foldl (\<lambda>st c. tool_step D (logged os) dir (Some c) st) ?t cs) = cJSON_Array ((h @ t) @ ts)"
      "snd (world (foldl (\<lambda>st c. tool_step D (logged os) dir (Some c) st) ?t cs)) = snd (world st)"
      "list_all2 (answers D os dir) (filter executed cs) ts" using t(2) by auto
  from t(3) ts(3) have "list_all2 (answers D os dir) (filter executed (c # cs)) (t @ ts)" by (auto split: if_splits)
  with ts(1,2) show ?case by (intro exI [of _ "t @ ts"]) simp
qed simp

definition keeps :: "'d double_ops \<Rightarrow> 'w os \<Rightarrow> HttpClient \<Rightarrow> string \<Rightarrow> string \<Rightarrow> ('d, 'w \<times> traffic) agent \<Rightarrow> bool" where
  "keeps D os c dir p st \<longleftrightarrow>
     (\<exists>h. messages st = cJSON_Array h \<and> conversation D os c dir p (snd (world st)) h)"

lemma keeps_cong: "messages st' = messages st \<Longrightarrow> snd (world st') = snd (world st) \<Longrightarrow>
    keeps D os c dir p st' = keeps D os c dir p st"
  by (simp add: keeps_def)

lemma handle_response_keeps:
  assumes h: "messages st = cJSON_Array h" "conversation D os c dir p log h"
    and w: "snd (world st) = log @ [(request, reply)]"
    and sent: "build_request D (cJSON_Array h) (model c) = Some body"
      "request = sb_build (request_pieces c ''/v1/chat/completions'' body)"
    and response: "response = reply_body reply"
  shows "case handle_response D (logged os) dir response st of
      Inl (st', r) \<Rightarrow> keeps D os c dir p st' | Inr st' \<Rightarrow> keeps D os c dir p st'"
proof (cases "response_message D response")
  case None
  then have "conversation D os c dir p (snd (world st)) h"
    unfolding w using response by (intro no_message [OF h(2) sent]) simp
  then show ?thesis using None h by (simp add: handle_response_eq keeps_def)
next
  case (Some m)
  let ?st = "say_content (cJSON_GetObjectItem m ''content'') (push m st)"
  let ?after = "foldl (\<lambda>st c. tool_step D (logged os) dir (Some c) st) ?st (calls m)"
  have st: "messages ?st = cJSON_Array (case m of None \<Rightarrow> h | Some v \<Rightarrow> h @ [v])" "snd (world ?st) = snd (world st)"
    using messages_push [OF h(1), of m] by simp_all
  from tool_steps_messages [OF st(1), of D os dir "calls m"] obtain ts where
    ts: "messages ?after = cJSON_Array ((case m of None \<Rightarrow> h | Some v \<Rightarrow> h @ [v]) @ ts)"
      "snd (world ?after) = snd (world st)"
      "list_all2 (answers D os dir) (filter executed (calls m)) ts" using st(2) by auto
  have k: "keeps D os c dir p ?after"
  proof (cases m)
    case None
    then have "calls m = []" by (simp add: calls_def cJSON_GetObjectItem_def get_object_item_def)
    moreover from this ts(3) have "ts = []" by simp
    moreover have "conversation D os c dir p (snd (world st)) h"
      unfolding w using response Some None by (intro no_message [OF h(2) sent]) simp
    ultimately show ?thesis using None h st by (simp add: keeps_def)
  next
    case (Some v)
    have "conversation D os c dir p (snd (world ?after)) (h @ v # ts)"
      unfolding ts(2) w using response \<open>response_message D response = Some m\<close> Some ts(3)
      by (intro round [OF h(2) sent]) simp_all
    then show ?thesis using ts(1) Some by (simp add: keeps_def)
  qed
  show ?thesis
  proof (cases "calls m = []")
    case True
    then have "keeps D os c dir p (fst (final_answer (cJSON_GetObjectItem m ''content'') ?st))"
      using k by (simp add: keeps_def)
    then show ?thesis using True Some by (auto simp: handle_response_eq Let_def split: prod.split dest: arg_cong [where f = fst])
  next
    case False
    then show ?thesis using k Some by (simp add: handle_response_eq Let_def)
  qed
qed

lemma http_post_logged:
  "\<exists>reply w'. http_post (logged os) c path body w = (reply_body reply, fst (snd (http_post (logged os) c path body w)), w') \<and>
     snd w' = snd w @ [(sb_build (request_pieces c path body), reply)]"
proof -
  let ?request = "sb_build (request_pieces c path body)"
  obtain reply w1 where e: "exchange os (host c) (word_of_int (port c)) ?request (fst w) = (reply, w1)"
    by fastforce
  have "sb_build (map c_string chunks) = concat (map c_string chunks)" for chunks
    by (rule sb_build_concat) auto
  then show ?thesis
    by (intro exI [of _ reply] exI [of _ "(w1, snd w @ [(?request, reply)])"])
      (cases reply; simp add: http_post_def logged_def Let_def e reply_body_def)
qed

lemma agent_step_keeps:
  assumes "keeps D os c dir p st"
  shows "case agent_step D (logged os) c dir n st of
    Inl (st', r) \<Rightarrow> keeps D os c dir p st' | Inr st' \<Rightarrow> keeps D os c dir p st'"
proof -
  from assms obtain h where h: "messages st = cJSON_Array h" "conversation D os c dir p (snd (world st)) h"
    by (auto simp: keeps_def)
  show ?thesis
  proof (cases "build_request D (cJSON_Array h) (model c)")
    case None
    then show ?thesis using assms h by (simp add: agent_step_def Let_def keeps_def)
  next
    case (Some body)
    from http_post_logged [of os c "''/v1/chat/completions''" body "world st"] obtain reply msg w' where
      p: "http_post (logged os) c ''/v1/chat/completions'' body (world st) = (reply_body reply, msg, w')"
        "snd w' = snd (world st) @ [(sb_build (request_pieces c ''/v1/chat/completions'' body), reply)]" by blast
    show ?thesis
      using p Some h
      by (simp add: agent_step_def Let_def)
        (rule handle_response_keeps [OF _ h(2) _ Some refl refl]; simp add: complain_def say_def)
  qed
qed

lemma agent_loop_keeps: "keeps D os c dir p st \<Longrightarrow> keeps D os c dir p (fst (agent_loop D (logged os) c dir n st))"
proof (induction n arbitrary: st)
  case 0
  then show ?case by (simp add: keeps_def)
next
  case (Suc n)
  then show ?case
    using agent_step_keeps [OF Suc.prems, of "MAX_STEPS - n"]
    by (auto split: sum.split)
qed

lemma agent_start_keeps:
  "keeps D os c dir p (push (Some (role_message ''user'' p)) (push (Some (role_message ''system'' system_prompt))
     (st\<lparr>world := (w, []), messages := cJSON_Array []\<rparr>)))"
proof -
  have "c_string ''system'' = ''system''" "c_string ''user'' = ''user''" "c_string system_prompt = system_prompt"
    by code_simp+
  then show ?thesis by (simp add: push_def keeps_def text_message_eq start)
qed

text \<open>C23: however the model answers and however the run ends, the conversation the agent keeps is
  the one that belongs to its traffic with the server: the system message, the user's prompt, and
  for every reply with an assistant's message that message and then exactly one tool message for
  each of its calls that name a function, in order, with the call's id and the tool's output.
  Every request carries the conversation up to then.\<close>

theorem agent_conversation:
  "\<exists>h. messages (fst (agent_run D (logged os) c dir user_prompt (st\<lparr>world := (w, [])\<rparr>))) = cJSON_Array h \<and>
     conversation D os c dir user_prompt
       (snd (world (fst (agent_run D (logged os) c dir user_prompt (st\<lparr>world := (w, [])\<rparr>))))) h"
  using agent_loop_keeps [OF agent_start_keeps] by (simp add: agent_run_def Let_def keeps_def)

section \<open>The bound on the calls of the model\<close>

text \<open>What the operations of the system other than the exchange do not increase.\<close>

definition local_ops_keep :: "('w \<Rightarrow> nat) \<Rightarrow> 'w os \<Rightarrow> bool" where
  "local_ops_keep f os \<longleftrightarrow>
     (\<forall>p c w. f (snd (fopen_w os p c w)) \<le> f w)
     \<and> (\<forall>c w r. popen os c w = Some r \<longrightarrow> f (snd (snd r)) \<le> f w)"

lemma execute_tool_keep:
  assumes "local_ops_keep f os"
  shows "f (snd (execute_tool os dir name args w)) \<le> f w"
proof -
  have "f (snd (tool_write_file os dir p c w)) \<le> f w" for p c
    using assms by (auto simp: tool_write_file_def Let_def local_ops_keep_def split: prod.split)
      (metis snd_conv)+
  moreover have "f (snd (tool_bash os c w)) \<le> f w" for c
    using assms by (fastforce simp: tool_bash_def local_ops_keep_def split: option.split)
  ultimately show ?thesis
    by (simp add: execute_tool_def split: option.split)
qed

lemma tool_step_world:
  fixes D :: "'d double_ops"
  shows "world (tool_step D os dir c st) = world st
   \<or> (\<exists>name args. world (tool_step D os dir c st) = snd (execute_tool os dir name (args :: 'd cJSON option) (world st)))"
proof (cases "cJSON_GetObjectItem c ''function''")
  case None
  then show ?thesis by (simp add: tool_step_none)
next
  case (Some func)
  show ?thesis
  proof (cases "str_of (cJSON_GetObjectItem (Some func) ''name'')")
    case None
    then show ?thesis using Some by (simp add: tool_step_none)
  next
    case (Some name)
    let ?args = "Option.bind (str_of (cJSON_GetObjectItem (Some func) ''arguments'')) (cJSON_Parse D)"
    obtain result w where e: "execute_tool os dir name ?args (world st) = (result, w)" by fastforce
    have "world (tool_step D os dir c st) = snd (execute_tool os dir name ?args (world st))"
      unfolding tool_step_some [OF \<open>_ = Some func\<close> Some e] e by simp
    then show ?thesis by blast
  qed
qed

lemma tool_step_keep:
  assumes "local_ops_keep f os"
  shows "f (world (tool_step D os dir c st)) \<le> f (world st)"
  using tool_step_world [of D os dir c st] execute_tool_keep [OF assms] by (metis order_refl)

lemma tool_steps_keep:
  "local_ops_keep f os \<Longrightarrow> f (world (foldl (\<lambda>st c. tool_step D os dir (Some c) st) st cs)) \<le> f (world st)"
  by (induction cs arbitrary: st) (auto intro: order_trans tool_step_keep)

lemma handle_response_keep:
  assumes "local_ops_keep f os"
  shows "case handle_response D os dir r st of Inl (st', r) \<Rightarrow> f (world st') \<le> f (world st)
    | Inr st' \<Rightarrow> f (world st') \<le> f (world st)"
proof (cases "response_message D r")
  case None
  then show ?thesis by (simp add: handle_response_eq)
next
  case (Some m)
  let ?st = "say_content (cJSON_GetObjectItem m ''content'') (push m st)"
  have "world (fst (final_answer (cJSON_GetObjectItem m ''content'') ?st)) = world st" by simp
  moreover have "f (world (foldl (\<lambda>st c. tool_step D os dir (Some c) st) ?st (calls m))) \<le> f (world st)"
    using tool_steps_keep [OF assms, of D dir ?st "calls m"] by simp
  ultimately show ?thesis
    using Some by (cases "final_answer (cJSON_GetObjectItem m ''content'') ?st") (auto simp: handle_response_eq Let_def)
qed

lemma agent_step_keep:
  assumes "local_ops_keep f os" "\<forall>h p r w. f (snd (exchange os h p r w)) \<le> f w + 1"
  shows "case agent_step D os c dir n st of Inl (st', r) \<Rightarrow> f (world st') \<le> f (world st) + 1
    | Inr st' \<Rightarrow> f (world st') \<le> f (world st) + 1"
proof -
  let ?st = "say (''  Calling LLM...'' @ nl) (say (nl @ ''[Step '' @ fmt_d (int n) @ '']'' @ nl) st)"
  show ?thesis
  proof (cases "build_request D (messages st) (model c)")
    case None
    then show ?thesis by (simp add: agent_step_def Let_def)
  next
    case (Some body)
    obtain resp msg w where p: "http_post os c ''/v1/chat/completions'' body (world st) = (resp, msg, w)"
      by (metis prod_cases3)
    have w: "f w \<le> f (world st) + 1"
      using p assms(2) by (auto simp: http_post_def Let_def split: prod.splits net_result.splits) (metis snd_conv)+
    have "agent_step D os c dir n st = handle_response D os dir resp (complain msg (?st\<lparr>world := w\<rparr>))"
      using Some p by (simp add: agent_step_def Let_def)
    then show ?thesis
      using handle_response_keep [OF assms(1), where D = D and dir = dir and r = resp and st = "complain msg (?st\<lparr>world := w\<rparr>)"] w
      by (auto split: sum.splits prod.splits intro: order_trans)
  qed
qed

lemma agent_loop_keep:
  assumes "local_ops_keep f os" "\<forall>h p r w. f (snd (exchange os h p r w)) \<le> f w + 1"
  shows "f (world (fst (agent_loop D os c dir n st))) \<le> f (world st) + n"
proof (induction n arbitrary: st)
  case (Suc n)
  show ?case
  proof (cases "agent_step D os c dir (MAX_STEPS - n) st")
    case (Inl r)
    then show ?thesis using agent_step_keep [OF assms, where D = D and c = c and dir = dir and n = "MAX_STEPS - n" and st = st] by (cases r) simp
  next
    case (Inr st')
    then show ?thesis using agent_step_keep [OF assms, where D = D and c = c and dir = dir and n = "MAX_STEPS - n" and st = st] Suc.IH [of st'] by simp
  qed
qed simp

text \<open>C26: a run ends after at most MAX_STEPS exchanges with the model: any count of the world
  that one exchange raises by at most one, and that the local operations do not raise, has
  grown by at most 50 when \<open>agent_run\<close> returns.\<close>

theorem agent_calls_bounded:
  assumes "local_ops_keep f os" "\<forall>h p r w. f (snd (exchange os h p r w)) \<le> f w + 1"
  shows "f (world (fst (agent_run D os c dir user_prompt st))) \<le> f (world st) + 50"
  using agent_loop_keep [OF assms, where D = D and c = c and dir = dir and n = MAX_STEPS and st =
      "push (Some (role_message ''user'' user_prompt)) (push (Some (role_message ''system'' system_prompt)) (st\<lparr>messages := cJSON_Array []\<rparr>))"]
  by (simp add: agent_run_def Let_def MAX_STEPS_def)

text \<open>A system without files in which every exchange is counted and fails.\<close>

definition counting_os :: "nat os" where
  "counting_os =
     \<lparr>fopen_r = \<lambda>_ _. None, fopen_w = \<lambda>_ _ w. (False, w), readdir = \<lambda>_ _. None, popen = \<lambda>_ _. None,
      exchange = \<lambda>_ _ _ w. (Connection_failed, w + 1)\<rparr>"

definition local_client :: HttpClient where
  "local_client = client default_options"

definition blank :: "'w \<Rightarrow> (int, 'w) agent" where
  "blank w = \<lparr>messages = cJSON_NULL, world = w, out = [], err = []\<rparr>"

lemma agent_calls_bounded_witness:
  "world (fst (agent_run integral_doubles counting_os local_client ''.'' ''hello'' (blank 0))) \<le> 50"
  using agent_calls_bounded [where f = "\<lambda>n. n" and os = counting_os and st = "blank 0"]
  by (simp add: local_ops_keep_def counting_os_def blank_def)

section \<open>The tools\<close>

text \<open>An unknown tool, or a tool whose arguments are missing or not strings, reports the
  error and does nothing else.\<close>

theorem execute_tool_error:
  assumes "name \<notin> {''read_file'', ''write_file'', ''list_files'', ''bash''}
    \<or> name \<in> {''read_file'', ''write_file''} \<and> str_of (cJSON_GetObjectItem args ''file_path'') = None
    \<or> name = ''write_file'' \<and> str_of (cJSON_GetObjectItem args ''content'') = None
    \<or> name = ''bash'' \<and> str_of (cJSON_GetObjectItem args ''command'') = None"
  shows "execute_tool os dir name args w = (tool_error, w)"
proof (cases "name \<in> {''read_file'', ''write_file'', ''list_files'', ''bash''}")
  case False
  then show ?thesis by (simp add: execute_tool_def)
next
  case True
  then show ?thesis using assms
    by (elim insertE emptyE) (auto simp: execute_tool_def split: option.split)
qed

lemma execute_tool_error_witness:
  "execute_tool counting_os ''.'' ''rm'' (None :: int cJSON option) 0 = (tool_error, 0)"
  by (rule execute_tool_error) simp

text \<open>What a file system promises: a file that was opened for writing reads back.\<close>

definition reads_back :: "'w os \<Rightarrow> bool" where
  "reads_back os \<longleftrightarrow>
     (\<forall>p c w w'. fopen_w os p c w = (True, w') \<longrightarrow> fopen_r os p w' = Some c)"

definition args_of :: "(string \<times> string) list \<Rightarrow> 'd cJSON option" where
  "args_of kvs = Some (cJSON_Object (map (\<lambda>(k, v). (k, cJSON_String v)) kvs))"

text \<open>What the \<open>write_file\<close> tool wrote, the \<open>read_file\<close> tool returns for every
  path with the same first characters: the path is cut to 1023 characters with the
  workspace, so two long names are the same file, and the success message names the path
  as given.\<close>

theorem write_then_read:
  assumes "reads_back os" "cnul \<notin> set content"
    and "take 1023 (dir @ ''/'' @ path) = take 1023 (dir @ ''/'' @ path')"
    and "tool_write_file os dir path content w = (r, w')" "success r"
  shows "tool_read_file os dir path' w' = \<lparr>tool_output = content, success = True\<rparr>"
proof -
  from assms(4,5) have "fopen_w os (full_path dir path) content w = (True, w')"
    by (auto simp: tool_write_file_def Let_def split: prod.splits if_splits)
  then have "fopen_r os (full_path dir path') w' = Some content"
    using assms(1,3) by (auto simp: reads_back_def full_path_def)
  then show ?thesis using assms(2) by (simp add: tool_read_file_def c_string_id)
qed

definition map_os :: "(string \<Rightarrow> string option) os" where
  "map_os =
     \<lparr>fopen_r = \<lambda>p w. w p, fopen_w = \<lambda>p c w. (True, w(p := Some c)), readdir = \<lambda>_ _. None,
      popen = \<lambda>_ _. None, exchange = \<lambda>_ _ _ w. (Connection_failed, w)\<rparr>"

lemma write_then_read_witness:
  "tool_read_file map_os ''d'' (replicate 1021 (CHR ''a'') @ ''y'')
     (snd (tool_write_file map_os ''d'' (replicate 1021 (CHR ''a'') @ ''x'') ''hi'' (\<lambda>_. None)))
   = \<lparr>tool_output = ''hi'', success = True\<rparr>"
proof (rule write_then_read)
  show "reads_back map_os" by (simp add: reads_back_def map_os_def)
  show "cnul \<notin> set ''hi''" by (simp add: cnul_def)
  show "tool_write_file map_os ''d'' (replicate 1021 (CHR ''a'') @ ''x'') ''hi'' (\<lambda>_. None)
      = (fst (tool_write_file map_os ''d'' (replicate 1021 (CHR ''a'') @ ''x'') ''hi'' (\<lambda>_. None)),
         snd (tool_write_file map_os ''d'' (replicate 1021 (CHR ''a'') @ ''x'') ''hi'' (\<lambda>_. None)))"
    by simp
  show "success (fst (tool_write_file map_os ''d'' (replicate 1021 (CHR ''a'') @ ''x'') ''hi'' (\<lambda>_. None)))"
    by (simp add: tool_write_file_def map_os_def)
  show "take 1023 (''d'' @ ''/'' @ replicate 1021 (CHR ''a'') @ ''x'') = take 1023 (''d'' @ ''/'' @ replicate 1021 (CHR ''a'') @ ''y'')"
    by (simp add: take_Cons')
qed

end
