(* ===== verification/LlmServer.thy ===== *)
theory LlmServer imports Json CLib begin

text \<open>
  \<open>cagent-test/simple_llm_server.c\<close>: the test server, which answers a chat completion
  request with a tool call chosen by fixed rules and a small classifier.

  A \<open>float\<close> is a value of a type \<open>'f\<close> with the operations of \<open>float_ops\<close>; the
  literals of the code are tenths.  What one \<open>read\<close> delivers, and the outcomes of
  \<open>accept\<close>, are inputs.  The progress reports on standard output are not modelled.
\<close>

section \<open>The classifier\<close>

record 'f float_ops =
  tenths :: "int \<Rightarrow> 'f"
  f_add :: "'f \<Rightarrow> 'f \<Rightarrow> 'f"
  f_mul :: "'f \<Rightarrow> 'f \<Rightarrow> 'f"
  f_div :: "'f \<Rightarrow> 'f \<Rightarrow> 'f"
  f_sqrt :: "'f \<Rightarrow> 'f"
  f_less :: "'f \<Rightarrow> 'f \<Rightarrow> bool"

definition hash_keyword :: "string \<Rightarrow> nat" where
  "hash_keyword keyword =
     unat (foldl (\<lambda>hash c. hash * 31 + of_nat (ascii c)) (0 :: u32) keyword mod 32)"

definition vocabulary :: "string list" where
  "vocabulary =
     [''factorial'', ''calculate'', ''math'', ''number'',
      ''date'', ''time'', ''ago'', ''day'', ''week'',
      ''connection'', ''network'', ''port'', ''tcp'', ''established'', ''listening'',
      ''cpu'', ''core'', ''memory'', ''disk'', ''percentage'',
      ''uptime'', ''running'', ''system'', ''kernel'', ''version'',
      ''user'', ''username'', ''process'', ''file'', ''hidden'']"

definition count_features :: "'f float_ops \<Rightarrow> string \<Rightarrow> 'f list" where
  "count_features F s =
     foldl (\<lambda>fs k. if strcasestr s k
                   then fs[hash_keyword k := f_add F (fs ! hash_keyword k) (tenths F 10)] else fs)
       (replicate 32 (tenths F 0)) vocabulary"

definition extract_features :: "'f float_ops \<Rightarrow> string \<Rightarrow> 'f list" where
  "extract_features F s =
     (let features = count_features F s;
          norm = foldl (\<lambda>n f. f_add F n (f_mul F f f)) (tenths F 0) features
      in if f_less F (tenths F 0) norm
         then let norm = f_sqrt F norm in map (\<lambda>f. f_div F f norm) features
         else features)"

definition compute_similarity :: "'f float_ops \<Rightarrow> 'f list \<Rightarrow> 'f list \<Rightarrow> 'f" where
  "compute_similarity F features weights =
     foldl (\<lambda>score (f, w). f_add F score (f_mul F f w)) (tenths F 0) (zip features weights)"

record 'f CommandTemplate =
  command :: string
  weights :: "'f list"
  description :: string

definition make_weights :: "'f float_ops \<Rightarrow> (string \<times> int) list \<Rightarrow> 'f list" where
  "make_weights F pairs = foldl (\<lambda>l (k, t). l[hash_keyword k := tenths F t]) (replicate 32 (tenths F 0)) pairs"

definition init_command_templates :: "'f float_ops \<Rightarrow> 'f CommandTemplate list" where
  "init_command_templates F =
     [\<lparr>command = ''echo 3628800'',
       weights = make_weights F [(''factorial'', 20), (''calculate'', 15), (''number'', 8)],
       description = ''factorial calculation''\<rparr>,
      \<lparr>command = ''date -d '' @ [CHR 0x27] @ ''100 days ago'' @ [CHR 0x27] @ '' '' @ [CHR 0x27] @ ''+%A, %B %d, %Y'' @ [CHR 0x27],
       weights = make_weights F [(''ago'', 20), (''day'', 18), (''date'', 15)],
       description = ''date calculation''\<rparr>,
      \<lparr>command = ''ss -tan | grep ESTAB | wc -l'',
       weights = make_weights F [(''established'', 25), (''connection'', 20), (''tcp'', 15)],
       description = ''network connections''\<rparr>,
      \<lparr>command = ''nproc'',
       weights = make_weights F [(''cpu'', 25), (''core'', 20)],
       description = ''cpu cores''\<rparr>,
      \<lparr>command = ''df -h / | awk '' @ [CHR 0x27] @ ''NR==2 {print $5}'' @ [CHR 0x27],
       weights = make_weights F [(''disk'', 20), (''percentage'', 18)],
       description = ''disk usage''\<rparr>,
      \<lparr>command = ''uptime -p'',
       weights = make_weights F [(''uptime'', 25), (''running'', 20)],
       description = ''system uptime''\<rparr>,
      \<lparr>command = ''whoami'',
       weights = make_weights F [(''username'', 25), (''user'', 20)],
       description = ''username''\<rparr>,
      \<lparr>command = ''ss -tln | grep LISTEN | wc -l'',
       weights = make_weights F [(''listening'', 25), (''port'', 20)],
       description = ''listening ports''\<rparr>,
      \<lparr>command = ''uname -r'',
       weights = make_weights F [(''kernel'', 25), (''version'', 20)],
       description = ''kernel version''\<rparr>]"

text \<open>The search for the best template: its score, and the template when one beat -1.\<close>

definition best_template ::
    "'f float_ops \<Rightarrow> 'f list \<Rightarrow> 'f CommandTemplate list \<Rightarrow> 'f \<times> 'f CommandTemplate option" where
  "best_template F input_features templates =
     foldl (\<lambda>(best_score, best) t.
         let score = compute_similarity F input_features (weights t)
         in if f_less F best_score score then (score, Some t) else (best_score, best))
       (tenths F (- 10), None) templates"

section \<open>Choosing a tool call\<close>

definition is_tool_result :: "'d cJSON option \<Rightarrow> bool" where
  "is_tool_result messages =
     (if messages = None \<or> \<not> cJSON_IsArray messages then False
      else
        let count = cJSON_GetArraySize messages
        in if count = 0 then False
           else
             let last_msg = get_array_item messages (count - 1)
             in if last_msg = None then False
                else str_of (cJSON_GetObjectItem last_msg ''role'') = Some ''tool'')"

definition build_tool_call :: "string \<Rightarrow> string \<Rightarrow> string \<Rightarrow> 'd cJSON" where
  "build_tool_call ident name arguments =
     (let tool_call = cJSON_AddStringToObject (cJSON_Object []) ''id'' ident;
          tool_call = cJSON_AddStringToObject tool_call ''type'' ''function'';
          func = cJSON_AddStringToObject (cJSON_Object []) ''name'' name;
          func = cJSON_AddStringToObject func ''arguments'' arguments
      in cJSON_AddItemToObject tool_call ''function'' (Some func))"

abbreviation quote :: string where "quote \<equiv> [CHR 0x22]"
abbreviation apos :: string where "apos \<equiv> [CHR 0x27]"
abbreviation backslash_n :: string where "backslash_n \<equiv> [CHR 0x5C, CHR ''n'']"

definition bash_call :: "string \<Rightarrow> 'd cJSON" where
  "bash_call cmd =
     cJSON_AddItemToArray (cJSON_Array [])
       (Some (build_tool_call ''call_bash'' ''bash''
          (take 2047 (''{'' @ quote @ ''command'' @ quote @ '':'' @ quote @ cmd @ quote @ ''}''))))"

definition direct_command :: "string \<Rightarrow> string option" where
  "direct_command user_text =
     (if strcasestr user_text ''test_file.txt'' \<and> strcasestr user_text ''Hello OS'' then
        Some (''printf '' @ apos @ ''Hello OS'' @ backslash_n @ apos @ '' > test_file.txt'')
      else if strcasestr user_text ''test_input.txt'' then
        Some (''printf '' @ apos @ ''1'' @ backslash_n @ ''2'' @ backslash_n @ ''3'' @ backslash_n @ ''4'' @ backslash_n
              @ ''5'' @ backslash_n @ apos @ '' > test_input.txt && awk '' @ apos
              @ ''{sum += $1} END {print sum}'' @ apos @ '' test_input.txt'')
      else if strcasestr user_text ''test_dir'' then
        Some ''mkdir -p test_dir && touch test_dir/file1 test_dir/file2 test_dir/file3 && ls test_dir | wc -l''
      else if strcasestr user_text ''.sh files'' then
        Some (''find . -name '' @ apos @ ''*.sh'' @ apos @ '' | wc -l'')
      else None)"

definition generate_tool_calls :: "'f float_ops \<Rightarrow> 'd cJSON option \<Rightarrow> 'd cJSON option" where
  "generate_tool_calls F messages =
     (if messages = None \<or> \<not> cJSON_IsArray messages then None
      else
        let count = cJSON_GetArraySize messages
        in if count = 0 then None
           else
             let last_msg = get_array_item messages (count - 1)
             in if last_msg = None then None
                else
                  case str_of (cJSON_GetObjectItem last_msg ''content'') of
                    None \<Rightarrow> None
                  | Some user_text \<Rightarrow>
                      (case direct_command user_text of
                         Some cmd \<Rightarrow> Some (bash_call cmd)
                       | None \<Rightarrow>
                           (case best_template F (extract_features F user_text) (init_command_templates F) of
                              (best_score, Some t) \<Rightarrow>
                                if f_less F (tenths F 3) best_score then Some (bash_call (command t)) else None
                            | (_, None) \<Rightarrow> None)))"

section \<open>Responses\<close>

definition chat_response_json ::
    "'d double_ops \<Rightarrow> string option \<Rightarrow> 'd cJSON option \<Rightarrow> string option \<Rightarrow> 'd cJSON" where
  "chat_response_json D content tool_calls model_name =
     (let num = \<lambda>obj name i. cJSON_AddNumberToObject obj name (of_int32 D i);
          root = cJSON_AddStringToObject (cJSON_Object []) ''id'' ''chatcmpl-test-001'';
          root = cJSON_AddStringToObject root ''object'' ''chat.completion'';
          root = num root ''created'' 1234567890;
          root = cJSON_AddStringToObject root ''model''
                   (case model_name of None \<Rightarrow> ''test-model'' | Some m \<Rightarrow> m);
          choice = num (cJSON_Object []) ''index'' 0;
          message = cJSON_AddStringToObject (cJSON_Object []) ''role'' ''assistant'';
          (message, choice) =
            (if tool_calls \<noteq> None \<and> 0 < cJSON_GetArraySize tool_calls then
               (cJSON_AddItemToObject (cJSON_AddStringToObject message ''content'' [])
                  ''tool_calls'' (cJSON_Duplicate tool_calls),
                cJSON_AddStringToObject choice ''finish_reason'' ''tool_calls'')
             else
               (cJSON_AddStringToObject message ''content'' (case content of None \<Rightarrow> [] | Some c \<Rightarrow> c),
                cJSON_AddStringToObject choice ''finish_reason'' ''stop''));
          choice = cJSON_AddItemToObject choice ''message'' (Some message);
          root = cJSON_AddItemToObject root ''choices''
                   (Some (cJSON_AddItemToArray (cJSON_Array []) (Some choice)));
          usage = num (cJSON_Object []) ''prompt_tokens'' 10;
          usage = num usage ''completion_tokens'' 20;
          usage = num usage ''total_tokens'' 30
      in cJSON_AddItemToObject root ''usage'' (Some usage))"

definition build_chat_response ::
    "'d double_ops \<Rightarrow> string option \<Rightarrow> 'd cJSON option \<Rightarrow> string option \<Rightarrow> string option" where
  "build_chat_response D content tool_calls model_name =
     cJSON_PrintUnformatted D (chat_response_json D content tool_calls model_name)"

definition extract_post_body :: "string \<Rightarrow> string option" where
  "extract_post_body request = map_option (drop 4) (strstr request (crlf @ crlf))"

definition handle_chat_completions :: "'d double_ops \<Rightarrow> 'f float_ops \<Rightarrow> string \<Rightarrow> string option" where
  "handle_chat_completions D F json_body =
     (case cJSON_Parse D json_body of
        None \<Rightarrow> Some (''{'' @ quote @ ''error'' @ quote @ '':'' @ quote @ ''Invalid JSON'' @ quote @ ''}'')
      | Some req \<Rightarrow>
          let messages = cJSON_GetObjectItem (Some req) ''messages'';
              model_str = str_of (cJSON_GetObjectItem (Some req) ''model'')
          in if is_tool_result messages then
               build_chat_response D (Some ''Task completed successfully.'') None model_str
             else
               case generate_tool_calls F messages of
                 Some tool_calls \<Rightarrow> build_chat_response D None (Some tool_calls) model_str
               | None \<Rightarrow> build_chat_response D (Some ''I understand. How can I help you?'') None model_str)"

text \<open>\<open>send_http_response\<close>: the bytes written; a NULL body is not written.\<close>

definition send_http_response :: "int \<Rightarrow> string \<Rightarrow> string \<Rightarrow> string option \<Rightarrow> string" where
  "send_http_response status_code status_text content_type body =
     take 1023
       (''HTTP/1.1 '' @ fmt_d status_code @ '' '' @ status_text @ crlf @
        ''Content-Type: '' @ content_type @ crlf @
        ''Content-Length: '' @ fmt_d (case body of None \<Rightarrow> 0 | Some b \<Rightarrow> int (length b)) @ crlf @
        ''Access-Control-Allow-Origin: *'' @ crlf @
        ''Connection: close'' @ crlf @
        crlf)
     @ (case body of None \<Rightarrow> [] | Some b \<Rightarrow> b)"

text \<open>\<open>handle_client\<close>: \<open>received\<close> is what the client sent, of which one \<open>read\<close>
  takes at most 65535 bytes; None when it failed.  The result is what is written.\<close>

definition prefixed :: "string \<Rightarrow> string \<Rightarrow> bool" where
  "prefixed buffer w \<longleftrightarrow> take (length w) buffer = w"

definition handle_client :: "'d double_ops \<Rightarrow> 'f float_ops \<Rightarrow> string option \<Rightarrow> string" where
  "handle_client D F received =
     (case received of
        None \<Rightarrow> []
      | Some bytes \<Rightarrow>
          if bytes = [] then []
          else
            let buffer = c_string (take 65535 bytes)
            in if prefixed buffer ''OPTIONS'' then
                 send_http_response 200 ''OK'' ''text/plain'' (Some [])
               else if prefixed buffer ''POST /v1/chat/completions'' then
                 (case extract_post_body buffer of
                    Some body \<Rightarrow>
                      send_http_response 200 ''OK'' ''application/json'' (handle_chat_completions D F body)
                  | None \<Rightarrow>
                      send_http_response 400 ''Bad Request'' ''application/json''
                        (Some (''{'' @ quote @ ''error'' @ quote @ '':'' @ quote @ ''No body'' @ quote @ ''}'')))
               else if prefixed buffer ''GET / '' \<or> prefixed buffer ''GET /health'' then
                 send_http_response 200 ''OK'' ''text/plain'' (Some ''Simple LLM Server Running'')
               else send_http_response 404 ''Not Found'' ''text/plain'' (Some ''Not Found''))"

section \<open>The accept loop\<close>

text \<open>What happens to the process: a termination signal, or a result of \<open>accept\<close>.  A
  signal comes before the result of the \<open>accept\<close> it arrives in, and before the client
  during whose handling it arrives.\<close>

datatype event =
    Signal
  | Accept_interrupted
  | Accept_failed
  | Accepted "string option"

text \<open>The texts written to clients, and the exit status once the loop has ended.\<close>

fun serve :: "'d double_ops \<Rightarrow> 'f float_ops \<Rightarrow> bool \<Rightarrow> event list \<Rightarrow> string list \<times> int option" where
  "serve D F keep_running [] = ([], None)"
| "serve D F keep_running (Signal # es) = serve D F False es"
| "serve D F keep_running (Accept_interrupted # es) =
     (if \<not> keep_running then ([], Some 0) else serve D F keep_running es)"
| "serve D F keep_running (Accept_failed # es) =
     (if \<not> keep_running then ([], Some 0) else serve D F keep_running es)"
| "serve D F keep_running (Accepted r # es) =
     (let reply = handle_client D F r
      in if \<not> keep_running then ([reply], Some 0)
         else let (replies, status) = serve D F keep_running es in (reply # replies, status))"

datatype bind_result = Setup_ok | Setup_failed  \<comment> \<open>\<open>socket\<close>, \<open>setsockopt\<close>, \<open>bind\<close>, \<open>listen\<close>\<close>

definition server_main ::
    "'d double_ops \<Rightarrow> 'f float_ops \<Rightarrow> string list \<Rightarrow> (int \<Rightarrow> bind_result) \<Rightarrow> event list \<Rightarrow> string list \<times> int option" where
  "server_main D F argv bind_port es =
     (let port = (if 1 < length argv then atoi (argv ! 1) else 8080)
      in if 1 < length argv \<and> (port \<le> 0 \<or> 65535 < port) then ([], Some 1)
         else case bind_port port of
           Setup_failed \<Rightarrow> ([], Some 1)
         | Setup_ok \<Rightarrow> serve D F True es)"

end
