(* ===== verification/LlmServerProps.thy ===== *)
theory LlmServerProps imports LlmServer AgentProps begin

text \<open>
  Properties of the test server: it answers every request with a response the agent
  accepts, what its rules choose, and the accept loop.
\<close>

section \<open>The responses\<close>


lemma lit_c_string: "cnul \<notin> set s \<Longrightarrow> c_string s = s" by (rule c_string_id)

lemma int_ok: "int_laws D \<Longrightarrow> 0 \<le> i \<Longrightarrow> i \<le> INT_MAX \<Longrightarrow> number_ok D (of_int32 D i)"
  using int_number_ok [of D i] by (simp add: INT_MIN_def)

lemma chat_json_text:
  "chat_response_json D content None m = cJSON_Object
     [(''id'', cJSON_String ''chatcmpl-test-001''), (''object'', cJSON_String ''chat.completion''),
      (''created'', cJSON_Number (of_int32 D 1234567890)),
      (''model'', cJSON_String (c_string (case m of None \<Rightarrow> ''test-model'' | Some m \<Rightarrow> m))),
      (''choices'', cJSON_Array [cJSON_Object
        [(''index'', cJSON_Number (of_int32 D 0)), (''finish_reason'', cJSON_String ''stop''),
         (''message'', cJSON_Object [(''role'', cJSON_String ''assistant''),
           (''content'', cJSON_String (c_string (case content of None \<Rightarrow> [] | Some c \<Rightarrow> c)))])]]),
      (''usage'', cJSON_Object [(''prompt_tokens'', cJSON_Number (of_int32 D 10)),
         (''completion_tokens'', cJSON_Number (of_int32 D 20)), (''total_tokens'', cJSON_Number (of_int32 D 30))])]"
  by (simp add: chat_response_json_def Let_def cJSON_AddStringToObject_def cJSON_AddNumberToObject_def c_string_def cnul_def)

lemma chat_json_call:
  "chat_response_json D content (Some (cJSON_Array (c # cs))) m = cJSON_Object
     [(''id'', cJSON_String ''chatcmpl-test-001''), (''object'', cJSON_String ''chat.completion''),
      (''created'', cJSON_Number (of_int32 D 1234567890)),
      (''model'', cJSON_String (c_string (case m of None \<Rightarrow> ''test-model'' | Some m \<Rightarrow> m))),
      (''choices'', cJSON_Array [cJSON_Object
        [(''index'', cJSON_Number (of_int32 D 0)), (''finish_reason'', cJSON_String ''tool_calls''),
         (''message'', cJSON_Object [(''role'', cJSON_String ''assistant''),
           (''content'', cJSON_String []), (''tool_calls'', cJSON_Array (c # cs))])]]),
      (''usage'', cJSON_Object [(''prompt_tokens'', cJSON_Number (of_int32 D 10)),
         (''completion_tokens'', cJSON_Number (of_int32 D 20)), (''total_tokens'', cJSON_Number (of_int32 D 30))])]"
  by (simp add: chat_response_json_def Let_def cJSON_AddStringToObject_def cJSON_AddNumberToObject_def
      cJSON_GetArraySize_def c_string_def cnul_def)


lemma bash_call_json:
  "bash_call cmd = cJSON_Array [cJSON_Object
     [(''id'', cJSON_String ''call_bash''), (''type'', cJSON_String ''function''),
      (''function'', cJSON_Object [(''name'', cJSON_String ''bash''),
        (''arguments'', cJSON_String (c_string (take 2047
          (''{'' @ quote @ ''command'' @ quote @ '':'' @ quote @ cmd @ quote @ ''}''))))])]]"
  by (simp add: bash_call_def build_tool_call_def Let_def cJSON_AddStringToObject_def c_string_def cnul_def)

lemma chat_json_ok:
  assumes "int_laws D"
  shows "json_ok D CJSON_NESTING_LIMIT (chat_response_json D content None m)"
    "json_ok D CJSON_NESTING_LIMIT (chat_response_json D content (Some (bash_call cmd)) m)"
  unfolding chat_json_text chat_json_call bash_call_json
  by (simp_all add: int_ok [OF assms] CJSON_NESTING_LIMIT_def cnul_def INT_MAX_def del: c_string_no_nul)
    (simp_all add: c_string_no_nul [unfolded cnul_def])

lemma build_chat_response_sends:
  assumes "json_ok D CJSON_NESTING_LIMIT (chat_response_json D content tc m)"
  obtains s where "build_chat_response D content tc m = Some s" "cnul \<notin> set s"
    "cJSON_Parse D s = Some (chat_response_json D content tc m)"
proof -
  obtain s where s: "cJSON_PrintUnformatted D (chat_response_json D content tc m) = Some s"
    using json.enc_total [OF assms] by blast
  have "cnul \<notin> set s" using s print_nul(1) [OF assms] by (simp add: cJSON_PrintUnformatted_def print_json_def)
  with s show ?thesis using that json.dec_enc [OF assms s] by (simp add: build_chat_response_def)
qed

lemma response_message_text:
  "cJSON_Parse D s = Some (chat_response_json D content None m) \<Longrightarrow>
   response_message D (Some s) = Some (Some (role_message ''assistant'' (case content of None \<Rightarrow> [] | Some c \<Rightarrow> c)))"
  by (simp add: response_message_def chat_json_text lookup_eval role_message_def cJSON_AddStringToObject_def c_string_def)

definition call_message :: "'d cJSON \<Rightarrow> 'd cJSON" where
  "call_message tool_calls =
     cJSON_Object [(''role'', cJSON_String ''assistant''), (''content'', cJSON_String []), (''tool_calls'', tool_calls)]"

lemma response_message_call:
  "cJSON_Parse D s = Some (chat_response_json D content (Some (bash_call cmd)) m) \<Longrightarrow>
   response_message D (Some s) = Some (Some (call_message (bash_call cmd)))"
  unfolding bash_call_json chat_json_call
  by (simp add: response_message_def lookup_eval call_message_def)

lemma handle_chat_completions_cases:
  obtains (bad) "cJSON_Parse D body = None"
      "handle_chat_completions D F body = Some (''{'' @ quote @ ''error'' @ quote @ '':'' @ quote @ ''Invalid JSON'' @ quote @ ''}'')"
  | (final) content m where "handle_chat_completions D F body = build_chat_response D (Some content) None m"
      "content \<in> {''Task completed successfully.'', ''I understand. How can I help you?''}"
  | (call) cmd m where "handle_chat_completions D F body = build_chat_response D None (Some (bash_call cmd)) m"
proof (cases "cJSON_Parse D body")
  case None
  then show ?thesis by (intro bad) (simp_all add: handle_chat_completions_def)
next
  case (Some req)
  let ?ms = "cJSON_GetObjectItem (Some req) ''messages''"
  show ?thesis
  proof (cases "is_tool_result ?ms")
    case True
    then show ?thesis using Some by (intro final [of "''Task completed successfully.''"]) (simp_all add: handle_chat_completions_def Let_def)
  next
    case False
    show ?thesis
    proof (cases "generate_tool_calls F ?ms")
      case None
      then show ?thesis using Some False
        by (intro final [of "''I understand. How can I help you?''"]) (simp_all add: handle_chat_completions_def Let_def)
    next
      case (Some tc)
      then obtain cmd where "tc = bash_call cmd"
        by (auto simp: generate_tool_calls_def Let_def split: option.splits if_splits prod.splits)
      then show ?thesis using \<open>_ = Some req\<close> False Some
        by (intro call) (simp add: handle_chat_completions_def Let_def)
    qed
  qed
qed

text \<open>C27: the server answers every request body: one that is not JSON with an error object,
  any other with a chat completion that the agent's parser accepts, whose first choice has a
  message with a string as content and at most one tool call.\<close>

theorem server_answers:
  assumes "int_laws D"
  shows "\<exists>s. handle_chat_completions D F body = Some s \<and> cnul \<notin> set s \<and>
    (if cJSON_Parse D body = None then s = ''{'' @ quote @ ''error'' @ quote @ '':'' @ quote @ ''Invalid JSON'' @ quote @ ''}''
     else \<exists>m. response_message D (Some s) = Some (Some m) \<and> length (calls (Some m)) \<le> 1
       \<and> str_of (cJSON_GetObjectItem (Some m) ''content'') \<noteq> None)"
proof (cases "cJSON_Parse D body")
  case None
  then show ?thesis by (simp add: handle_chat_completions_def cnul_def)
next
  case (Some req)
  show ?thesis
  proof (rule handle_chat_completions_cases [of D body F])
    assume "cJSON_Parse D body = None" then show ?thesis using Some by simp
  next
    fix content m
    assume h: "handle_chat_completions D F body = build_chat_response D (Some content) None m"
    from build_chat_response_sends [OF chat_json_ok(1) [OF assms]] obtain s where
      s: "build_chat_response D (Some content) None m = Some s" "cnul \<notin> set s"
        "cJSON_Parse D s = Some (chat_response_json D (Some content) None m)" .
    show ?thesis
      using s h Some response_message_text [OF s(3)]
      by (simp add: role_message_def cJSON_AddStringToObject_def c_string_def lookup_eval calls_def str_of_def cJSON_IsString_def)
  next
    fix cmd m
    assume h: "handle_chat_completions D F body = build_chat_response D None (Some (bash_call cmd)) m"
    from build_chat_response_sends [OF chat_json_ok(2) [OF assms]] obtain s where
      s: "build_chat_response D None (Some (bash_call cmd)) m = Some s" "cnul \<notin> set s"
        "cJSON_Parse D s = Some (chat_response_json D None (Some (bash_call cmd)) m)" .
    show ?thesis
      using s h Some response_message_call [OF s(3)]
      by (simp add: call_message_def bash_call_json lookup_eval calls_def str_of_def cJSON_IsString_def)
  qed
qed

section \<open>The size of a printed value\<close>

fun text_bound :: "'d cJSON \<Rightarrow> nat" where
  "text_bound (cJSON_Number d) = 25"
| "text_bound (cJSON_String s) = 6 * length s + 2"
| "text_bound (cJSON_Raw s) = length s"
| "text_bound (cJSON_Array vs) = 2 + sum_list (map (\<lambda>v. text_bound v + 1) vs)"
| "text_bound (cJSON_Object ms) = 2 + sum_list (map (\<lambda>(k, v). 6 * length k + text_bound v + 4) ms)"
| "text_bound v = 5"

lemma escape_char_length: "length (escape_char c) \<le> 6"
  by (simp add: escape_char_def fmt_04x_def)

lemma print_string_length: "length (print_string_ptr s) \<le> 6 * length s + 2"
proof -
  have "length (concat (map escape_char s)) \<le> 6 * length s"
  proof (induction s)
    case (Cons c s)
    then show ?case using escape_char_length [of c] by simp
  qed simp
  then show ?thesis by (simp add: print_string_eq)
qed

lemma print_length:
  fixes v :: "'d cJSON" and vs :: "'d cJSON list" and ms :: "(string \<times> 'd cJSON) list"
  shows "\<not> fm \<Longrightarrow> print_value D fm depth v = Some s \<Longrightarrow> length s \<le> text_bound v"
    "\<not> fm \<Longrightarrow> print_elements D fm depth vs = Some s \<Longrightarrow> length s \<le> sum_list (map (\<lambda>v. text_bound v + 1) vs)"
    "\<not> fm \<Longrightarrow> print_members D fm depth ms = Some s \<Longrightarrow> length s \<le> sum_list (map (\<lambda>(k, v). 6 * length k + text_bound v + 4) ms)"
proof (induction D fm depth v and D fm depth vs and D fm depth ms arbitrary: s and s and s
    rule: print_value_print_elements_print_members.induct)
  case (4 D fm depth d)
  then show ?case by (auto simp: print_number_def Let_def split: if_splits)
next
  case (6 D fm depth s)
  then show ?case using print_string_length by auto
next
  case (12 D fm depth k v ms)
  then obtain a t where "print_value D fm depth v = Some a" "print_members D fm depth ms = Some t"
    "s = print_string_ptr k @ '':'' @ a @ (if ms \<noteq> [] then '','' else []) @ t"
    by (auto split: option.splits)
  with 12 print_string_length [of k] show ?case by fastforce
qed (fastforce split: option.splits)+

section \<open>The agent's requests at the server\<close>

lemma dec_digits_plain: "CHR 0x0D \<notin> set (dec_digits n)" "cnul \<notin> set (dec_digits n)"
  using dec_digits_digits [of n] by (auto simp: list_all_iff ctype_ascii cnul_def) (auto simp: ascii_def)

lemma fmt_d_plain: "CHR 0x0D \<notin> set (fmt_d i)" "cnul \<notin> set (fmt_d i)"
  using dec_digits_plain by (auto simp: fmt_d_def cnul_def)

text \<open>A client whose header lines are lines: no CR or NUL in the address and the key, and no
  line is cut.\<close>

definition client_ok :: "HttpClient \<Rightarrow> bool" where
  "client_ok c \<longleftrightarrow> CHR 0x0D \<notin> set (host c) \<and> cnul \<notin> set (host c) \<and> length (host c) \<le> 100
     \<and> INT_MIN \<le> port c \<and> port c \<le> INT_MAX
     \<and> (case api_key c of None \<Rightarrow> True | Some k \<Rightarrow> CHR 0x0D \<notin> set k \<and> cnul \<notin> set k \<and> length k \<le> 4000)"

definition request_lines :: "HttpClient \<Rightarrow> nat \<Rightarrow> string list" where
  "request_lines c n =
     [''POST /v1/chat/completions HTTP/1.1'', ''Host: '' @ host c @ '':'' @ fmt_d (port c),
      ''Content-Type: application/json'']
     @ (case api_key c of None \<Rightarrow> [] | Some k \<Rightarrow> [''Authorization: Bearer '' @ k])
     @ [''Content-Length: '' @ fmt_d (int n), ''Connection: close'']"

lemma request_lines_ok: "client_ok c \<Longrightarrow> \<forall>l \<in> set (request_lines c n). header_line l"
  using fmt_d_plain by (cases "api_key c") (auto simp: request_lines_def client_ok_def header_line_def cnul_def)

lemma request_text:
  assumes "client_ok c" "length body \<le> 65535" "cnul \<notin> set body"
  shows "sb_build (request_pieces c ''/v1/chat/completions'' body)
    = concat (map (\<lambda>l. l @ crlf) (request_lines c (length body))) @ crlf @ body"
    "\<forall>s \<in> set (request_pieces c ''/v1/chat/completions'' body). cnul \<notin> set s"
proof -
  have p: "length (fmt_d (port c)) \<le> 11" "length (fmt_d (int (length body))) \<le> 11"
    using assms(1,2) by (auto simp: client_ok_def INT_MIN_def INT_MAX_def intro!: fmt_d_length)
  have t: "take 4095 (''Host: '' @ host c @ '':'' @ fmt_d (port c) @ crlf) = ''Host: '' @ host c @ '':'' @ fmt_d (port c) @ crlf"
    "take 4095 (''Content-Length: '' @ fmt_d (int (length body)) @ crlf) = ''Content-Length: '' @ fmt_d (int (length body)) @ crlf"
    using p assms(1) by (intro take_all; simp add: client_ok_def)+
  have k: "take 4095 (''Authorization: Bearer '' @ k @ crlf) = ''Authorization: Bearer '' @ k @ crlf" if "api_key c = Some k" for k
    using assms(1) that by (intro take_all) (simp add: client_ok_def)
  show nn: "\<forall>s \<in> set (request_pieces c ''/v1/chat/completions'' body). cnul \<notin> set s"
  proof (cases "api_key c")
    case None
    then show ?thesis using assms(1,3) fmt_d_plain(2) unfolding request_pieces_def t
      by (auto simp: client_ok_def cnul_def)
  next
    case (Some key)
    then show ?thesis using assms(1,3) fmt_d_plain(2) unfolding request_pieces_def t Some option.case k [OF Some]
      by (auto simp: client_ok_def cnul_def Some)
  qed
  show "sb_build (request_pieces c ''/v1/chat/completions'' body)
    = concat (map (\<lambda>l. l @ crlf) (request_lines c (length body))) @ crlf @ body"
  proof (cases "api_key c")
    case None
    then show ?thesis unfolding sb_build_concat [OF nn] unfolding request_pieces_def t None option.case
      by (simp add: request_lines_def None)
  next
    case (Some key)
    then show ?thesis unfolding sb_build_concat [OF nn] unfolding request_pieces_def t Some option.case k [OF Some]
      by (simp add: request_lines_def Some)
  qed
qed


lemma request_length:
  assumes "client_ok c" "length body \<le> 55000" "cnul \<notin> set body"
  shows "length (sb_build (request_pieces c ''/v1/chat/completions'' body)) \<le> 65535"
    "cnul \<notin> set (sb_build (request_pieces c ''/v1/chat/completions'' body))"
proof -
  have b: "length body \<le> 65535" using assms(2) by simp
  have p: "length (fmt_d (port c)) \<le> 11" "length (fmt_d (int (length body))) \<le> 11"
    using assms(1,2) by (auto simp: client_ok_def INT_MIN_def INT_MAX_def intro!: fmt_d_length)
  show "length (sb_build (request_pieces c ''/v1/chat/completions'' body)) \<le> 65535"
    unfolding request_text(1) [OF assms(1) b assms(3)]
    using p assms(1,2) by (cases "api_key c") (simp_all add: request_lines_def client_ok_def)
  show "cnul \<notin> set (sb_build (request_pieces c ''/v1/chat/completions'' body))"
    using request_text(2) [OF assms(1) b assms(3)] by (auto simp: sb_build_concat)
qed

lemma handle_post:
  assumes "client_ok c" "length body \<le> 55000" "cnul \<notin> set body"
  shows "handle_client D F (Some (sb_build (request_pieces c ''/v1/chat/completions'' body)))
    = send_http_response 200 ''OK'' ''application/json'' (handle_chat_completions D F body)"
proof -
  let ?r = "sb_build (request_pieces c ''/v1/chat/completions'' body)"
  have b: "length body \<le> 65535" using assms(2) by simp
  note t = request_text(1) [OF assms(1) b assms(3)]
  have buf: "c_string (take 65535 ?r) = ?r"
    using request_length [OF assms] by (simp add: c_string_id)
  have "extract_post_body ?r = Some body"
    using body_start [OF request_lines_ok [OF assms(1)], of "length body" body]
    by (simp add: extract_post_body_def t) (simp add: request_lines_def)
  moreover have "prefixed ?r ''POST /v1/chat/completions''" "\<not> prefixed ?r ''OPTIONS''" "?r \<noteq> []"
    by (simp_all add: t prefixed_def request_lines_def)
  ultimately show ?thesis by (simp add: handle_client_def buf)
qed

section \<open>The server's response at the agent\<close>

text \<open>The exchange is with the server, whatever pieces the response arrives in.\<close>

definition connected :: "'d double_ops \<Rightarrow> 'f float_ops \<Rightarrow> 'w os \<Rightarrow> bool" where
  "connected D F os \<longleftrightarrow>
     (\<forall>h p req w. \<exists>chunks. exchange os h p req w = (Replied chunks, w)
        \<and> concat chunks = handle_client D F (Some req))"

lemma response_body:
  assumes "length s \<le> 2147483647" "cnul \<notin> set s"
    "concat chunks = send_http_response 200 ''OK'' ''application/json'' (Some s)"
  shows "map_option (drop 4) (strstr (sb_build (map c_string chunks)) (crlf @ crlf)) = Some s"
proof -
  let ?ls = "[''HTTP/1.1 200 OK'', ''Content-Type: application/json'', ''Content-Length: '' @ fmt_d (int (length s)),
    ''Access-Control-Allow-Origin: *'', ''Connection: close'']"
  have l: "length (fmt_d (int (length s))) \<le> 11"
    using assms(1) by (intro fmt_d_length) (auto simp: INT_MIN_def INT_MAX_def)
  have f200: "fmt_d 200 = ''200''" by code_simp
  have eq: "concat chunks = concat (map (\<lambda>l. l @ crlf) ?ls) @ crlf @ s"
    unfolding assms(3) send_http_response_def f200
    using l by (subst take_all) simp_all
  have ls: "\<forall>l \<in> set ?ls. header_line l"
    using fmt_d_plain by (auto simp: header_line_def cnul_def)
  have "cnul \<notin> set (concat chunks)"
    unfolding eq using ls assms(2) by (auto simp: header_line_def cnul_def)
  then have c: "\<forall>c \<in> set chunks. cnul \<notin> set c" by auto
  then have "map c_string chunks = chunks" by (intro map_idI) (simp add: c_string_id)
  with c have "sb_build (map c_string chunks) = concat chunks" by simp
  then show ?thesis using body_start [OF ls, of s] eq by simp
qed

lemma http_post_server:
  assumes "connected D F os" "client_ok c" "length body \<le> 55000" "cnul \<notin> set body"
    "handle_chat_completions D F body = Some s" "length s \<le> 2147483647" "cnul \<notin> set s"
  shows "http_post os c ''/v1/chat/completions'' body w = (Some s, [], w)"
proof -
  from assms(1) obtain chunks where ch:
    "exchange os (host c) (word_of_int (port c)) (sb_build (request_pieces c ''/v1/chat/completions'' body)) w = (Replied chunks, w)"
    "concat chunks = handle_client D F (Some (sb_build (request_pieces c ''/v1/chat/completions'' body)))"
    unfolding connected_def by blast
  have "concat chunks = send_http_response 200 ''OK'' ''application/json'' (Some s)"
    unfolding ch(2) handle_post [OF assms(2-4)] assms(5) ..
  from response_body [OF assms(6,7) this] ch(1) show ?thesis by (simp add: http_post_def Let_def)
qed


section \<open>The accept loop\<close>

definition accepts :: "event list \<Rightarrow> string option list" where
  "accepts es = concat (map (\<lambda>e. case e of Accepted r \<Rightarrow> [r] | _ \<Rightarrow> []) es)"

lemma serve_running:
  "Signal \<notin> set es \<Longrightarrow>
     serve D F True (es @ rest) =
       (map (handle_client D F) (accepts es) @ fst (serve D F True rest), snd (serve D F True rest))"
  by (induction es) (auto simp: accepts_def Let_def split: event.split prod.split)

lemma serve_stopping:
  "\<exists>e \<in> set es. e \<noteq> Signal \<Longrightarrow>
     snd (serve D F False es) = Some 0 \<and> length (fst (serve D F False es)) \<le> 1"
proof (induction es)
  case (Cons e es)
  then show ?case by (cases e) (auto simp: accepts_def Let_def)
qed simp

text \<open>C34: while no signal has come the server answers every client it accepted, in order, and
  goes on through interrupted and failed calls of \<open>accept\<close>; once a signal has come it ends
  with status 0 at the next result of \<open>accept\<close>, having answered at most one more client.\<close>

theorem server_loop:
  assumes "Signal \<notin> set es"
  shows "serve D F True es = (map (handle_client D F) (accepts es), None)
    \<and> ((\<exists>e \<in> set later. e \<noteq> Signal) \<longrightarrow>
         snd (serve D F True (es @ Signal # later)) = Some 0
         \<and> length (fst (serve D F True (es @ Signal # later))) \<le> length (accepts es) + 1)"
  using serve_running [OF assms, of D F "[]"] serve_running [OF assms, of D F "Signal # later"]
    serve_stopping [of later D F]
  by auto

end
