(* ===== verification/AgentSystem.thy ===== *)
theory AgentSystem imports LlmServerProps begin

text \<open>
  The agent connected to the test server: the command the server chooses for a prompt is
  the one the agent runs, and the run ends after its result is reported.
\<close>

section \<open>The request\<close>

lemma c_string_empty [simp]: "c_string [] = []"
  by (simp add: c_string_def)

lemma c_string_Cons: "c_string (c # s) = (if c = CHR 0x00 then [] else c # c_string s)"
  by (simp add: c_string_def cnul_def)


lemma tools_json_facts:
  "json_ok D 999 tools_json" "text_bound (tools_json :: 'd cJSON) \<le> 8000"
  by (simp_all add: tools_json_def tool_json_def string_props_def Let_def cJSON_AddStringToObject_def c_string_Cons cnul_def)

lemma request_json_eq:
  "request_json (msgs :: 'd cJSON) m = cJSON_Object
     [(''model'', cJSON_String (c_string m)), (''messages'', msgs), (''tools'', tools_json)]"
  by (simp add: request_json_def Let_def cJSON_AddStringToObject_def c_string_Cons)


section \<open>What the server does with it\<close>

text \<open>The command the rules and the classifier choose for a text.\<close>

definition command_choice :: "'f float_ops \<Rightarrow> string \<Rightarrow> string option" where
  "command_choice F user_text =
     (case direct_command user_text of
        Some cmd \<Rightarrow> Some cmd
      | None \<Rightarrow>
          (case best_template F (extract_features F user_text) (init_command_templates F) of
             (best_score, Some t) \<Rightarrow> if f_less F (tenths F 3) best_score then Some (command t) else None
           | (_, None) \<Rightarrow> None))"

lemma last_child: "get_array_item (Some (cJSON_Array (ms @ [m]))) (cJSON_GetArraySize (Some (cJSON_Array (ms @ [m]))) - 1) = Some m"
proof -
  have "nth_child (cs @ [(k, v)]) (length cs) = Some v" for cs and k :: "string option" and v :: "'a cJSON"
    by (induction cs) auto
  from this [of "map (Pair None) ms"] show ?thesis by (simp add: get_array_item_def cJSON_GetArraySize_def)
qed

lemma generate_tool_calls_eq:
  assumes "str_of (cJSON_GetObjectItem (Some m) ''content'') = Some user_text"
  shows "generate_tool_calls F (Some (cJSON_Array (ms @ [m]))) = map_option bash_call (command_choice F user_text)"
  unfolding generate_tool_calls_def Let_def last_child assms
  by (auto simp: command_choice_def cJSON_IsArray_def cJSON_GetArraySize_def split: option.split prod.split)

lemma is_tool_result_eq:
  "is_tool_result (Some (cJSON_Array (ms @ [m]))) \<longleftrightarrow> str_of (cJSON_GetObjectItem (Some m) ''role'') = Some ''tool''"
  unfolding is_tool_result_def Let_def last_child
  by (simp add: cJSON_IsArray_def cJSON_GetArraySize_def)

lemma role_message_simps:
  "cJSON_GetObjectItem (Some (role_message role content)) ''role'' = Some (cJSON_String (c_string role))"
  "cJSON_GetObjectItem (Some (role_message role content)) ''content'' = Some (cJSON_String (c_string content))"
  by (simp_all add: role_message_def cJSON_AddStringToObject_def c_string_Cons lookup_eval)

lemma tool_message_simps:
  "cJSON_GetObjectItem (Some (tool_message ident result)) ''role'' = Some (cJSON_String ''tool'')"
  by (simp add: tool_message_def cJSON_AddStringToObject_def Let_def c_string_Cons lookup_eval split: option.split)

lemma str_of_String [simp]: "str_of (Some (cJSON_String s)) = Some s"
  by (simp add: str_of_def cJSON_IsString_def)

lemma message_shapes:
  "json_ok D 998 (role_message role content)"
  "json_ok D 998 (tool_message ident result)"
  "json_ok D 998 (call_message (bash_call cmd))"
  by (simp_all add: role_message_def tool_message_def call_message_def bash_call_json cJSON_AddStringToObject_def
      c_string_Cons cnul_def c_string_no_nul [unfolded cnul_def] Let_def split: option.split)

lemma c_string_length: "length (c_string s) \<le> length s"
  by (simp add: c_string_def length_takeWhile_le)

lemma message_bounds:
  "text_bound (role_message role content :: 'd cJSON) \<le> 6 * length role + 6 * length content + 100"
  "text_bound (tool_message (Some (cJSON_String ident)) result :: 'd cJSON) \<le> 6 * length ident + 6 * length result + 250"
  "text_bound (call_message (bash_call cmd) :: 'd cJSON) \<le> 6 * length cmd + 1000"
  using c_string_length [of role] c_string_length [of content] c_string_length [of ident] c_string_length [of result]
    c_string_length [of "take 2047 (''{'' @ quote @ ''command'' @ quote @ '':'' @ quote @ cmd @ quote @ ''}'')"]
  by (simp_all add: role_message_def tool_message_def call_message_def bash_call_json cJSON_AddStringToObject_def
      c_string_Cons Let_def)

section \<open>A step of the connected agent\<close>

definition small :: "HttpClient \<Rightarrow> 'd cJSON list \<Rightarrow> bool" where
  "small c ms \<longleftrightarrow> sum_list (map (\<lambda>m. text_bound m + 1) ms) \<le> 40000 \<and> length (model c) \<le> 500"

lemma sent_request:
  assumes "list_all (json_ok D 998) ms" "small c ms"
  obtains body where "build_request D (cJSON_Array ms) (model c) = Some body" "length body \<le> 55000" "cnul \<notin> set body"
    "cJSON_Parse D body = Some (request_json (cJSON_Array ms) (model c))"
proof -
  let ?r = "request_json (cJSON_Array ms) (model c)"
  have ok: "json_ok D CJSON_NESTING_LIMIT ?r"
    using assms(1) tools_json_facts(1) [of D]
    by (simp add: request_json_eq CJSON_NESTING_LIMIT_def cnul_def c_string_no_nul [unfolded cnul_def])
  obtain body where b: "cJSON_PrintUnformatted D ?r = Some body" using json.enc_total [OF ok] by blast
  then have p: "print_value D False 0 ?r = Some body" by (simp add: cJSON_PrintUnformatted_def print_json_def)
  have "text_bound ?r \<le> 55000"
    using assms(2) tools_json_facts(2) [where 'd = 'a] c_string_length [of "model c"]
    by (simp add: request_json_eq small_def)
  then have "length body \<le> 55000" using print_length(1) [OF _ p] by simp
  then show ?thesis
    using that b print_nul(1) [OF ok p] json.dec_enc [OF ok b] by (simp add: build_request_def)
qed

lemma chat_completion_sent:
  assumes "int_laws D" "length (model c) \<le> 500"
    "tc = None \<and> content = Some text_out \<and> length text_out \<le> 100 \<or> tc = Some (bash_call cmd) \<and> length cmd \<le> 1000"
  obtains s where "build_chat_response D content tc (Some (c_string (model c))) = Some s" "cnul \<notin> set s"
    "length s \<le> 2147483647" "cJSON_Parse D s = Some (chat_response_json D content tc (Some (c_string (model c))))"
proof -
  let ?v = "chat_response_json D content tc (Some (c_string (model c)))"
  have ok: "json_ok D CJSON_NESTING_LIMIT ?v"
    using assms(3) chat_json_ok [OF assms(1)] by auto
  from build_chat_response_sends [OF ok] obtain s where
    s: "build_chat_response D content tc (Some (c_string (model c))) = Some s" "cnul \<notin> set s" "cJSON_Parse D s = Some ?v" .
  have "text_bound ?v \<le> 30000"
    using assms(2,3) c_string_length [of "c_string (model c)"] c_string_length [of "model c"] c_string_length [of text_out]
      c_string_length [of "take 2047 (''{'' @ quote @ ''command'' @ quote @ '':'' @ quote @ cmd @ quote @ ''}'')"]
    by (elim disjE conjE) (simp_all add: chat_json_text chat_json_call bash_call_json)
  moreover have "print_value D False 0 ?v = Some s"
    using s(1) by (simp add: build_chat_response_def cJSON_PrintUnformatted_def print_json_def)
  ultimately have "length s \<le> 30000" using print_length(1) by fastforce
  then show ?thesis using that s by simp
qed

text \<open>What the server answers to a conversation that ends with a user's text, and to one that
  ends with the result of a tool.\<close>

lemma server_on_text:
  assumes "cJSON_Parse D body = Some (request_json (cJSON_Array (ms @ [role_message ''user'' user_text])) m)"
  shows "handle_chat_completions D F body =
    (case command_choice F (c_string user_text) of
       None \<Rightarrow> build_chat_response D (Some ''I understand. How can I help you?'') None (Some (c_string m))
     | Some cmd \<Rightarrow> build_chat_response D None (Some (bash_call cmd)) (Some (c_string m)))"
proof -
  let ?ms = "cJSON_Array (ms @ [role_message ''user'' user_text])"
  have l: "cJSON_GetObjectItem (Some (request_json ?ms m)) ''messages'' = Some ?ms"
    "cJSON_GetObjectItem (Some (request_json ?ms m)) ''model'' = Some (cJSON_String (c_string m))"
    by (simp_all add: request_json_eq lookup_eval)
  have "\<not> is_tool_result (Some ?ms)"
    unfolding is_tool_result_eq role_message_simps by (simp add: c_string_Cons)
  moreover have "generate_tool_calls F (Some ?ms) = map_option bash_call (command_choice F (c_string user_text))"
    by (rule generate_tool_calls_eq) (simp add: role_message_simps)
  ultimately show ?thesis
    using assms l by (simp add: handle_chat_completions_def Let_def split: option.split)
qed

lemma server_on_result:
  assumes "cJSON_Parse D body = Some (request_json (cJSON_Array (ms @ [tool_message ident result])) m)"
  shows "handle_chat_completions D F body =
    build_chat_response D (Some ''Task completed successfully.'') None (Some (c_string m))"
proof -
  let ?ms = "cJSON_Array (ms @ [tool_message ident result])"
  have l: "cJSON_GetObjectItem (Some (request_json ?ms m)) ''messages'' = Some ?ms"
    "cJSON_GetObjectItem (Some (request_json ?ms m)) ''model'' = Some (cJSON_String (c_string m))"
    by (simp_all add: request_json_eq lookup_eval)
  have "is_tool_result (Some ?ms)"
    unfolding is_tool_result_eq tool_message_simps by simp
  then show ?thesis
    using assms l by (simp add: handle_chat_completions_def Let_def)
qed

lemma agent_step_connected:
  assumes "connected D F os" "client_ok c" "messages st = cJSON_Array ms"
    "list_all (json_ok D 998) ms" "small c ms"
    and reply: "\<And>body. cJSON_Parse D body = Some (request_json (cJSON_Array ms) (model c)) \<Longrightarrow>
      handle_chat_completions D F body = Some s"
    and "length s \<le> 2147483647" "cnul \<notin> set s"
  shows "\<exists>st'. agent_step D os c dir n st = handle_response D os dir (Some s) st'
    \<and> messages st' = cJSON_Array ms \<and> world st' = world st"
proof -
  from sent_request [OF assms(4,5)] obtain body where
    b: "build_request D (cJSON_Array ms) (model c) = Some body" "length body \<le> 55000" "cnul \<notin> set body"
      "cJSON_Parse D body = Some (request_json (cJSON_Array ms) (model c))" .
  have p: "http_post os c ''/v1/chat/completions'' body w = (Some s, [], w)" for w
    by (rule http_post_server [OF assms(1,2) b(2,3) reply [OF b(4)] assms(7,8)])
  show ?thesis
    using assms(3) b(1) p by (auto simp: agent_step_def Let_def)
qed

section \<open>The commands\<close>

definition plain :: "string \<Rightarrow> bool" where
  "plain s \<longleftrightarrow> list_all (\<lambda>c. 31 < ascii c \<and> c \<noteq> CHR 0x22 \<and> c \<noteq> CHR 0x5C) s"

lemma plain_escape: "plain s \<Longrightarrow> concat (map escape_char s) = s"
  by (induction s) (simp_all add: plain_def escape_char_def)

lemma plain_no_nul: "plain s \<Longrightarrow> cnul \<notin> set s"
proof -
  have "\<not> 31 < ascii cnul" by (simp add: cnul_def ascii_def)
  then show "plain s \<Longrightarrow> cnul \<notin> set s" by (auto simp: plain_def list_all_iff)
qed

lemma templates_plain: "\<forall>t \<in> set (init_command_templates F). plain (command t) \<and> length (command t) \<le> 1000"
  by (simp add: init_command_templates_def plain_def ascii_def)

lemma best_template_member:
  "snd (best_template F fs ts) = Some t \<Longrightarrow> t \<in> set ts"
proof -
  let ?step = "\<lambda>(best_score, best) t. let score = compute_similarity F fs (weights t)
     in if f_less F best_score score then (score, Some t) else (best_score, best)"
  have "snd (foldl ?step acc ts) = Some t \<Longrightarrow> t \<in> set ts \<or> snd acc = Some t" for acc
  proof (induction ts arbitrary: acc)
    case (Cons u ts)
    have "snd (?step acc u) = Some u \<or> snd (?step acc u) = snd acc"
      by (cases acc) (simp add: Let_def)
    then show ?case using Cons.IH [of "?step acc u"] Cons.prems by auto
  qed simp
  from this [of "(tenths F (- 10), None)"] show "snd (best_template F fs ts) = Some t \<Longrightarrow> t \<in> set ts"
    by (simp add: best_template_def)
qed

text \<open>Every command is the JSON escape of a shell command.\<close>

lemma direct_command_escaped:
  assumes "direct_command user_text = Some cmd"
  shows "\<exists>d. cmd = concat (map escape_char d) \<and> length cmd \<le> 1000 \<and> cnul \<notin> set d"
proof -
  have n: "backslash_n = concat (map escape_char nl)" by (simp add: escape_char_def ascii_def)
  have p: "s = concat (map escape_char s)" if "plain s" for s using plain_escape [OF that] by simp
  consider "cmd = ''printf '' @ apos @ ''Hello OS'' @ backslash_n @ apos @ '' > test_file.txt''"
    | "cmd = ''printf '' @ apos @ ''1'' @ backslash_n @ ''2'' @ backslash_n @ ''3'' @ backslash_n @ ''4'' @ backslash_n
              @ ''5'' @ backslash_n @ apos @ '' > test_input.txt && awk '' @ apos
              @ ''{sum += $1} END {print sum}'' @ apos @ '' test_input.txt''"
    | "plain cmd" "length cmd \<le> 1000"
    using assms by (auto simp: direct_command_def plain_def ascii_def split: if_splits)
  then show ?thesis
  proof cases
    case 1
    then have "cmd = concat (map escape_char (''printf '' @ apos @ ''Hello OS'' @ nl @ apos @ '' > test_file.txt''))"
      by (simp add: escape_char_def ascii_def)
    moreover have "length cmd \<le> 1000" using 1 by simp
    moreover have "cnul \<notin> set (''printf '' @ apos @ ''Hello OS'' @ nl @ apos @ '' > test_file.txt'')" by (simp add: cnul_def)
    ultimately show ?thesis by blast
  next
    case 2
    then have "cmd = concat (map escape_char (''printf '' @ apos @ ''1'' @ nl @ ''2'' @ nl @ ''3'' @ nl @ ''4'' @ nl
              @ ''5'' @ nl @ apos @ '' > test_input.txt && awk '' @ apos
              @ ''{sum += $1} END {print sum}'' @ apos @ '' test_input.txt''))"
      by (simp add: escape_char_def ascii_def)
    moreover have "length cmd \<le> 1000" using 2 by simp
    moreover have "cnul \<notin> set (''printf '' @ apos @ ''1'' @ nl @ ''2'' @ nl @ ''3'' @ nl @ ''4'' @ nl
              @ ''5'' @ nl @ apos @ '' > test_input.txt && awk '' @ apos
              @ ''{sum += $1} END {print sum}'' @ apos @ '' test_input.txt'')" by (simp add: cnul_def)
    ultimately show ?thesis by blast
  next
    case 3
    then show ?thesis using p plain_no_nul by blast
  qed
qed

lemma command_choice_escaped:
  assumes "command_choice F user_text = Some cmd"
  obtains d where "cmd = concat (map escape_char d)" "length cmd \<le> 1000" "cnul \<notin> set d" "unescape cmd = Some d"
proof -
  have "\<exists>d. cmd = concat (map escape_char d) \<and> length cmd \<le> 1000 \<and> cnul \<notin> set d"
  proof (cases "direct_command user_text")
    case (Some c)
    then show ?thesis using assms direct_command_escaped by (simp add: command_choice_def)
  next
    case None
    then obtain t where t: "snd (best_template F (extract_features F user_text) (init_command_templates F)) = Some t"
      "cmd = command t"
      using assms by (auto simp: command_choice_def split: prod.splits option.splits if_splits)
    from best_template_member [OF t(1)] templates_plain [of F] t(2) show ?thesis
      using plain_escape plain_no_nul by metis
  qed
  then show ?thesis using that unescape_escaped by blast
qed

section \<open>Running the call\<close>

definition command_args :: "string \<Rightarrow> 'd cJSON" where
  "command_args d = cJSON_Object [(''command'', cJSON_String d)]"

lemma call_arguments:
  assumes "cmd = concat (map escape_char d)" "length cmd \<le> 1000" "cnul \<notin> set d"
  shows "cJSON_Parse D (c_string (take 2047 (''{'' @ quote @ ''command'' @ quote @ '':'' @ quote @ cmd @ quote @ ''}'')))
    = Some (command_args d)"
proof -
  have p: "print_json D (command_args d) False = Some (''{'' @ quote @ ''command'' @ quote @ '':'' @ quote @ cmd @ quote @ ''}'')"
    using assms(1) plain_escape [of "''command''"]
    by (simp add: print_json_def command_args_def print_string_eq plain_def ascii_def)
  have ok: "json_ok D CJSON_NESTING_LIMIT (command_args d)"
    using assms(3) by (simp add: command_args_def CJSON_NESTING_LIMIT_def cnul_def)
  have "cnul \<notin> set cmd" using escape_char_nul assms(1) by auto
  then have "c_string (take 2047 (''{'' @ quote @ ''command'' @ quote @ '':'' @ quote @ cmd @ quote @ ''}''))
      = ''{'' @ quote @ ''command'' @ quote @ '':'' @ quote @ cmd @ quote @ ''}''"
    using assms(2) by (subst c_string_id) (auto simp: cnul_def dest: in_set_takeD)
  then show ?thesis using print_parse [OF ok p] by simp
qed


definition bash_call_item :: "string \<Rightarrow> 'd cJSON" where
  "bash_call_item cmd = hd (map snd (children (bash_call cmd)))"

lemma bash_call_array: "bash_call cmd = cJSON_Array [bash_call_item cmd]"
  by (simp add: bash_call_item_def bash_call_json)

lemma bash_call_item_lookup:
  "cJSON_GetObjectItem (Some (bash_call_item cmd)) ''id'' = Some (cJSON_String ''call_bash'')"
  "cJSON_GetObjectItem (Some (bash_call_item cmd)) ''function'' = Some (cJSON_Object [(''name'', cJSON_String ''bash''),
        (''arguments'', cJSON_String (c_string (take 2047
          (''{'' @ quote @ ''command'' @ quote @ '':'' @ quote @ cmd @ quote @ ''}''))))])"
  by (simp_all add: bash_call_item_def bash_call_json lookup_eval)

lemma run_bash_call:
  fixes D :: "'d double_ops"
  assumes "cmd = concat (map escape_char d)" "length cmd \<le> 1000" "cnul \<notin> set d"
    and "tool_bash os d (world st) = (r, w)" "messages st = cJSON_Array h"
  shows "\<exists>st'. tool_step D os dir (Some (bash_call_item cmd)) st = st' \<and> world st' = w
    \<and> messages st' = cJSON_Array (h @ [tool_message (Some (cJSON_String ''call_bash'')) (tool_output r)])"
proof -
  let ?func = "cJSON_Object [(''name'', cJSON_String ''bash''),
        (''arguments'', cJSON_String (c_string (take 2047
          (''{'' @ quote @ ''command'' @ quote @ '':'' @ quote @ cmd @ quote @ ''}''))))]"
  have n: "str_of (cJSON_GetObjectItem (Some ?func) ''name'') = Some ''bash''"
    and a: "str_of (cJSON_GetObjectItem (Some ?func) ''arguments'') = Some (c_string (take 2047
          (''{'' @ quote @ ''command'' @ quote @ '':'' @ quote @ cmd @ quote @ ''}'')))"
    by (simp_all add: lookup_eval)
  have "cJSON_GetObjectItem (Some (command_args d :: 'd cJSON)) ''command'' = Some (cJSON_String d)"
    by (simp add: command_args_def lookup_eval)
  then have "execute_tool os dir ''bash'' (Option.bind (str_of (cJSON_GetObjectItem (Some ?func) ''arguments'')) (cJSON_Parse D))
      (world st) = (r, w)"
    unfolding a using call_arguments [OF assms(1-3), of D] assms(4) by (simp add: execute_tool_def)
  from tool_step_some [OF bash_call_item_lookup(2) n this] show ?thesis
    using assms(5) by (simp add: bash_call_item_lookup push_def say_def)
qed

lemma sb_build_length: "length (sb_build (map c_string (fgets_chunks s))) \<le> length s"
proof -
  have c: "concat (fgets_chunks s) = s" for s
  proof (induction s rule: fgets_chunks.induct)
    case (1 s)
    have j: "fst (fgets_chunk n t) @ snd (fgets_chunk n t) = t" for n t
      by (induction n t rule: fgets_chunk.induct) (auto split: prod.split)
    show ?case
    proof (cases "s = []")
      case True
      then show ?thesis by (simp add: fgets_chunks.simps)
    next
      case False
      obtain l r where lr: "fgets_chunk 1023 s = (l, r)" by fastforce
      then have "concat (fgets_chunks r) = r" using 1 [OF False lr [symmetric] refl] by simp
      then show ?thesis using False lr j [of 1023 s] by (subst fgets_chunks.simps) simp
    qed
  qed
  have "length (concat (map c_string ss)) \<le> length (concat ss)" for ss
    by (induction ss) (auto intro: add_mono c_string_length)
  from this [of "fgets_chunks s"] show ?thesis by (simp add: c)
qed

lemma final_response:
  fixes D :: "'d double_ops"
  assumes "cJSON_Parse D s = Some (chat_response_json D (Some text_out) None m)" "messages st = cJSON_Array h"
  shows "\<exists>st'. handle_response D os dir (Some s) st = Inl (st', Return 0) \<and> world st' = world st
    \<and> messages st' = cJSON_Array (h @ [role_message ''assistant'' text_out])"
proof -
  let ?m = "role_message ''assistant'' text_out :: 'd cJSON"
  have calls: "calls (Some ?m) = []"
    by (simp add: calls_def role_message_def cJSON_AddStringToObject_def c_string_Cons lookup_eval)
  show ?thesis
    using response_message_text [OF assms(1)] calls assms(2)
    by (simp add: handle_response_eq role_message_simps final_answer_def push_def say_content_def say_def Let_def)
qed

lemma call_response:
  fixes D :: "'d double_ops"
  assumes "cJSON_Parse D s = Some (chat_response_json D content (Some (bash_call cmd)) m)" "messages st = cJSON_Array h"
    and "cmd = concat (map escape_char d)" "length cmd \<le> 1000" "cnul \<notin> set d"
    and "tool_bash os d (world st) = (r, w)"
  shows "\<exists>st'. handle_response D os dir (Some s) st = Inr st' \<and> world st' = w
    \<and> messages st' = cJSON_Array (h @ [call_message (bash_call cmd), tool_message (Some (cJSON_String ''call_bash'')) (tool_output r)])"
proof -
  let ?m = "call_message (bash_call cmd) :: 'd cJSON"
  have l: "calls (Some ?m) = [bash_call_item cmd]" "cJSON_GetObjectItem (Some ?m) ''content'' = Some (cJSON_String [])"
    by (simp_all add: calls_def call_message_def lookup_eval bash_call_array)
  let ?st = "say_content (Some (cJSON_String [])) (push (Some ?m) st)"
  have "messages ?st = cJSON_Array (h @ [?m])" "world ?st = world st"
    using assms(2) by (simp_all add: push_def)
  with run_bash_call [OF assms(3-5), of os ?st r w "h @ [?m]" D dir] assms(6)
  show ?thesis using response_message_call [OF assms(1)] l by (simp add: handle_response_eq Let_def)
qed

section \<open>The run\<close>

abbreviation first_messages :: "string \<Rightarrow> 'd cJSON list" where
  "first_messages user_prompt \<equiv>
     [role_message ''system'' system_prompt, role_message ''user'' user_prompt]"

lemma first_small:
  fixes D :: "'d double_ops"
  assumes "length (model c) \<le> 500" "length user_prompt \<le> 3000"
  shows "list_all (json_ok D 998) (first_messages user_prompt)" "small c (first_messages user_prompt :: 'd cJSON list)"
proof -
  have "length system_prompt \<le> 200" by (simp add: system_prompt_def)
  then show "small c (first_messages user_prompt :: 'd cJSON list)"
    using assms message_bounds(1) [where 'd = 'd, of "''system''" system_prompt]
      message_bounds(1) [where 'd = 'd, of "''user''" user_prompt]
    by (simp add: small_def)
qed (simp add: message_shapes)

lemma call_small:
  assumes "length (model c) \<le> 500" "length user_prompt \<le> 3000" "length cmd \<le> 1000" "length result \<le> 2000"
  shows "small c (first_messages user_prompt
     @ [call_message (bash_call cmd), tool_message (Some (cJSON_String ''call_bash'')) result :: 'd cJSON])"
proof -
  have "length system_prompt \<le> 200" by (simp add: system_prompt_def)
  then show ?thesis
    using assms message_bounds(1) [where 'd = 'd, of "''system''" system_prompt]
      message_bounds(1) [where 'd = 'd, of "''user''" user_prompt]
      message_bounds(2) [where 'd = 'd, of "''call_bash''" result] message_bounds(3) [where 'd = 'd, of cmd]
    by (simp add: small_def)
qed

lemma agent_run_loop:
  "\<exists>st'. agent_run D os c dir user_prompt st = agent_loop D os c dir 50 st'
     \<and> messages st' = cJSON_Array (first_messages user_prompt) \<and> world st' = world st"
  by (rule exI [of _ "st\<lparr>messages := cJSON_Array (first_messages user_prompt)\<rparr>"])
    (simp add: agent_run_def Let_def push_def MAX_STEPS_def)

lemma loop_Suc: "agent_loop D os c dir 50 st =
    (case agent_step D os c dir 1 st of Inl r \<Rightarrow> r | Inr st \<Rightarrow> agent_loop D os c dir 49 st)"
  "agent_loop D os c dir 49 st =
    (case agent_step D os c dir 2 st of Inl r \<Rightarrow> r | Inr st \<Rightarrow> agent_loop D os c dir 48 st)"
  using agent_loop.simps(2) [of D os c dir 49 st] agent_loop.simps(2) [of D os c dir 48 st]
  by (simp_all add: MAX_STEPS_def)

text \<open>The first exchange of a run, whatever the server answers; and the second, after the result
  of a tool.\<close>

lemma first_exchange:
  fixes D :: "'d double_ops"
  assumes "connected D F os" "client_ok c" "length (model c) \<le> 500" "length user_prompt \<le> 3000" "cnul \<notin> set user_prompt"
    and "(case command_choice F user_prompt of
       None \<Rightarrow> build_chat_response D (Some ''I understand. How can I help you?'') None (Some (c_string (model c)))
     | Some cmd \<Rightarrow> build_chat_response D None (Some (bash_call cmd)) (Some (c_string (model c)))) = Some s"
    and "length s \<le> 2147483647" "cnul \<notin> set s"
  obtains st1 where "messages st1 = cJSON_Array (first_messages user_prompt)" "world st1 = world st"
    "agent_run D os c dir user_prompt st =
       (case handle_response D os dir (Some s) st1 of Inl r \<Rightarrow> r | Inr st \<Rightarrow> agent_loop D os c dir 49 st)"
proof -
  obtain st0 where st0: "agent_run D os c dir user_prompt st = agent_loop D os c dir 50 st0"
    "messages st0 = cJSON_Array (first_messages user_prompt)" "world st0 = world st"
    using agent_run_loop by blast
  note first = first_small(1) [OF assms(3,4), where D = D] first_small(2) [OF assms(3,4), where 'd = 'd]
  have "handle_chat_completions D F body = Some s"
    if "cJSON_Parse D body = Some (request_json (cJSON_Array (first_messages user_prompt)) (model c))" for body
    using server_on_text [of D body "[role_message ''system'' system_prompt]" user_prompt "model c" F] that
      assms(5,6) by (simp add: c_string_id)
  from agent_step_connected [OF assms(1,2) st0(2) first this assms(7,8), of dir 1] obtain st1 where
    "agent_step D os c dir 1 st0 = handle_response D os dir (Some s) st1"
    "messages st1 = cJSON_Array (first_messages user_prompt)" "world st1 = world st" using st0(3) by auto
  then show ?thesis using that unfolding st0(1) loop_Suc(1) by simp
qed

lemma second_exchange:
  fixes D :: "'d double_ops"
  assumes "connected D F os" "client_ok c" "int_laws D" "length (model c) \<le> 500"
    and "list_all (json_ok D 998) (ms @ [tool_message ident result])" "small c (ms @ [tool_message ident result :: 'd cJSON])"
    and "messages st = cJSON_Array (ms @ [tool_message ident result])"
  shows "\<exists>st'. agent_loop D os c dir 49 st = (st', Return 0) \<and> world st' = world st
    \<and> messages st' = cJSON_Array (ms @ [tool_message ident result, role_message ''assistant'' ''Task completed successfully.''])"
proof -
  obtain s where s: "build_chat_response D (Some ''Task completed successfully.'') None (Some (c_string (model c))) = Some s"
      "cnul \<notin> set s" "length s \<le> 2147483647"
      "cJSON_Parse D s = Some (chat_response_json D (Some ''Task completed successfully.'') None (Some (c_string (model c))))"
    using chat_completion_sent [OF assms(3,4), of None "Some ''Task completed successfully.''" "''Task completed successfully.''"]
    by auto
  have "handle_chat_completions D F body = Some s"
    if "cJSON_Parse D body = Some (request_json (cJSON_Array (ms @ [tool_message ident result])) (model c))" for body
    using server_on_result [OF that, of F] s(1) by simp
  from agent_step_connected [OF assms(1,2,7,5,6) this s(3,2), of dir 2] obtain st1 where
    st1: "agent_step D os c dir 2 st = handle_response D os dir (Some s) st1"
    "messages st1 = cJSON_Array (ms @ [tool_message ident result])" "world st1 = world st" by blast
  from final_response [OF s(4) st1(2), of os dir] st1(3) show ?thesis
    unfolding loop_Suc(2) st1(1) by auto
qed

text \<open>C2: the agent and the server together.  When the server's rules or its classifier choose
  a command for the prompt, the agent runs exactly the command that the server's literal
  denotes, once, sends back its output, and ends with 0 after the second exchange; the
  conversation is the one the server's answers determine.\<close>

theorem agent_runs_chosen_command:
  fixes D :: "'d double_ops"
  assumes D: "int_laws D" and os: "connected D F os" and c: "client_ok c" "length (model c) \<le> 500"
    and prompt: "cnul \<notin> set user_prompt" "length user_prompt \<le> 3000"
    and choice: "command_choice F user_prompt = Some cmd"
    and run: "popen os (the (unescape cmd)) (world st) = Some (text_out, status, w')" "length text_out \<le> 2000"
  shows "\<exists>st'. agent_run D os c dir user_prompt st = (st', Return 0) \<and> world st' = w' \<and>
    messages st' = cJSON_Array
      [role_message ''system'' system_prompt, role_message ''user'' user_prompt, call_message (bash_call cmd),
       tool_message (Some (cJSON_String ''call_bash'')) (sb_build (map c_string (fgets_chunks text_out))),
       role_message ''assistant'' ''Task completed successfully.'']"
proof -
  let ?out = "sb_build (map c_string (fgets_chunks text_out))"
  let ?call = "call_message (bash_call cmd) :: 'd cJSON" and ?tool = "tool_message (Some (cJSON_String ''call_bash'')) ?out"
  obtain d where d: "cmd = concat (map escape_char d)" "length cmd \<le> 1000" "cnul \<notin> set d" "unescape cmd = Some d"
    using command_choice_escaped [OF choice] .
  obtain s where s: "build_chat_response D None (Some (bash_call cmd)) (Some (c_string (model c))) = Some s"
      "cnul \<notin> set s" "length s \<le> 2147483647"
      "cJSON_Parse D s = Some (chat_response_json D None (Some (bash_call cmd)) (Some (c_string (model c))))"
    using chat_completion_sent [OF D c(2), of "Some (bash_call cmd)" None "[]" cmd] d(2) by blast
  obtain st1 where st1: "messages st1 = cJSON_Array (first_messages user_prompt)" "world st1 = world st"
    "agent_run D os c dir user_prompt st =
       (case handle_response D os dir (Some s) st1 of Inl r \<Rightarrow> r | Inr st \<Rightarrow> agent_loop D os c dir 49 st)"
    by (rule first_exchange [OF os c prompt(2,1) _ s(3,2)]) (simp_all add: choice s(1))
  have bash: "tool_bash os d (world st1) = (\<lparr>tool_output = ?out, success = (status = 0)\<rparr>, w')"
    using run(1) d(4) st1(2) by (simp add: tool_bash_def)
  from call_response [OF s(4) st1(1) d(1-3) bash] obtain st2 where
    st2: "handle_response D os dir (Some s) st1 = Inr st2" "world st2 = w'"
      "messages st2 = cJSON_Array ((first_messages user_prompt @ [?call]) @ [?tool])" by auto
  have "list_all (json_ok D 998) ((first_messages user_prompt @ [?call]) @ [?tool])"
    by (simp add: message_shapes)
  moreover have "small c ((first_messages user_prompt @ [?call]) @ [?tool])"
    using call_small [OF c(2) prompt(2) d(2) order_trans [OF sb_build_length run(2)], where 'd = 'd] by (simp del: sb_build_concat)
  ultimately show ?thesis
    using second_exchange [OF os c(1) D c(2) _ _ st2(3)] st2(2)
    unfolding st1(3) st2(1) by (simp del: sb_build_concat)
qed


text \<open>When nothing is chosen for the prompt, the run ends after one exchange, runs no
  command and leaves the world as it was.\<close>

theorem agent_runs_nothing:
  fixes D :: "'d double_ops"
  assumes D: "int_laws D" and os: "connected D F os" and c: "client_ok c" "length (model c) \<le> 500"
    and prompt: "cnul \<notin> set user_prompt" "length user_prompt \<le> 3000"
    and choice: "command_choice F user_prompt = None"
  shows "\<exists>st'. agent_run D os c dir user_prompt st = (st', Return 0) \<and> world st' = world st \<and>
    messages st' = cJSON_Array
      [role_message ''system'' system_prompt, role_message ''user'' user_prompt,
       role_message ''assistant'' ''I understand. How can I help you?'']"
proof -
  obtain s where s: "build_chat_response D (Some ''I understand. How can I help you?'') None (Some (c_string (model c))) = Some s"
      "cnul \<notin> set s" "length s \<le> 2147483647"
      "cJSON_Parse D s = Some (chat_response_json D (Some ''I understand. How can I help you?'') None (Some (c_string (model c))))"
    using chat_completion_sent [OF D c(2), of None "Some ''I understand. How can I help you?''" "''I understand. How can I help you?''"]
    by auto
  obtain st1 where st1: "messages st1 = cJSON_Array (first_messages user_prompt)" "world st1 = world st"
    "agent_run D os c dir user_prompt st =
       (case handle_response D os dir (Some s) st1 of Inl r \<Rightarrow> r | Inr st \<Rightarrow> agent_loop D os c dir 49 st)"
    by (rule first_exchange [OF os c prompt(2,1) _ s(3,2)]) (simp_all add: choice s(1))
  from final_response [OF s(4) st1(1), of os dir] st1(2) show ?thesis
    unfolding st1(3) by auto
qed

section \<open>What is chosen\<close>

text \<open>What the classifier relies on of \<open>float\<close> arithmetic: zeros add up to zero, the product
  of zero and one of the weights is zero, and -1 < 0 while not 0 < 0 and not 0.3 < 0.\<close>

definition zero_laws :: "'f float_ops \<Rightarrow> bool" where
  "zero_laws F \<longleftrightarrow> f_add F (tenths F 0) (tenths F 0) = tenths F 0
     \<and> (\<forall>t \<in> {0, 8, 15, 18, 20, 25}. f_mul F (tenths F 0) (tenths F t) = tenths F 0)
     \<and> \<not> f_less F (tenths F 0) (tenths F 0) \<and> \<not> f_less F (tenths F 3) (tenths F 0)
     \<and> f_less F (tenths F (- 10)) (tenths F 0)"

lemma fold_zero:
  assumes "zero_laws F" "\<forall>(a, b) \<in> set ps. f_mul F a b = tenths F 0"
  shows "foldl (\<lambda>score (f, w). f_add F score (f_mul F f w)) (tenths F 0) ps = tenths F 0"
  using assms(2) by (induction ps) (use assms(1) in \<open>auto simp: zero_laws_def\<close>)

lemma no_features:
  assumes "zero_laws F" "\<forall>k \<in> set vocabulary. \<not> strcasestr s k"
  shows "extract_features F s = replicate 32 (tenths F 0)"
proof -
  have "count_features F s = replicate 32 (tenths F 0)"
  proof -
    have "foldl (\<lambda>fs k. if strcasestr s k then g fs k else fs) fs ks = fs"
      if "\<forall>k \<in> set ks. \<not> strcasestr s k" for g and fs :: "'a list" and ks
      using that by (induction ks) auto
    then show ?thesis using assms(2) by (simp add: count_features_def)
  qed
  moreover have "foldl (\<lambda>n f. f_add F n (f_mul F f f)) (tenths F 0) (replicate n (tenths F 0)) = tenths F 0" for n
    using assms(1) by (induction n) (auto simp: zero_laws_def)
  ultimately show ?thesis using assms(1) by (simp add: extract_features_def zero_laws_def)
qed

lemma weights_literals:
  "t \<in> set (init_command_templates F) \<Longrightarrow> set (weights t) \<subseteq> tenths F ` {0, 8, 15, 18, 20, 25}"
proof -
  have m: "set (make_weights F ps) \<subseteq> tenths F ` (insert 0 (snd ` set ps))" for ps
  proof -
    have "set (foldl (\<lambda>l (k, t). l[hash_keyword k := tenths F t]) l ps) \<subseteq> set l \<union> tenths F ` (snd ` set ps)" for l
    proof (induction ps arbitrary: l)
      case (Cons p ps)
      obtain k t where p: "p = (k, t)" by (cases p)
      have "set (l[hash_keyword k := tenths F t]) \<subseteq> insert (tenths F t) (set l)"
        by (rule set_update_subset_insert)
      then show ?case using Cons.IH [of "l[hash_keyword k := tenths F t]"] by (auto simp: p)
    qed simp
    from this [of "replicate 32 (tenths F 0)"] show ?thesis by (auto simp: make_weights_def)
  qed
  assume "t \<in> set (init_command_templates F)"
  then show ?thesis unfolding init_command_templates_def
    by (auto dest!: subsetD [OF m])
qed

lemma best_zero:
  assumes "zero_laws F" "\<forall>t \<in> set ts. compute_similarity F fs (weights t) = tenths F 0" "ts \<noteq> []"
  shows "fst (best_template F fs ts) = tenths F 0"
proof -
  let ?step = "\<lambda>(best_score, best) t. let score = compute_similarity F fs (weights t)
     in if f_less F best_score score then (score, Some t) else (best_score, best)"
  have stay: "fst (foldl ?step (tenths F 0, b) us) = tenths F 0" if "set us \<subseteq> set ts" for us b
    using that assms(1,2) by (induction us arbitrary: b) (auto simp: zero_laws_def Let_def)
  obtain t us where ts: "ts = t # us" using assms(3) by (cases ts) auto
  have "?step (tenths F (- 10), None) t = (tenths F 0, Some t)"
    using assms(1,2) ts by (simp add: zero_laws_def Let_def)
  moreover have "set us \<subseteq> set ts" using ts by auto
  ultimately show ?thesis using stay [of us "Some t"] by (simp add: best_template_def ts)
qed

lemma no_keyword_none:
  assumes "zero_laws F" "\<forall>k \<in> set vocabulary. \<not> strcasestr user_text k"
    and "\<forall>k \<in> {''test_file.txt'', ''test_input.txt'', ''test_dir'', ''.sh files''}. \<not> strcasestr user_text k"
  shows "command_choice F user_text = None"
proof -
  have d: "direct_command user_text = None" using assms(3) by (simp add: direct_command_def)
  let ?fs = "extract_features F user_text"
  have "compute_similarity F ?fs (weights t) = tenths F 0" if "t \<in> set (init_command_templates F)" for t
    unfolding compute_similarity_def no_features [OF assms(1,2)]
  proof (rule fold_zero [OF assms(1)], clarify)
    fix a b assume ab: "(a, b) \<in> set (zip (replicate 32 (tenths F 0)) (weights t))"
    have "a = tenths F 0" using set_zip_leftD [OF ab] by simp
    moreover from set_zip_rightD [OF ab] weights_literals [OF that]
    obtain k where "k \<in> {0, 8, 15, 18, 20, 25}" "b = tenths F k" by blast
    ultimately show "f_mul F a b = tenths F 0" using assms(1) unfolding zero_laws_def by blast
  qed
  then have "fst (best_template F ?fs (init_command_templates F)) = tenths F 0"
    by (intro best_zero [OF assms(1)]) (auto simp: init_command_templates_def)
  then show ?thesis using assms(1) d
    by (auto simp: command_choice_def zero_laws_def split: option.split prod.split)
qed

text \<open>A text that contains none of the rules' names and none of the classifier's
  vocabulary, in any case, never leads to a tool call.\<close>

theorem no_keyword_no_command:
  assumes "zero_laws F" "\<forall>k \<in> set vocabulary. \<not> strcasestr user_text k"
    and "\<forall>k \<in> {''test_file.txt'', ''test_input.txt'', ''test_dir'', ''.sh files''}. \<not> strcasestr user_text k"
  shows "command_choice F user_text = None"
  using assms by (rule no_keyword_none)

section \<open>A concrete system\<close>

text \<open>Whole numbers for tenths, and a system that is the server, has no files, and records the
  commands it is given; every command prints \<open>3\<close>.\<close>

definition whole_floats :: "int float_ops" where
  "whole_floats = \<lparr>tenths = \<lambda>t. t, f_add = (+), f_mul = (*), f_div = (div), f_sqrt = \<lambda>x. x, f_less = (<)\<rparr>"

definition recording_os :: "string list os" where
  "recording_os =
     \<lparr>fopen_r = \<lambda>_ _. None, fopen_w = \<lambda>_ _ w. (False, w), readdir = \<lambda>_ _. None,
      popen = \<lambda>c w. Some (''3'' @ nl, 0, w @ [c]),
      exchange = \<lambda>_ _ req w. (Replied [handle_client integral_doubles whole_floats (Some req)], w)\<rparr>"

lemma whole_floats_zero: "zero_laws whole_floats"
  by (simp add: zero_laws_def whole_floats_def)

lemma recording_connected: "connected integral_doubles whole_floats recording_os"
  by (simp add: connected_def recording_os_def)

lemma local_client_ok: "client_ok local_client" "length (model local_client) \<le> 500"
  by (simp_all add: client_ok_def local_client_def default_options_def INT_MIN_def INT_MAX_def cnul_def)

lemma hello_plain:
  "\<forall>k \<in> set vocabulary. \<not> strcasestr ''Hello!'' k"
  "\<forall>k \<in> {''test_file.txt'', ''test_input.txt'', ''test_dir'', ''.sh files''}. \<not> strcasestr ''Hello!'' k"
  by code_simp+

lemma no_keyword_no_command_witness: "command_choice whole_floats ''Hello!'' = None"
  by (rule no_keyword_no_command [OF whole_floats_zero hello_plain])

lemma agent_runs_nothing_witness:
  "\<exists>st'. agent_run integral_doubles recording_os local_client ''.'' ''Hello!'' (blank []) = (st', Return 0)
     \<and> world st' = []"
proof -
  have "command_choice whole_floats ''Hello!'' = None"
    by (rule no_keyword_none [OF whole_floats_zero hello_plain])
  from agent_runs_nothing [OF integral_doubles_laws recording_connected local_client_ok _ _ this, of "''.''" "blank []"]
  show ?thesis by (auto simp: cnul_def blank_def)
qed

definition mkdir_command :: string where
  "mkdir_command = ''mkdir -p test_dir && touch test_dir/file1 test_dir/file2 test_dir/file3 && ls test_dir | wc -l''"

lemma agent_runs_chosen_command_witness:
  "\<exists>st'. agent_run integral_doubles recording_os local_client ''.'' ''Fill TEST_DIR please'' (blank []) = (st', Return 0)
     \<and> world st' = [mkdir_command]"
proof -
  have "direct_command ''Fill TEST_DIR please'' = Some mkdir_command"
    by code_simp
  then have choice: "command_choice whole_floats ''Fill TEST_DIR please'' = Some mkdir_command"
    by (simp add: command_choice_def)
  have "plain mkdir_command" by (simp add: plain_def mkdir_command_def ascii_def)
  then have "unescape mkdir_command = Some mkdir_command"
    using unescape_escaped [of mkdir_command] plain_escape by simp
  then have "popen recording_os (the (unescape mkdir_command)) (world (blank [])) = Some (''3'' @ nl, 0, [mkdir_command])"
    by (simp add: recording_os_def blank_def)
  from agent_runs_chosen_command [OF integral_doubles_laws recording_connected local_client_ok _ _ choice this, of "''.''"]
  show ?thesis by (auto simp: cnul_def)
qed


lemma server_answers_witness:
  "\<exists>s. handle_chat_completions integral_doubles whole_floats ''[]'' = Some s \<and> cnul \<notin> set s"
  using server_answers [OF integral_doubles_laws, of whole_floats "''[]''"] by blast

lemma server_loop_witness:
  "snd (serve integral_doubles whole_floats True [Accept_interrupted, Signal, Accepted None]) = Some 0"
  using server_loop [of "[Accept_interrupted]" integral_doubles whole_floats "[Accepted None]"] by simp

end
