(* ===== verification/Factor.thy ===== *)
theory Factor imports Libbb CLib "HOL-Library.Multiset" begin

text \<open>
  \<open>coreutils/factor.c\<close> and \<open>libbb/isqrt.c\<close>: trial division with a wheel that skips the
  multiples of 2, 3, 5, 7 and 11, on 64-bit numbers with 32-bit divisors.

  What \<open>printf\<close> and \<open>bb_putchar\<close> write is the result; the global
  \<open>square_count\<close> is passed on.  A loop that would not end has no result.
\<close>

section \<open>The integer square root\<close>

fun isqrt_loop :: "u64 \<Rightarrow> nat \<Rightarrow> u64 \<Rightarrow> u64" where
  "isqrt_loop N shift x =
     (let x = push_bit 1 x + 1;
          x = (if x * x > drop_bit shift N then x - 1 else x)
      in if shift < 2 then x else isqrt_loop N (shift - 2) x)"

declare isqrt_loop.simps [simp del]

definition isqrt :: "u64 \<Rightarrow> u64" where
  "isqrt N = isqrt_loop N (64 - 2) 0"

section \<open>The wheel\<close>

text \<open>The macros \<open>P\<close> and \<open>R\<close>: twenty even increments in three bits each.\<close>

fun pack3 :: "u64 list \<Rightarrow> u64" where
  "pack3 [] = 0"
| "pack3 (a # as) = a OR push_bit 3 (pack3 as)"

definition P :: "u64 list \<Rightarrow> u64" where
  "P as = push_bit 1 (pack3 (map (\<lambda>a. a div 2) (take 10 as)))
          OR push_bit 31 (pack3 (map (\<lambda>a. a div 2) (drop 10 as)))"

definition packed_wheel :: "u64 list" where
  "packed_wheel = [
	P [ 4, 2, 4, 6, 2, 6, 4, 2, 4, 6, 6, 2, 6, 4, 2, 6, 4, 6, 8, 4],
	P [ 2, 4, 2, 4,14, 4, 6, 2,10, 2, 6, 6, 4, 2, 4, 6, 2,10, 2, 4],
	P [ 2,12,10, 2, 4, 2, 4, 6, 2, 6, 4, 6, 6, 6, 2, 6, 4, 2, 6, 4],
	P [ 6, 8, 4, 2, 4, 6, 8, 6,10, 2, 4, 6, 2, 6, 6, 4, 2, 4, 6, 2],
	P [ 6, 4, 2, 6,10, 2,10, 2, 4, 2, 4, 6, 8, 4, 2, 4,12, 2, 6, 4],
	P [ 2, 6, 4, 6,12, 2, 4, 2, 4, 8, 6, 4, 6, 2, 4, 6, 2, 6,10, 2],
	P [ 4, 6, 2, 6, 4, 2, 4, 2,10, 2,10, 2, 4, 6, 6, 2, 6, 6, 4, 6],
	P [ 6, 2, 6, 4, 2, 6, 4, 6, 8, 4, 2, 6, 4, 8, 6, 4, 6, 2, 4, 6],
	P [ 8, 6, 4, 2,10, 2, 6, 4, 2, 4, 2,10, 2,10, 2, 4, 2, 4, 8, 6],
	P [ 4, 2, 4, 6, 6, 2, 6, 4, 8, 4, 6, 8, 4, 2, 4, 2, 4, 8, 6, 4],
	P [ 6, 6, 6, 2, 6, 6, 4, 2, 4, 6, 2, 6, 4, 2, 4, 2,10, 2,10, 2],
	P [ 6, 4, 6, 2, 6, 4, 2, 4, 6, 6, 8, 4, 2, 6,10, 8, 4, 2, 4, 2],
	P [ 4, 8,10, 6, 2, 4, 8, 6, 6, 4, 2, 4, 6, 2, 6, 4, 6, 2,10, 2],
	P [10, 2, 4, 2, 4, 6, 2, 6, 4, 2, 4, 6, 6, 2, 6, 6, 6, 4, 6, 8],
	P [ 4, 2, 4, 2, 4, 8, 6, 4, 8, 4, 6, 2, 6, 6, 4, 2, 4, 6, 8, 4],
	P [ 2, 4, 2,10, 2,10, 2, 4, 2, 4, 6, 2,10, 2, 4, 6, 8, 6, 4, 2],
	P [ 6, 4, 6, 8, 4, 6, 2, 4, 8, 6, 4, 6, 2, 4, 6, 2, 6, 6, 4, 6],
	P [ 6, 2, 6, 6, 4, 2,10, 2,10, 2, 4, 2, 4, 6, 2, 6, 4, 2,10, 6],
	P [ 2, 6, 4, 2, 6, 4, 6, 8, 4, 2, 4, 2,12, 6, 4, 6, 2, 4, 6, 2],
	P [12, 4, 2, 4, 8, 6, 4, 2, 4, 2,10, 2,10, 6, 2, 4, 6, 2, 6, 4],
	P [ 2, 4, 6, 6, 2, 6, 4, 2,10, 6, 8, 6, 4, 2, 4, 8, 6, 4, 6, 2],
	P [ 4, 6, 2, 6, 6, 6, 4, 6, 2, 6, 4, 2, 4, 2,10,12, 2, 4, 2,10],
	P [ 2, 6, 4, 2, 4, 6, 6, 2,10, 2, 6, 4,14, 4, 2, 4, 2, 4, 8, 6],
	P [ 4, 6, 2, 4, 6, 2, 6, 6, 4, 2, 4, 6, 2, 6, 4, 2, 4,12, 2,12]]"

lemma drop_3_less: "v AND 0xe \<noteq> 0 \<Longrightarrow> unat (drop_bit 3 v :: u64) < unat v"
proof -
  assume "v AND 0xe \<noteq> 0"
  then have "unat v \<noteq> 0" by (cases "v = 0") (auto simp: unat_eq_zero)
  then show ?thesis by (simp add: drop_bit_eq_div unat_div)
qed

function unpack :: "u64 \<Rightarrow> u8 list" where
  "unpack v = (if v AND 0xe \<noteq> 0 then ucast (v AND 0xe) # unpack (drop_bit 3 v) else [])"
  by auto

termination by (relation "measure unat") (auto intro: drop_3_less)

declare unpack.simps [simp del]

definition unpack_wheel :: "u8 list" where
  "unpack_wheel = [1, 2, 2, 4, 2] @ concat (map unpack packed_wheel)"

definition WHEEL_START :: nat where "WHEEL_START = 5"
definition WHEEL_SIZE :: nat where "WHEEL_SIZE = 5 + 24 * 20"


section \<open>Trial division\<close>

text \<open>\<open>print_w\<close>: the number as often as \<open>square_count\<close> says (the loop counts an
  \<open>unsigned\<close> down to 0).\<close>

definition print_w :: "u8 \<Rightarrow> u64 \<Rightarrow> u64 list" where
  "print_w square_count n = replicate (if square_count = 0 then 2 ^ 32 else unat square_count) n"

text \<open>\<open>isqrt_odd\<close>: Inl of the root of a square, which the caller has to factorize with
  \<open>square_count\<close> doubled; otherwise the largest odd divisor to try.\<close>

definition isqrt_odd :: "u64 \<Rightarrow> u32 + u32" where
  "isqrt_odd N =
     (let s = ucast (isqrt N) :: u32
      in if ucast s * ucast s = N then Inl s else Inr ((s - 1) OR 1))"

partial_function (option) divide_out ::
    "u8 \<Rightarrow> u32 \<Rightarrow> u64 \<Rightarrow> u32 \<Rightarrow> u64 list \<Rightarrow> (u64 list \<times> (u32 + u64 \<times> u32)) option" where
  "divide_out square_count factor N max_factor printed =
     (if N mod ucast factor = 0 then
        let N = N div ucast factor;
            printed = printed @ print_w square_count (ucast factor)
        in case isqrt_odd N of
             Inl s \<Rightarrow> Some (printed, Inl s)
           | Inr max_factor \<Rightarrow> divide_out square_count factor N max_factor printed
      else Some (printed, Inr (N, max_factor)))"

partial_function (option) trial_loop ::
    "u8 \<Rightarrow> u64 \<Rightarrow> u32 \<Rightarrow> u32 \<Rightarrow> nat \<Rightarrow> u64 list \<Rightarrow> (u64 list \<times> (u32 + u64)) option" where
  "trial_loop square_count N factor max_factor w printed =
     (case divide_out square_count factor N max_factor printed of
        None \<Rightarrow> None
      | Some (printed, Inl s) \<Rightarrow> Some (printed, Inl s)
      | Some (printed, Inr (N, max_factor)) \<Rightarrow>
          if factor \<ge> max_factor then Some (printed, Inr N)
          else
            let fw = factor + ucast (unpack_wheel ! w)
            in if fw < factor then Some (printed, Inr N)
               else trial_loop square_count N fw max_factor
                      (if w + 1 < WHEEL_SIZE then w + 1 else WHEEL_START) printed)"

definition last_factor :: "u8 \<Rightarrow> u64 \<Rightarrow> u64 list" where
  "last_factor square_count N = (if N > 1 then print_w square_count N else [])"

text \<open>\<open>factorize\<close>: the numbers it prints, before the newline that ends every run.\<close>

partial_function (option) factorize :: "u8 \<Rightarrow> u64 \<Rightarrow> u64 list option" where
  "factorize square_count N =
     (if N < 4 then Some (last_factor square_count N)
      else case isqrt_odd N of
        Inl s \<Rightarrow> factorize (square_count * 2) (ucast s)
      | Inr max_factor \<Rightarrow>
          (case trial_loop square_count N 2 max_factor 0 [] of
             None \<Rightarrow> None
           | Some (printed, Inl s) \<Rightarrow>
               Option.bind (factorize (square_count * 2) (ucast s)) (\<lambda>more. Some (printed @ more))
           | Some (printed, Inr N) \<Rightarrow> Some (printed @ last_factor square_count N)))"

section \<open>The applet\<close>

datatype errno = No_error | EINVAL | ERANGE

text \<open>\<open>bb_strtoull\<close>: the value, errno and the end of the number.\<close>

definition handle_errors :: "u64 \<Rightarrow> bool \<Rightarrow> string \<Rightarrow> u64 \<times> errno" where
  "handle_errors v out_of_range endp =
     (if cur endp \<noteq> cnul then
        (if c_isalnum (cur endp) \<or> out_of_range then (- 1, ERANGE) else (v, EINVAL))
      else (v, if out_of_range then ERANGE else No_error))"

definition bb_strtoull :: "string \<Rightarrow> nat \<Rightarrow> u64 \<times> errno" where
  "bb_strtoull arg base =
     (if \<not> c_isalnum (cur arg) then (- 1, ERANGE)
      else let (v, out_of_range, endp) = strtoull arg base in handle_errors v out_of_range endp)"

text \<open>A line of output; None is the exit with the usage message.  \<open>factorize\<close> always has a
  result here (\<open>factorize_factors\<close>).\<close>

definition factor_line :: "u64 \<Rightarrow> u64 list \<Rightarrow> string" where
  "factor_line N factors =
     dec_digits (unat N) @ '':'' @ concat (map (\<lambda>p. CHR '' '' # dec_digits (unat p)) factors) @ nl"

definition factorize_numstr :: "string \<Rightarrow> string option" where
  "factorize_numstr numstr =
     (let numstr = (if cur numstr = CHR ''+'' then tl numstr else numstr);
          (N, err) = bb_strtoull numstr 10
      in if err \<noteq> No_error then None else Some (factor_line N (the (factorize 1 N))))"

lemma skip_non_whitespace_le: "length (skip_non_whitespace s) \<le> length s"
  by (induction s) auto

text \<open>The numbers of a line; the output so far and whether the applet goes on.\<close>

function factor_words :: "string \<Rightarrow> string \<Rightarrow> string \<times> bool" where
  "factor_words outp numstr =
     (let numstr = skip_whitespace numstr
      in if numstr = [] then (outp, True)
         else
           let endp = skip_non_whitespace numstr;
               word = take (length numstr - length endp) numstr
           in case factorize_numstr word of
                None \<Rightarrow> (outp, False)
              | Some l \<Rightarrow> factor_words (outp @ l) (tl endp))"
  by pat_completeness auto

termination
proof (relation "measure (\<lambda>(_, s). length s)")
  fix outp numstr x :: string and xa xb l
  assume x: "x = skip_whitespace numstr" "x \<noteq> []" and xa: "xa = skip_non_whitespace x"
  have "length (tl (skip_non_whitespace x)) < length x"
    using x(2) skip_non_whitespace_le [of x] by (cases "skip_non_whitespace x"; cases x) auto
  moreover have "length x \<le> length numstr" using x(1) by simp
  ultimately show "((outp @ l, tl xa), outp, numstr) \<in> measure (\<lambda>(_, s). length s)"
    using xa by simp
qed simp

function factor_lines :: "string \<Rightarrow> string \<Rightarrow> string \<times> bool" where
  "factor_lines outp input =
     (case xmalloc_fgetline input of
        None \<Rightarrow> (outp, True)
      | Some (line, rest) \<Rightarrow>
          let (outp, ok) = factor_words outp line
          in if ok then factor_lines outp rest else (outp, False))"
  by pat_completeness auto
termination
  by (relation "measure (\<lambda>(_, s). length s)") (auto dest: xmalloc_fgetline_less)

fun factor_args :: "string \<Rightarrow> string list \<Rightarrow> string \<times> bool" where
  "factor_args outp [] = (outp, True)"
| "factor_args outp (arg # args) =
     (case factorize_numstr (skip_whitespace arg) of
        None \<Rightarrow> (outp, False)
      | Some l \<Rightarrow> factor_args (outp @ l) args)"

definition factor_main :: "string list \<Rightarrow> string \<Rightarrow> string \<times> bool" where
  "factor_main args input = (if args = [] then factor_lines [] input else factor_args [] args)"

end
