(* ===== verification/FactorProps.thy ===== *)
theory FactorProps imports Factor begin

text \<open>
  What \<open>Factor\<close> computes: the integer square root; the wheel only skips numbers that one of the
  primes up to 11 divides; trial division ends and prints the prime factors in ascending order.
\<close>

section \<open>The integer square root\<close>

lemma isqrt_loop_spec:
  assumes "even sh" "sh < 64"
    and "unat x ^ 2 * 2 ^ (sh + 2) \<le> unat N" "unat N < (unat x + 1) ^ 2 * 2 ^ (sh + 2)"
  shows "unat (isqrt_loop N sh x) ^ 2 \<le> unat N \<and> unat N < (unat (isqrt_loop N sh x) + 1) ^ 2"
  using assms
proof (induction N sh x rule: isqrt_loop.induct)
  case (1 N sh x)
  have N: "unat N < 2 ^ 64" using unsigned_less [of N, where ?'a = nat] by simp
  have "unat x ^ 2 * 2 ^ 2 \<le> unat x ^ 2 * 2 ^ (sh + 2)"
    by (intro mult_le_mono2 power_increasing) auto
  then have "unat x ^ 2 * 2 ^ 2 < 2 ^ 64" using 1(4) N by (rule le_less_trans [OF order_trans])
  then have "unat x ^ 2 < (2 ^ 31) ^ 2" by simp
  then have xb: "unat x < 2 ^ 31" by (rule power_less_imp_less_base) simp
  let ?y = "push_bit 1 x + 1"
  have y: "unat ?y = 2 * unat x + 1"
  proof -
    have "unat (push_bit 1 x) = 2 * unat x"
      using xb by (simp add: push_bit_eq_mult unat_word_ariths)
    then show ?thesis using xb by (simp add: unat_word_ariths)
  qed
  have "(2 * unat x + 1) * (2 * unat x + 1) < 2 ^ 32 * 2 ^ 32"
    using xb by (intro mult_strict_mono) auto
  then have yy: "unat (?y * ?y) = (2 * unat x + 1) ^ 2"
    using y by (simp add: unat_word_ariths power2_eq_square)
  let ?M = "unat N div 2 ^ sh"
  have M: "unat (drop_bit sh N) = ?M" by (simp only: unat_drop_bit_eq) (simp add: drop_bit_eq_div)
  have y1: "unat (?y - 1) = 2 * unat x"
  proof -
    have "?y \<noteq> 0" using y by (metis Suc_eq_plus1 Zero_not_Suc unsigned_0)
    then have "unat (?y - 1) = unat ?y - 1" by (rule unat_minus_one)
    then show ?thesis using y by simp
  qed
  define z where "z = (if ?y * ?y > drop_bit sh N then ?y - 1 else ?y)"
  have zn: "unat z = (if (2 * unat x + 1) ^ 2 > ?M then 2 * unat x else 2 * unat x + 1)"
    unfolding z_def word_less_nat_alt yy M using y y1 by (simp only: split: if_splits) blast
  have lo: "unat z ^ 2 \<le> ?M"
  proof (cases "(2 * unat x + 1) ^ 2 > ?M")
    case True
    have "unat x ^ 2 * 4 \<le> ?M"
      using 1(4) by (simp add: less_eq_div_iff_mult_less_eq power_add mult.assoc mult.commute mult.left_commute)
    then show ?thesis using zn True by (simp add: power_mult_distrib)
  qed (use zn in simp)
  have hi: "?M < (unat z + 1) ^ 2"
  proof (cases "(2 * unat x + 1) ^ 2 > ?M")
    case False
    have "?M < (unat x + 1) ^ 2 * 4"
      using 1(5) by (simp add: div_less_iff_less_mult power_add mult.assoc mult.commute mult.left_commute)
    also have "\<dots> = (2 * unat x + 1 + 1) ^ 2" by (simp add: power2_eq_square algebra_simps)
    finally show ?thesis using zn False by simp
  qed (use zn in simp)
  have lo': "unat z ^ 2 * 2 ^ sh \<le> unat N"
    using lo by (simp add: less_eq_div_iff_mult_less_eq)
  have hi': "unat N < (unat z + 1) ^ 2 * 2 ^ sh"
    using hi by (simp add: div_less_iff_less_mult)
  have step: "isqrt_loop N sh x = (if sh < 2 then z else isqrt_loop N (sh - 2) z)"
    by (subst isqrt_loop.simps) (simp add: z_def Let_def)
  show ?case
  proof (cases "sh < 2")
    case True
    then have "sh = 0" using 1(2) by (auto simp: less_2_cases_iff)
    then show ?thesis using step lo' hi' by simp
  next
    case False
    then have "sh - 2 + 2 = sh" "even (sh - 2)" "sh - 2 < 64" using 1(2,3) by auto
    then show ?thesis
      using 1(1) [of ?y z] False lo' hi' step by (simp add: z_def)
  qed
qed

lemma isqrt_spec: "unat (isqrt N) ^ 2 \<le> unat N \<and> unat N < (unat (isqrt N) + 1) ^ 2"
  unfolding isqrt_def using unsigned_less [of N, where ?'a = nat]
  by (intro isqrt_loop_spec) auto

section \<open>The wheel\<close>

text \<open>The rows of the wheel as \<open>unpack_wheel\<close> unpacks them.\<close>

lemma unpack_rows: "map unpack packed_wheel = [
	[ 4, 2, 4, 6, 2, 6, 4, 2, 4, 6, 6, 2, 6, 4, 2, 6, 4, 6, 8, 4],
	[ 2, 4, 2, 4,14, 4, 6, 2,10, 2, 6, 6, 4, 2, 4, 6, 2,10, 2, 4],
	[ 2,12,10, 2, 4, 2, 4, 6, 2, 6, 4, 6, 6, 6, 2, 6, 4, 2, 6, 4],
	[ 6, 8, 4, 2, 4, 6, 8, 6,10, 2, 4, 6, 2, 6, 6, 4, 2, 4, 6, 2],
	[ 6, 4, 2, 6,10, 2,10, 2, 4, 2, 4, 6, 8, 4, 2, 4,12, 2, 6, 4],
	[ 2, 6, 4, 6,12, 2, 4, 2, 4, 8, 6, 4, 6, 2, 4, 6, 2, 6,10, 2],
	[ 4, 6, 2, 6, 4, 2, 4, 2,10, 2,10, 2, 4, 6, 6, 2, 6, 6, 4, 6],
	[ 6, 2, 6, 4, 2, 6, 4, 6, 8, 4, 2, 6, 4, 8, 6, 4, 6, 2, 4, 6],
	[ 8, 6, 4, 2,10, 2, 6, 4, 2, 4, 2,10, 2,10, 2, 4, 2, 4, 8, 6],
	[ 4, 2, 4, 6, 6, 2, 6, 4, 8, 4, 6, 8, 4, 2, 4, 2, 4, 8, 6, 4],
	[ 6, 6, 6, 2, 6, 6, 4, 2, 4, 6, 2, 6, 4, 2, 4, 2,10, 2,10, 2],
	[ 6, 4, 6, 2, 6, 4, 2, 4, 6, 6, 8, 4, 2, 6,10, 8, 4, 2, 4, 2],
	[ 4, 8,10, 6, 2, 4, 8, 6, 6, 4, 2, 4, 6, 2, 6, 4, 6, 2,10, 2],
	[10, 2, 4, 2, 4, 6, 2, 6, 4, 2, 4, 6, 6, 2, 6, 6, 6, 4, 6, 8],
	[ 4, 2, 4, 2, 4, 8, 6, 4, 8, 4, 6, 2, 6, 6, 4, 2, 4, 6, 8, 4],
	[ 2, 4, 2,10, 2,10, 2, 4, 2, 4, 6, 2,10, 2, 4, 6, 8, 6, 4, 2],
	[ 6, 4, 6, 8, 4, 6, 2, 4, 8, 6, 4, 6, 2, 4, 6, 2, 6, 6, 4, 6],
	[ 6, 2, 6, 6, 4, 2,10, 2,10, 2, 4, 2, 4, 6, 2, 6, 4, 2,10, 6],
	[ 2, 6, 4, 2, 6, 4, 6, 8, 4, 2, 4, 2,12, 6, 4, 6, 2, 4, 6, 2],
	[12, 4, 2, 4, 8, 6, 4, 2, 4, 2,10, 2,10, 6, 2, 4, 6, 2, 6, 4],
	[ 2, 4, 6, 6, 2, 6, 4, 2,10, 6, 8, 6, 4, 2, 4, 8, 6, 4, 6, 2],
	[ 4, 6, 2, 6, 6, 6, 4, 6, 2, 6, 4, 2, 4, 2,10,12, 2, 4, 2,10],
	[ 2, 6, 4, 2, 4, 6, 6, 2,10, 2, 6, 4,14, 4, 2, 4, 2, 4, 8, 6],
	[ 4, 6, 2, 4, 6, 2, 6, 6, 4, 2, 4, 6, 2, 6, 4, 2, 4,12, 2,12]]"
  by code_simp

text \<open>\<open>small_factor b e\<close>: one of the primes the wheel skips divides \<open>e\<close> and is below \<open>b\<close>.
  \<open>gaps_ok b gs\<close>: from \<open>b\<close> on, the increments \<open>gs\<close> only pass over such numbers.\<close>

definition small_factor :: "int \<Rightarrow> int \<Rightarrow> bool" where
  "small_factor b e \<longleftrightarrow> list_ex (\<lambda>p. p < b \<and> e mod p = 0) [2, 3, 5, 7, 11]"

fun gaps_ok :: "int \<Rightarrow> int list \<Rightarrow> bool" where
  "gaps_ok b [] \<longleftrightarrow> b = 13 + 2310"
| "gaps_ok b (g # gs) \<longleftrightarrow>
     0 < g \<and> g \<le> 14 \<and> list_all (small_factor b) [b + 1..b + g - 1] \<and> gaps_ok (b + g) gs"

definition wheel :: "int list" where
  "wheel = map uint unpack_wheel"

lemma wheel_gaps: "gaps_ok 2 wheel"
  unfolding wheel_def unpack_wheel_def unpack_rows by code_simp

lemma length_wheel: "length wheel = 485"
  unfolding wheel_def unpack_wheel_def unpack_rows by simp

lemma gaps_skipped:
  "gaps_ok b gs \<Longrightarrow> i < length gs \<Longrightarrow>
   0 < gs ! i \<and> gs ! i \<le> 14 \<and>
   (\<forall>e. b + sum_list (take i gs) < e \<and> e < b + sum_list (take i gs) + gs ! i \<longrightarrow>
      small_factor (b + sum_list (take i gs)) e)"
proof (induction b gs arbitrary: i rule: gaps_ok.induct)
  case (2 b g gs)
  then show ?case by (cases i) (auto simp: list_all_iff add.assoc)
qed simp

lemma gaps_end: "gaps_ok b gs \<Longrightarrow> b + sum_list gs = 13 + 2310"
  by (induction b gs rule: gaps_ok.induct) auto

definition on_wheel :: "int \<Rightarrow> nat \<Rightarrow> bool" where
  "on_wheel f w \<longleftrightarrow> w < 485 \<and>
     (\<exists>k \<ge> 0. f = 2 + sum_list (take w wheel) + 2310 * k \<and> (w < 5 \<longrightarrow> k = 0))"

lemma on_wheel_start: "on_wheel 2 0" by (auto simp: on_wheel_def)

lemma wheel_take_5: "sum_list (take 5 wheel) = 11"
  by (simp add: wheel_def unpack_wheel_def)

lemma on_wheel_next:
  assumes "on_wheel f w"
  shows "on_wheel (f + wheel ! w) (if w + 1 < 485 then w + 1 else 5)"
proof -
  obtain k where k: "k \<ge> 0" "f = 2 + sum_list (take w wheel) + 2310 * k" "w < 5 \<longrightarrow> k = 0"
    and w: "w < 485" using assms by (auto simp: on_wheel_def)
  have t: "sum_list (take (w + 1) wheel) = sum_list (take w wheel) + wheel ! w"
    using w by (simp add: take_Suc_conv_app_nth length_wheel)
  show ?thesis
  proof (cases "w + 1 < 485")
    case True
    then show ?thesis using k t by (auto simp: on_wheel_def intro!: exI [of _ k])
  next
    case False
    then have w: "w = 484" using w by simp
    have "2 + sum_list wheel = 13 + 2310" using gaps_end wheel_gaps by blast
    then have "f + wheel ! w = 13 + 2310 * (k + 1)"
      using k(2) t w length_wheel by simp
    then show ?thesis using False k(1) wheel_take_5
      by (auto simp: on_wheel_def intro!: exI [of _ "k + 1"])
  qed
qed

lemma on_wheel_gap: "on_wheel f w \<Longrightarrow> 0 < wheel ! w \<and> wheel ! w \<le> 14"
  using gaps_skipped [OF wheel_gaps] by (auto simp: on_wheel_def length_wheel)

lemma on_wheel_skipped:
  assumes "on_wheel f w" "f < e" "e < f + wheel ! w"
  shows "\<exists>p. 1 < p \<and> p < f \<and> p dvd e"
proof -
  obtain k where k: "k \<ge> 0" "f = 2 + sum_list (take w wheel) + 2310 * k" "w < 5 \<longrightarrow> k = 0"
    and w: "w < 485" using assms by (auto simp: on_wheel_def)
  let ?b = "2 + sum_list (take w wheel)"
  have "?b < e - 2310 * k" "e - 2310 * k < ?b + wheel ! w" using assms(2,3) k(2) by linarith+
  then have "small_factor ?b (e - 2310 * k)"
    using gaps_skipped [OF wheel_gaps, of w] w unfolding length_wheel by blast
  then obtain p where p: "p \<in> {2, 3, 5, 7, 11}" "p < ?b" "p dvd e - 2310 * k"
    unfolding small_factor_def list_ex_iff set_simps mod_eq_0_iff_dvd by blast
  have "p dvd 2310 * k" using p(1) by (intro dvd_mult2) auto
  then have "p dvd e" using p(3) by (simp add: dvd_diff_left_iff)
  then show ?thesis using p k by (intro exI [of _ p]) auto
qed

section \<open>Primes and partial factorizations\<close>

definition is_prime :: "nat \<Rightarrow> bool" where
  "is_prime n \<longleftrightarrow> 1 < n \<and> (\<forall>d. d dvd n \<longrightarrow> d = 1 \<or> d = n)"

text \<open>\<open>rough f n\<close>: \<open>n\<close> has no divisor below \<open>f\<close>.\<close>

definition rough :: "nat \<Rightarrow> nat \<Rightarrow> bool" where
  "rough f n \<longleftrightarrow> (\<forall>d. 1 < d \<longrightarrow> d dvd n \<longrightarrow> f \<le> d)"

lemma rough_dvd: "rough f n \<Longrightarrow> m dvd n \<Longrightarrow> rough f m"
  unfolding rough_def by (meson dvd_trans)

lemma rough_prime: "rough f n \<Longrightarrow> f dvd n \<Longrightarrow> 1 < f \<Longrightarrow> 0 < n \<Longrightarrow> is_prime f"
proof -
  assume r: "rough f n" "f dvd n" "1 < f" "0 < n"
  have "d = 1 \<or> d = f" if d: "d dvd f" for d
  proof -
    have "0 < d" "d \<le> f" using d r(3) dvd_pos_nat [of f d] dvd_imp_le [of d f] by simp_all
    moreover have "1 < d \<Longrightarrow> f \<le> d" using r(1,2) d unfolding rough_def by (meson dvd_trans)
    ultimately show ?thesis by linarith
  qed
  then show ?thesis using r by (auto simp: is_prime_def)
qed

lemma rough_root:
  assumes "rough f n" "1 < n" "n < f * f"
  shows "is_prime n"
proof -
  have "d = 1 \<or> d = n" if d: "d dvd n" for d
  proof (rule ccontr)
    assume a: "\<not> (d = 1 \<or> d = n)"
    obtain e where e: "n = d * e" using d by auto
    have "1 < d" "1 < e" using a e assms(2) by (auto intro!: Suc_lessI Nat.gr0I)
    then have "f \<le> d" "f \<le> e" using assms(1) e by (auto simp: rough_def)
    then have "f * f \<le> n" using e mult_le_mono by blast
    then show False using assms(3) by simp
  qed
  then show ?thesis using assms(2) by (auto simp: is_prime_def)
qed

lemma rough_next:
  assumes r: "rough f n" and nd: "\<not> f dvd n"
    and skip: "\<And>e. f < e \<Longrightarrow> e < f' \<Longrightarrow> \<exists>p. 1 < p \<and> p < f \<and> p dvd e"
  shows "rough f' n"
  unfolding rough_def
proof (intro allI impI)
  fix d assume d: "1 < d" "d dvd n"
  show "f' \<le> d"
  proof (rule ccontr)
    assume "\<not> f' \<le> d"
    moreover have "f < d" using r d nd by (cases "d = f") (auto simp: rough_def le_neq_trans)
    ultimately obtain p where "1 < p" "p < f" "p dvd d" using skip by force
    then show False using r d(2) unfolding rough_def by (meson dvd_trans not_le)
  qed
qed

text \<open>\<open>parts sc qs n m\<close>: the printed numbers \<open>qs\<close> take \<open>n\<close> to \<open>m\<close>, each prime factor
  \<open>sc\<close> times, in ascending order and all at most the factors left in \<open>m\<close>.\<close>

definition parts :: "nat \<Rightarrow> nat list \<Rightarrow> nat \<Rightarrow> nat \<Rightarrow> bool" where
  "parts sc qs n m \<longleftrightarrow> m dvd n \<and> sorted qs \<and> prod_list qs * m ^ sc = n ^ sc \<and>
     (\<forall>q \<in> set qs. is_prime q \<and> q dvd n \<and> rough q m)"

lemma parts_refl: "parts sc [] n n" by (simp add: parts_def)

lemma parts_trans:
  assumes "parts sc qs n m" "parts sc rs m l"
  shows "parts sc (qs @ rs) n l"
proof -
  have "q \<le> r" if "q \<in> set qs" "r \<in> set rs" for q r
    using assms that unfolding parts_def rough_def is_prime_def by blast
  then have "sorted (qs @ rs)" using assms by (simp add: parts_def sorted_append)
  moreover have "prod_list (qs @ rs) * l ^ sc = n ^ sc"
    using assms by (simp add: parts_def mult.assoc)
  moreover have "l dvd n" using assms by (auto simp: parts_def intro: dvd_trans)
  moreover have "is_prime q \<and> q dvd n \<and> rough q l" if "q \<in> set (qs @ rs)" for q
    using assms that by (auto simp: parts_def intro: dvd_trans rough_dvd)
  ultimately show ?thesis by (simp add: parts_def)
qed

lemma parts_prime:
  assumes "rough f n" "f dvd n" "1 < f" "0 < n"
  shows "parts sc (replicate sc f) n (n div f)"
proof -
  obtain m where m: "n = f * m" using assms by auto
  have "sorted (replicate sc f)" by (induction sc) auto
  then show ?thesis
    using m assms rough_prime [OF assms] rough_dvd [OF assms(1), of m]
    by (auto simp: parts_def prod_list_replicate power_mult_distrib)
qed

lemma parts_last: "is_prime n \<Longrightarrow> parts sc (replicate sc n) n 1"
  using parts_prime [of n n sc] by (auto simp: is_prime_def rough_def)

lemma parts_square: "parts (2 * sc) qs s 1 \<Longrightarrow> parts sc qs (s * s) 1"
  by (auto simp: parts_def power_mult power2_eq_square)

section \<open>Trial division\<close>

lemma isqrt_32: "unat (ucast (isqrt N) :: u32) = unat (isqrt N)"
proof -
  have "unat (isqrt N) ^ 2 < (2 ^ 32) ^ 2"
    using isqrt_spec [of N] unsigned_less [of N, where ?'a = nat] by simp
  then have "unat (isqrt N) < 2 ^ 32" by (rule power_less_imp_less_base) simp
  then show ?thesis by (simp add: unsigned_ucast_eq take_bit_nat_eq_self)
qed

lemma unat_up_32: "unat (ucast (x :: u32) :: u64) = unat x"
  using unsigned_less [of x, where ?'a = nat] by (simp add: unsigned_ucast_eq take_bit_nat_eq_self)

lemma unat_square_32: "unat (ucast (x :: u32) * ucast x :: u64) = unat x * unat x"
proof -
  have "unat x < 2 ^ 32" using unsigned_less [of x, where ?'a = nat] by simp
  then have "unat x * unat x < 2 ^ 32 * 2 ^ 32" by (intro mult_strict_mono) auto
  then show ?thesis by (simp add: unat_word_ariths unat_up_32)
qed

lemma isqrt_odd_Inl: "isqrt_odd N = Inl s \<Longrightarrow> unat N = unat s * unat s"
  using unat_square_32 [of s] by (auto simp: isqrt_odd_def Let_def split: if_splits)

lemma isqrt_odd_max:
  assumes "isqrt_odd N = Inr m" "0 < unat N"
  shows "unat N < (unat (isqrt N) + 1) * (unat (isqrt N) + 1)"
    and "unat m = (unat (isqrt N) - 1) + of_bool (even (unat (isqrt N) - 1))"
    and "0 < unat (isqrt N)"
proof -
  let ?s = "ucast (isqrt N) :: u32"
  show N: "unat N < (unat (isqrt N) + 1) * (unat (isqrt N) + 1)"
    using isqrt_spec [of N] by (simp only: power2_eq_square)
  show p: "0 < unat (isqrt N)"
  proof (rule ccontr)
    assume "\<not> 0 < unat (isqrt N)"
    then show False using N assms(2) by simp
  qed
  have "?s \<noteq> 0" using p isqrt_32 [of N] by (metis less_irrefl unsigned_0)
  then have "unat (?s - 1) = unat (isqrt N) - 1" by (subst unat_minus_one) (simp_all add: isqrt_32)
  moreover have "m = (?s - 1) OR 1" using assms(1) by (auto simp: isqrt_odd_def Let_def split: if_splits)
  ultimately show "unat m = (unat (isqrt N) - 1) + of_bool (even (unat (isqrt N) - 1))"
    by (simp only: unsigned_or_eq unsigned_1) (simp only: or_one_eq)
qed

lemma odd_max:
  fixes s :: nat
  assumes "m = (s - 1) + of_bool (even (s - 1))" "0 < s" "m \<le> f" "\<not> s \<le> f"
  shows "s = Suc f" and "even (Suc f)"
proof -
  obtain t where t: "s = Suc t" using assms(2) by (cases s) auto
  then show "s = Suc f" using assms by auto
  then show "even (Suc f)" using assms t by (cases "even t") auto
qed

lemma isqrt_odd_done:
  assumes m: "isqrt_odd N = Inr m" and N: "1 < unat N"
    and r: "rough (Suc f) (unat N)" "unat m \<le> f" "2 \<le> f"
  shows "is_prime (unat N)"
proof -
  note s = isqrt_odd_max [OF m]
  show ?thesis
  proof (cases "unat (isqrt N) \<le> f")
    case True
    then have "unat N < Suc f * Suc f"
      using s(1) N by (intro less_le_trans [OF s(1)] mult_le_mono) auto
    then show ?thesis by (rule rough_root [OF r(1) N])
  next
    case False
    then have e: "unat (isqrt N) = Suc f" "even (Suc f)"
      using odd_max [OF s(2,3) r(2)] N by simp_all
    have "\<not> 2 dvd unat N"
    proof
      assume "2 dvd unat N"
      then have "Suc f \<le> 2" using r(1) unfolding rough_def by (meson one_less_numeral_iff semiring_norm(76))
      then show False using r(3) by simp
    qed
    then have "\<not> Suc f dvd unat N" using e(2) by (meson dvd_trans)
    then have "rough (Suc (Suc f)) (unat N)" by (rule rough_next [OF r(1)]) simp
    then show ?thesis using s(1) N e(1) by (intro rough_root [of "Suc (Suc f)"]) auto
  qed
qed

lemma print_w_parts: "0 < unat sc \<Longrightarrow> map unat (print_w sc n) = replicate (unat sc) (unat n)"
  by (auto simp: print_w_def)

lemma divide_out_spec:
  assumes "rough (unat f) (unat N)" "2 \<le> unat f" "0 < unat N" "0 < unat sc" "isqrt_odd N = Inr m"
  shows "\<exists>ps r. divide_out sc f N m printed = Some (printed @ ps, r) \<and>
    (case r of Inl s \<Rightarrow> parts (unat sc) (map unat ps) (unat N) (unat s * unat s)
     | Inr (N', m') \<Rightarrow> parts (unat sc) (map unat ps) (unat N) (unat N') \<and>
         isqrt_odd N' = Inr m' \<and> \<not> unat f dvd unat N')"
  using assms
proof (induction "unat N" arbitrary: N m printed rule: less_induct)
  case less
  have dvd: "N mod ucast f = 0 \<longleftrightarrow> unat f dvd unat N"
  proof -
    have "unat (N mod ucast f) = unat N mod unat f" by (simp only: unat_mod unat_up_32)
    then show ?thesis by (metis dvd_eq_mod_eq_0 unat_eq_zero)
  qed
  let ?N = "N div ucast f"
  have div: "unat ?N = unat N div unat f" by (simp add: unat_div unat_up_32)
  let ?p = "print_w sc (ucast f)"
  show ?case
  proof (cases "unat f dvd unat N")
    case False
    then show ?thesis using dvd less.prems(5)
      by (subst divide_out.simps) (simp add: parts_refl)
  next
    case True
    have step: "parts (unat sc) (map unat ?p) (unat N) (unat ?N)"
      unfolding print_w_parts [OF less.prems(4)] unat_up_32 div
      using less.prems(1-3) True by (intro parts_prime) auto
    have sub: "rough (unat f) (unat ?N)"
      using step less.prems(1) by (auto simp: parts_def intro: rough_dvd)
    have pos: "0 < unat ?N" "unat ?N < unat N"
      using True less.prems(2,3) div by (auto simp: dvd_imp_le div_greater_zero_iff)
    show ?thesis
    proof (cases "isqrt_odd ?N")
      case (Inl s)
      then show ?thesis using True dvd step isqrt_odd_Inl [OF Inl]
        by (subst divide_out.simps) (simp add: Let_def)
    next
      case (Inr m')
      have "divide_out sc f N m printed = divide_out sc f ?N m' (printed @ ?p)"
        using True dvd Inr by (subst divide_out.simps) (simp add: Let_def)
      then show ?thesis
        using less.hyps [OF pos(2) sub less.prems(2) pos(1) less.prems(4) Inr, of "printed @ ?p"] step
        by (force split: sum.splits intro: parts_trans)
    qed
  qed
qed

lemma isqrt_odd_one: "isqrt_odd 1 = Inl 1" by code_simp

lemma isqrt_odd_gt_1: "isqrt_odd N = Inr m \<Longrightarrow> 0 < unat N \<Longrightarrow> 1 < unat N"
proof -
  assume m: "isqrt_odd N = Inr m" and N: "0 < unat N"
  have "N \<noteq> 1" using m isqrt_odd_one by auto
  then have "unat N \<noteq> 1" by (metis unat_1 word_unat_eq_iff)
  then show ?thesis using N by simp
qed

lemma add_wrap:
  fixes a g c :: nat
  assumes "c = (a + g) mod m" "a < m" "g < m"
  shows "c < a \<Longrightarrow> m \<le> a + g" and "\<not> c < a \<Longrightarrow> c = a + g"
  using assms by (auto simp: mod_if split: if_splits)

text \<open>The next divisor of the wheel: it either overflows 32 bits or is the sum.\<close>

lemma wheel_step:
  fixes f :: u32
  assumes "on_wheel (uint f) w" "fw = f + ucast (unpack_wheel ! w)"
  shows "rough (unat f) n \<Longrightarrow> \<not> unat f dvd n \<Longrightarrow>
         rough (unat f + nat (wheel ! w)) n"
    and "fw < f \<Longrightarrow> 2 ^ 32 \<le> unat f + nat (wheel ! w)"
    and "\<not> fw < f \<Longrightarrow> unat fw = unat f + nat (wheel ! w)"
    and "\<not> fw < f \<Longrightarrow> on_wheel (uint fw) (if w + 1 < WHEEL_SIZE then w + 1 else WHEEL_START)"
    and "0 < nat (wheel ! w)"
proof -
  have w: "w < 485" using assms(1) by (simp add: on_wheel_def)
  have "wheel ! w = uint (unpack_wheel ! w)"
    using w length_wheel by (simp add: wheel_def)
  then have g: "nat (wheel ! w) = unat (unpack_wheel ! w)" by simp
  have gap: "0 < wheel ! w" "wheel ! w \<le> 14" using on_wheel_gap [OF assms(1)] by auto
  show "0 < nat (wheel ! w)" using gap by simp
  have small: "unat (unpack_wheel ! w) \<le> 14" using gap g by linarith
  then have u: "unat (ucast (unpack_wheel ! w) :: u32) = nat (wheel ! w)"
    unfolding g unsigned_ucast_eq by (intro take_bit_nat_eq_self) simp
  have fw: "unat fw = (unat f + nat (wheel ! w)) mod 2 ^ 32"
    unfolding assms(2) unat_word_ariths u by simp
  have f: "unat f < 2 ^ 32" using unsigned_less [of f, where ?'a = nat] by simp
  have g32: "nat (wheel ! w) < 2 ^ 32" using small g by simp
  show "fw < f \<Longrightarrow> 2 ^ 32 \<le> unat f + nat (wheel ! w)"
    unfolding word_less_nat_alt by (rule add_wrap(1) [OF fw f g32])
  show sum: "unat fw = unat f + nat (wheel ! w)" if "\<not> fw < f"
    using that unfolding word_less_nat_alt by (rule add_wrap(2) [OF fw f g32])
  show "on_wheel (uint fw) (if w + 1 < WHEEL_SIZE then w + 1 else WHEEL_START)" if "\<not> fw < f"
  proof -
    have "int (unat fw) = int (unat f) + wheel ! w" using sum [OF that] gap by linarith
    then have "uint fw = uint f + wheel ! w" by simp
    then show ?thesis using on_wheel_next [OF assms(1)] by (simp add: WHEEL_SIZE_def WHEEL_START_def split: if_splits)
  qed
  assume r: "rough (unat f) n" "\<not> unat f dvd n"
  show "rough (unat f + nat (wheel ! w)) n"
  proof (rule rough_next [OF r])
    fix e assume e: "unat f < e" "e < unat f + nat (wheel ! w)"
    have "int (unat f) < int e" "int e < int (unat f) + wheel ! w" using e by linarith+
    then have "uint f < int e" "int e < uint f + wheel ! w" by simp_all
    then obtain p where p: "1 < p" "p < uint f" "p dvd int e" using on_wheel_skipped [OF assms(1)] by blast
    then have "nat p dvd e" by (metis int_dvd_int_iff less_trans nat_0_le order_less_imp_le zero_less_one)
    moreover have "nat p < unat f" "1 < nat p" using p(1,2) unfolding unat_eq_nat_uint by linarith+
    ultimately show "\<exists>p. 1 < p \<and> p < unat f \<and> p dvd e" by blast
  qed
qed

lemma trial_loop_spec:
  assumes "rough (unat f) (unat N)" "2 \<le> unat f" "0 < unat N" "0 < unat sc"
    and "isqrt_odd N = Inr m" "on_wheel (uint f) w"
  shows "\<exists>ps r. trial_loop sc N f m w printed = Some (printed @ ps, r) \<and>
    (case r of Inl s \<Rightarrow> parts (unat sc) (map unat ps) (unat N) (unat s * unat s)
     | Inr N' \<Rightarrow> parts (unat sc) (map unat ps) (unat N) (unat N') \<and> is_prime (unat N'))"
  using assms
proof (induction "2 ^ 32 - unat f" arbitrary: N f m w printed rule: less_induct)
  case less
  let ?P = "\<lambda>qs n r. case r of Inl s \<Rightarrow> parts (unat sc) (map unat qs) n (unat s * unat s)
     | Inr N' \<Rightarrow> parts (unat sc) (map unat qs) n (unat N') \<and> is_prime (unat N')"
  note step = trial_loop.simps [of sc N f m w printed]
  obtain ps r where d: "divide_out sc f N m printed = Some (printed @ ps, r)"
    and r: "case r of Inl s \<Rightarrow> parts (unat sc) (map unat ps) (unat N) (unat s * unat s)
     | Inr (N', m') \<Rightarrow> parts (unat sc) (map unat ps) (unat N) (unat N') \<and>
         isqrt_odd N' = Inr m' \<and> \<not> unat f dvd unat N'"
    using divide_out_spec [OF less.prems(1-5)] by blast
  show ?case
  proof (cases r)
    case (Inl s)
    then show ?thesis using d r by (subst step) simp
  next
    case (Inr Nm)
    obtain N' m' where Nm: "r = Inr (N', m')" using Inr by (cases Nm) auto
    then have ps: "parts (unat sc) (map unat ps) (unat N) (unat N')"
      and m': "isqrt_odd N' = Inr m'" and nd: "\<not> unat f dvd unat N'" using r by auto
    have ro: "rough (unat f) (unat N')" and N': "0 < unat N'"
      using ps less.prems(1,3) by (auto simp: parts_def intro: rough_dvd dvd_pos_nat)
    define fw where "fw = f + ucast (unpack_wheel ! w)"
    define w' where "w' = (if w + 1 < WHEEL_SIZE then w + 1 else WHEEL_START)"
    note ws = wheel_step [OF less.prems(6) fw_def]
    have eq: "trial_loop sc N f m w printed =
        (if f \<ge> m' \<or> fw < f then Some (printed @ ps, Inr N')
         else trial_loop sc N' fw m' w' (printed @ ps))"
      using d Nm by (subst step) (simp add: fw_def w'_def Let_def)
    show ?thesis
    proof (cases "f \<ge> m' \<or> fw < f")
      case True
      have "is_prime (unat N')"
      proof (cases "f \<ge> m'")
        case True
        have "rough (Suc (unat f)) (unat N')" by (rule rough_next [OF ro nd]) simp
        then show ?thesis using True less.prems(2)
          by (intro isqrt_odd_done [OF m' isqrt_odd_gt_1 [OF m' N']])
             (auto simp: word_le_nat_alt)
      next
        case False
        then have "rough (unat f + nat (wheel ! w)) (unat N')" "2 ^ 32 \<le> unat f + nat (wheel ! w)"
          using True ws(1) [OF ro nd] ws(2) by auto
        then have "rough (2 ^ 32) (unat N')" unfolding rough_def by (meson order_trans)
        then show ?thesis using unsigned_less [of N', where ?'a = nat]
          by (intro rough_root [OF _ isqrt_odd_gt_1 [OF m' N']]) auto
      qed
      then show ?thesis using True eq ps by auto
    next
      case False
      have fw: "unat fw = unat f + nat (wheel ! w)" using ws(3) False by blast
      have "unat fw < 2 ^ 32" using unsigned_less [of fw, where ?'a = nat] by simp
      then have "2 ^ 32 - unat fw < 2 ^ 32 - unat f" using fw ws(5) by linarith
      moreover have "rough (unat fw) (unat N')" using ws(1) [OF ro nd] fw by simp
      moreover have "2 \<le> unat fw" using fw less.prems(2) by simp
      moreover have "on_wheel (uint fw) w'" using ws(4) False by (simp add: w'_def)
      ultimately obtain qs t where t: "?P qs (unat N') t"
        "trial_loop sc N' fw m' w' (printed @ ps) = Some ((printed @ ps) @ qs, t)"
        using less.hyps [OF _ _ _ N' less.prems(4) m'] by blast
      then have "?P (ps @ qs) (unat N) t" using ps by (cases t) (auto intro: parts_trans)
      then show ?thesis using eq False t(2) by (intro exI [of _ "ps @ qs"] exI [of _ t]) simp
    qed
  qed
qed

section \<open>The factorization\<close>

lemma factorize_one: "factorize sc 1 = Some []"
  by (subst factorize.simps) (simp add: last_factor_def)

lemma double_count:
  fixes s :: nat
  assumes "2 \<le> s" "(s * s) ^ unat sc < 2 ^ 64"
  shows "unat (sc * 2 :: u8) = 2 * unat sc"
proof -
  have "(2 :: nat) ^ (2 * unat sc) \<le> s ^ (2 * unat sc)" using assms(1) by (rule power_mono) simp
  also have "\<dots> = (s * s) ^ unat sc" by (simp add: power_mult power2_eq_square)
  finally have "(2 :: nat) ^ (2 * unat sc) < 2 ^ 64" using assms(2) by (rule le_less_trans)
  then have "2 * unat sc < 64" by (rule power_less_imp_less_exp [rotated]) simp
  then show ?thesis by (simp add: unat_word_ariths)
qed

lemma small_prime: "2 \<le> n \<Longrightarrow> n < 4 \<Longrightarrow> is_prime n"
  by (rule rough_root [of 2]) (auto simp: rough_def)

lemma factorize_spec:
  assumes "0 < unat N" "0 < unat sc" "unat N ^ unat sc < 2 ^ 64"
  shows "\<exists>ps. factorize sc N = Some ps \<and> parts (unat sc) (map unat ps) (unat N) 1"
  using assms
proof (induction "unat N" arbitrary: N sc rule: less_induct)
  case less
  note step = factorize.simps [of sc N]
  have n4: "N < 4 \<longleftrightarrow> unat N < 4" by (simp add: word_less_nat_alt)
  have root: "\<exists>ps. factorize (sc * 2) (ucast s) = Some ps \<and>
      parts (unat sc) (map unat ps) (unat s * unat s) 1"
    if s: "unat s * unat s dvd unat N" and n: "4 \<le> unat N" for s :: u32
  proof (cases "unat s \<le> 1")
    case True
    have "unat s \<noteq> 0"
    proof
      assume "unat s = 0"
      then have "unat N = 0" using s by (simp only: mult_zero_left dvd_0_left_iff)
      then show False using n by simp
    qed
    then have "unat s = 1" using True by simp
    then have "(ucast s :: u64) = 1" using unat_up_32 [of s] by (simp add: word_unat_eq_iff)
    then show ?thesis using \<open>unat s = 1\<close> factorize_one by (simp add: parts_refl)
  next
    case False
    have le: "unat s * unat s \<le> unat N" using s less.prems(1) by (rule dvd_imp_le)
    then have pow: "(unat s * unat s) ^ unat sc < 2 ^ 64"
      using power_mono [OF le, of "unat sc"] less.prems(3) by linarith
    then have sc: "unat (sc * 2) = 2 * unat sc" using False by (intro double_count) auto
    have "unat s * 2 \<le> unat s * unat s" using False by (intro mult_le_mono2) simp
    then have lt: "unat (ucast s :: u64) < unat N" unfolding unat_up_32 using le False by linarith
    have "unat (ucast s :: u64) ^ unat (sc * 2) < 2 ^ 64"
      using pow by (simp only: sc unat_up_32 power_mult power2_eq_square)
    then obtain ps where ps: "factorize (sc * 2) (ucast s) = Some ps"
      "parts (unat (sc * 2)) (map unat ps) (unat (ucast s :: u64)) 1"
      using less.hyps [OF lt, of "sc * 2"] False less.prems(2) sc by (auto simp: unat_up_32)
    have "parts (unat sc) (map unat ps) (unat s * unat s) 1"
      using ps(2) unfolding sc unat_up_32 by (rule parts_square)
    then show ?thesis using ps(1) by blast
  qed
  have last: "parts (unat sc) (map unat (last_factor sc n)) (unat n) 1" if "is_prime (unat n)" for n
    using that parts_last [OF that, of "unat sc"] print_w_parts [OF less.prems(2)]
    by (simp add: last_factor_def word_less_nat_alt is_prime_def)
  show ?case
  proof (cases "unat N < 4")
    case True
    then have res: "factorize sc N = Some (last_factor sc N)" using n4 by (subst step) simp
    show ?thesis
    proof (cases "unat N = 1")
      case True
      then have "N = 1" by (simp add: word_unat_eq_iff)
      then show ?thesis by (simp add: factorize_one parts_refl)
    next
      case False
      then have "is_prime (unat N)" using True less.prems(1) by (intro small_prime) linarith+
      then show ?thesis using res last by blast
    qed
  next
    case False
    then have n: "\<not> N < 4" "4 \<le> unat N" using n4 by auto
    show ?thesis
    proof (cases "isqrt_odd N")
      case (Inl s)
      then have "factorize sc N = factorize (sc * 2) (ucast s)" using n(1) by (subst step) simp
      then show ?thesis using root [of s] n(2) isqrt_odd_Inl [OF Inl] by (simp only: dvd_refl)
    next
      case (Inr m)
      obtain ps r where t: "trial_loop sc N 2 m 0 [] = Some (ps, r)"
        and r: "case r of Inl s \<Rightarrow> parts (unat sc) (map unat ps) (unat N) (unat s * unat s)
          | Inr N' \<Rightarrow> parts (unat sc) (map unat ps) (unat N) (unat N') \<and> is_prime (unat N')"
        using trial_loop_spec [of 2 N sc m 0 "[]"] Inr less.prems on_wheel_start
        by (auto simp: rough_def)
      show ?thesis
      proof (cases r)
        case (Inl s)
        then have p: "parts (unat sc) (map unat ps) (unat N) (unat s * unat s)" using r by simp
        then obtain qs where "factorize (sc * 2) (ucast s) = Some qs"
          "parts (unat sc) (map unat qs) (unat s * unat s) 1"
          using root [of s] n(2) unfolding parts_def by blast
        moreover have "factorize sc N = Some (ps @ qs)" if "factorize (sc * 2) (ucast s) = Some qs"
          using that t Inl n \<open>isqrt_odd N = Inr m\<close> by (subst step) simp
        ultimately show ?thesis using parts_trans [OF p] by (metis map_append)
      next
        case (Inr N')
        have "factorize sc N = Some (ps @ last_factor sc N')"
          using t Inr n \<open>isqrt_odd N = Inr m\<close> by (subst step) simp
        moreover have "parts (unat sc) (map unat (ps @ last_factor sc N')) (unat N) 1"
          using r Inr last [of N'] parts_trans unfolding map_append by simp blast
        ultimately show ?thesis by blast
      qed
    qed
  qed
qed

text \<open>C25: the factorization of a 64-bit number other than 0 ends, and the numbers it prints are
  primes in ascending order whose product is the number.\<close>

theorem factorize_factors:
  assumes "N \<noteq> 0"
  shows "\<exists>ps. factorize 1 N = Some ps \<and> list_all is_prime (map unat ps) \<and>
    sorted (map unat ps) \<and> prod_list (map unat ps) = unat N"
  using factorize_spec [of N 1] assms unsigned_less [of N, where ?'a = nat]
  by (auto simp: parts_def list_all_iff unat_gt_0)

theorem factorize_factors_witness:
  "\<exists>ps. factorize 1 (18446744073709551615 :: u64) = Some ps \<and> list_all is_prime (map unat ps) \<and>
    sorted (map unat ps) \<and> prod_list (map unat ps) = 18446744073709551615"
  using factorize_factors [of 18446744073709551615] by simp

end
