(* ===== verification/Hash.thy ===== *)
theory Hash imports Prelude begin

text \<open>
  \<open>libbb/hash_md5_sha.c\<close>, first half: MD5 in its four variants, SHA-1, SHA-256 and SHA-512, on a
  little-endian machine.

  The bytes of a context are lists; \<open>memcpy\<close> writes at a position.  The words of a block are read
  from its bytes in memory order, so \<open>SWAP_BE32\<close> is a byte swap and \<open>SWAP_LE32\<close> nothing.  The
  function pointer of \<open>md5_ctx_t\<close> is one of three constructors.  A \<open>begin\<close> function takes the
  memory it does not write as an argument.
\<close>

section \<open>Words and bytes\<close>

definition rotl32 :: "u32 \<Rightarrow> nat \<Rightarrow> u32" where
  "rotl32 x n = push_bit n x OR drop_bit (32 - n) x"

definition rotr32 :: "u32 \<Rightarrow> nat \<Rightarrow> u32" where
  "rotr32 x n = drop_bit n x OR push_bit (32 - n) x"

definition rotr64 :: "u64 \<Rightarrow> nat \<Rightarrow> u64" where
  "rotr64 x n = drop_bit n x OR push_bit (64 - n) x"

definition rotl64 :: "u64 \<Rightarrow> nat \<Rightarrow> u64" where
  "rotl64 x n = push_bit n x OR drop_bit (64 - n) x"

text \<open>A word from its bytes and its bytes, the first byte the lowest.\<close>

fun from_bytes :: "u8 list \<Rightarrow> 'a::len word" where
  "from_bytes [] = 0"
| "from_bytes (b # bs) = ucast b OR push_bit 8 (from_bytes bs)"

definition bytes32 :: "u32 \<Rightarrow> u8 list" where
  "bytes32 w = map (\<lambda>i. ucast (drop_bit (8 * i) w)) [0..<4]"

definition bytes64 :: "u64 \<Rightarrow> u8 list" where
  "bytes64 w = map (\<lambda>i. ucast (drop_bit (8 * i) w)) [0..<8]"

definition bswap32 :: "u32 \<Rightarrow> u32" where
  "bswap32 w = from_bytes (rev (bytes32 w))"

definition bswap64 :: "u64 \<Rightarrow> u64" where
  "bswap64 w = from_bytes (rev (bytes64 w))"

definition words32 :: "u8 list \<Rightarrow> u32 list" where
  "words32 bs = map (\<lambda>i. from_bytes (take 4 (drop (4 * i) bs))) [0..<length bs div 4]"

definition words64 :: "u8 list \<Rightarrow> u64 list" where
  "words64 bs = map (\<lambda>i. from_bytes (take 8 (drop (8 * i) bs))) [0..<length bs div 8]"

definition memcpy :: "u8 list \<Rightarrow> nat \<Rightarrow> u8 list \<Rightarrow> u8 list" where
  "memcpy dst n src = take n dst @ src @ drop (n + length src) dst"

section \<open>The context\<close>

datatype block_fun = md5_process | sha1_process | sha256_process

record md5_ctx =
  wbuffer :: "u8 list"
  process_block :: block_fun
  total64 :: u64
  hash :: "u32 list"

section \<open>MD5\<close>

definition FF :: "u32 \<Rightarrow> u32 \<Rightarrow> u32 \<Rightarrow> u32" where
  "FF b c d = d XOR (b AND (c XOR d))"

definition FG :: "u32 \<Rightarrow> u32 \<Rightarrow> u32 \<Rightarrow> u32" where
  "FG b c d = FF d b c"

definition FH :: "u32 \<Rightarrow> u32 \<Rightarrow> u32 \<Rightarrow> u32" where
  "FH b c d = b XOR c XOR d"

definition FI :: "u32 \<Rightarrow> u32 \<Rightarrow> u32 \<Rightarrow> u32" where
  "FI b c d = c XOR (b OR NOT d)"

definition C_array :: "u32 list" where
  "C_array = [
     0xd76aa478, 0xe8c7b756, 0x242070db, 0xc1bdceee,
     0xf57c0faf, 0x4787c62a, 0xa8304613, 0xfd469501,
     0x698098d8, 0x8b44f7af, 0xffff5bb1, 0x895cd7be,
     0x6b901122, 0xfd987193, 0xa679438e, 0x49b40821,
     0xf61e2562, 0xc040b340, 0x265e5a51, 0xe9b6c7aa,
     0xd62f105d, 0x02441453, 0xd8a1e681, 0xe7d3fbc8,
     0x21e1cde6, 0xc33707d6, 0xf4d50d87, 0x455a14ed,
     0xa9e3e905, 0xfcefa3f8, 0x676f02d9, 0x8d2a4c8a,
     0xfffa3942, 0x8771f681, 0x6d9d6122, 0xfde5380c,
     0xa4beea44, 0x4bdecfa9, 0xf6bb4b60, 0xbebfbc70,
     0x289b7ec6, 0xeaa127fa, 0xd4ef3085, 0x4881d05,
     0xd9d4d039, 0xe6db99e5, 0x1fa27cf8, 0xc4ac5665,
     0xf4292244, 0x432aff97, 0xab9423a7, 0xfc93a039,
     0x655b59c3, 0x8f0ccc92, 0xffeff47d, 0x85845dd1,
     0x6fa87e4f, 0xfe2ce6e0, 0xa3014314, 0x4e0811a1,
     0xf7537e82, 0xbd3af235, 0x2ad7d2bb, 0xeb86d391]"

text \<open>\<open>P_array\<close>: its first row is there for \<open>MD5_SMALL > 1\<close> only.\<close>

definition P_array1 :: "nat list" where
  "P_array1 = [
     1, 6, 11, 0, 5, 10, 15, 4, 9, 14, 3, 8, 13, 2, 7, 12,
     5, 8, 11, 14, 1, 4, 7, 10, 13, 0, 3, 6, 9, 12, 15, 2,
     0, 7, 14, 5, 12, 3, 10, 1, 8, 15, 6, 13, 4, 11, 2, 9]"

definition P_array :: "nat list" where
  "P_array = [0, 1, 2, 3, 4, 5, 6, 7, 8, 9, 10, 11, 12, 13, 14, 15] @ P_array1"

definition S_array :: "nat list" where
  "S_array = [
     7, 12, 17, 22,
     5, 9, 14, 20,
     4, 11, 16, 23,
     6, 10, 15, 21]"

type_synonym md5_vars = "u32 \<times> u32 \<times> u32 \<times> u32"

subsection \<open>\<open>MD5_SMALL == 3\<close>: one loop\<close>

text \<open>\<open>pc\<close> and \<open>pp\<close> advance with \<open>i\<close>; \<open>ps\<close> is the offset of the pointer from
  \<open>S_array - 4\<close>.\<close>

definition md5_step3 :: "u32 list \<Rightarrow> md5_vars \<times> nat \<Rightarrow> nat \<Rightarrow> md5_vars \<times> nat" where
  "md5_step3 words st i =
     (let ((A, B, C, D), ps) = st;
          ps = (if i mod 16 = 0 then ps + 4 else ps);
          temp = A;
          temp = temp + (if i div 16 = 0 then FF B C D
                         else if i div 16 = 1 then FG B C D
                         else if i div 16 = 2 then FH B C D
                         else FI B C D);
          temp = temp + (words ! (P_array ! i) + C_array ! i);
          temp = rotl32 temp (S_array ! (ps - 4 + i mod 4));
          temp = temp + B
      in ((D, temp, B, C), ps))"

definition md5_small3 :: "u32 list \<Rightarrow> md5_vars \<Rightarrow> md5_vars" where
  "md5_small3 words st = fst (foldl (md5_step3 words) (st, 0) [0..<64])"

subsection \<open>\<open>MD5_SMALL == 2\<close>: four loops\<close>

definition md5_step2 ::
    "(u32 \<Rightarrow> u32 \<Rightarrow> u32 \<Rightarrow> u32) \<Rightarrow> nat \<Rightarrow> nat \<Rightarrow> u32 list \<Rightarrow> md5_vars \<Rightarrow> nat \<Rightarrow> md5_vars" where
  "md5_step2 f p ps words st i =
     (let (A, B, C, D) = st;
          temp = A + f B C D + words ! (P_array ! (p + i)) + C_array ! (p + i);
          temp = rotl32 temp (S_array ! (ps + i mod 4));
          temp = temp + B
      in (D, temp, B, C))"

definition md5_small2 :: "u32 list \<Rightarrow> md5_vars \<Rightarrow> md5_vars" where
  "md5_small2 words st =
     (let st = foldl (md5_step2 FF 0 0 words) st [0..<16];
          st = foldl (md5_step2 FG 16 4 words) st [0..<16];
          st = foldl (md5_step2 FH 32 8 words) st [0..<16]
      in foldl (md5_step2 FI 48 12 words) st [0..<16])"

subsection \<open>\<open>MD5_SMALL == 0\<close> and \<open>1\<close>: the variables rotate\<close>

text \<open>The macro \<open>OP\<close>, and the four \<open>OP\<close> lines that update \<open>A\<close>, \<open>D\<close>, \<open>C\<close> and \<open>B\<close> in turn.\<close>

definition md5_op ::
    "(u32 \<Rightarrow> u32 \<Rightarrow> u32 \<Rightarrow> u32) \<Rightarrow> u32 \<Rightarrow> u32 \<Rightarrow> u32 \<Rightarrow> u32 \<Rightarrow> u32 \<Rightarrow> nat \<Rightarrow> u32 \<Rightarrow> u32" where
  "md5_op f a b c d w s T = rotl32 (a + (f b c d + w + T)) s + b"

definition md5_quad ::
    "(u32 \<Rightarrow> u32 \<Rightarrow> u32 \<Rightarrow> u32) \<Rightarrow> u32 list \<Rightarrow> nat \<times> nat \<times> nat \<times> nat \<Rightarrow> nat \<times> nat \<times> nat \<times> nat \<Rightarrow>
     u32 \<times> u32 \<times> u32 \<times> u32 \<Rightarrow> md5_vars \<Rightarrow> md5_vars" where
  "md5_quad f words k s T st =
     (let (k0, k1, k2, k3) = k;
          (s0, s1, s2, s3) = s;
          (T0, T1, T2, T3) = T;
          (A, B, C, D) = st;
          A = md5_op f A B C D (words ! k0) s0 T0;
          D = md5_op f D A B C (words ! k1) s1 T1;
          C = md5_op f C D A B (words ! k2) s2 T2;
          B = md5_op f B C D A (words ! k3) s3 T3
      in (A, B, C, D))"

definition P_quad :: "nat \<Rightarrow> nat \<times> nat \<times> nat \<times> nat" where
  "P_quad n = (P_array1 ! n, P_array1 ! (n + 1), P_array1 ! (n + 2), P_array1 ! (n + 3))"

definition C_quad :: "nat \<Rightarrow> u32 \<times> u32 \<times> u32 \<times> u32" where
  "C_quad n = (C_array ! n, C_array ! (n + 1), C_array ! (n + 2), C_array ! (n + 3))"

definition md5_small1 :: "u32 list \<Rightarrow> md5_vars \<Rightarrow> md5_vars" where
  "md5_small1 words st =
     (let st = foldl (\<lambda>st i. md5_quad FF words (4 * i, 4 * i + 1, 4 * i + 2, 4 * i + 3)
                 (7, 12, 17, 22) (C_quad (4 * i)) st) st [0..<4];
          st = foldl (\<lambda>st i. md5_quad FG words (P_quad (4 * i))
                 (5, 9, 14, 20) (C_quad (16 + 4 * i)) st) st [0..<4];
          st = foldl (\<lambda>st i. md5_quad FH words (P_quad (16 + 4 * i))
                 (4, 11, 16, 23) (C_quad (32 + 4 * i)) st) st [0..<4]
      in foldl (\<lambda>st i. md5_quad FI words (P_quad (32 + 4 * i))
                 (6, 10, 15, 21) (C_quad (48 + 4 * i)) st) st [0..<4])"

definition md5_round_FF :: "u32 list \<Rightarrow> md5_vars \<Rightarrow> md5_vars" where
  "md5_round_FF words st = foldl (\<lambda>st q. q st) st [
     md5_quad FF words (0, 1, 2, 3) (7, 12, 17, 22) (0xd76aa478, 0xe8c7b756, 0x242070db, 0xc1bdceee),
     md5_quad FF words (4, 5, 6, 7) (7, 12, 17, 22) (0xf57c0faf, 0x4787c62a, 0xa8304613, 0xfd469501),
     md5_quad FF words (8, 9, 10, 11) (7, 12, 17, 22) (0x698098d8, 0x8b44f7af, 0xffff5bb1, 0x895cd7be),
     md5_quad FF words (12, 13, 14, 15) (7, 12, 17, 22) (0x6b901122, 0xfd987193, 0xa679438e, 0x49b40821)]"

definition md5_round_FG :: "u32 list \<Rightarrow> md5_vars \<Rightarrow> md5_vars" where
  "md5_round_FG words st = foldl (\<lambda>st q. q st) st [
     md5_quad FG words (1, 6, 11, 0) (5, 9, 14, 20) (0xf61e2562, 0xc040b340, 0x265e5a51, 0xe9b6c7aa),
     md5_quad FG words (5, 10, 15, 4) (5, 9, 14, 20) (0xd62f105d, 0x02441453, 0xd8a1e681, 0xe7d3fbc8),
     md5_quad FG words (9, 14, 3, 8) (5, 9, 14, 20) (0x21e1cde6, 0xc33707d6, 0xf4d50d87, 0x455a14ed),
     md5_quad FG words (13, 2, 7, 12) (5, 9, 14, 20) (0xa9e3e905, 0xfcefa3f8, 0x676f02d9, 0x8d2a4c8a)]"

definition md5_round_FH :: "u32 list \<Rightarrow> md5_vars \<Rightarrow> md5_vars" where
  "md5_round_FH words st = foldl (\<lambda>st q. q st) st [
     md5_quad FH words (5, 8, 11, 14) (4, 11, 16, 23) (0xfffa3942, 0x8771f681, 0x6d9d6122, 0xfde5380c),
     md5_quad FH words (1, 4, 7, 10) (4, 11, 16, 23) (0xa4beea44, 0x4bdecfa9, 0xf6bb4b60, 0xbebfbc70),
     md5_quad FH words (13, 0, 3, 6) (4, 11, 16, 23) (0x289b7ec6, 0xeaa127fa, 0xd4ef3085, 0x04881d05),
     md5_quad FH words (9, 12, 15, 2) (4, 11, 16, 23) (0xd9d4d039, 0xe6db99e5, 0x1fa27cf8, 0xc4ac5665)]"

definition md5_round_FI :: "u32 list \<Rightarrow> md5_vars \<Rightarrow> md5_vars" where
  "md5_round_FI words st = foldl (\<lambda>st q. q st) st [
     md5_quad FI words (0, 7, 14, 5) (6, 10, 15, 21) (0xf4292244, 0x432aff97, 0xab9423a7, 0xfc93a039),
     md5_quad FI words (12, 3, 10, 1) (6, 10, 15, 21) (0x655b59c3, 0x8f0ccc92, 0xffeff47d, 0x85845dd1),
     md5_quad FI words (8, 15, 6, 13) (6, 10, 15, 21) (0x6fa87e4f, 0xfe2ce6e0, 0xa3014314, 0x4e0811a1),
     md5_quad FI words (4, 11, 2, 9) (6, 10, 15, 21) (0xf7537e82, 0xbd3af235, 0x2ad7d2bb, 0xeb86d391)]"

definition md5_small0 :: "u32 list \<Rightarrow> md5_vars \<Rightarrow> md5_vars" where
  "md5_small0 words st =
     md5_round_FI words (md5_round_FH words (md5_round_FG words (md5_round_FF words st)))"

subsection \<open>The block function\<close>

text \<open>\<open>MD5_SMALL\<close>: the configuration value clamped to 0..3.\<close>

definition MD5_SMALL :: "int \<Rightarrow> int" where
  "MD5_SMALL config = (if config < 0 then 0 else if config > 3 then 3 else config)"

definition md5_rounds :: "int \<Rightarrow> u32 list \<Rightarrow> md5_vars \<Rightarrow> md5_vars" where
  "md5_rounds config =
     (if MD5_SMALL config = 3 then md5_small3
      else if MD5_SMALL config = 2 then md5_small2
      else if MD5_SMALL config = 1 then md5_small1
      else md5_small0)"

text \<open>\<open>add_hash\<close>: \<open>ctx->hash[i] += \<dots>\<close> for the leading elements.\<close>

fun add_hash :: "'a::len word list \<Rightarrow> 'a word list \<Rightarrow> 'a word list" where
  "add_hash (h # hs) (v # vs) = (h + v) # add_hash hs vs"
| "add_hash hs [] = hs"
| "add_hash [] vs = []"

definition md5_block :: "int \<Rightarrow> u32 list \<Rightarrow> u8 list \<Rightarrow> u32 list" where
  "md5_block config h block =
     (let (A, B, C, D) = md5_rounds config (words32 block) (h ! 0, h ! 1, h ! 2, h ! 3)
      in add_hash h [A, B, C, D])"

section \<open>SHA-1\<close>

definition rconsts :: "u32 list" where
  "rconsts = [0x5A827999, 0x6ED9EBA1, 0x8F1BBCDC, 0xCA62C1D6]"

type_synonym sha1_vars = "u32 \<times> u32 \<times> u32 \<times> u32 \<times> u32"

text \<open>One pass of the \<open>do\<close> loop of round \<open>i\<close> with counter \<open>j\<close>; the label \<open>ge16\<close> is the second
  branch of \<open>ge16\<close>.\<close>

definition sha1_step :: "u32 list \<times> nat \<times> sha1_vars \<Rightarrow> nat \<times> nat \<Rightarrow> u32 list \<times> nat \<times> sha1_vars" where
  "sha1_step st ij =
     (let (W, cnt, a, b, c, d, e) = st;
          (i, j) = ij;
          work = c XOR d;
          work = (if i = 0 then (work AND b) XOR d
                  else if i = 2 then ((b OR c) AND d) OR (b AND c)
                  else work XOR b);
          W = (if i = 0 \<and> \<not> j \<le> 3 then W
               else let w = rotl32 (W ! (cnt + 13) XOR W ! (cnt + 8) XOR W ! (cnt + 2) XOR W ! cnt) 1
                    in W [cnt + 16 := w, cnt := w]);
          work = work + W ! cnt;
          work = work + (e + rotl32 a 5 + rconsts ! i)
      in (W, (cnt + 1) mod 16, work, a, rotl32 b 30, c, d))"

definition sha1_schedule :: "u8 list \<Rightarrow> u32 list" where
  "sha1_schedule block = (let ws = map bswap32 (words32 block) in ws @ ws)"

definition sha1_counters :: "(nat \<times> nat) list" where
  "sha1_counters = concat (map (\<lambda>i. map (\<lambda>j. (i, j)) (rev [0..<20])) [0..<4])"

definition sha1_block :: "u32 list \<Rightarrow> u8 list \<Rightarrow> u32 list" where
  "sha1_block h block =
     (let (W, cnt, a, b, c, d, e) =
        foldl sha1_step (sha1_schedule block, 0, h ! 0, h ! 1, h ! 2, h ! 3, h ! 4) sha1_counters
      in add_hash h [a, b, c, d, e])"

section \<open>SHA-256 and SHA-512\<close>

definition sha_K :: "u64 list" where
  "sha_K = [
     0x428a2f98d728ae22, 0x7137449123ef65cd,
     0xb5c0fbcfec4d3b2f, 0xe9b5dba58189dbbc,
     0x3956c25bf348b538, 0x59f111f1b605d019,
     0x923f82a4af194f9b, 0xab1c5ed5da6d8118,
     0xd807aa98a3030242, 0x12835b0145706fbe,
     0x243185be4ee4b28c, 0x550c7dc3d5ffb4e2,
     0x72be5d74f27b896f, 0x80deb1fe3b1696b1,
     0x9bdc06a725c71235, 0xc19bf174cf692694,
     0xe49b69c19ef14ad2, 0xefbe4786384f25e3,
     0x0fc19dc68b8cd5b5, 0x240ca1cc77ac9c65,
     0x2de92c6f592b0275, 0x4a7484aa6ea6e483,
     0x5cb0a9dcbd41fbd4, 0x76f988da831153b5,
     0x983e5152ee66dfab, 0xa831c66d2db43210,
     0xb00327c898fb213f, 0xbf597fc7beef0ee4,
     0xc6e00bf33da88fc2, 0xd5a79147930aa725,
     0x06ca6351e003826f, 0x142929670a0e6e70,
     0x27b70a8546d22ffc, 0x2e1b21385c26c926,
     0x4d2c6dfc5ac42aed, 0x53380d139d95b3df,
     0x650a73548baf63de, 0x766a0abb3c77b2a8,
     0x81c2c92e47edaee6, 0x92722c851482353b,
     0xa2bfe8a14cf10364, 0xa81a664bbc423001,
     0xc24b8b70d0f89791, 0xc76c51a30654be30,
     0xd192e819d6ef5218, 0xd69906245565a910,
     0xf40e35855771202a, 0x106aa07032bbd1b8,
     0x19a4c116b8d2d0c8, 0x1e376c085141ab53,
     0x2748774cdf8eeb99, 0x34b0bcb5e19b48a8,
     0x391c0cb3c5c95a63, 0x4ed8aa4ae3418acb,
     0x5b9cca4f7763e373, 0x682e6ff3d6b2b8a3,
     0x748f82ee5defb2fc, 0x78a5636f43172f60,
     0x84c87814a1f0ab72, 0x8cc702081a6439ec,
     0x90befffa23631e28, 0xa4506cebde82bde9,
     0xbef9a3f7b2c67915, 0xc67178f2e372532b,
     0xca273eceea26619c, 0xd186b8c721c0c207,
     0xeada7dd6cde0eb1e, 0xf57d4f7fee6ed178,
     0x06f067aa72176fba, 0x0a637dc5a2c898a6,
     0x113f9804bef90dae, 0x1b710b35131c471b,
     0x28db77f523047d84, 0x32caab7b40c72493,
     0x3c9ebe0a15c9bebc, 0x431d67c49c100d4c,
     0x4cc5d4becb3e42b6, 0x597f299cfc657e2a,
     0x5fcb6fab3ad6faec, 0x6c44198c4a475817]"

definition Ch :: "'a::len word \<Rightarrow> 'a word \<Rightarrow> 'a word \<Rightarrow> 'a word" where
  "Ch x y z = (x AND y) XOR (NOT x AND z)"

definition Maj :: "'a::len word \<Rightarrow> 'a word \<Rightarrow> 'a word \<Rightarrow> 'a word" where
  "Maj x y z = (x AND y) XOR (x AND z) XOR (y AND z)"

definition S0_256 :: "u32 \<Rightarrow> u32" where "S0_256 x = rotr32 x 2 XOR rotr32 x 13 XOR rotr32 x 22"
definition S1_256 :: "u32 \<Rightarrow> u32" where "S1_256 x = rotr32 x 6 XOR rotr32 x 11 XOR rotr32 x 25"
definition R0_256 :: "u32 \<Rightarrow> u32" where "R0_256 x = rotr32 x 7 XOR rotr32 x 18 XOR drop_bit 3 x"
definition R1_256 :: "u32 \<Rightarrow> u32" where "R1_256 x = rotr32 x 17 XOR rotr32 x 19 XOR drop_bit 10 x"
definition S0_512 :: "u64 \<Rightarrow> u64" where "S0_512 x = rotr64 x 28 XOR rotr64 x 34 XOR rotr64 x 39"
definition S1_512 :: "u64 \<Rightarrow> u64" where "S1_512 x = rotr64 x 14 XOR rotr64 x 18 XOR rotr64 x 41"
definition R0_512 :: "u64 \<Rightarrow> u64" where "R0_512 x = rotr64 x 1 XOR rotr64 x 8 XOR drop_bit 7 x"
definition R1_512 :: "u64 \<Rightarrow> u64" where "R1_512 x = rotr64 x 19 XOR rotr64 x 61 XOR drop_bit 6 x"

type_synonym 'a sha2_vars = "'a \<times> 'a \<times> 'a \<times> 'a \<times> 'a \<times> 'a \<times> 'a \<times> 'a"

definition sha256_schedule :: "u8 list \<Rightarrow> u32 list" where
  "sha256_schedule block =
     foldl (\<lambda>W t. W @ [R1_256 (W ! (t - 2)) + W ! (t - 7) + R0_256 (W ! (t - 15)) + W ! (t - 16)])
       (map bswap32 (words32 block)) [16..<64]"

definition sha256_step :: "u32 list \<Rightarrow> u32 sha2_vars \<Rightarrow> nat \<Rightarrow> u32 sha2_vars" where
  "sha256_step W st t =
     (let (a, b, c, d, e, f, g, h) = st;
          K_t = ucast (drop_bit 32 (sha_K ! t)) :: u32;
          T1 = h + S1_256 e + Ch e f g + K_t + W ! t;
          T2 = S0_256 a + Maj a b c
      in (T1 + T2, a, b, c, d + T1, e, f, g))"

definition sha256_block :: "u32 list \<Rightarrow> u8 list \<Rightarrow> u32 list" where
  "sha256_block hs block =
     (let (a, b, c, d, e, f, g, h) =
        foldl (sha256_step (sha256_schedule block))
          (hs ! 0, hs ! 1, hs ! 2, hs ! 3, hs ! 4, hs ! 5, hs ! 6, hs ! 7) [0..<64]
      in add_hash hs [a, b, c, d, e, f, g, h])"

definition sha512_schedule :: "u8 list \<Rightarrow> u64 list" where
  "sha512_schedule block =
     foldl (\<lambda>W t. W @ [R1_512 (W ! (t - 2)) + W ! (t - 7) + R0_512 (W ! (t - 15)) + W ! (t - 16)])
       (map bswap64 (words64 block)) [16..<80]"

definition sha512_step :: "u64 list \<Rightarrow> u64 sha2_vars \<Rightarrow> nat \<Rightarrow> u64 sha2_vars" where
  "sha512_step W st t =
     (let (a, b, c, d, e, f, g, h) = st;
          T1 = h + S1_512 e + Ch e f g + sha_K ! t + W ! t;
          T2 = S0_512 a + Maj a b c
      in (T1 + T2, a, b, c, d + T1, e, f, g))"

definition sha512_block :: "u64 list \<Rightarrow> u8 list \<Rightarrow> u64 list" where
  "sha512_block hs block =
     (let (a, b, c, d, e, f, g, h) =
        foldl (sha512_step (sha512_schedule block))
          (hs ! 0, hs ! 1, hs ! 2, hs ! 3, hs ! 4, hs ! 5, hs ! 6, hs ! 7) [0..<80]
      in add_hash hs [a, b, c, d, e, f, g, h])"

section \<open>Begin, hash and end with 64-byte blocks\<close>

definition process :: "int \<Rightarrow> md5_ctx \<Rightarrow> md5_ctx" where
  "process config ctx = ctx \<lparr>hash :=
     (case process_block ctx of
        md5_process \<Rightarrow> md5_block config (hash ctx) (wbuffer ctx)
      | sha1_process \<Rightarrow> sha1_block (hash ctx) (wbuffer ctx)
      | sha256_process \<Rightarrow> sha256_block (hash ctx) (wbuffer ctx))\<rparr>"

definition md5_begin :: "md5_ctx \<Rightarrow> md5_ctx" where
  "md5_begin ctx = ctx \<lparr>hash := [0x67452301, 0xefcdab89, 0x98badcfe, 0x10325476] @ drop 4 (hash ctx),
     total64 := 0, process_block := md5_process\<rparr>"

definition sha1_begin :: "md5_ctx \<Rightarrow> md5_ctx" where
  "sha1_begin ctx = ctx \<lparr>hash := [0x67452301, 0xefcdab89, 0x98badcfe, 0x10325476, 0xc3d2e1f0] @ drop 5 (hash ctx),
     total64 := 0, process_block := sha1_process\<rparr>"

definition init256 :: "u32 list" where
  "init256 = [
     0, 0, 0x6a09e667, 0xbb67ae85, 0x3c6ef372,
     0xa54ff53a, 0x510e527f, 0x9b05688c, 0x1f83d9ab, 0x5be0cd19]"

text \<open>The copy of \<open>init256\<close> starts at \<open>total64\<close>.\<close>

definition sha256_begin :: "md5_ctx \<Rightarrow> md5_ctx" where
  "sha256_begin ctx = ctx \<lparr>total64 := ucast (init256 ! 0) OR push_bit 32 (ucast (init256 ! 1)),
     hash := drop 2 init256, process_block := sha256_process\<rparr>"

function md5_hash_loop :: "int \<Rightarrow> md5_ctx \<Rightarrow> nat \<Rightarrow> u8 list \<Rightarrow> md5_ctx" where
  "md5_hash_loop config ctx bufpos buffer =
     (let remaining = min (64 - bufpos) (length buffer);
          ctx = ctx \<lparr>wbuffer := memcpy (wbuffer ctx) bufpos (take remaining buffer)\<rparr>
      in if bufpos + remaining \<noteq> 64 then ctx
         else md5_hash_loop config (process config ctx) 0 (drop remaining buffer))"
  by pat_completeness auto
termination by (relation "measures [\<lambda>(_, _, _, b). length b, \<lambda>(_, _, p, _). p]") auto

definition md5_hash :: "int \<Rightarrow> md5_ctx \<Rightarrow> u8 list \<Rightarrow> md5_ctx" where
  "md5_hash config ctx buffer =
     (let bufpos = unat (total64 ctx AND 63)
      in md5_hash_loop config (ctx \<lparr>total64 := total64 ctx + word_of_nat (length buffer)\<rparr>) bufpos buffer)"

function common64_loop :: "int \<Rightarrow> bool \<Rightarrow> md5_ctx \<Rightarrow> nat \<Rightarrow> md5_ctx" where
  "common64_loop config swap_needed ctx bufpos =
     (let remaining = 64 - bufpos;
          ctx = ctx \<lparr>wbuffer := memcpy (wbuffer ctx) bufpos (replicate remaining 0)\<rparr>
      in if remaining \<ge> 8 then
           let t = push_bit 3 (total64 ctx);
               t = (if swap_needed then bswap64 t else t)
           in process config (ctx \<lparr>wbuffer := memcpy (wbuffer ctx) (64 - 8) (bytes64 t)\<rparr>)
         else common64_loop config swap_needed (process config ctx) 0)"
  by pat_completeness auto
termination by (relation "measure (\<lambda>(_, _, _, p). p)") auto

definition common64_end :: "int \<Rightarrow> md5_ctx \<Rightarrow> bool \<Rightarrow> md5_ctx" where
  "common64_end config ctx swap_needed =
     (let bufpos = unat (total64 ctx AND 63)
      in common64_loop config swap_needed
           (ctx \<lparr>wbuffer := memcpy (wbuffer ctx) bufpos [0x80]\<rparr>) (bufpos + 1))"

text \<open>The \<open>end\<close> functions: the context they leave and the bytes they put into the result
  buffer.\<close>

definition md5_end :: "int \<Rightarrow> md5_ctx \<Rightarrow> md5_ctx \<times> u8 list" where
  "md5_end config ctx =
     (let ctx = common64_end config ctx False
      in (ctx, concat (map bytes32 (take 4 (hash ctx)))))"

definition sha1_end :: "int \<Rightarrow> md5_ctx \<Rightarrow> md5_ctx \<times> u8 list" where
  "sha1_end config ctx =
     (let ctx = common64_end config ctx True;
          hash_size = (if process_block ctx = sha1_process then 5 else 8);
          ctx = ctx \<lparr>hash := map bswap32 (take hash_size (hash ctx)) @ drop hash_size (hash ctx)\<rparr>
      in (ctx, concat (map bytes32 (take hash_size (hash ctx)))))"

section \<open>SHA-512\<close>

record sha512_ctx =
  total512 :: "u64 \<times> u64"
  hash512 :: "u64 list"
  wbuffer512 :: "u8 list"

definition init512_lo :: "u32 list" where
  "init512_lo = [
     0, 0, 0xf3bcc908, 0x84caa73b, 0xfe94f82b,
     0x5f1d36f1, 0xade682d1, 0x2b3e6c1f, 0xfb41bd6b, 0x137e2179]"

definition sha512_begin :: "sha512_ctx \<Rightarrow> sha512_ctx" where
  "sha512_begin ctx =
     (let tp = map (\<lambda>i. push_bit 32 (ucast (init256 ! i)) + ucast (init512_lo ! i)) [0..<8 + 2]
      in ctx \<lparr>total512 := (tp ! 0, tp ! 1), hash512 := drop 2 tp\<rparr>)"

definition process512 :: "sha512_ctx \<Rightarrow> sha512_ctx" where
  "process512 ctx = ctx \<lparr>hash512 := sha512_block (hash512 ctx) (wbuffer512 ctx)\<rparr>"

function sha512_hash_loop :: "sha512_ctx \<Rightarrow> nat \<Rightarrow> u8 list \<Rightarrow> sha512_ctx" where
  "sha512_hash_loop ctx bufpos buffer =
     (let remaining = min (128 - bufpos) (length buffer);
          ctx = ctx \<lparr>wbuffer512 := memcpy (wbuffer512 ctx) bufpos (take remaining buffer)\<rparr>
      in if bufpos + remaining \<noteq> 128 then ctx
         else sha512_hash_loop (process512 ctx) 0 (drop remaining buffer))"
  by pat_completeness auto
termination by (relation "measures [\<lambda>(_, _, b). length b, \<lambda>(_, p, _). p]") auto

definition sha512_hash :: "sha512_ctx \<Rightarrow> u8 list \<Rightarrow> sha512_ctx" where
  "sha512_hash ctx buffer =
     (let (lo, hi) = total512 ctx;
          bufpos = unat (lo AND 127);
          len = word_of_nat (length buffer);
          lo = lo + len;
          hi = (if lo < len then hi + 1 else hi)
      in sha512_hash_loop (ctx \<lparr>total512 := (lo, hi)\<rparr>) bufpos buffer)"

function sha512_end_loop :: "sha512_ctx \<Rightarrow> nat \<Rightarrow> sha512_ctx" where
  "sha512_end_loop ctx bufpos =
     (let remaining = 128 - bufpos;
          ctx = ctx \<lparr>wbuffer512 := memcpy (wbuffer512 ctx) bufpos (replicate remaining 0)\<rparr>
      in if remaining \<ge> 16 then
           let (lo, hi) = total512 ctx;
               t = bswap64 (push_bit 3 lo);
               ctx = ctx \<lparr>wbuffer512 := memcpy (wbuffer512 ctx) (128 - 8) (bytes64 t)\<rparr>;
               t = bswap64 (push_bit 3 hi OR drop_bit 61 lo);
               ctx = ctx \<lparr>wbuffer512 := memcpy (wbuffer512 ctx) (128 - 16) (bytes64 t)\<rparr>
           in process512 ctx
         else sha512_end_loop (process512 ctx) 0)"
  by pat_completeness auto
termination by (relation "measure (\<lambda>(_, p). p)") auto

definition sha512_end :: "sha512_ctx \<Rightarrow> sha512_ctx \<times> u8 list" where
  "sha512_end ctx =
     (let bufpos = unat (fst (total512 ctx) AND 127);
          ctx = sha512_end_loop (ctx \<lparr>wbuffer512 := memcpy (wbuffer512 ctx) bufpos [0x80]\<rparr>) (bufpos + 1);
          ctx = ctx \<lparr>hash512 := map bswap64 (hash512 ctx)\<rparr>
      in (ctx, concat (map bytes64 (hash512 ctx))))"

declare md5_hash_loop.simps [simp del] common64_loop.simps [simp del]
  sha512_hash_loop.simps [simp del] sha512_end_loop.simps [simp del]

end
