(* ===== verification/Sha3.thy ===== *)
theory Sha3 imports Hash begin

text \<open>
  \<open>libbb/hash_md5_sha.c\<close>, second half: the Keccak sponge of \<open>sha3sum\<close>, for both values of
  \<open>SHA3_SMALL\<close>, on a little-endian machine with a 64-bit \<open>long\<close>.

  The state is 25 lanes of 64 bits; byte \<open>n\<close> of the state is byte \<open>n mod 8\<close> of lane
  \<open>n div 8\<close>.
\<close>

section \<open>The permutation\<close>

definition IOTA_CONST :: "u64 list" where
  "IOTA_CONST = [
     0x0001, 0x8082, 0x808a, 0x8000, 0x808b, 0x0001, 0x8081, 0x8009,
     0x008a, 0x0088, 0x8009, 0x000a, 0x808b, 0x008b, 0x8089, 0x8003,
     0x8002, 0x0080, 0x800a, 0x000a, 0x8081, 0x8080, 0x0001, 0x8008]"

definition IOTA_CONST_bit63 :: u32 where "IOTA_CONST_bit63 = 0x3307dd00"
definition IOTA_CONST_bit31 :: u32 where "IOTA_CONST_bit31 = 0x16381b00"

definition ROT_CONST :: "nat list" where
  "ROT_CONST = [1, 3, 6, 10, 15, 21, 28, 36, 45, 55, 2, 14,
     27, 41, 56, 8, 25, 43, 62, 18, 39, 61, 20, 44]"

definition PI_LANE :: "nat list" where
  "PI_LANE = [10, 7, 11, 17, 18, 3, 5, 16, 8, 21, 24, 4,
     15, 23, 19, 13, 12, 2, 20, 14, 22, 9, 6, 1]"

text \<open>Theta: the column parities, then each column.  \<open>BC\<close> holds the parities twice.\<close>

definition theta_parity :: "u64 list \<Rightarrow> u64 list" where
  "theta_parity s =
     (let BC = map (\<lambda>x. s ! x XOR s ! (x + 5) XOR s ! (x + 10) XOR s ! (x + 15) XOR s ! (x + 20)) [0..<5]
      in BC @ BC)"

definition theta_column :: "u64 list \<Rightarrow> u64 list \<Rightarrow> nat \<Rightarrow> u64 list" where
  "theta_column BC s x =
     (let temp = BC ! (x + 4) XOR rotl64 (BC ! (x + 1)) 1
      in s [x := s ! x XOR temp, x + 5 := s ! (x + 5) XOR temp, x + 10 := s ! (x + 10) XOR temp,
            x + 15 := s ! (x + 15) XOR temp, x + 20 := s ! (x + 20) XOR temp])"

definition sha3_theta :: "u64 list \<Rightarrow> u64 list" where
  "sha3_theta s = foldl (theta_column (theta_parity s)) s [0..<5]"

definition rho_pi_step :: "u64 list \<times> u64 \<Rightarrow> nat \<Rightarrow> u64 list \<times> u64" where
  "rho_pi_step st x =
     (let (s, t1) = st;
          t0 = s ! (PI_LANE ! x)
      in (s [PI_LANE ! x := rotl64 t1 (ROT_CONST ! x)], t0))"

definition rho_pi_twice :: "u64 list \<times> u64 \<Rightarrow> nat \<Rightarrow> u64 list \<times> u64" where
  "rho_pi_twice st x =
     (let (s, t1) = st;
          t0 = s ! (PI_LANE ! x);
          s = s [PI_LANE ! x := rotl64 t1 (ROT_CONST ! x)];
          t1 = s ! (PI_LANE ! (x + 1));
          s = s [PI_LANE ! (x + 1) := rotl64 t0 (ROT_CONST ! (x + 1))]
      in (s, t1))"

definition sha3_rho_pi :: "bool \<Rightarrow> u64 list \<Rightarrow> u64 list" where
  "sha3_rho_pi small s =
     (if small then fst (foldl rho_pi_step (s, s ! 1) [0..<24])
      else fst (foldl rho_pi_twice (s, s ! 1) [0, 2, 4, 6, 8, 10, 12, 14, 16, 18, 20, 22]))"

definition chi_row :: "u64 list \<Rightarrow> nat \<Rightarrow> u64 list" where
  "chi_row s x =
     (let BC0 = s ! (x + 0); BC1 = s ! (x + 1); BC2 = s ! (x + 2);
          s = s [x + 0 := BC0 XOR (NOT BC1 AND BC2)];
          BC3 = s ! (x + 3);
          s = s [x + 1 := BC1 XOR (NOT BC2 AND BC3)];
          BC4 = s ! (x + 4)
      in s [x + 2 := BC2 XOR (NOT BC3 AND BC4), x + 3 := BC3 XOR (NOT BC4 AND BC0),
            x + 4 := BC4 XOR (NOT BC0 AND BC1)])"

definition sha3_chi :: "u64 list \<Rightarrow> u64 list" where
  "sha3_chi s = foldl chi_row s [0, 5, 10, 15, 20]"

definition iota_const :: "nat \<Rightarrow> u64" where
  "iota_const round =
     IOTA_CONST ! round
     OR ucast (push_bit round IOTA_CONST_bit31 AND 0x80000000)
     OR push_bit 32 (ucast (push_bit round IOTA_CONST_bit63 AND 0x80000000))"

definition sha3_iota :: "nat \<Rightarrow> u64 list \<Rightarrow> u64 list" where
  "sha3_iota round s = s [0 := s ! 0 XOR iota_const round]"

definition sha3_process_block72 :: "bool \<Rightarrow> u64 list \<Rightarrow> u64 list" where
  "sha3_process_block72 small s =
     foldl (\<lambda>s round. sha3_iota round (sha3_chi (sha3_rho_pi small (sha3_theta s)))) s [0..<24]"

section \<open>The sponge\<close>

record sha3_ctx =
  state3 :: "u64 list"
  bytes_queued :: nat
  input_block_bytes :: nat

definition sha3_begin :: sha3_ctx where
  "sha3_begin = \<lparr>state3 = replicate 25 0, bytes_queued = 0, input_block_bytes = (1600 - 512 * 2) div 8\<rparr>"

text \<open>\<open>buf[bufpos] ^= b\<close> on the bytes of the state.\<close>

definition xor_byte :: "u64 list \<Rightarrow> nat \<Rightarrow> u8 \<Rightarrow> u64 list" where
  "xor_byte s bufpos b =
     s [bufpos div 8 := s ! (bufpos div 8) XOR push_bit (8 * (bufpos mod 8)) (ucast b)]"

fun xor_bytes :: "u64 list \<Rightarrow> nat \<Rightarrow> u8 list \<Rightarrow> u64 list" where
  "xor_bytes s bufpos [] = s"
| "xor_bytes s bufpos (b # bs) = xor_bytes (xor_byte s bufpos b) (bufpos + 1) bs"

subsection \<open>\<open>SHA3_SMALL\<close>\<close>

text \<open>The state and the final \<open>bufpos\<close>.  A block of 0 bytes would never end; no width the applet
  accepts gives one.\<close>

function sha3_hash_loop :: "nat \<Rightarrow> u64 list \<Rightarrow> nat \<Rightarrow> u8 list \<Rightarrow> u64 list \<times> nat" where
  "sha3_hash_loop iblk s bufpos data =
     (let remaining = min (iblk - bufpos) (length data);
          s = xor_bytes s bufpos (take remaining data)
      in if bufpos + remaining \<noteq> iblk \<or> iblk = 0 then (s, bufpos + remaining)
         else sha3_hash_loop iblk (sha3_process_block72 True s) 0 (drop remaining data))"
  by pat_completeness auto
termination by (relation "measures [\<lambda>(_, _, _, b). length b, \<lambda>(_, _, p, _). p]") auto

subsection \<open>Word by word\<close>

text \<open>The bytes that complete a queued block: the state, \<open>bufpos\<close>, the rest of the data and
  whether the loop left through \<open>do_block\<close>.\<close>

fun fill_queue :: "nat \<Rightarrow> u64 list \<Rightarrow> nat \<Rightarrow> u8 list \<Rightarrow> u64 list \<times> nat \<times> u8 list \<times> bool" where
  "fill_queue iblk s bufpos [] = (s, bufpos, [], False)"
| "fill_queue iblk s bufpos (b # data) =
     (let s = xor_byte s bufpos b
      in if bufpos + 1 = iblk then (s, 0, data, True)
         else fill_queue iblk s (bufpos + 1) data)"

text \<open>\<open>count\<close> words onto the beginning of the state; \<open>i\<close> is the lane.  The \<open>do\<close> loop needs
  \<open>count\<close> to be at least 1, a block of 8 bytes.\<close>

fun xor_words :: "nat \<Rightarrow> nat \<Rightarrow> u64 list \<Rightarrow> u8 list \<Rightarrow> u64 list" where
  "xor_words 0 i s data = s"
| "xor_words (Suc count) i s data =
     xor_words count (i + 1) (s [i := s ! i XOR from_bytes (take 8 data)]) (drop 8 data)"

function absorb_blocks :: "nat \<Rightarrow> u64 list \<Rightarrow> u8 list \<Rightarrow> u64 list \<times> u8 list" where
  "absorb_blocks iblk s data =
     (if length data \<ge> iblk \<and> iblk div 8 \<noteq> 0 then
        absorb_blocks iblk (sha3_process_block72 False (xor_words (iblk div 8) 0 s data))
          (take (length data - iblk) (drop (8 * (iblk div 8)) data))
      else (s, data))"
  by pat_completeness auto
termination by (relation "measure (\<lambda>(_, _, d). length d)") auto

definition sha3_hash_fast :: "nat \<Rightarrow> u64 list \<Rightarrow> nat \<Rightarrow> u8 list \<Rightarrow> u64 list \<times> nat" where
  "sha3_hash_fast iblk s bufpos data =
     (let (s, bufpos, data, full) = (if bufpos \<noteq> 0 then fill_queue iblk s bufpos data else (s, bufpos, data, False));
          s = (if full then sha3_process_block72 False s else s);
          (s, data) = absorb_blocks iblk s data
      in (xor_bytes s bufpos data, bufpos + length data))"

definition sha3_hash :: "bool \<Rightarrow> sha3_ctx \<Rightarrow> u8 list \<Rightarrow> sha3_ctx" where
  "sha3_hash small ctx buffer =
     (let (s, bufpos) = (if small then sha3_hash_loop else sha3_hash_fast)
            (input_block_bytes ctx) (state3 ctx) (bytes_queued ctx) buffer
      in ctx \<lparr>state3 := s, bytes_queued := bufpos\<rparr>)"

definition sha3_end :: "bool \<Rightarrow> sha3_ctx \<Rightarrow> sha3_ctx \<times> u8 list" where
  "sha3_end small ctx =
     (let s = xor_byte (state3 ctx) (bytes_queued ctx) 6;
          s = xor_byte s (input_block_bytes ctx - 1) 0x80;
          s = sha3_process_block72 small s
      in (ctx \<lparr>state3 := s\<rparr>, concat (map bytes64 (take 8 s))))"

declare sha3_hash_loop.simps [simp del] absorb_blocks.simps [simp del]

end
