(* ===== verification/HashSpec.thy ===== *)
theory HashSpec imports Prelude begin

text \<open>
  The digests as the standards define them: MD5 (RFC 1321), SHA-1, SHA-256 and SHA-512
  (FIPS 180-4).  Nothing here comes from the program.  The constants of SHA-256 and SHA-512 are
  the fractional parts of the cube roots of the first 80 primes, and their initial values those
  of the square roots of the first eight.
\<close>

section \<open>Octets\<close>

text \<open>A number and its octets, the least significant first.\<close>

definition le_word :: "u8 list \<Rightarrow> 'a::len word" where
  "le_word bs = word_of_nat (horner_sum unat 256 bs)"

definition be_word :: "u8 list \<Rightarrow> 'a::len word" where
  "be_word bs = le_word (rev bs)"

definition octets :: "nat \<Rightarrow> 'a::len word \<Rightarrow> u8 list" where
  "octets n w = map (\<lambda>i. word_of_nat (unat w div 256 ^ i)) [0..<n]"

definition message_words :: "(u8 list \<Rightarrow> 'a::len word) \<Rightarrow> nat \<Rightarrow> u8 list \<Rightarrow> 'a word list" where
  "message_words f n bs = map (\<lambda>i. f (take n (drop (n * i) bs))) [0..<length bs div n]"

text \<open>The blocks of a text of whole blocks.\<close>

function blocks :: "nat \<Rightarrow> u8 list \<Rightarrow> u8 list list" where
  "blocks n xs = (if 0 < n \<and> n \<le> length xs then take n xs # blocks n (drop n xs) else [])"
  by pat_completeness auto
termination by (relation "measure (\<lambda>(_, xs). length xs)") auto

declare blocks.simps [simp del]

text \<open>The padding to blocks of 64 octets, with the length in bits in eight octets; of 128 octets,
  with sixteen.\<close>

definition pad64 :: "(u64 \<Rightarrow> u8 list) \<Rightarrow> u8 list \<Rightarrow> u8 list" where
  "pad64 len_bytes m =
     m @ [0x80] @ replicate ((119 - length m mod 64) mod 64) 0 @ len_bytes (word_of_nat (8 * length m))"

definition pad128 :: "u8 list \<Rightarrow> u8 list" where
  "pad128 m =
     m @ [0x80] @ replicate ((239 - length m mod 128) mod 128) 0
       @ rev (octets 8 (word_of_nat (8 * length m div 2 ^ 64) :: u64))
       @ rev (octets 8 (word_of_nat (8 * length m) :: u64))"

section \<open>MD5\<close>

text \<open>RFC 1321, 3.4: the four functions, the message words and shifts of the 64 operations, and
  the table T.\<close>

definition rfc_f :: "nat \<Rightarrow> u32 \<Rightarrow> u32 \<Rightarrow> u32 \<Rightarrow> u32" where
  "rfc_f i x y z =
     (if i < 16 then (x AND y) OR (NOT x AND z)
      else if i < 32 then (x AND z) OR (y AND NOT z)
      else if i < 48 then x XOR y XOR z
      else y XOR (x OR NOT z))"

definition rfc_k :: "nat \<Rightarrow> nat" where
  "rfc_k i =
     (if i < 16 then i
      else if i < 32 then (5 * i + 1) mod 16
      else if i < 48 then (3 * i + 5) mod 16
      else 7 * i mod 16)"

definition rfc_s :: "nat \<Rightarrow> nat" where
  "rfc_s i = [[7, 12, 17, 22], [5, 9, 14, 20], [4, 11, 16, 23], [6, 10, 15, 21]] ! (i div 16) ! (i mod 4)"

definition rfc_T :: "u32 list" where
  "rfc_T = [
     3614090360, 3905402710, 606105819, 3250441966, 4118548399, 1200080426, 2821735955, 4249261313,
     1770035416, 2336552879, 4294925233, 2304563134, 1804603682, 4254626195, 2792965006, 1236535329,
     4129170786, 3225465664, 643717713, 3921069994, 3593408605, 38016083, 3634488961, 3889429448,
     568446438, 3275163606, 4107603335, 1163531501, 2850285829, 4243563512, 1735328473, 2368359562,
     4294588738, 2272392833, 1839030562, 4259657740, 2763975236, 1272893353, 4139469664, 3200236656,
     681279174, 3936430074, 3572445317, 76029189, 3654602809, 3873151461, 530742520, 3299628645,
     4096336452, 1126891415, 2878612391, 4237533241, 1700485571, 2399980690, 4293915773, 2240044497,
     1873313359, 4264355552, 2734768916, 1309151649, 4149444226, 3174756917, 718787259, 3951481745]"

definition rfc_step :: "u32 list \<Rightarrow> u32 \<times> u32 \<times> u32 \<times> u32 \<Rightarrow> nat \<Rightarrow> u32 \<times> u32 \<times> u32 \<times> u32" where
  "rfc_step X st i =
     (let (A, B, C, D) = st
      in (D, B + word_rotl (rfc_s i) (A + rfc_f i B C D + X ! rfc_k i + rfc_T ! i), B, C))"

definition rfc_rounds :: "u32 list \<Rightarrow> u32 \<times> u32 \<times> u32 \<times> u32 \<Rightarrow> u32 \<times> u32 \<times> u32 \<times> u32" where
  "rfc_rounds X st = foldl (rfc_step X) st [0..<64]"

definition rfc_md5_block :: "u32 list \<Rightarrow> u8 list \<Rightarrow> u32 list" where
  "rfc_md5_block h block =
     (let (A, B, C, D) = rfc_rounds (message_words le_word 4 block) (h ! 0, h ! 1, h ! 2, h ! 3)
      in map2 (+) h [A, B, C, D])"

definition md5_spec :: "u8 list \<Rightarrow> u8 list" where
  "md5_spec m = concat (map (octets 4) (foldl rfc_md5_block
     [0x67452301, 0xefcdab89, 0x98badcfe, 0x10325476] (blocks 64 (pad64 (octets 8) m))))"

section \<open>SHA-1\<close>

text \<open>FIPS 180-4, 6.1: the message schedule, the functions and constants of the 80 steps.\<close>

definition fips_Ch :: "'a::len word \<Rightarrow> 'a word \<Rightarrow> 'a word \<Rightarrow> 'a word" where
  "fips_Ch x y z = (x AND y) XOR (NOT x AND z)"

definition fips_Maj :: "'a::len word \<Rightarrow> 'a word \<Rightarrow> 'a word \<Rightarrow> 'a word" where
  "fips_Maj x y z = (x AND y) XOR (x AND z) XOR (y AND z)"

function fips_w1 :: "u32 list \<Rightarrow> nat \<Rightarrow> u32" where
  "fips_w1 M t =
     (if t < 16 then M ! t
      else word_rotl 1 (fips_w1 M (t - 3) XOR fips_w1 M (t - 8) XOR fips_w1 M (t - 14) XOR fips_w1 M (t - 16)))"
  by pat_completeness auto
termination by (relation "measure snd") auto

declare fips_w1.simps [simp del]

definition fips_f1 :: "nat \<Rightarrow> u32 \<Rightarrow> u32 \<Rightarrow> u32 \<Rightarrow> u32" where
  "fips_f1 t x y z =
     (if t < 20 then fips_Ch x y z else if t < 40 then x XOR y XOR z
      else if t < 60 then fips_Maj x y z else x XOR y XOR z)"

definition fips_K1 :: "nat \<Rightarrow> u32" where
  "fips_K1 t =
     (if t < 20 then 0x5a827999 else if t < 40 then 0x6ed9eba1
      else if t < 60 then 0x8f1bbcdc else 0xca62c1d6)"

definition fips_step1 ::
    "u32 list \<Rightarrow> u32 \<times> u32 \<times> u32 \<times> u32 \<times> u32 \<Rightarrow> nat \<Rightarrow> u32 \<times> u32 \<times> u32 \<times> u32 \<times> u32" where
  "fips_step1 M st t =
     (let (a, b, c, d, e) = st
      in (word_rotl 5 a + fips_f1 t b c d + e + fips_K1 t + fips_w1 M t, a, word_rotl 30 b, c, d))"

definition fips_sha1_block :: "u32 list \<Rightarrow> u8 list \<Rightarrow> u32 list" where
  "fips_sha1_block h block =
     (let (a, b, c, d, e) =
        foldl (fips_step1 (message_words be_word 4 block)) (h ! 0, h ! 1, h ! 2, h ! 3, h ! 4) [0..<80]
      in map2 (+) h [a, b, c, d, e])"

definition sha1_spec :: "u8 list \<Rightarrow> u8 list" where
  "sha1_spec m = concat (map (\<lambda>w. rev (octets 4 w)) (foldl fips_sha1_block
     [0x67452301, 0xefcdab89, 0x98badcfe, 0x10325476, 0xc3d2e1f0]
     (blocks 64 (pad64 (\<lambda>w. rev (octets 8 w)) m))))"

section \<open>SHA-256 and SHA-512\<close>

text \<open>FIPS 180-4, 4.2.2, 4.2.3, 5.3.3 and 5.3.5: the first bits of the fractional parts of the cube
  roots and square roots of the primes.  The largest \<open>m\<close> with \<open>m ^ 3\<close> at most
  \<open>p * 2 ^ (3 * k)\<close> is the cube root of \<open>p\<close> times \<open>2 ^ k\<close>, rounded down.\<close>

definition primes80 :: "nat list" where
  "primes80 = [2, 3, 5, 7, 11, 13, 17, 19, 23, 29, 31, 37, 41, 43, 47, 53, 59, 61,
    67, 71, 73, 79, 83, 89, 97, 101, 103, 107, 109, 113, 127, 131, 137, 139, 149, 151, 157, 163,
    167, 173, 179, 181, 191, 193, 197, 199, 211, 223, 227, 229, 233, 239, 241, 251, 257, 263, 269,
    271, 277, 281, 283, 293, 307, 311, 313, 317, 331, 337, 347, 349, 353, 359, 367, 373, 379, 383,
    389, 397, 401, 409]"

definition root_floor :: "nat \<Rightarrow> nat \<Rightarrow> nat" where
  "root_floor r N = (GREATEST m. m ^ r \<le> N)"

definition fips_K256 :: "nat \<Rightarrow> u32" where
  "fips_K256 t = word_of_nat (root_floor 3 (primes80 ! t * 2 ^ 96))"

definition fips_K512 :: "nat \<Rightarrow> u64" where
  "fips_K512 t = word_of_nat (root_floor 3 (primes80 ! t * 2 ^ 192))"

definition fips_H256 :: "u32 list" where
  "fips_H256 = map (\<lambda>p. word_of_nat (root_floor 2 (p * 2 ^ 64))) (take 8 primes80)"

definition fips_H512 :: "u64 list" where
  "fips_H512 = map (\<lambda>p. word_of_nat (root_floor 2 (p * 2 ^ 128))) (take 8 primes80)"

text \<open>6.2 and 6.4: the schedule, and the steps with the standard's rotations.\<close>

function fips_w2 ::
    "('a::len word \<Rightarrow> 'a word) \<Rightarrow> ('a word \<Rightarrow> 'a word) \<Rightarrow> 'a word list \<Rightarrow> nat \<Rightarrow> 'a word" where
  "fips_w2 r0 r1 M t =
     (if t < 16 then M ! t
      else r1 (fips_w2 r0 r1 M (t - 2)) + fips_w2 r0 r1 M (t - 7) + r0 (fips_w2 r0 r1 M (t - 15))
           + fips_w2 r0 r1 M (t - 16))"
  by pat_completeness auto
termination by (relation "measure (\<lambda>(_, _, _, t). t)") auto

declare fips_w2.simps [simp del]

type_synonym 'a fips_vars = "'a \<times> 'a \<times> 'a \<times> 'a \<times> 'a \<times> 'a \<times> 'a \<times> 'a"

definition fips_step2 ::
    "('a::len word \<Rightarrow> 'a word) \<Rightarrow> ('a word \<Rightarrow> 'a word) \<Rightarrow> (nat \<Rightarrow> 'a word) \<Rightarrow> (nat \<Rightarrow> 'a word) \<Rightarrow>
     'a word fips_vars \<Rightarrow> nat \<Rightarrow> 'a word fips_vars" where
  "fips_step2 s0 s1 K W st t =
     (let (a, b, c, d, e, f, g, h) = st;
          T1 = h + s1 e + fips_Ch e f g + K t + W t;
          T2 = s0 a + fips_Maj a b c
      in (T1 + T2, a, b, c, d + T1, e, f, g))"

definition fips_block2 ::
    "nat \<Rightarrow> ('a::len word \<Rightarrow> 'a word) \<Rightarrow> ('a word \<Rightarrow> 'a word) \<Rightarrow> (nat \<Rightarrow> 'a word) \<Rightarrow> (nat \<Rightarrow> 'a word) \<Rightarrow>
     'a word list \<Rightarrow> 'a word list" where
  "fips_block2 rounds s0 s1 K W hs =
     (let (a, b, c, d, e, f, g, h) =
        foldl (fips_step2 s0 s1 K W)
          (hs ! 0, hs ! 1, hs ! 2, hs ! 3, hs ! 4, hs ! 5, hs ! 6, hs ! 7) [0..<rounds]
      in map2 (+) hs [a, b, c, d, e, f, g, h])"

definition fips_sha256_block :: "u32 list \<Rightarrow> u8 list \<Rightarrow> u32 list" where
  "fips_sha256_block hs block =
     fips_block2 64
       (\<lambda>x. word_rotr 2 x XOR word_rotr 13 x XOR word_rotr 22 x)
       (\<lambda>x. word_rotr 6 x XOR word_rotr 11 x XOR word_rotr 25 x)
       fips_K256
       (fips_w2 (\<lambda>x. word_rotr 7 x XOR word_rotr 18 x XOR drop_bit 3 x)
                (\<lambda>x. word_rotr 17 x XOR word_rotr 19 x XOR drop_bit 10 x)
                (message_words be_word 4 block)) hs"

definition fips_sha512_block :: "u64 list \<Rightarrow> u8 list \<Rightarrow> u64 list" where
  "fips_sha512_block hs block =
     fips_block2 80
       (\<lambda>x. word_rotr 28 x XOR word_rotr 34 x XOR word_rotr 39 x)
       (\<lambda>x. word_rotr 14 x XOR word_rotr 18 x XOR word_rotr 41 x)
       fips_K512
       (fips_w2 (\<lambda>x. word_rotr 1 x XOR word_rotr 8 x XOR drop_bit 7 x)
                (\<lambda>x. word_rotr 19 x XOR word_rotr 61 x XOR drop_bit 6 x)
                (message_words be_word 8 block)) hs"

definition sha256_spec :: "u8 list \<Rightarrow> u8 list" where
  "sha256_spec m = concat (map (\<lambda>w. rev (octets 4 w)) (foldl fips_sha256_block
     fips_H256 (blocks 64 (pad64 (\<lambda>w. rev (octets 8 w)) m))))"

definition sha512_spec :: "u8 list \<Rightarrow> u8 list" where
  "sha512_spec m = concat (map (\<lambda>w. rev (octets 8 w)) (foldl fips_sha512_block
     fips_H512 (blocks 128 (pad128 m))))"

section \<open>Lengths\<close>

lemma length_octets [simp]: "length (octets n w) = n"
  by (simp add: octets_def)

lemma length_concat_const: "(\<And>x. length (f x) = k) \<Longrightarrow> length (concat (map f xs)) = k * length xs"
  by (induction xs) auto

lemma length_foldl_block:
  "(\<And>h b. length h = n \<Longrightarrow> length (f h b) = n) \<Longrightarrow> length h = n \<Longrightarrow> length (foldl f h bs) = n"
  by (induction bs arbitrary: h) auto

lemma length_spec_blocks:
  "length (rfc_md5_block h block) = min (length h) 4" "length (fips_sha1_block h block) = min (length h) 5"
  "length (fips_sha256_block h block) = min (length h) 8"
  "length (fips_sha512_block h5 block) = min (length h5) 8"
  by (auto simp: rfc_md5_block_def fips_sha1_block_def fips_sha256_block_def fips_sha512_block_def
      fips_block2_def Let_def split: prod.splits)

lemma digest_lengths:
  "length (md5_spec m) = 16" "length (sha1_spec m) = 20" "length (sha256_spec m) = 32" "length (sha512_spec m) = 64"
proof -
  show "length (md5_spec m) = 16"
    unfolding md5_spec_def
    by (subst length_concat_const [where k = 4], simp, subst length_foldl_block [where n = 4])
      (simp_all add: length_spec_blocks)
  show "length (sha1_spec m) = 20"
    unfolding sha1_spec_def
    by (subst length_concat_const [where k = 4], simp, subst length_foldl_block [where n = 5])
      (simp_all add: length_spec_blocks)
  show "length (sha256_spec m) = 32"
    unfolding sha256_spec_def
    by (subst length_concat_const [where k = 4], simp, subst length_foldl_block [where n = 8])
      (simp_all add: length_spec_blocks fips_H256_def primes80_def)
  show "length (sha512_spec m) = 64"
    unfolding sha512_spec_def
    by (subst length_concat_const [where k = 8], simp, subst length_foldl_block [where n = 8])
      (simp_all add: length_spec_blocks fips_H512_def primes80_def)
qed

section \<open>Computing the roots\<close>

lemma root_floor_eq:
  assumes "m ^ r \<le> N" "N < (m + 1) ^ r"
  shows "root_floor r N = m"
  unfolding root_floor_def
proof (rule Greatest_equality)
  fix k :: nat
  assume "k ^ r \<le> N"
  then have "k ^ r < (m + 1) ^ r" using assms(2) by simp
  then have "k < m + 1" by (rule power_less_imp_less_base) simp
  then show "k \<le> m" by simp
qed (rule assms(1))

text \<open>A root with its integer part \<open>c\<close>, by integer arithmetic.\<close>

definition root_checks :: "nat \<Rightarrow> int \<Rightarrow> int \<Rightarrow> int \<Rightarrow> int \<Rightarrow> bool" where
  "root_checks r s p c w \<longleftrightarrow>
     (let m = c * s + w in 0 \<le> m \<and> m ^ r \<le> p * s ^ r \<and> p * s ^ r < (m + 1) ^ r)"

lemma root_checks_word:
  assumes "root_checks r (2 ^ LENGTH('a)) (int p) c (uint (w :: 'a::len word))"
  shows "word_of_nat (root_floor r (p * 2 ^ (LENGTH('a) * r))) = w"
proof -
  define m where "m = c * 2 ^ LENGTH('a) + uint w"
  have m: "0 \<le> m" "m ^ r \<le> int p * (2 ^ LENGTH('a)) ^ r" "int p * (2 ^ LENGTH('a)) ^ r < (m + 1) ^ r"
    using assms by (simp_all add: root_checks_def m_def Let_def)
  have "root_floor r (p * 2 ^ (LENGTH('a) * r)) = nat m"
  proof (rule root_floor_eq)
    have "int (nat m ^ r) \<le> int (p * 2 ^ (LENGTH('a) * r))"
      using m(1,2) by (simp add: power_mult)
    then show "nat m ^ r \<le> p * 2 ^ (LENGTH('a) * r)" by (simp only: of_nat_le_iff)
    have "int (p * 2 ^ (LENGTH('a) * r)) < int ((nat m + 1) ^ r)"
      using m(1,3) by (simp add: power_mult add.commute)
    then show "p * 2 ^ (LENGTH('a) * r) < (nat m + 1) ^ r" by (simp only: of_nat_less_iff)
  qed
  moreover have "(word_of_nat (nat m) :: 'a word) = word_of_int m"
    using m(1) by (metis of_int_of_nat_eq int_nat_eq)
  moreover have "(word_of_int m :: 'a word) = w" by (simp add: m_def)
  ultimately show ?thesis by simp
qed

text \<open>The initial values: the integer part of the square root of a prime below 25.\<close>

definition square_part :: "nat \<Rightarrow> int" where
  "square_part p = (if p < 4 then 1 else if p < 9 then 2 else if p < 16 then 3 else 4)"

lemma fips_H256_eq: "fips_H256 = [0x6a09e667, 0xbb67ae85, 0x3c6ef372, 0xa54ff53a, 0x510e527f,
    0x9b05688c, 0x1f83d9ab, 0x5be0cd19]" (is "_ = ?ws")
proof -
  have "list_all2 (\<lambda>p w. root_checks 2 (2 ^ 32) (int p) (square_part p) (uint w)) (take 8 primes80) ?ws"
    by (simp add: primes80_def square_part_def root_checks_def)
  then have "list_all2 (\<lambda>p w. word_of_nat (root_floor 2 (p * 2 ^ 64)) = w) (take 8 primes80) ?ws"
    by (rule list_all2_mono) (use root_checks_word [of 2, where 'a = 32] in simp)
  then show ?thesis by (simp add: fips_H256_def list_all2_map1 list_all2_eq)
qed

lemma fips_H512_eq: "fips_H512 = [0x6a09e667f3bcc908, 0xbb67ae8584caa73b, 0x3c6ef372fe94f82b,
    0xa54ff53a5f1d36f1, 0x510e527fade682d1, 0x9b05688c2b3e6c1f, 0x1f83d9abfb41bd6b, 0x5be0cd19137e2179]"
  (is "_ = ?ws")
proof -
  have "list_all2 (\<lambda>p w. root_checks 2 (2 ^ 64) (int p) (square_part p) (uint w)) (take 8 primes80) ?ws"
    by (simp add: primes80_def square_part_def root_checks_def)
  then have "list_all2 (\<lambda>p w. word_of_nat (root_floor 2 (p * 2 ^ 128)) = w) (take 8 primes80) ?ws"
    by (rule list_all2_mono) (use root_checks_word [of 2, where 'a = 64] in simp)
  then show ?thesis by (simp add: fips_H512_def list_all2_map1 list_all2_eq)
qed

end
