(* ===== verification/HashBlocks.thy ===== *)
theory HashBlocks imports Sha3 HashSpec begin

text \<open>
  The block functions against the standards of \<open>HashSpec\<close>: MD5 (RFC 1321), SHA-1, SHA-256 and
  SHA-512 (FIPS 180-4), their tables against the standards' constants, and Keccak-f[1600]
  (FIPS 202), which is written down here as the standard has it.
\<close>

section \<open>Rotations\<close>

lemma rotl_word:
  fixes x :: "'a::len word"
  assumes "0 < n" "n < LENGTH('a)"
  shows "push_bit n x OR drop_bit (LENGTH('a) - n) x = word_rotl n x"
proof (rule bit_word_eqI)
  fix i assume i: "i < LENGTH('a)"
  let ?L = "LENGTH('a)"
  have l: "bit (push_bit n x OR drop_bit (?L - n) x) i \<longleftrightarrow> n \<le> i \<and> bit x (i - n) \<or> bit x (?L - n + i)"
    using i by (auto simp: bit_or_iff bit_push_bit_iff bit_drop_bit_eq)
  have r: "bit (word_rotl n x) i \<longleftrightarrow> bit x ((i + (?L - n)) mod ?L)"
    using i assms by (simp add: bit_word_rotl_iff)
  show "bit (push_bit n x OR drop_bit (?L - n) x) i = bit (word_rotl n x) i"
  proof (cases "n \<le> i")
    case True
    then have "(i + (?L - n)) mod ?L = i - n" using i assms by (simp add: mod_if)
    moreover have "\<not> bit x (?L - n + i)" using True by (auto dest: bit_imp_le_length)
    ultimately show ?thesis using l r True by simp
  next
    case False
    then have "(i + (?L - n)) mod ?L = ?L - n + i" using i assms by simp
    then show ?thesis using l r False by simp
  qed
qed

lemma rotr_word:
  fixes x :: "'a::len word"
  assumes "0 < n" "n < LENGTH('a)"
  shows "drop_bit n x OR push_bit (LENGTH('a) - n) x = word_rotr n x"
proof (rule bit_word_eqI)
  fix i assume i: "i < LENGTH('a)"
  let ?L = "LENGTH('a)"
  have l: "bit (drop_bit n x OR push_bit (?L - n) x) i \<longleftrightarrow> bit x (n + i) \<or> ?L - n \<le> i \<and> bit x (i - (?L - n))"
    using i by (auto simp: bit_or_iff bit_push_bit_iff bit_drop_bit_eq)
  have r: "bit (word_rotr n x) i \<longleftrightarrow> bit x ((i + n) mod ?L)"
    using i assms by (simp add: bit_word_rotr_iff)
  show "bit (drop_bit n x OR push_bit (?L - n) x) i = bit (word_rotr n x) i"
  proof (cases "?L - n \<le> i")
    case True
    then have "(i + n) mod ?L = i - (?L - n)" using i assms by (simp add: mod_if)
    moreover have "\<not> bit x (n + i)" using True by (auto dest: bit_imp_le_length)
    ultimately show ?thesis using l r True by simp
  next
    case False
    then have "(i + n) mod ?L = n + i" using i assms by simp
    then show ?thesis using l r False by (simp add: add.commute)
  qed
qed

lemma rotl32_eq: "0 < n \<Longrightarrow> n < 32 \<Longrightarrow> rotl32 x n = word_rotl n x"
  using rotl_word [of n x] by (simp add: rotl32_def)

lemma rotr32_eq: "0 < n \<Longrightarrow> n < 32 \<Longrightarrow> rotr32 x n = word_rotr n x"
  using rotr_word [of n x] by (simp add: rotr32_def)

lemma rotl64_eq: "0 < n \<Longrightarrow> n < 64 \<Longrightarrow> rotl64 x n = word_rotl n x"
  using rotl_word [of n x] by (simp add: rotl64_def)

lemma rotr64_eq: "0 < n \<Longrightarrow> n < 64 \<Longrightarrow> rotr64 x n = word_rotr n x"
  using rotr_word [of n x] by (simp add: rotr64_def)

section \<open>Bytes of words\<close>

lemma length_bytes32 [simp]: "length (bytes32 w) = 4" by (simp add: bytes32_def)
lemma length_bytes64 [simp]: "length (bytes64 w) = 8" by (simp add: bytes64_def)

lemma upto_8: "[0..<8] = [0, 1, 2, 3, 4, 5, 6, 7 :: nat]" by (simp add: upt_rec)

lemma bit_from_bytes:
  "8 * length bs \<le> LENGTH('a) \<Longrightarrow>
   bit (from_bytes bs :: 'a::len word) n \<longleftrightarrow> n < 8 * length bs \<and> bit (bs ! (n div 8)) (n mod 8)"
proof (induction bs arbitrary: n)
  case (Cons b bs)
  have low: "bit (ucast b :: 'a word) n \<longleftrightarrow> n < 8 \<and> bit b n"
    using Cons.prems byte_bit_high [of n b] by (cases "n < 8") (auto simp: bit_ucast_iff)
  show ?case
  proof (cases "n < 8")
    case True
    then have "\<not> bit (push_bit 8 (from_bytes bs :: 'a word)) n" by (simp add: bit_push_bit_iff)
    then show ?thesis using low True by (simp add: bit_or_iff)
  next
    case False
    then obtain m where m: "n = 8 + m" by (metis le_Suc_ex not_less)
    have "bit (push_bit 8 (from_bytes bs :: 'a word)) n \<longleftrightarrow> n < LENGTH('a) \<and> bit (from_bytes bs :: 'a word) m"
      using m by (simp add: bit_push_bit_iff)
    moreover have "bit (from_bytes bs :: 'a word) m \<longleftrightarrow> m < 8 * length bs \<and> bit (bs ! (m div 8)) (m mod 8)"
      using Cons.prems by (intro Cons.IH) simp
    moreover have "n div 8 = Suc (m div 8)" "n mod 8 = m mod 8" using m by simp_all
    moreover have "m < 8 * length bs \<Longrightarrow> n < LENGTH('a)" using m Cons.prems by simp
    moreover have "n < 8 * length (b # bs) \<longleftrightarrow> m < 8 * length bs" using m by simp
    ultimately show ?thesis using low False by (simp only: from_bytes.simps bit_or_iff nth_Cons_Suc) blast
  qed
qed simp

lemma nth_bytes32: "i < 4 \<Longrightarrow> bytes32 w ! i = ucast (drop_bit (8 * i) w)"
  by (simp add: bytes32_def)

lemma nth_bytes64: "i < 8 \<Longrightarrow> bytes64 w ! i = ucast (drop_bit (8 * i) w)"
  by (simp add: bytes64_def)

lemma bytes_eqI:
  "length xs = length ys \<Longrightarrow> (\<And>i n. i < length xs \<Longrightarrow> n < 8 \<Longrightarrow> bit (xs ! i) n = bit (ys ! i) n) \<Longrightarrow> xs = (ys :: u8 list)"
  by (intro nth_equalityI bit_word_eqI) auto

lemma bytes32_from_bytes: "length bs = 4 \<Longrightarrow> bytes32 (from_bytes bs) = bs"
  by (rule bytes_eqI) (auto simp: nth_bytes32 bit_ucast_iff bit_drop_bit_eq bit_from_bytes)

lemma bytes64_from_bytes: "length bs = 8 \<Longrightarrow> bytes64 (from_bytes bs) = bs"
  by (rule bytes_eqI) (auto simp: nth_bytes64 bit_ucast_iff bit_drop_bit_eq bit_from_bytes)

lemma bytes32_bswap32: "bytes32 (bswap32 w) = rev (bytes32 w)"
  by (simp add: bswap32_def bytes32_from_bytes)

lemma bytes64_bswap64: "bytes64 (bswap64 w) = rev (bytes64 w)"
  by (simp add: bswap64_def bytes64_from_bytes)

section \<open>Octets\<close>

lemma octet_byte: "word_of_nat (unat w div 256 ^ i) = (ucast (drop_bit (8 * i) w) :: u8)"
proof -
  have "unat w div 256 ^ i = unat w div 2 ^ (8 * i)" by (simp only: power_mult) simp
  also have "\<dots> = unat (drop_bit (8 * i) w)"
    by (simp only: drop_bit_eq_div [symmetric] unat_drop_bit_eq)
  finally show ?thesis by (simp only: of_nat_unat)
qed

lemma bytes32_octets: "octets 4 = bytes32"
  by (rule ext) (simp only: octets_def bytes32_def octet_byte)

lemma bytes64_octets: "octets 8 = bytes64"
  by (rule ext) (simp only: octets_def bytes64_def octet_byte)

lemma le_word_Cons: "le_word (b # bs) = ucast b + push_bit 8 (le_word bs :: 'a::len word)"
  by (simp add: le_word_def push_bit_eq_mult)

lemma from_bytes_plus: "from_bytes (b # bs) = ucast b + push_bit 8 (from_bytes bs :: 'a::len word)"
proof -
  have "ucast b AND push_bit 8 (from_bytes bs) = (0 :: 'a word)"
    using byte_bit_high [of _ b] by (intro bit_word_eqI) (auto simp: bit_simps)
  then show ?thesis by (simp only: from_bytes.simps disjunctive_add_eq_or)
qed

lemma le_word_from_bytes: "le_word bs = from_bytes bs"
proof (induction bs)
  case (Cons b bs)
  then show ?case by (simp only: le_word_Cons from_bytes_plus)
qed (simp add: le_word_def)

lemma words32_le: "words32 block = message_words le_word 4 block"
  by (simp add: words32_def message_words_def le_word_from_bytes)

lemma words32_be: "map bswap32 (words32 block) = message_words be_word 4 block"
proof -
  have "bswap32 (from_bytes (take 4 (drop (4 * i) block))) = be_word (take 4 (drop (4 * i) block))"
    if "i < length block div 4" for i
    using that by (simp add: bswap32_def bytes32_from_bytes be_word_def le_word_from_bytes)
  then show ?thesis by (simp add: words32_def message_words_def)
qed

lemma words64_be: "map bswap64 (words64 block) = message_words be_word 8 block"
proof -
  have "bswap64 (from_bytes (take 8 (drop (8 * i) block))) = be_word (take 8 (drop (8 * i) block))"
    if "i < length block div 8" for i
    using that by (simp add: bswap64_def bytes64_from_bytes be_word_def le_word_from_bytes)
  then show ?thesis by (simp add: words64_def message_words_def)
qed

text \<open>Adding the block's result to the leading words of the state.\<close>

lemma length_add_hash [simp]: "length (add_hash h vs) = length h"
  by (induction h vs rule: add_hash.induct) auto

lemma take_add_hash:
  "n = length vs \<Longrightarrow> take n (add_hash h vs) = map2 (+) (take n h) vs"
  by (induction h vs arbitrary: n rule: add_hash.induct) auto

lemma add_hash_map2: "length h = length vs \<Longrightarrow> add_hash h vs = map2 (+) h vs"
  by (induction h vs rule: add_hash.induct) auto

section \<open>MD5\<close>

lemma C_array_rfc: "C_array = rfc_T"
  by (simp add: C_array_def rfc_T_def)

lemma FF_rfc: "FF b c d = (b AND c) OR (NOT b AND d)"
  by (rule bit_word_eqI) (auto simp: FF_def bit_simps)

lemma FG_rfc: "FG b c d = (b AND d) OR (c AND NOT d)"
  by (rule bit_word_eqI) (auto simp: FG_def FF_rfc bit_simps)

lemmas md5_functions = FF_rfc FG_rfc FH_def FI_def

lemma upto_64: "[0..<64] = [0, 1, 2, 3, 4, 5, 6, 7, 8, 9, 10, 11, 12, 13, 14, 15, 16, 17, 18, 19,
    20, 21, 22, 23, 24, 25, 26, 27, 28, 29, 30, 31, 32, 33, 34, 35, 36, 37, 38, 39, 40, 41, 42, 43,
    44, 45, 46, 47, 48, 49, 50, 51, 52, 53, 54, 55, 56, 57, 58, 59, 60, 61, 62, 63]"
  by (simp add: upt_rec)

lemma P_array_rfc: "P_array = map rfc_k [0..<64]"
  unfolding upto_64 P_array_def P_array1_def by (simp add: rfc_k_def)

lemma S_array_rfc:
  "map (\<lambda>i. S_array ! (4 * (i div 16) + i mod 4)) [0..<64] = map rfc_s [0..<64]"
  unfolding upto_64 S_array_def by (simp add: rfc_s_def)

lemma rfc_s_bounds: "list_all (\<lambda>i. 0 < rfc_s i \<and> rfc_s i < 32) [0..<64]"
  unfolding upto_64 by (simp add: rfc_s_def)

lemma md5_tables:
  assumes "i < 64"
  shows "P_array ! i = rfc_k i \<and> S_array ! (4 * (i div 16) + i mod 4) = rfc_s i \<and>
     0 < rfc_s i \<and> rfc_s i < 32"
  using assms arg_cong [OF S_array_rfc, of "\<lambda>xs. xs ! i"] rfc_s_bounds
  by (simp add: P_array_rfc list_all_iff)

text \<open>One operation of the code, with its function, is the operation of the RFC.\<close>

definition md5_f :: "nat \<Rightarrow> u32 \<Rightarrow> u32 \<Rightarrow> u32 \<Rightarrow> u32" where
  "md5_f i = (if i < 16 then FF else if i < 32 then FG else if i < 48 then FH else FI)"

lemma md5_f_rfc: "md5_f i = rfc_f i"
  by (auto simp: md5_f_def rfc_f_def md5_functions fun_eq_iff)

lemma rfc_step_rotl32:
  assumes "i < 64"
  shows "rfc_step X (A, B, C, D) i =
    (D, rotl32 (A + md5_f i B C D + X ! rfc_k i + C_array ! i) (rfc_s i) + B, B, C)"
  using md5_tables [OF assms] by (simp add: rfc_step_def rotl32_eq md5_f_rfc C_array_rfc add.commute)

lemma md5_step3_rfc:
  "n \<le> 64 \<Longrightarrow> foldl (md5_step3 X) (st, 0) [0..<n] =
     (foldl (rfc_step X) st [0..<n], 4 * ((n + 15) div 16))"
proof (induction n)
  case (Suc n)
  obtain A B C D where st: "foldl (rfc_step X) st [0..<n] = (A, B, C, D)"
    using prod_cases4 by blast
  have n: "n < 64" using Suc.prems by simp
  define q k where "q = n div 16" and "k = n mod 16"
  have qk: "n = 16 * q + k" "k < 16" "n div 16 = q" "n mod 16 = k" by (simp_all add: q_def k_def)
  have div: "4 * ((Suc n + 15) div 16) = 4 * (n div 16) + 4"
  proof -
    have "(Suc n + 15) div 16 = q + 1" using qk(1,2) by (intro div_nat_eqI) auto
    then show ?thesis by (simp only: qk(3)) simp
  qed
  have ps: "(if n mod 16 = 0 then 4 * ((n + 15) div 16) + 4 else 4 * ((n + 15) div 16)) = 4 * (n div 16) + 4"
  proof (cases "k = 0")
    case True
    then have "(n + 15) div 16 = q" using qk(1,2) by (intro div_nat_eqI) auto
    then show ?thesis using True by (simp only: qk(3,4) if_True refl)
  next
    case False
    then have "(n + 15) div 16 = q + 1" using qk(1,2) by (intro div_nat_eqI) auto
    then show ?thesis using False by (simp only: qk(3,4) if_False) simp
  qed
  have f: "(if n div 16 = 0 then FF B C D else if n div 16 = 1 then FG B C D
            else if n div 16 = 2 then FH B C D else FI B C D) = md5_f n B C D"
  proof -
    have "q = 0 \<longleftrightarrow> n < 16" "q \<le> 1 \<longleftrightarrow> n < 32" "q \<le> 2 \<longleftrightarrow> n < 48" using qk(1,2) by linarith+
    then show ?thesis unfolding md5_f_def qk(3) by (simp add: fun_eq_iff) linarith
  qed
  have "md5_step3 X ((A, B, C, D), 4 * ((n + 15) div 16)) n =
      (rfc_step X (A, B, C, D) n, 4 * (n div 16) + 4)"
    unfolding md5_step3_def Let_def prod.case ps f
    using md5_tables [OF n] by (simp add: rfc_step_rotl32 [OF n] add.assoc)
  then show ?case using Suc st div by simp
qed simp

lemma foldl_shift: "foldl (\<lambda>st i. f st (k + i)) st [0..<n] = foldl f st [k..<k + n]"
  by (induction n arbitrary: st) auto

lemma md5_step2_rfc:
  assumes "i < 16" "r < 4" "f = md5_f (16 * r)"
  shows "md5_step2 f (16 * r) (4 * r) X st i = rfc_step X st (16 * r + i)"
proof -
  obtain A B C D where st: "st = (A, B, C, D)" using prod_cases4 by blast
  have n: "16 * r + i < 64" and d: "(16 * r + i) div 16 = r" "(16 * r + i) mod 4 = i mod 4"
    using assms(1,2) by auto presburger+
  have "md5_f (16 * r + i) = f" using assms by (auto simp: md5_f_def)
  then show ?thesis
    using md5_tables [OF n] d by (simp add: st md5_step2_def Let_def rfc_step_rotl32 [OF n])
qed

lemma md5_small2_round:
  assumes "r < 4" "f = md5_f (16 * r)"
  shows "foldl (md5_step2 f (16 * r) (4 * r) X) st [0..<16] = foldl (rfc_step X) st [16 * r..<16 * r + 16]"
proof -
  have "foldl (md5_step2 f (16 * r) (4 * r) X) st [0..<16] = foldl (\<lambda>st i. rfc_step X st (16 * r + i)) st [0..<16]"
    using md5_step2_rfc [OF _ assms] by (intro foldl_cong) auto
  then show ?thesis by (simp only: foldl_shift)
qed

lemma foldl_64:
  "foldl f st [0..<64] =
     foldl f (foldl f (foldl f (foldl f st [0..<16]) [16..<32]) [32..<48]) [48..<64]"
proof -
  have "[0..<64] = [0..<16 + 16 + 16 + 16 :: nat]" by (rule arg_cong2 [where f = upt]) simp_all
  also have "\<dots> = (([0..<16] @ [16..<16 + 16]) @ [16 + 16..<16 + 16 + 16]) @ [16 + 16 + 16..<16 + 16 + 16 + 16]"
    by (simp only: upt_add_eq_append [OF le0])
  finally show ?thesis by (simp only: foldl_append) simp
qed

text \<open>The four \<open>OP\<close> lines are four operations.\<close>

lemma md5_quad_rfc:
  assumes i: "i + 3 < 64" and f: "\<And>j. j < 4 \<Longrightarrow> md5_f (i + j) = f"
    and k: "k = (rfc_k i, rfc_k (i + 1), rfc_k (i + 2), rfc_k (i + 3))"
    and s: "s = (rfc_s i, rfc_s (i + 1), rfc_s (i + 2), rfc_s (i + 3))"
    and l: "l = i + 4"
  shows "md5_quad f X k s (C_quad i) st = foldl (rfc_step X) st [i..<l]"
proof -
  obtain A B C D where st: "st = (A, B, C, D)" using prod_cases4 by blast
  have upt: "[i..<i + 4] = [i, i + 1, i + 2, i + 3]" by (simp add: upt_rec)
  have step: "rfc_step X (A, B, C, D) (i + j) =
      (D, md5_op f A B C D (X ! rfc_k (i + j)) (rfc_s (i + j)) (C_array ! (i + j)), B, C)"
    if "j < 4" for A B C D j
    using rfc_step_rotl32 [of "i + j"] f [OF that] i that by (simp add: md5_op_def add.assoc)
  have j: "1 < (4 :: nat)" "2 < (4 :: nat)" "3 < (4 :: nat)" by simp_all
  have step0: "rfc_step X (A, B, C, D) i =
      (D, md5_op f A B C D (X ! rfc_k i) (rfc_s i) (C_array ! i), B, C)" for A B C D
    using step [of 0] by simp
  show ?thesis
    unfolding l upt foldl.simps st k s C_quad_def md5_quad_def prod.case Let_def
    by (simp only: step0 step [OF j(1)] step [OF j(2)] step [OF j(3)])
qed


lemma md5_small3_rfc: "md5_small3 X st = rfc_rounds X st"
  using md5_step3_rfc [of 64 X st] by (simp add: md5_small3_def rfc_rounds_def)

lemma md5_small2_rfc: "md5_small2 X st = rfc_rounds X st"
  using md5_small2_round [of 0 FF X] md5_small2_round [of 1 FG X]
    md5_small2_round [of 2 FH X] md5_small2_round [of 3 FI X]
  by (simp add: md5_small2_def rfc_rounds_def foldl_64 md5_f_def)

lemma upto_4: "[0..<4] = [0, 1, 2, 3 :: nat]" by (simp add: upt_rec)

lemma four_quads:
  assumes "\<And>st. q st 0 = foldl f st [n..<n + 4]" "\<And>st. q st 1 = foldl f st [n + 4..<n + 8]"
    "\<And>st. q st 2 = foldl f st [n + 8..<n + 12]" "\<And>st. q st 3 = foldl f st [n + 12..<n + 16]"
  shows "foldl q st [0..<4] = foldl f st [n..<n + 16]"
proof -
  have "[n..<n + 16] = [n..<n + 4 + 4 + 4 + 4]" by (simp add: add.assoc)
  also have "\<dots> = (([n..<n + 4] @ [n + 4..<n + 4 + 4]) @ [n + 4 + 4..<n + 4 + 4 + 4]) @ [n + 4 + 4 + 4..<n + 4 + 4 + 4 + 4]"
    using upt_add_eq_append [of n "n + 4" 4] upt_add_eq_append [of n "n + 4 + 4" 4]
      upt_add_eq_append [of n "n + 4 + 4 + 4" 4] by (simp only: trans_le_add1 le_refl)
  finally have u: "foldl f st [n..<n + 16] =
      foldl f (foldl f (foldl f (foldl f st [n..<n + 4]) [n + 4..<n + 8]) [n + 8..<n + 12]) [n + 12..<n + 16]"
    by (simp add: add.commute)
  show ?thesis by (simp only: u upto_4 foldl.simps assms)
qed

lemma less_4_cases: "j < 4 \<Longrightarrow> j = 0 \<or> j = 1 \<or> j = 2 \<or> j = (3 :: nat)" by arith

lemmas md5_quad_tables = md5_f_def rfc_k_def rfc_s_def P_quad_def P_array1_def

lemma nat_numerals:
  "4 * 0 = (0 :: nat)" "4 * 1 = (4 :: nat)" "4 * 2 = (8 :: nat)" "4 * 3 = (12 :: nat)"
  "n + 0 = (n :: nat)" "0 + n = (n :: nat)"
  "numeral j + numeral k = (numeral (j + k) :: nat)"
  by simp_all

lemma md5_round1:
  "foldl (\<lambda>st i. md5_quad FF X (4 * i, 4 * i + 1, 4 * i + 2, 4 * i + 3) (7, 12, 17, 22) (C_quad (4 * i)) st) st [0..<4]
   = foldl (rfc_step X) st [0..<0 + 16]"
  by (rule four_quads; simp only: nat_numerals; rule md5_quad_rfc; simp add: md5_quad_tables)

lemma md5_round2:
  "foldl (\<lambda>st i. md5_quad FG X (P_quad (4 * i)) (5, 9, 14, 20) (C_quad (16 + 4 * i)) st) st [0..<4]
   = foldl (rfc_step X) st [16..<16 + 16]"
  by (rule four_quads; simp only: nat_numerals; rule md5_quad_rfc; simp add: md5_quad_tables)

lemma md5_round3:
  "foldl (\<lambda>st i. md5_quad FH X (P_quad (16 + 4 * i)) (4, 11, 16, 23) (C_quad (32 + 4 * i)) st) st [0..<4]
   = foldl (rfc_step X) st [32..<32 + 16]"
  by (rule four_quads; simp only: nat_numerals; rule md5_quad_rfc; simp add: md5_quad_tables)

lemma md5_round4:
  "foldl (\<lambda>st i. md5_quad FI X (P_quad (32 + 4 * i)) (6, 10, 15, 21) (C_quad (48 + 4 * i)) st) st [0..<4]
   = foldl (rfc_step X) st [48..<48 + 16]"
  by (rule four_quads; simp only: nat_numerals; rule md5_quad_rfc; simp add: md5_quad_tables)

lemmas md5_rounds_rfc = md5_round1 md5_round2 md5_round3 md5_round4

lemma md5_small1_rfc: "md5_small1 X st = rfc_rounds X st"
  by (simp only: md5_small1_def Let_def md5_rounds_rfc rfc_rounds_def foldl_64) simp

lemmas md5_round_defs = md5_round_FF_def md5_round_FG_def md5_round_FH_def md5_round_FI_def

lemma md5_small0_small1: "md5_small0 X st = md5_small1 X st"
  unfolding md5_small0_def md5_small1_def Let_def md5_round_defs upto_4
  by (simp add: C_quad_def C_array_def P_quad_def P_array1_def numeral_2_eq_2)


lemma md5_rounds_rfc_all: "md5_rounds config X st = rfc_rounds X st"
  by (simp add: md5_rounds_def md5_small3_rfc md5_small2_rfc md5_small1_rfc md5_small0_small1)

section \<open>SHA-1\<close>

lemma sha1_counters_eq: "sha1_counters = map (\<lambda>t. (t div 20, 19 - t mod 20)) [0..<80]"
  unfolding sha1_counters_def by (simp add: upt_rec)

text \<open>The ring buffer holds the last 16 words of the schedule, twice.\<close>

definition sha1_ring :: "u32 list \<Rightarrow> nat \<Rightarrow> u32 list \<Rightarrow> bool" where
  "sha1_ring M t W \<longleftrightarrow> length W = 32 \<and>
     (\<forall>s. s < max t 16 \<and> max t 16 \<le> s + 16 \<longrightarrow> W ! (s mod 16) = fips_w1 M s \<and> W ! (s mod 16 + 16) = fips_w1 M s)"

lemma sha1_ring_read:
  assumes "sha1_ring M t W" "16 \<le> t" "k < 16"
  shows "W ! (t mod 16 + k) = fips_w1 M (t - 16 + k)"
proof -
  let ?s = "t - 16 + k"
  have W: "W ! (?s mod 16) = fips_w1 M ?s" "W ! (?s mod 16 + 16) = fips_w1 M ?s"
    using assms by (auto simp: sha1_ring_def)
  have "?s mod 16 = (t + k) mod 16" using assms(2) by (simp add: le_mod_geq)
  also have "\<dots> = (t mod 16 + k) mod 16" by (simp add: mod_simps)
  also have "\<dots> = (if t mod 16 + k < 16 then t mod 16 + k else t mod 16 + k - 16)"
    using assms(3) mod_less_divisor [of 16 t] by (simp add: le_mod_geq)
  finally show ?thesis using W by (auto split: if_splits)
qed

lemma sha1_ring_write:
  assumes "sha1_ring M t W" "16 \<le> t"
  shows "sha1_ring M (t + 1) (W [t mod 16 + 16 := fips_w1 M t, t mod 16 := fips_w1 M t])"
proof -
  have len: "length W = 32" and t: "t mod 16 < 16" using assms(1) by (auto simp: sha1_ring_def)
  have ne: "s mod 16 \<noteq> t mod 16" if "s < t" "t < s + 16" for s
  proof
    assume "s mod 16 = t mod 16"
    then have "16 dvd t - s" using that(1) mod_eq_dvd_iff_nat [of s t 16] by simp
    then have "16 \<le> t - s" using that(1) by (intro dvd_imp_le) auto
    then show False using that by simp
  qed
  have s16: "s mod 16 \<noteq> t mod 16 + 16" "s mod 16 + 16 \<noteq> t mod 16" for s
    using mod_less_divisor [of 16 s] t by linarith+
  show ?thesis
    unfolding sha1_ring_def
  proof (intro conjI allI impI)
    fix s assume s: "s < max (t + 1) 16 \<and> max (t + 1) 16 \<le> s + 16"
    let ?W = "W [t mod 16 + 16 := fips_w1 M t, t mod 16 := fips_w1 M t]"
    have "?W ! (s mod 16) = fips_w1 M s \<and> ?W ! (s mod 16 + 16) = fips_w1 M s"
    proof (cases "s = t")
      case True
      then show ?thesis using len t by (simp add: nth_list_update)
    next
      case False
      then have "s < t" "t < s + 16" using s assms(2) by auto
      then show ?thesis using ne [of s] s16 [of s] assms by (auto simp: sha1_ring_def nth_list_update)
    qed
    then show "?W ! (s mod 16) = fips_w1 M s" "?W ! (s mod 16 + 16) = fips_w1 M s" by auto
  qed (use len in simp)
qed

lemma sha1_functions:
  "((c XOR d) AND b) XOR d = fips_Ch b c d" "((b OR c) AND d) OR (b AND c) = fips_Maj b c d"
  "(c XOR d) XOR b = b XOR c XOR d" for b c d :: u32
  by (rule bit_word_eqI; auto simp: fips_Ch_def fips_Maj_def bit_simps)+

lemma sha1_round_index:
  assumes "t < 80"
  shows "t div 20 = 0 \<longleftrightarrow> t < 20" "t div 20 = 2 \<longleftrightarrow> 40 \<le> t \<and> t < 60"
    "t div 20 = 0 \<and> \<not> 19 - t mod 20 \<le> 3 \<longleftrightarrow> t < 16" "rconsts ! (t div 20) = fips_K1 t"
proof -
  define i j where "i = t div 20" and "j = t mod 20"
  have t: "t = 20 * i + j" "j < 20" by (simp_all add: i_def j_def)
  then have "i < 4" using assms by linarith
  then have i: "i = 0 \<or> i = 1 \<or> i = 2 \<or> i = 3" by linarith
  have ij: "t div 20 = i" "t mod 20 = j" by (simp_all add: i_def j_def)
  show "t div 20 = 0 \<longleftrightarrow> t < 20" "t div 20 = 2 \<longleftrightarrow> 40 \<le> t \<and> t < 60"
    "t div 20 = 0 \<and> \<not> 19 - t mod 20 \<le> 3 \<longleftrightarrow> t < 16" "rconsts ! (t div 20) = fips_K1 t"
    unfolding ij using i t by (auto simp: rconsts_def fips_K1_def)
qed

lemma sha1_step_fips:
  assumes r: "sha1_ring M t W" and t: "t < 80"
  shows "\<exists>W'. sha1_step (W, t mod 16, v) (t div 20, 19 - t mod 20) = (W', (t + 1) mod 16, fips_step1 M v t) \<and>
    sha1_ring M (t + 1) W'"
proof -
  obtain a b c d e where v: "v = (a, b, c, d, e)" using prod_cases5 by blast
  note ix = sha1_round_index [OF t]
  define W' where "W' = (if t < 16 then W else W [t mod 16 + 16 := fips_w1 M t, t mod 16 := fips_w1 M t])"
  have suc: "\<not> t < 16 \<Longrightarrow> Suc (Suc (t - 16)) = t - 14" by simp
  have new: "rotl32 (W ! (t mod 16 + 13) XOR W ! (t mod 16 + 8) XOR W ! (t mod 16 + 2) XOR W ! (t mod 16)) 1 = fips_w1 M t"
    if "\<not> t < 16"
    using sha1_ring_read [OF r, of 13] sha1_ring_read [OF r, of 8] sha1_ring_read [OF r, of 2]
      sha1_ring_read [OF r, of 0] that
    by (subst fips_w1.simps) (simp add: rotl32_eq suc)
  have ring: "sha1_ring M (t + 1) W'"
    using r sha1_ring_write [OF r] by (auto simp: W'_def sha1_ring_def max_def)
  have "max (t + 1) 16 \<le> t + 16" by simp
  then have w: "W' ! (t mod 16) = fips_w1 M t" using ring by (auto simp: sha1_ring_def)
  have f: "(if t div 20 = 0 then ((c XOR d) AND b) XOR d
      else if t div 20 = 2 then ((b OR c) AND d) OR (b AND c) else (c XOR d) XOR b) = fips_f1 t b c d"
    unfolding sha1_functions ix using t by (auto simp: fips_f1_def)
  have "sha1_step (W, t mod 16, v) (t div 20, 19 - t mod 20) = (W', (t + 1) mod 16, fips_step1 M v t)"
    using w new f
    by (auto simp: v sha1_step_def Let_def fips_step1_def W'_def ix rotl32_eq mod_simps add_ac)
  then show ?thesis using ring by blast
qed


lemma sha1_loop_fips:
  assumes "sha1_ring M 0 W" "n \<le> 80"
  shows "\<exists>W'. foldl sha1_step (W, 0, v) (map (\<lambda>t. (t div 20, 19 - t mod 20)) [0..<n]) =
      (W', n mod 16, foldl (fips_step1 M) v [0..<n]) \<and> sha1_ring M n W'"
  using assms(2)
proof (induction n)
  case 0
  then show ?case using assms(1) by simp
next
  case (Suc n)
  then obtain W' where W': "sha1_ring M n W'"
    "foldl sha1_step (W, 0, v) (map (\<lambda>t. (t div 20, 19 - t mod 20)) [0..<n]) =
      (W', n mod 16, foldl (fips_step1 M) v [0..<n])" by auto
  show ?case using sha1_step_fips [OF W'(1), of "foldl (fips_step1 M) v [0..<n]"] Suc.prems W'(2) by auto
qed

lemma length_words32 [simp]: "length (words32 block) = length block div 4"
  by (simp add: words32_def)

lemma length_words64 [simp]: "length (words64 block) = length block div 8"
  by (simp add: words64_def)

lemma sha1_ring_start: "length M = 16 \<Longrightarrow> sha1_ring M 0 (M @ M)"
  by (auto simp: sha1_ring_def nth_append fips_w1.simps)

lemma sha1_block_fips:
  assumes "length block = 64" "5 \<le> length h"
  shows "take 5 (sha1_block h block) = fips_sha1_block (take 5 h) block"
proof -
  let ?M = "message_words be_word 4 block"
  have "length ?M = 16" by (simp add: message_words_def assms)
  from sha1_ring_start [OF this] have "sha1_ring ?M 0 (sha1_schedule block)"
    by (simp only: sha1_schedule_def Let_def words32_be)
  from sha1_loop_fips [OF this, of 80 "(h ! 0, h ! 1, h ! 2, h ! 3, h ! 4)"]
  obtain W where "foldl sha1_step (sha1_schedule block, 0, h ! 0, h ! 1, h ! 2, h ! 3, h ! 4) sha1_counters =
      (W, 80 mod 16, foldl (fips_step1 ?M) (h ! 0, h ! 1, h ! 2, h ! 3, h ! 4) [0..<80])"
    unfolding sha1_counters_eq by auto
  then show ?thesis
    using assms(2) unfolding sha1_block_def fips_sha1_block_def
    by (simp add: take_add_hash split: prod.splits)
qed

section \<open>SHA-256 and SHA-512\<close>

text \<open>A schedule list that grows by its next word.\<close>

lemma schedule_loop:
  assumes M: "length M = 16" "\<And>t. t < 16 \<Longrightarrow> M ! t = w t"
    and g: "\<And>W t. 16 \<le> t \<Longrightarrow> (\<And>s. s < t \<Longrightarrow> W ! s = w s) \<Longrightarrow> g W t = w t"
    and n: "16 \<le> n"
  shows "length (foldl (\<lambda>W t. W @ [g W t]) M [16..<n]) = n \<and>
    (\<forall>t < n. foldl (\<lambda>W t. W @ [g W t]) M [16..<n] ! t = w t)"
  using n
proof (induction n rule: dec_induct)
  case base
  then show ?case using M by simp
next
  case (step n)
  let ?W = "foldl (\<lambda>W t. W @ [g W t]) M [16..<n]"
  have "g ?W n = w n" using step by (intro g) auto
  then show ?case using step by (auto simp: nth_append less_Suc_eq)
qed

lemma foldl_same:
  "(\<And>st i. i < n \<Longrightarrow> f st i = g st i) \<Longrightarrow> foldl f st [0..<n] = foldl g st [0..<n]"
  by (intro foldl_cong) auto

text \<open>The table against the roots: the integer part of the cube root of a prime below 512.\<close>

definition cube_part :: "nat \<Rightarrow> int" where
  "cube_part p = (if p < 8 then 1 else if p < 27 then 2 else if p < 64 then 3 else if p < 125 then 4
     else if p < 216 then 5 else if p < 343 then 6 else 7)"

lemma sha_K_roots: "list_all2 (\<lambda>p k. root_checks 3 (2 ^ 64) (int p) (cube_part p) (uint k)) primes80 sha_K"
  by (simp add: primes80_def sha_K_def cube_part_def root_checks_def)

lemma sha_K_roots32: "list_all2 (\<lambda>p k. root_checks 3 (2 ^ 32) (int p) (cube_part p)
    (uint (ucast (drop_bit 32 k) :: u32))) primes80 sha_K"
  by (simp add: primes80_def sha_K_def cube_part_def root_checks_def)

lemma fips_K512_sha_K: "t < 80 \<Longrightarrow> fips_K512 t = sha_K ! t"
  using root_checks_word [of 3 "primes80 ! t" "cube_part (primes80 ! t)" "sha_K ! t"]
    list_all2_nthD [OF sha_K_roots, of t]
  by (simp add: fips_K512_def primes80_def)

lemma fips_K256_sha_K: "t < 80 \<Longrightarrow> fips_K256 t = ucast (drop_bit 32 (sha_K ! t))"
  using root_checks_word [of 3 "primes80 ! t" "cube_part (primes80 ! t)" "ucast (drop_bit 32 (sha_K ! t)) :: u32"]
    list_all2_nthD [OF sha_K_roots32, of t]
  by (simp add: fips_K256_def primes80_def)

lemma sha2_functions: "Ch = fips_Ch" "Maj = fips_Maj"
  by (simp_all add: fun_eq_iff Ch_def Maj_def fips_Ch_def fips_Maj_def)

lemma sha256_block_fips:
  assumes "length block = 64" "length hs = 8"
  shows "sha256_block hs block = fips_sha256_block hs block"
proof -
  let ?w = "fips_w2 (\<lambda>x. word_rotr 7 x XOR word_rotr 18 x XOR drop_bit 3 x)
    (\<lambda>x. word_rotr 17 x XOR word_rotr 19 x XOR drop_bit 10 x) (message_words be_word 4 block)"
  have W: "sha256_schedule block ! t = ?w t" if "t < 64" for t
    unfolding sha256_schedule_def words32_be
    by (rule schedule_loop [THEN conjunct2, THEN spec, THEN mp])
      (use assms that in \<open>simp_all add: message_words_def R0_256_def R1_256_def rotr32_eq fips_w2.simps\<close>)
  show ?thesis
    using assms(2) unfolding sha256_block_def fips_sha256_block_def fips_block2_def
    by (subst foldl_same [where g = "fips_step2 _ _ _ _"])
      (auto simp: sha256_step_def fips_step2_def sha2_functions fips_K256_sha_K add_hash_map2 W S0_256_def S1_256_def rotr32_eq Let_def)
qed

lemma sha512_block_fips:
  assumes "length block = 128" "length hs = 8"
  shows "sha512_block hs block = fips_sha512_block hs block"
proof -
  let ?w = "fips_w2 (\<lambda>x. word_rotr 1 x XOR word_rotr 8 x XOR drop_bit 7 x)
    (\<lambda>x. word_rotr 19 x XOR word_rotr 61 x XOR drop_bit 6 x) (message_words be_word 8 block)"
  have W: "sha512_schedule block ! t = ?w t" if "t < 80" for t
    unfolding sha512_schedule_def words64_be
    by (rule schedule_loop [THEN conjunct2, THEN spec, THEN mp])
      (use assms that in \<open>simp_all add: message_words_def R0_512_def R1_512_def rotr64_eq fips_w2.simps\<close>)
  show ?thesis
    using assms(2) unfolding sha512_block_def fips_sha512_block_def fips_block2_def
    by (subst foldl_same [where g = "fips_step2 _ _ _ _"])
      (auto simp: sha512_step_def fips_step2_def sha2_functions fips_K512_sha_K add_hash_map2 W S0_512_def S1_512_def rotr64_eq Let_def)
qed


section \<open>Keccak\<close>

text \<open>FIPS 202, 3.2: the five step mappings on the lanes \<open>A[x, y]\<close>, lane \<open>x + 5 y\<close> of the list.\<close>

definition lane :: "u64 list \<Rightarrow> nat \<Rightarrow> nat \<Rightarrow> u64" where
  "lane A x y = A ! (x mod 5 + 5 * (y mod 5))"

definition lanes :: "(nat \<Rightarrow> nat \<Rightarrow> u64) \<Rightarrow> u64 list" where
  "lanes f = map (\<lambda>i. f (i mod 5) (i div 5)) [0..<25]"

definition keccak_theta :: "u64 list \<Rightarrow> u64 list" where
  "keccak_theta A =
     (let C = \<lambda>x. lane A x 0 XOR lane A x 1 XOR lane A x 2 XOR lane A x 3 XOR lane A x 4;
          D = \<lambda>x. C (x + 4) XOR word_rotl 1 (C (x + 1))
      in lanes (\<lambda>x y. lane A x y XOR D x))"

text \<open>Rho: walking from \<open>(1, 0)\<close> with \<open>(x, y)\<close> going to \<open>(y, 2 x + 3 y)\<close>, the lane reached
  after \<open>t\<close> moves is rotated by \<open>(t + 1) (t + 2) / 2\<close>.\<close>

fun rho_walk :: "nat \<Rightarrow> nat \<Rightarrow> nat \<Rightarrow> nat \<Rightarrow> ((nat \<times> nat) \<times> nat) list" where
  "rho_walk 0 t x y = []"
| "rho_walk (Suc n) t x y =
     ((x, y), (t + 1) * (t + 2) div 2 mod 64) # rho_walk n (t + 1) y ((2 * x + 3 * y) mod 5)"

definition keccak_rho :: "u64 list \<Rightarrow> u64 list" where
  "keccak_rho A =
     lanes (\<lambda>x y. case map_of (rho_walk 24 0 1 0) (x, y) of
       None \<Rightarrow> lane A x y | Some r \<Rightarrow> word_rotl r (lane A x y))"

definition keccak_pi :: "u64 list \<Rightarrow> u64 list" where
  "keccak_pi A = lanes (\<lambda>x y. lane A (x + 3 * y) x)"

definition keccak_chi :: "u64 list \<Rightarrow> u64 list" where
  "keccak_chi A = lanes (\<lambda>x y. lane A x y XOR (NOT (lane A (x + 1) y) AND lane A (x + 2) y))"

text \<open>The round constants from the shift register of \<open>rc\<close>; bit \<open>2^j - 1\<close> of round \<open>i\<close> is
  \<open>rc (j + 7 i)\<close>.\<close>

definition rc_step :: "bool list \<Rightarrow> bool list" where
  "rc_step R =
     (let R = False # R; b = R ! 8
      in take 8 (R [0 := (R ! 0 \<noteq> b), 4 := (R ! 4 \<noteq> b), 5 := (R ! 5 \<noteq> b), 6 := (R ! 6 \<noteq> b)]))"

fun rc_stream :: "nat \<Rightarrow> bool list \<Rightarrow> bool list" where
  "rc_stream 0 R = []"
| "rc_stream (Suc n) R = R ! 0 # rc_stream n (rc_step R)"

definition rc_bits :: "bool list" where
  "rc_bits = rc_stream 168 [True, False, False, False, False, False, False, False]"

definition keccak_RC :: "nat \<Rightarrow> u64" where
  "keccak_RC i = foldl (\<lambda>w j. w OR push_bit (2 ^ j - 1) (of_bool (rc_bits ! (j + 7 * i)))) 0 [0..<7]"

definition keccak_iota :: "nat \<Rightarrow> u64 list \<Rightarrow> u64 list" where
  "keccak_iota i A = lanes (\<lambda>x y. if x = 0 \<and> y = 0 then lane A 0 0 XOR keccak_RC i else lane A x y)"

definition keccak_f :: "u64 list \<Rightarrow> u64 list" where
  "keccak_f A =
     foldl (\<lambda>A i. keccak_iota i (keccak_chi (keccak_pi (keccak_rho (keccak_theta A))))) A [0..<24]"

lemma length_lanes [simp]: "length (lanes f) = 25"
  by (simp add: lanes_def)

lemma upto_25: "[0..<25] = [0, 1, 2, 3, 4, 5, 6, 7, 8, 9, 10, 11, 12, 13, 14, 15, 16, 17, 18, 19,
    20, 21, 22, 23, 24 :: nat]"
  by (simp add: upt_rec)

lemma lanes_eq:
  "lanes f = [f 0 0, f 1 0, f 2 0, f 3 0, f 4 0, f 0 1, f 1 1, f 2 1, f 3 1, f 4 1,
     f 0 2, f 1 2, f 2 2, f 3 2, f 4 2, f 0 3, f 1 3, f 2 3, f 3 3, f 4 3,
     f 0 4, f 1 4, f 2 4, f 3 4, f 4 4]"
  unfolding lanes_def upto_25 by simp

lemma length_25_cases:
  assumes "length s = 25"
  obtains a0 a1 a2 a3 a4 a5 a6 a7 a8 a9 a10 a11 a12 a13 a14 a15 a16 a17 a18 a19 a20 a21 a22 a23 a24
  where "s = [a0, a1, a2, a3, a4, a5, a6, a7, a8, a9, a10, a11, a12, a13, a14, a15, a16, a17, a18,
     a19, a20, a21, a22, a23, a24]"
proof -
  have "s = map ((!) s) [0..<25]" by (metis assms map_nth)
  then show ?thesis by (intro that) (simp only: upto_25 list.map)
qed

lemma upto_5: "[0..<5] = [0, 1, 2, 3, 4 :: nat]" by (simp add: upt_rec)

lemma sha3_theta_keccak: "length s = 25 \<Longrightarrow> sha3_theta s = keccak_theta s"
  by (erule length_25_cases)
    (simp add: sha3_theta_def theta_parity_def theta_column_def upto_5 keccak_theta_def lanes_eq
      lane_def Let_def rotl64_eq)

lemma sha3_chi_keccak: "length s = 25 \<Longrightarrow> sha3_chi s = keccak_chi s"
  by (erule length_25_cases) (simp add: sha3_chi_def chi_row_def keccak_chi_def lanes_eq lane_def Let_def)


lemma rho_table: "rho_walk 24 0 1 0 =
   [((1, 0), 1), ((0, 2), 3), ((2, 1), 6), ((1, 2), 10), ((2, 3), 15), ((3, 3), 21), ((3, 0), 28),
    ((0, 1), 36), ((1, 3), 45), ((3, 1), 55), ((1, 4), 2), ((4, 4), 14), ((4, 0), 27), ((0, 3), 41),
    ((3, 4), 56), ((4, 3), 8), ((3, 2), 25), ((2, 2), 43), ((2, 0), 62), ((0, 4), 18), ((4, 2), 39),
    ((2, 4), 61), ((4, 1), 20), ((1, 1), 44)]"
  by code_simp

lemma upto_24: "[0..<24] = [0, 1, 2, 3, 4, 5, 6, 7, 8, 9, 10, 11, 12, 13, 14, 15, 16, 17, 18, 19,
    20, 21, 22, 23 :: nat]"
  by (simp add: upt_rec)

lemma sha3_rho_pi_keccak: "length s = 25 \<Longrightarrow> sha3_rho_pi True s = keccak_pi (keccak_rho s)"
  unfolding keccak_rho_def rho_table
  by (erule length_25_cases)
    (simp add: sha3_rho_pi_def upto_24 rho_pi_step_def PI_LANE_def ROT_CONST_def Let_def
      keccak_pi_def lanes_eq lane_def rotl64_eq)

lemma rho_pi_twice_step: "rho_pi_twice st x = rho_pi_step (rho_pi_step st x) (x + 1)"
  by (cases st) (simp add: rho_pi_twice_def rho_pi_step_def Let_def)

lemma sha3_rho_pi_variants: "sha3_rho_pi small s = sha3_rho_pi True s"
  by (simp add: sha3_rho_pi_def upto_24 rho_pi_twice_step)

lemma iota_consts: "list_all (\<lambda>i. iota_const i = keccak_RC i) [0..<24]"
  by code_simp

lemma sha3_iota_keccak: "length s = 25 \<Longrightarrow> i < 24 \<Longrightarrow> sha3_iota i s = keccak_iota i s"
  using iota_consts
  by (erule_tac length_25_cases)
    (simp add: list_all_iff sha3_iota_def keccak_iota_def lanes_eq lane_def)

lemma keccak_lengths [simp]:
  "length (keccak_theta A) = 25" "length (keccak_rho A) = 25" "length (keccak_pi A) = 25"
  "length (keccak_chi A) = 25" "length (keccak_iota i A) = 25"
  by (simp_all add: keccak_theta_def keccak_rho_def keccak_pi_def keccak_chi_def keccak_iota_def Let_def)

lemma sha3_rounds_keccak:
  assumes "length s = 25" "n \<le> 24"
  shows "foldl (\<lambda>s round. sha3_iota round (sha3_chi (sha3_rho_pi small (sha3_theta s)))) s [0..<n] =
     foldl (\<lambda>A i. keccak_iota i (keccak_chi (keccak_pi (keccak_rho (keccak_theta A))))) s [0..<n] \<and>
   length (foldl (\<lambda>A i. keccak_iota i (keccak_chi (keccak_pi (keccak_rho (keccak_theta A))))) s [0..<n]) = 25"
  using assms(2)
proof (induction n)
  case (Suc n)
  then show ?case
    by (simp add: sha3_rho_pi_variants [of small] sha3_theta_keccak sha3_rho_pi_keccak
        sha3_chi_keccak sha3_iota_keccak)
qed (simp add: assms(1))

lemma sha3_process_keccak: "length s = 25 \<Longrightarrow> sha3_process_block72 small s = keccak_f s"
  using sha3_rounds_keccak [of s 24] by (simp add: sha3_process_block72_def keccak_f_def)

lemma length_keccak_f [simp]: "length A = 25 \<Longrightarrow> length (keccak_f A) = 25"
  using sha3_rounds_keccak [of A 24] by (simp add: keccak_f_def)


section \<open>The properties\<close>

text \<open>The block function of MD5 is the 64 operations of RFC 1321, whatever variant the size option
  selects: the variable-rotating code, unrolled or in loops, and the shifting loops compute the same.\<close>

theorem md5_variants:
  "md5_block config h block =
     (let (A, B, C, D) = rfc_rounds (words32 block) (h ! 0, h ! 1, h ! 2, h ! 3)
      in add_hash h [A, B, C, D])"
  by (simp add: md5_block_def md5_rounds_rfc_all)

lemma md5_block_rfc:
  "4 \<le> length h \<Longrightarrow> take 4 (md5_block config h block) = rfc_md5_block (take 4 h) block"
  by (auto simp: md5_block_def rfc_md5_block_def md5_rounds_rfc_all words32_le take_add_hash
      split: prod.splits)

end
