(* ===== verification/HashStream.thy ===== *)
theory HashStream imports HashBlocks begin

text \<open>
  Block hashes as streams: a buffer of \<open>N\<close> bytes that is processed whenever it is full.  The
  loop of a \<open>hash\<close> function is feeding its bytes one at a time, so how the input is cut into
  calls does not matter; and a whole number of blocks folds the compression function.
\<close>

section \<open>Byte buffers\<close>

fun puts :: "('s \<Rightarrow> nat \<Rightarrow> u8 \<Rightarrow> 's) \<Rightarrow> 's \<Rightarrow> nat \<Rightarrow> u8 list \<Rightarrow> 's" where
  "puts put s p [] = s"
| "puts put s p (x # xs) = puts put (put s p x) (p + 1) xs"

definition feed :: "nat \<Rightarrow> ('s \<Rightarrow> nat \<Rightarrow> u8 \<Rightarrow> 's) \<Rightarrow> ('s \<Rightarrow> 's) \<Rightarrow> 's \<times> nat \<Rightarrow> u8 \<Rightarrow> 's \<times> nat" where
  "feed N put proc sp x =
     (let s = put (fst sp) (snd sp) x
      in if snd sp + 1 = N then (proc s, 0) else (s, snd sp + 1))"

lemma blocks_Nil [simp]: "blocks n [] = []"
  by (subst blocks.simps) auto

lemma blocks_Cons: "0 < n \<Longrightarrow> length b = n \<Longrightarrow> blocks n (b @ xs) = b # blocks n xs"
  by (subst blocks.simps) auto

lemma puts_append: "puts put s p (xs @ ys) = puts put (puts put s p xs) (p + length xs) ys"
  by (induction xs arbitrary: s p) auto

lemma feed_puts:
  "p + length xs < N \<Longrightarrow> foldl (feed N put proc) (s, p) xs = (puts put s p xs, p + length xs)"
  by (induction xs arbitrary: s p) (auto simp: feed_def Let_def)

lemma feed_full:
  assumes "p < N" "p + length xs = N"
  shows "foldl (feed N put proc) (s, p) xs = (proc (puts put s p xs), 0)"
proof -
  obtain ys y where xs: "xs = ys @ [y]" using assms by (cases xs rule: rev_cases) auto
  then have "foldl (feed N put proc) (s, p) ys = (puts put s p ys, p + length ys)"
    using assms by (intro feed_puts) simp
  then show ?thesis using assms xs by (simp add: feed_def Let_def puts_append)
qed

lemma feed_position:
  assumes "snd sp < N"
  shows "snd (foldl (feed N put proc) sp xs) = (snd sp + length xs) mod N"
  using assms
proof (induction xs rule: rev_induct)
  case (snoc x xs)
  let ?q = "snd sp + length xs"
  have "(?q mod N + 1) mod N = (?q + 1) mod N" by (simp add: mod_simps)
  moreover have "?q mod N < N" using snoc.prems by simp
  ultimately have "(?q + 1) mod N = (if ?q mod N + 1 = N then 0 else ?q mod N + 1)" by auto
  then show ?case using snoc by (simp add: feed_def Let_def)
qed simp

section \<open>The loop of a block hash\<close>

locale block_buffer =
  fixes N :: nat
    and put :: "'s \<Rightarrow> nat \<Rightarrow> u8 \<Rightarrow> 's"
    and proc :: "'s \<Rightarrow> 's"
    and inv :: "'s \<Rightarrow> bool"
    and hash_loop :: "'s \<Rightarrow> nat \<Rightarrow> u8 list \<Rightarrow> 's"
  assumes N_pos: "0 < N"
    and put_inv: "inv s \<Longrightarrow> p < N \<Longrightarrow> inv (put s p x)"
    and proc_inv: "inv s \<Longrightarrow> inv (proc s)"
    and loop_stop: "inv s \<Longrightarrow> p + length xs < N \<Longrightarrow> hash_loop s p xs = puts put s p xs"
    and loop_full: "inv s \<Longrightarrow> p < N \<Longrightarrow> p + length xs = N \<Longrightarrow>
      hash_loop s p (xs @ ys) = hash_loop (proc (puts put s p xs)) 0 ys"
begin

lemma puts_inv: "inv s \<Longrightarrow> p + length xs \<le> N \<Longrightarrow> inv (puts put s p xs)"
proof (induction xs arbitrary: s p)
  case (Cons x xs)
  then show ?case using put_inv [of s p x] by simp
qed simp

lemma feed_inv: "inv (fst sp) \<Longrightarrow> snd sp < N \<Longrightarrow> inv (fst (foldl (feed N put proc) sp xs))"
proof (induction xs rule: rev_induct)
  case (snoc x xs)
  have "snd (foldl (feed N put proc) sp xs) < N"
    using feed_position [of sp N put proc xs] snoc.prems(2) N_pos by simp
  then show ?case using snoc by (auto simp: feed_def [of N put proc _ x] Let_def intro: put_inv proc_inv)
qed simp

lemma loop_feed:
  "inv s \<Longrightarrow> p < N \<Longrightarrow> hash_loop s p xs = fst (foldl (feed N put proc) (s, p) xs)"
proof (induction "length xs" arbitrary: s p xs rule: less_induct)
  case less
  show ?case
  proof (cases "p + length xs < N")
    case True
    then show ?thesis using less.prems by (simp add: loop_stop feed_puts)
  next
    case False
    let ?a = "take (N - p) xs" and ?b = "drop (N - p) xs"
    have a: "p + length ?a = N" using False less.prems(2) by simp
    have i: "inv (proc (puts put s p ?a))"
      using less.prems a by (intro proc_inv puts_inv) auto
    have "hash_loop s p (?a @ ?b) = hash_loop (proc (puts put s p ?a)) 0 ?b"
      using loop_full [OF less.prems a] .
    also have "\<dots> = fst (foldl (feed N put proc) (proc (puts put s p ?a), 0) ?b)"
      using less.hyps [OF _ i N_pos, of ?b] less.prems(2) False by simp
    also have "\<dots> = fst (foldl (feed N put proc) (s, p) (?a @ ?b))"
      by (simp only: foldl_append feed_full [OF less.prems(2) a])
    finally show ?thesis by simp
  qed
qed

end

locale block_hash = block_buffer +
  fixes view :: "'s \<Rightarrow> 'h"
    and compress :: "'h \<Rightarrow> u8 list \<Rightarrow> 'h"
  assumes view_block: "inv s \<Longrightarrow> length b = N \<Longrightarrow> view (proc (puts put s 0 b)) = compress (view s) b"
begin

lemma feed_blocks:
  "inv s \<Longrightarrow> length xs = N * k \<Longrightarrow>
   view (fst (foldl (feed N put proc) (s, 0) xs)) = foldl compress (view s) (blocks N xs)"
proof (induction k arbitrary: s xs)
  case (Suc k)
  let ?b = "take N xs" and ?r = "drop N xs"
  have b: "length ?b = N" and r: "length ?r = N * k" using Suc.prems(2) by auto
  have full: "foldl (feed N put proc) (s, 0) ?b = (proc (puts put s 0 ?b), 0)"
    using b N_pos by (intro feed_full) auto
  have i: "inv (proc (puts put s 0 ?b))"
    using Suc.prems(1) b by (intro proc_inv puts_inv) auto
  have bl: "blocks N (?b @ ?r) = ?b # blocks N ?r" by (rule blocks_Cons [OF N_pos b])
  have "view (fst (foldl (feed N put proc) (s, 0) (?b @ ?r))) =
      view (fst (foldl (feed N put proc) (proc (puts put s 0 ?b), 0) ?r))"
    by (simp only: foldl_append full)
  also have "\<dots> = foldl compress (compress (view s) ?b) (blocks N ?r)"
    by (simp only: Suc.IH [OF i r] view_block [OF Suc.prems(1) b])
  also have "\<dots> = foldl compress (view s) (blocks N (?b @ ?r))"
    by (simp only: bl foldl.simps)
  finally show ?case by simp
qed simp

end

section \<open>Writing into a list of bytes\<close>

lemma length_memcpy [simp]: "p + length xs \<le> length w \<Longrightarrow> length (memcpy w p xs) = length w"
  by (simp add: memcpy_def)

lemma memcpy_Cons:
  "p + Suc (length xs) \<le> length w \<Longrightarrow> memcpy w p (x # xs) = memcpy (w [p := x]) (p + 1) xs"
  by (simp add: memcpy_def take_Suc_conv_app_nth take_update_swap drop_update_cancel)
    (simp add: list_update_append1 upd_conv_take_nth_drop min_def)

lemma memcpy_Nil [simp]: "p \<le> length w \<Longrightarrow> memcpy w p [] = w"
  by (simp add: memcpy_def)

lemma memcpy_append:
  "p + length xs + length ys \<le> length w \<Longrightarrow>
   memcpy (memcpy w p xs) (p + length xs) ys = memcpy w p (xs @ ys)"
  by (simp add: memcpy_def add_ac)

lemma memcpy_over:
  assumes "p + length xs + length zs \<le> length w" "length ys = length zs"
  shows "memcpy (memcpy w p (xs @ ys)) (p + length xs) zs = memcpy w p (xs @ zs)"
  using assms by (simp add: memcpy_def)

lemma memcpy_all: "length xs = length w \<Longrightarrow> memcpy w 0 xs = xs"
  by (simp add: memcpy_def)

end
