(* ===== verification/HashDigest.thy ===== *)
theory HashDigest imports HashStream begin

text \<open>
  The digests: for every way the input is cut into calls, \<open>begin\<close>, the \<open>hash\<close> calls and
  \<open>end\<close> give the digest the standards define on the whole message.
\<close>

section \<open>The padding\<close>

lemma pad_count64:
  "r < 64 \<Longrightarrow> (119 - r) mod 64 = (if r < 56 then 55 - r else 119 - r :: nat)"
  by (simp add: mod_if)

lemma pad_count128:
  "r < 128 \<Longrightarrow> (239 - r) mod 128 = (if r < 112 then 111 - r else 239 - r :: nat)"
  by (simp add: mod_if)

text \<open>The bytes after a message of \<open>r\<close> bytes in the last block.\<close>

definition padding64 :: "u8 list \<Rightarrow> nat \<Rightarrow> u8 list" where
  "padding64 len_bytes r = [0x80] @ replicate (if r < 56 then 55 - r else 119 - r) 0 @ len_bytes"

lemma pad64_padding:
  "pad64 len_bytes m = m @ padding64 (len_bytes (word_of_nat (8 * length m))) (length m mod 64)"
  by (simp only: pad64_def padding64_def pad_count64 mod_less_divisor zero_less_numeral)

lemma pad64_length:
  assumes "length (len_bytes (word_of_nat (8 * length m))) = 8"
  obtains k where "length (pad64 len_bytes m) = 64 * k"
proof -
  define q r where "q = length m div 64" and "r = length m mod 64"
  have qr: "length m = 64 * q + r" "r < 64" by (simp_all add: q_def r_def)
  have len: "length (pad64 len_bytes m) = length m + (if r < 56 then 64 - r else 128 - r)"
    using assms qr(2) by (simp add: pad64_padding padding64_def r_def [symmetric])
  show ?thesis
  proof (rule that)
    show "length (pad64 len_bytes m) = 64 * (q + (if r < 56 then 1 else 2))"
      unfolding len using qr by simp
  qed
qed


section \<open>MD5, SHA-1 and SHA-256\<close>

definition put64 :: "md5_ctx \<Rightarrow> nat \<Rightarrow> u8 \<Rightarrow> md5_ctx" where
  "put64 ctx p x = ctx \<lparr>wbuffer := (wbuffer ctx) [p := x]\<rparr>"

definition inv64 :: "block_fun \<Rightarrow> md5_ctx \<Rightarrow> bool" where
  "inv64 k ctx \<longleftrightarrow> length (wbuffer ctx) = 64 \<and> length (hash ctx) = 8 \<and> process_block ctx = k"

fun state_words :: "block_fun \<Rightarrow> nat" where
  "state_words md5_process = 4"
| "state_words sha1_process = 5"
| "state_words sha256_process = 8"

fun compress64 :: "block_fun \<Rightarrow> u32 list \<Rightarrow> u8 list \<Rightarrow> u32 list" where
  "compress64 md5_process = rfc_md5_block"
| "compress64 sha1_process = fips_sha1_block"
| "compress64 sha256_process = fips_sha256_block"

definition view64 :: "block_fun \<Rightarrow> md5_ctx \<Rightarrow> u32 list" where
  "view64 k ctx = take (state_words k) (hash ctx)"

lemma puts_put64:
  "p + length xs \<le> length (wbuffer ctx) \<Longrightarrow>
   puts put64 ctx p xs = ctx \<lparr>wbuffer := memcpy (wbuffer ctx) p xs\<rparr>"
proof (induction xs arbitrary: ctx p)
  case (Cons x xs)
  then show ?case by (simp add: put64_def memcpy_Cons)
qed simp

lemma length_process_blocks [simp]:
  "length (md5_block config h block) = length h" "length (sha1_block h block) = length h"
  "length (sha256_block h block) = length h" "length (sha512_block h5 block) = length h5"
  by (auto simp: md5_block_def sha1_block_def sha256_block_def sha512_block_def split: prod.splits)

lemma process_inv64: "inv64 k ctx \<Longrightarrow> inv64 k (process config ctx)"
  by (cases k) (auto simp: inv64_def process_def)

lemma process_view64:
  assumes "inv64 k ctx" "length b = 64"
  shows "view64 k (process config (puts put64 ctx 0 b)) = compress64 k (view64 k ctx) b"
proof -
  have "puts put64 ctx 0 b = ctx \<lparr>wbuffer := b\<rparr>"
    using assms by (subst puts_put64) (auto simp: inv64_def memcpy_all)
  then show ?thesis
    using assms by (cases k)
      (auto simp: inv64_def process_def view64_def md5_block_rfc sha1_block_fips sha256_block_fips length_spec_blocks)
qed

lemma md5_loop_stop:
  assumes "inv64 k ctx" "p + length xs < 64"
  shows "md5_hash_loop config ctx p xs = puts put64 ctx p xs"
  using assms by (subst md5_hash_loop.simps) (auto simp: inv64_def puts_put64 Let_def min_def)

lemma md5_loop_full:
  assumes "inv64 k ctx" "p < 64" "p + length xs = 64"
  shows "md5_hash_loop config ctx p (xs @ ys) = md5_hash_loop config (process config (puts put64 ctx p xs)) 0 ys"
proof -
  have "min (64 - p) (length (xs @ ys)) = length xs" using assms(3) by auto
  then show ?thesis using assms by (subst md5_hash_loop.simps) (auto simp: inv64_def puts_put64 Let_def)
qed

lemma put64_inv: "inv64 k ctx \<Longrightarrow> inv64 k (put64 ctx p x)"
  by (simp add: inv64_def put64_def)

interpretation h64: block_hash 64 put64 "process config" "inv64 k" "md5_hash_loop config" "view64 k" "compress64 k"
  for config k
  by unfold_locales
    (auto intro: put64_inv process_inv64 process_view64 md5_loop_stop simp: md5_loop_full)

text \<open>The byte count is never read by the loop.\<close>

lemma feed_total64_step:
  "feed 64 put64 (process config) (s \<lparr>total64 := t\<rparr>, q) x =
   (let (s', q') = feed 64 put64 (process config) (s, q) x in (s' \<lparr>total64 := t\<rparr>, q'))"
proof -
  have "process config (put64 (s \<lparr>total64 := t\<rparr>) q x) = (process config (put64 s q x)) \<lparr>total64 := t\<rparr>" for q
    by (cases "process_block s") (simp_all add: process_def put64_def)
  then show ?thesis by (simp add: feed_def Let_def) (simp add: put64_def)
qed

lemma feed_total64:
  "foldl (feed 64 put64 (process config)) (ctx \<lparr>total64 := t\<rparr>, p) xs =
   (let (s, q) = foldl (feed 64 put64 (process config)) (ctx, p) xs in (s \<lparr>total64 := t\<rparr>, q))"
proof (induction xs rule: rev_induct)
  case (snoc x xs)
  obtain s q where "foldl (feed 64 put64 (process config)) (ctx, p) xs = (s, q)" by fastforce
  then show ?case using snoc by (simp add: feed_total64_step)
qed simp

lemma total_position: "unat (w AND 63 :: u64) = unat w mod 64"
proof -
  have m: "w AND 63 = take_bit 6 w" by (simp add: take_bit_eq_mask mask_numeral)
  show ?thesis unfolding m unsigned_take_bit_eq by (simp add: take_bit_eq_mod)
qed

text \<open>A context after the message \<open>m\<close>.\<close>

definition hashed64 :: "int \<Rightarrow> md5_ctx \<Rightarrow> u8 list \<Rightarrow> md5_ctx \<Rightarrow> bool" where
  "hashed64 config ctx0 m ctx \<longleftrightarrow>
     ctx = (fst (foldl (feed 64 put64 (process config)) (ctx0, 0) m)) \<lparr>total64 := word_of_nat (length m)\<rparr>"

lemma mod_position: "unat (word_of_nat n :: u64) mod 64 = n mod 64"
proof -
  have "(64 :: nat) dvd 2 ^ 64" by simp
  then show ?thesis by (simp only: unat_of_nat word_size) (simp add: mod_mod_cancel)
qed

lemma md5_hash_hashed:
  assumes "inv64 k ctx0" "hashed64 config ctx0 m ctx"
  shows "hashed64 config ctx0 (m @ b) (md5_hash config ctx b)"
proof -
  let ?F = "foldl (feed 64 put64 (process config))"
  obtain s p where sp: "?F (ctx0, 0) m = (s, p)" by fastforce
  have p: "p = length m mod 64" using feed_position [of "(ctx0, 0)" 64 put64 "process config" m] sp by simp
  have s: "inv64 k s" using h64.feed_inv [of k "(ctx0, 0)" config m] assms(1) sp by simp
  have ctx: "ctx = s \<lparr>total64 := word_of_nat (length m)\<rparr>" using assms(2) sp by (simp add: hashed64_def)
  have pos: "unat (total64 ctx AND 63) = p"
    by (simp add: ctx total_position mod_position p)
  have inv: "inv64 k (s \<lparr>total64 := t\<rparr>)" for t using s by (simp add: inv64_def)
  have "md5_hash config ctx b =
      md5_hash_loop config (s \<lparr>total64 := word_of_nat (length m) + word_of_nat (length b)\<rparr>) p b"
    unfolding md5_hash_def Let_def pos by (simp add: ctx)
  also have "\<dots> = fst (?F (s \<lparr>total64 := word_of_nat (length m) + word_of_nat (length b)\<rparr>, p) b)"
    by (rule h64.loop_feed [OF inv]) (simp add: p)
  also have "\<dots> = (fst (?F (ctx0, 0) (m @ b))) \<lparr>total64 := word_of_nat (length (m @ b))\<rparr>"
    by (simp add: feed_total64 sp split: prod.split)
  finally show ?thesis by (simp add: hashed64_def)
qed

lemma md5_hash_chunks:
  assumes "inv64 k ctx0" "hashed64 config ctx0 m ctx"
  shows "hashed64 config ctx0 (m @ concat chunks) (foldl (md5_hash config) ctx chunks)"
  using assms(2)
proof (induction chunks arbitrary: m ctx)
  case (Cons b chunks)
  then show ?case using Cons.IH [OF md5_hash_hashed [OF assms(1) Cons.prems]] by simp
qed simp


text \<open>The \<open>end\<close> functions feed the padding.\<close>

lemma memcpy_zeros_length:
  assumes "length w = 64" "q \<le> 56" "length t = 8"
  shows "memcpy (memcpy w q (replicate (64 - q) 0)) 56 t = memcpy w q (replicate (56 - q) 0 @ t)"
proof -
  have "replicate (64 - q) (0 :: u8) = replicate (56 - q) 0 @ replicate 8 0"
    using assms(2) by (simp only: replicate_add [symmetric]) (simp add: add.commute)
  then show ?thesis
    using memcpy_over [of q "replicate (56 - q) 0" t w "replicate 8 0"] assms by simp
qed

lemma common64_last:
  assumes "length (wbuffer ctx) = 64" "q \<le> 56"
  shows "common64_loop config sw ctx q =
    process config (ctx \<lparr>wbuffer := memcpy (wbuffer ctx) q (replicate (56 - q) 0 @
      bytes64 (if sw then bswap64 (push_bit 3 (total64 ctx)) else push_bit 3 (total64 ctx)))\<rparr>)"
  using assms memcpy_zeros_length [of "wbuffer ctx" q]
  by (subst common64_loop.simps) (auto simp: Let_def)

lemma total64_process [simp]: "total64 (process config ctx) = total64 ctx"
  by (simp add: process_def)

lemma wbuffer_process [simp]: "wbuffer (process config ctx) = wbuffer ctx"
  by (simp add: process_def)

lemma feed_block64:
  assumes "length (wbuffer ctx) = 64" "p < 64" "p + length xs = 64"
  shows "foldl (feed 64 put64 (process config)) (ctx, p) xs =
    (process config (ctx \<lparr>wbuffer := memcpy (wbuffer ctx) p xs\<rparr>), 0)"
  using assms by (simp only: feed_full puts_put64 le_refl)

lemma common64_end_feed:
  assumes inv: "inv64 k ctx" and p: "p = unat (total64 ctx) mod 64"
  shows "common64_end config ctx sw = fst (foldl (feed 64 put64 (process config)) (ctx, p)
    (padding64 (bytes64 (if sw then bswap64 (push_bit 3 (total64 ctx)) else push_bit 3 (total64 ctx))) p))"
proof -
  let ?t = "bytes64 (if sw then bswap64 (push_bit 3 (total64 ctx)) else push_bit 3 (total64 ctx))"
  let ?F = "foldl (feed 64 put64 (process config))"
  have w: "length (wbuffer ctx) = 64" using inv by (simp add: inv64_def)
  have p64: "p < 64" by (simp add: p)
  have t: "length ?t = 8" by simp
  have start: "common64_end config ctx sw =
      common64_loop config sw (ctx \<lparr>wbuffer := memcpy (wbuffer ctx) p [0x80]\<rparr>) (p + 1)"
    by (simp add: common64_end_def total_position p Let_def)
  show ?thesis
  proof (cases "p < 56")
    case True
    have "memcpy (memcpy (wbuffer ctx) p [0x80]) (p + 1) (replicate (56 - (p + 1)) 0 @ ?t) =
        memcpy (wbuffer ctx) p (padding64 ?t p)"
      using memcpy_append [of p "[0x80]" "replicate (55 - p) 0 @ ?t" "wbuffer ctx"] w True t
      by (simp add: padding64_def)
    then have "common64_end config ctx sw =
        process config (ctx \<lparr>wbuffer := memcpy (wbuffer ctx) p (padding64 ?t p)\<rparr>)"
      unfolding start using w True by (subst common64_last) (simp_all, cases sw, simp_all)
    also have "\<dots> = fst (?F (ctx, p) (padding64 ?t p))"
      using True t by (subst feed_block64) (simp_all add: w padding64_def)
    finally show ?thesis .
  next
    case False
    let ?a = "[0x80] @ replicate (63 - p) 0" and ?b = "replicate 56 0 @ ?t"
    have pad: "padding64 ?t p = ?a @ ?b"
    proof -
      have "replicate (119 - p) (0 :: u8) = replicate (63 - p) 0 @ replicate 56 0"
        using p64 by (simp only: replicate_add [symmetric]) (simp add: add.commute)
      then show ?thesis using False by (simp add: padding64_def)
    qed
    let ?c1 = "process config (ctx \<lparr>wbuffer := memcpy (wbuffer ctx) p ?a\<rparr>)"
    have "memcpy (memcpy (wbuffer ctx) p [0x80]) (p + 1) (replicate (64 - (p + 1)) 0) = memcpy (wbuffer ctx) p ?a"
      using memcpy_append [of p "[0x80]" "replicate (63 - p) 0" "wbuffer ctx"] w p64 by simp
    then have "common64_loop config sw (ctx \<lparr>wbuffer := memcpy (wbuffer ctx) p [0x80]\<rparr>) (p + 1) =
        common64_loop config sw ?c1 0"
      using False by (subst common64_loop.simps) (simp add: Let_def)
    also have "\<dots> = process config (?c1 \<lparr>wbuffer := memcpy (wbuffer ?c1) 0 ?b\<rparr>)"
      using w p64 by (subst common64_last) auto
    also have "\<dots> = fst (?F (?c1, 0) ?b)"
      using w t p64 by (subst feed_block64) simp_all
    also have "\<dots> = fst (?F (ctx, p) (?a @ ?b))"
    proof -
      have "?F (ctx, p) ?a = (?c1, 0)" using w p64 by (subst feed_block64) simp_all
      then show ?thesis by simp
    qed
    finally show ?thesis by (simp only: start pad)
  qed
qed

lemma hashed64_position: "hashed64 config ctx0 m ctx \<Longrightarrow> unat (total64 ctx) mod 64 = length m mod 64"
  by (simp add: hashed64_def mod_position)

text \<open>The words of the context after \<open>common64_end\<close>.\<close>

lemma common64_end_digest:
  assumes "inv64 k ctx0" "hashed64 config ctx0 m ctx"
  shows "view64 k (common64_end config ctx sw) =
    foldl (compress64 k) (view64 k ctx0)
      (blocks 64 (pad64 (\<lambda>w. bytes64 (if sw then bswap64 w else w)) m))"
proof -
  let ?F = "foldl (feed 64 put64 (process config))"
  let ?len = "\<lambda>w. bytes64 (if sw then bswap64 w else w)"
  obtain s p where sp: "?F (ctx0, 0) m = (s, p)" by fastforce
  have p: "p = length m mod 64" using feed_position [of "(ctx0, 0)" 64 put64 "process config" m] sp by simp
  have s: "inv64 k s" using h64.feed_inv [of k "(ctx0, 0)" config m] assms(1) sp by simp
  have ctx: "ctx = s \<lparr>total64 := word_of_nat (length m)\<rparr>" using assms(2) sp by (simp add: hashed64_def)
  have inv: "inv64 k ctx" using s by (simp add: ctx inv64_def)
  have t: "push_bit 3 (total64 ctx) = word_of_nat (8 * length m)"
    by (simp add: ctx push_bit_eq_mult)
  have pad: "pad64 ?len m = m @ padding64 (?len (word_of_nat (8 * length m))) p"
    by (simp only: pad64_padding p)
  have "common64_end config ctx sw = fst (?F (ctx, p) (padding64 (?len (word_of_nat (8 * length m))) p))"
    using common64_end_feed [OF inv, of p config sw] hashed64_position [OF assms(2)]
    unfolding t by (simp add: p)
  also have "\<dots> = (fst (?F (ctx0, 0) (pad64 ?len m))) \<lparr>total64 := word_of_nat (length m)\<rparr>"
    unfolding pad ctx by (simp only: feed_total64 foldl_append sp) (simp split: prod.split)
  finally have "view64 k (common64_end config ctx sw) = view64 k (fst (?F (ctx0, 0) (pad64 ?len m)))"
    by (simp add: view64_def)
  moreover obtain j where "length (pad64 ?len m) = 64 * j"
    by (rule pad64_length [of ?len m]) (simp_all only: length_bytes64)
  ultimately show ?thesis using h64.feed_blocks [OF assms(1)] by simp
qed

lemma concat_bytes_bswap:
  "concat (map bytes32 (map bswap32 ws)) = concat (map (\<lambda>w. rev (bytes32 w)) ws)"
  by (simp add: bytes32_bswap32 comp_def)

lemma process_block_end:
  assumes "inv64 k ctx0" "hashed64 config ctx0 m ctx"
  shows "inv64 k (common64_end config ctx sw)"
proof -
  let ?F = "foldl (feed 64 put64 (process config))"
  have "inv64 k (fst (?F (ctx0, 0) m))" by (rule h64.feed_inv) (simp_all add: assms(1))
  then have inv: "inv64 k ctx" using assms(2) by (simp add: hashed64_def inv64_def)
  show ?thesis unfolding common64_end_feed [OF inv refl]
    by (rule h64.feed_inv) (simp_all add: inv)
qed

lemma hashed64_begin: "total64 ctx = 0 \<Longrightarrow> hashed64 config ctx [] ctx"
  by (simp add: hashed64_def)

lemma digest_md5:
  assumes "length (wbuffer ctx) = 64" "length (hash ctx) = 8"
  shows "snd (md5_end config (foldl (md5_hash config) (md5_begin ctx) chunks)) = md5_spec (concat chunks)"
proof -
  have i: "inv64 md5_process (md5_begin ctx)" using assms by (simp add: inv64_def md5_begin_def)
  have h: "hashed64 config (md5_begin ctx) ([] @ concat chunks) (foldl (md5_hash config) (md5_begin ctx) chunks)"
    by (rule md5_hash_chunks [OF i]) (simp add: hashed64_begin md5_begin_def)
  have v: "view64 md5_process (md5_begin ctx) = [0x67452301, 0xefcdab89, 0x98badcfe, 0x10325476]"
    by (simp add: view64_def md5_begin_def)
  show ?thesis
    using common64_end_digest [OF i h, of False, unfolded v]
    by (simp add: md5_end_def md5_spec_def bytes32_octets bytes64_octets Let_def view64_def)
qed

lemma digest_sha1:
  assumes "length (wbuffer ctx) = 64" "length (hash ctx) = 8"
  shows "snd (sha1_end config (foldl (md5_hash config) (sha1_begin ctx) chunks)) = sha1_spec (concat chunks)"
proof -
  have i: "inv64 sha1_process (sha1_begin ctx)" using assms by (simp add: inv64_def sha1_begin_def)
  have h: "hashed64 config (sha1_begin ctx) ([] @ concat chunks) (foldl (md5_hash config) (sha1_begin ctx) chunks)"
    by (rule md5_hash_chunks [OF i]) (simp add: hashed64_begin sha1_begin_def)
  have v: "view64 sha1_process (sha1_begin ctx) = [0x67452301, 0xefcdab89, 0x98badcfe, 0x10325476, 0xc3d2e1f0]"
    by (simp add: view64_def sha1_begin_def)
  have k: "process_block (common64_end config (foldl (md5_hash config) (sha1_begin ctx) chunks) True) = sha1_process"
    "length (hash (common64_end config (foldl (md5_hash config) (sha1_begin ctx) chunks) True)) = 8"
    using process_block_end [OF i h, of True] by (simp_all add: inv64_def)
  show ?thesis
    using common64_end_digest [OF i h, of True, unfolded v]
    by (simp add: sha1_end_def sha1_spec_def bytes32_octets bytes64_octets Let_def view64_def k bytes64_bswap64 concat_bytes_bswap del: map_map)
qed

lemma length_foldl_sha256 [simp]: "length h = 8 \<Longrightarrow> length (foldl fips_sha256_block h bs) = 8"
  by (induction bs arbitrary: h) (auto simp: length_spec_blocks)

lemma digest_sha256:
  assumes "length (wbuffer ctx) = 64"
  shows "snd (sha1_end config (foldl (md5_hash config) (sha256_begin ctx) chunks)) = sha256_spec (concat chunks)"
proof -
  have i: "inv64 sha256_process (sha256_begin ctx)" using assms by (simp add: inv64_def sha256_begin_def init256_def)
  have h: "hashed64 config (sha256_begin ctx) ([] @ concat chunks) (foldl (md5_hash config) (sha256_begin ctx) chunks)"
    by (rule md5_hash_chunks [OF i]) (simp add: hashed64_begin sha256_begin_def init256_def)
  have v: "view64 sha256_process (sha256_begin ctx) = [0x6a09e667, 0xbb67ae85, 0x3c6ef372, 0xa54ff53a, 0x510e527f, 0x9b05688c, 0x1f83d9ab, 0x5be0cd19]"
    by (simp add: view64_def sha256_begin_def init256_def)
  have k: "process_block (common64_end config (foldl (md5_hash config) (sha256_begin ctx) chunks) True) = sha256_process"
    "length (hash (common64_end config (foldl (md5_hash config) (sha256_begin ctx) chunks) True)) = 8"
    using process_block_end [OF i h, of True] by (simp_all add: inv64_def)
  show ?thesis
    using common64_end_digest [OF i h, of True, unfolded v]
    by (simp add: sha1_end_def sha256_spec_def fips_H256_eq bytes32_octets bytes64_octets Let_def view64_def k bytes64_bswap64 concat_bytes_bswap del: map_map)
qed


section \<open>SHA-512\<close>

definition put512 :: "sha512_ctx \<Rightarrow> nat \<Rightarrow> u8 \<Rightarrow> sha512_ctx" where
  "put512 ctx p x = ctx \<lparr>wbuffer512 := (wbuffer512 ctx) [p := x]\<rparr>"

definition inv512 :: "sha512_ctx \<Rightarrow> bool" where
  "inv512 ctx \<longleftrightarrow> length (wbuffer512 ctx) = 128 \<and> length (hash512 ctx) = 8"

lemma puts_put512:
  "p + length xs \<le> length (wbuffer512 ctx) \<Longrightarrow>
   puts put512 ctx p xs = ctx \<lparr>wbuffer512 := memcpy (wbuffer512 ctx) p xs\<rparr>"
proof (induction xs arbitrary: ctx p)
  case (Cons x xs)
  then show ?case by (simp add: put512_def memcpy_Cons)
qed simp

lemma process_inv512: "inv512 ctx \<Longrightarrow> inv512 (process512 ctx)"
  by (simp add: inv512_def process512_def)

lemma process_view512:
  assumes "inv512 ctx" "length b = 128"
  shows "hash512 (process512 (puts put512 ctx 0 b)) = fips_sha512_block (hash512 ctx) b"
  using assms by (subst puts_put512) (auto simp: inv512_def memcpy_all process512_def sha512_block_fips)

lemma sha512_loop_stop:
  assumes "inv512 ctx" "p + length xs < 128"
  shows "sha512_hash_loop ctx p xs = puts put512 ctx p xs"
  using assms by (subst sha512_hash_loop.simps) (auto simp: inv512_def puts_put512 Let_def min_def)

lemma sha512_loop_full:
  assumes "inv512 ctx" "p < 128" "p + length xs = 128"
  shows "sha512_hash_loop ctx p (xs @ ys) = sha512_hash_loop (process512 (puts put512 ctx p xs)) 0 ys"
proof -
  have "min (128 - p) (length (xs @ ys)) = length xs" using assms(3) by auto
  then show ?thesis using assms by (subst sha512_hash_loop.simps) (auto simp: inv512_def puts_put512 Let_def)
qed

lemma put512_inv: "inv512 ctx \<Longrightarrow> inv512 (put512 ctx p x)"
  by (simp add: inv512_def put512_def)

interpretation h128: block_hash 128 put512 process512 inv512 sha512_hash_loop hash512 fips_sha512_block
  by unfold_locales
    (auto intro: put512_inv process_inv512 process_view512 sha512_loop_stop simp: sha512_loop_full)

lemma feed_total512_step:
  "feed 128 put512 process512 (s \<lparr>total512 := t\<rparr>, q) x =
   (let (s', q') = feed 128 put512 process512 (s, q) x in (s' \<lparr>total512 := t\<rparr>, q'))"
  by (simp add: feed_def Let_def put512_def process512_def)

lemma feed_total512:
  "foldl (feed 128 put512 process512) (ctx \<lparr>total512 := t\<rparr>, p) xs =
   (let (s, q) = foldl (feed 128 put512 process512) (ctx, p) xs in (s \<lparr>total512 := t\<rparr>, q))"
proof (induction xs rule: rev_induct)
  case (snoc x xs)
  obtain s q where "foldl (feed 128 put512 process512) (ctx, p) xs = (s, q)" by fastforce
  then show ?case using snoc by (simp add: feed_total512_step)
qed simp

lemma total_position128: "unat (w AND 127 :: u64) = unat w mod 128"
proof -
  have m: "w AND 127 = take_bit 7 w" by (simp add: take_bit_eq_mask mask_numeral)
  show ?thesis unfolding m unsigned_take_bit_eq by (simp add: take_bit_eq_mod)
qed

lemma mod_position128: "unat (word_of_nat n :: u64) mod 128 = n mod 128"
proof -
  have "(128 :: nat) dvd 2 ^ 64" by simp
  then show ?thesis by (simp only: unat_of_nat word_size) (simp add: mod_mod_cancel)
qed

text \<open>The 128-bit count of bytes.\<close>

definition count128 :: "nat \<Rightarrow> u64 \<times> u64" where
  "count128 n = (word_of_nat n, word_of_nat (n div 2 ^ 64))"

lemma count128_add:
  assumes "l < 2 ^ 64"
  shows "(let (lo, hi) = count128 n; lo = lo + word_of_nat l
    in (lo, if lo < word_of_nat l then hi + 1 else hi)) = count128 (n + l)"
proof -
  define q r where "q = n div 2 ^ 64" and "r = n mod 2 ^ 64"
  have n: "n = 2 ^ 64 * q + r" and r: "r < 2 ^ 64" by (simp_all add: q_def r_def)
  have lo: "word_of_nat n + word_of_nat l = (word_of_nat (n + l) :: u64)" by simp
  have ul: "unat (word_of_nat l :: u64) = l" using assms by (simp add: unat_of_nat)
  have unl: "unat (word_of_nat (n + l) :: u64) = (r + l) mod 2 ^ 64"
  proof -
    have "unat (word_of_nat (n + l) :: u64) = (n + l) mod 2 ^ 64" by (simp only: unat_of_nat) simp
    then show ?thesis by (simp add: r_def mod_simps)
  qed
  show ?thesis
  proof (cases "r + l < 2 ^ 64")
    case True
    then have "(n + l) div 2 ^ 64 = q" unfolding n by simp
    moreover have "\<not> (word_of_nat (n + l) :: u64) < word_of_nat l"
      using True by (simp add: word_less_nat_alt unl ul del: of_nat_add)
    ultimately show ?thesis by (simp add: count128_def Let_def lo q_def del: of_nat_add)
  next
    case False
    then have "(r + l) div 2 ^ 64 = 1" "(r + l) mod 2 ^ 64 = r + l - 2 ^ 64"
      using r assms by (auto simp: mod_if div_nat_eqI)
    moreover have "(n + l) div 2 ^ 64 = q + (r + l) div 2 ^ 64"
      unfolding n by (simp add: add.assoc)
    ultimately have hi: "(n + l) div 2 ^ 64 = n div 2 ^ 64 + 1" and "(r + l) mod 2 ^ 64 < l"
      using r False by (simp_all add: q_def)
    then have "(word_of_nat (n + l) :: u64) < word_of_nat l"
      by (simp only: word_less_nat_alt unl ul)
    moreover have "(word_of_nat (n div 2 ^ 64 + 1) :: u64) = word_of_nat (n div 2 ^ 64) + 1" by simp
    ultimately show ?thesis by (simp only: count128_def Let_def prod.case lo if_True hi)
  qed
qed

definition hashed512 :: "sha512_ctx \<Rightarrow> u8 list \<Rightarrow> sha512_ctx \<Rightarrow> bool" where
  "hashed512 ctx0 m ctx \<longleftrightarrow>
     ctx = (fst (foldl (feed 128 put512 process512) (ctx0, 0) m)) \<lparr>total512 := count128 (length m)\<rparr>"

lemma sha512_hash_hashed:
  assumes "inv512 ctx0" "hashed512 ctx0 m ctx" "length b < 2 ^ 64"
  shows "hashed512 ctx0 (m @ b) (sha512_hash ctx b)"
proof -
  let ?F = "foldl (feed 128 put512 process512)"
  obtain s p where sp: "?F (ctx0, 0) m = (s, p)" by fastforce
  have p: "p = length m mod 128" using feed_position [of "(ctx0, 0)" 128 put512 process512 m] sp by simp
  have s: "inv512 s" using h128.feed_inv [of "(ctx0, 0)" m] assms(1) sp by simp
  have ctx: "ctx = s \<lparr>total512 := count128 (length m)\<rparr>" using assms(2) sp by (simp add: hashed512_def)
  have pos: "unat (word_of_nat (length m) AND 127 :: u64) = p"
    by (simp add: total_position128 mod_position128 p)
  have inv: "inv512 (s \<lparr>total512 := t\<rparr>)" for t using s by (simp add: inv512_def)
  have "sha512_hash ctx b = sha512_hash_loop (s \<lparr>total512 := count128 (length m + length b)\<rparr>) p b"
    using count128_add [OF assms(3), of "length m"] pos
    by (simp add: sha512_hash_def ctx Let_def count128_def)
  also have "\<dots> = fst (?F (s \<lparr>total512 := count128 (length m + length b)\<rparr>, p) b)"
    by (rule h128.loop_feed [OF inv]) (simp add: p)
  also have "\<dots> = (fst (?F (ctx0, 0) (m @ b))) \<lparr>total512 := count128 (length (m @ b))\<rparr>"
    by (simp add: feed_total512 sp split: prod.split)
  finally show ?thesis by (simp add: hashed512_def)
qed

lemma sha512_hash_chunks:
  assumes "inv512 ctx0" "hashed512 ctx0 m ctx" "\<forall>c \<in> set chunks. length c < 2 ^ 64"
  shows "hashed512 ctx0 (m @ concat chunks) (foldl sha512_hash ctx chunks)"
  using assms(2,3)
proof (induction chunks arbitrary: m ctx)
  case (Cons b chunks)
  have b: "length b < 2 ^ 64" and c: "\<forall>c \<in> set chunks. length c < 2 ^ 64" using Cons.prems(2) by simp_all
  show ?case using Cons.IH [OF sha512_hash_hashed [OF assms(1) Cons.prems(1) b] c] by simp
qed simp


lemma memcpy_zeros_length128:
  assumes "length w = 128" "q \<le> 112" "length t = 8" "length u = 8"
  shows "memcpy (memcpy (memcpy w q (replicate (128 - q) 0)) 120 t) 112 u =
    memcpy w q (replicate (112 - q) 0 @ u @ t)"
proof -
  let ?z = "replicate (112 - q) (0 :: u8)"
  have z: "replicate (128 - q) (0 :: u8) = (?z @ replicate 8 0) @ replicate 8 0"
    using assms(2) by (simp only: replicate_add [symmetric] append_assoc) (simp add: add.commute)
  have "memcpy (memcpy w q ((?z @ replicate 8 0) @ replicate 8 0)) 120 t = memcpy w q ((?z @ replicate 8 0) @ t)"
    using memcpy_over [of q "?z @ replicate 8 0" t w "replicate 8 0"] assms by simp
  moreover have "memcpy (memcpy w q (?z @ (replicate 8 0 @ t))) 112 (u @ t) = memcpy w q (?z @ (u @ t))"
    using memcpy_over [of q ?z "u @ t" w "replicate 8 0 @ t"] assms by simp
  moreover have "memcpy (memcpy w q (?z @ (replicate 8 0 @ t))) 112 (u @ t) =
      memcpy (memcpy w q (?z @ (replicate 8 0 @ t))) 112 u"
  proof -
    have "drop 120 (memcpy w q (?z @ (replicate 8 0 @ t))) = t"
      using assms by (simp add: memcpy_def)
    then show ?thesis using assms by (simp add: memcpy_def [of "memcpy w q _"])
  qed
  ultimately show ?thesis unfolding z by simp
qed

definition padding128 :: "u8 list \<Rightarrow> nat \<Rightarrow> u8 list" where
  "padding128 len_bytes r = [0x80] @ replicate (if r < 112 then 111 - r else 239 - r) 0 @ len_bytes"

definition length128 :: "u64 \<times> u64 \<Rightarrow> u8 list" where
  "length128 t = rev (bytes64 (push_bit 3 (snd t) OR drop_bit 61 (fst t))) @ rev (bytes64 (push_bit 3 (fst t)))"

lemma length_length128 [simp]: "length (length128 t) = 16"
  by (simp add: length128_def)

lemma sha512_last:
  assumes "length (wbuffer512 ctx) = 128" "q \<le> 112"
  shows "sha512_end_loop ctx q = process512
    (ctx \<lparr>wbuffer512 := memcpy (wbuffer512 ctx) q (replicate (112 - q) 0 @ length128 (total512 ctx))\<rparr>)"
  using assms memcpy_zeros_length128 [of "wbuffer512 ctx" q]
  by (subst sha512_end_loop.simps)
    (auto simp: Let_def length128_def bytes64_bswap64 split: prod.split)

lemma process512_fields [simp]:
  "total512 (process512 ctx) = total512 ctx" "wbuffer512 (process512 ctx) = wbuffer512 ctx"
  by (simp_all add: process512_def)

lemma feed_block128:
  assumes "length (wbuffer512 ctx) = 128" "p < 128" "p + length xs = 128"
  shows "foldl (feed 128 put512 process512) (ctx, p) xs =
    (process512 (ctx \<lparr>wbuffer512 := memcpy (wbuffer512 ctx) p xs\<rparr>), 0)"
  using assms by (simp only: feed_full puts_put512 le_refl)

lemma sha512_end_feed:
  assumes inv: "inv512 ctx" and p64: "p < 128"
  shows "sha512_end_loop (ctx \<lparr>wbuffer512 := memcpy (wbuffer512 ctx) p [0x80]\<rparr>) (p + 1) =
    fst (foldl (feed 128 put512 process512) (ctx, p) (padding128 (length128 (total512 ctx)) p))"
proof -
  let ?t = "length128 (total512 ctx)"
  let ?F = "foldl (feed 128 put512 process512)"
  have w: "length (wbuffer512 ctx) = 128" using inv by (simp add: inv512_def)
  show ?thesis
  proof (cases "p < 112")
    case True
    have "memcpy (memcpy (wbuffer512 ctx) p [0x80]) (p + 1) (replicate (112 - (p + 1)) 0 @ ?t) =
        memcpy (wbuffer512 ctx) p (padding128 ?t p)"
      using memcpy_append [of p "[0x80]" "replicate (111 - p) 0 @ ?t" "wbuffer512 ctx"] w True
      by (simp add: padding128_def)
    then have "sha512_end_loop (ctx \<lparr>wbuffer512 := memcpy (wbuffer512 ctx) p [0x80]\<rparr>) (p + 1) =
        process512 (ctx \<lparr>wbuffer512 := memcpy (wbuffer512 ctx) p (padding128 ?t p)\<rparr>)"
      using w True by (subst sha512_last) simp_all
    also have "\<dots> = fst (?F (ctx, p) (padding128 ?t p))"
      using True by (subst feed_block128) (simp_all add: w padding128_def)
    finally show ?thesis .
  next
    case False
    let ?a = "[0x80] @ replicate (127 - p) 0" and ?b = "replicate 112 0 @ ?t"
    have pad: "padding128 ?t p = ?a @ ?b"
    proof -
      have "replicate (239 - p) (0 :: u8) = replicate (127 - p) 0 @ replicate 112 0"
        using p64 by (simp only: replicate_add [symmetric]) (simp add: add.commute)
      then show ?thesis using False by (simp add: padding128_def)
    qed
    let ?c1 = "process512 (ctx \<lparr>wbuffer512 := memcpy (wbuffer512 ctx) p ?a\<rparr>)"
    have "memcpy (memcpy (wbuffer512 ctx) p [0x80]) (p + 1) (replicate (128 - (p + 1)) 0) =
        memcpy (wbuffer512 ctx) p ?a"
      using memcpy_append [of p "[0x80]" "replicate (127 - p) 0" "wbuffer512 ctx"] w p64 by simp
    then have "sha512_end_loop (ctx \<lparr>wbuffer512 := memcpy (wbuffer512 ctx) p [0x80]\<rparr>) (p + 1) =
        sha512_end_loop ?c1 0"
      using False by (subst sha512_end_loop.simps) (simp add: Let_def)
    also have "\<dots> = process512 (?c1 \<lparr>wbuffer512 := memcpy (wbuffer512 ?c1) 0 ?b\<rparr>)"
      using w p64 by (subst sha512_last) auto
    also have "\<dots> = fst (?F (?c1, 0) ?b)"
      using w p64 by (subst feed_block128) simp_all
    also have "\<dots> = fst (?F (ctx, p) (?a @ ?b))"
    proof -
      have "?F (ctx, p) ?a = (?c1, 0)" using w p64 by (subst feed_block128) simp_all
      then show ?thesis by simp
    qed
    finally show ?thesis by (simp only: pad)
  qed
qed


lemma count128_bits:
  "push_bit 3 (word_of_nat (n div 2 ^ 64)) OR drop_bit 61 (word_of_nat n) =
   (word_of_nat (8 * n div 2 ^ 64) :: u64)"
proof (rule bit_word_eqI)
  fix i assume "i < LENGTH(64)"
  then have i: "i < 64" by simp
  have d: "n div 2 ^ 64 = drop_bit 64 n" "8 * n div 2 ^ 64 = drop_bit 64 (push_bit 3 n)"
    by (simp_all add: drop_bit_eq_div push_bit_eq_mult mult.commute)
  have r: "bit (word_of_nat (8 * n div 2 ^ 64) :: u64) i \<longleftrightarrow> bit n (61 + i)"
    using i unfolding d by (simp add: bit_of_nat_iff bit_drop_bit_eq bit_push_bit_iff)
  have "bit (push_bit 3 (word_of_nat (n div 2 ^ 64)) :: u64) i \<longleftrightarrow> 3 \<le> i \<and> bit n (61 + i)"
    using i unfolding d by (auto simp: bit_of_nat_iff bit_drop_bit_eq bit_push_bit_iff)
  moreover have "bit (drop_bit 61 (word_of_nat n) :: u64) i \<longleftrightarrow> i < 3 \<and> bit n (61 + i)"
    using i by (auto simp: bit_of_nat_iff bit_drop_bit_eq)
  ultimately show "bit (push_bit 3 (word_of_nat (n div 2 ^ 64)) OR drop_bit 61 (word_of_nat n) :: u64) i =
      bit (word_of_nat (8 * n div 2 ^ 64) :: u64) i"
    unfolding r bit_or_iff by auto
qed

lemma length128_count:
  "length128 (count128 n) = rev (bytes64 (word_of_nat (8 * n div 2 ^ 64))) @ rev (bytes64 (word_of_nat (8 * n)))"
proof -
  have "push_bit 3 (word_of_nat n) = (word_of_nat (8 * n) :: u64)" by (simp add: push_bit_eq_mult)
  then show ?thesis by (simp only: length128_def count128_def fst_conv snd_conv count128_bits)
qed

lemma pad128_padding: "pad128 m = m @ padding128 (length128 (count128 (length m))) (length m mod 128)"
  by (simp only: pad128_def bytes64_octets padding128_def length128_count pad_count128 mod_less_divisor zero_less_numeral)

lemma pad128_length: obtains k where "length (pad128 m) = 128 * k"
proof -
  define q r where "q = length m div 128" and "r = length m mod 128"
  have qr: "length m = 128 * q + r" "r < 128" by (simp_all add: q_def r_def)
  have len: "length (pad128 m) = length m + (if r < 112 then 128 - r else 256 - r)"
    using qr(2) by (simp add: pad128_padding padding128_def r_def [symmetric])
  show ?thesis
  proof (rule that)
    show "length (pad128 m) = 128 * (q + (if r < 112 then 1 else 2))"
      unfolding len using qr by simp
  qed
qed

lemma sha512_start: "hash512 (sha512_begin ctx) =
    [0x6a09e667f3bcc908, 0xbb67ae8584caa73b, 0x3c6ef372fe94f82b, 0xa54ff53a5f1d36f1,
     0x510e527fade682d1, 0x9b05688c2b3e6c1f, 0x1f83d9abfb41bd6b, 0x5be0cd19137e2179]"
  "total512 (sha512_begin ctx) = (0, 0)"
  by (simp_all add: sha512_begin_def init256_def init512_lo_def upt_rec)

lemma digest_sha512:
  assumes "length (wbuffer512 ctx0) = 128" "\<forall>c \<in> set chunks. length c < 2 ^ 64"
  shows "snd (sha512_end (foldl sha512_hash (sha512_begin ctx0) chunks)) = sha512_spec (concat chunks)"
proof -
  let ?F = "foldl (feed 128 put512 process512)"
  let ?m = "concat chunks" and ?b = "sha512_begin ctx0"
  define ctx where "ctx = foldl sha512_hash ?b chunks"
  have i: "inv512 ?b" using assms(1) sha512_start [of ctx0] by (simp add: inv512_def sha512_begin_def Let_def)
  have "hashed512 ?b [] ?b" using sha512_start [of ctx0] by (simp add: hashed512_def count128_def)
  from sha512_hash_chunks [OF i this assms(2)] have h: "hashed512 ?b ?m ctx" by (simp add: ctx_def)
  obtain s p where sp: "?F (?b, 0) ?m = (s, p)" by fastforce
  have p: "p = length ?m mod 128" using feed_position [of "(?b, 0)" 128 put512 process512 ?m] sp by simp
  have s: "inv512 s" using h128.feed_inv [of "(?b, 0)" ?m] i sp by simp
  have ctx: "ctx = s \<lparr>total512 := count128 (length ?m)\<rparr>" using h sp by (simp add: hashed512_def)
  have inv: "inv512 ctx" using s by (simp add: ctx inv512_def)
  have pos: "unat (fst (total512 ctx) AND 127) = p"
    by (simp add: ctx count128_def total_position128 mod_position128 p)
  have p128: "p < 128" by (simp add: p)
  have pad: "pad128 ?m = ?m @ padding128 (length128 (count128 (length ?m))) p"
    by (simp only: pad128_padding p)
  let ?e = "sha512_end_loop (ctx \<lparr>wbuffer512 := memcpy (wbuffer512 ctx) p [0x80]\<rparr>) (p + 1)"
  have "?e = fst (?F (ctx, p) (padding128 (length128 (count128 (length ?m))) p))"
    unfolding sha512_end_feed [OF inv p128] by (simp add: ctx)
  also have "\<dots> = (fst (?F (?b, 0) (pad128 ?m))) \<lparr>total512 := count128 (length ?m)\<rparr>"
    unfolding pad ctx by (simp only: feed_total512 foldl_append sp) (simp split: prod.split)
  finally have "hash512 ?e = hash512 (fst (?F (?b, 0) (pad128 ?m)))" by simp
  also obtain j where "length (pad128 ?m) = 128 * j" by (rule pad128_length)
  then have "hash512 (fst (?F (?b, 0) (pad128 ?m))) = foldl fips_sha512_block (hash512 ?b) (blocks 128 (pad128 ?m))"
    by (rule h128.feed_blocks [OF i])
  finally show ?thesis
    unfolding ctx_def [symmetric] sha512_end_def Let_def pos sha512_spec_def fips_H512_eq sha512_start
    by (simp add: bytes64_octets bytes64_bswap64 comp_def)
qed


section \<open>The properties\<close>

definition fresh64 :: md5_ctx where
  "fresh64 = \<lparr>wbuffer = replicate 64 0xaa, process_block = md5_process, total64 = 5, hash = replicate 8 7\<rparr>"

definition fresh128 :: sha512_ctx where
  "fresh128 = \<lparr>total512 = (1, 2), hash512 = replicate 8 3, wbuffer512 = replicate 128 0xaa\<rparr>"

text \<open>C14: MD5, SHA-1 and SHA-256: whatever memory the context starts from and however the message is
  cut into \<open>hash\<close> calls, the digest is the one the standard defines on the whole message: padded
  to 64-byte blocks with its length in bits, and the block function folded over the blocks.\<close>

theorem md5_sha_digests:
  assumes "length (wbuffer ctx) = 64" "length (hash ctx) = 8"
  shows "snd (md5_end config (foldl (md5_hash config) (md5_begin ctx) chunks)) = md5_spec (concat chunks) \<and>
    snd (sha1_end config (foldl (md5_hash config) (sha1_begin ctx) chunks)) = sha1_spec (concat chunks) \<and>
    snd (sha1_end config (foldl (md5_hash config) (sha256_begin ctx) chunks)) = sha256_spec (concat chunks)"
  using assms by (simp add: digest_md5 digest_sha1 digest_sha256)

theorem md5_sha_digests_witness:
  "snd (md5_end 1 (foldl (md5_hash 1) (md5_begin fresh64) [[97], [98, 99]])) = md5_spec [97, 98, 99] \<and>
   snd (sha1_end 1 (foldl (md5_hash 1) (sha1_begin fresh64) [[97], [98, 99]])) = sha1_spec [97, 98, 99] \<and>
   snd (sha1_end 1 (foldl (md5_hash 1) (sha256_begin fresh64) [[97], [98, 99]])) = sha256_spec [97, 98, 99]"
  using md5_sha_digests [of fresh64 1 "[[97], [98, 99]]"] by (simp add: fresh64_def)

text \<open>C15: SHA-512 likewise, with 128-byte blocks and the 128-bit length: the carry between the halves
  of the byte count and its shift by three bits across them are right.\<close>

theorem sha512_digest:
  assumes "length (wbuffer512 ctx) = 128" "\<forall>c \<in> set chunks. length c < 2 ^ 64"
  shows "snd (sha512_end (foldl sha512_hash (sha512_begin ctx) chunks)) = sha512_spec (concat chunks)"
  using assms by (rule digest_sha512)

theorem sha512_digest_witness:
  "snd (sha512_end (foldl sha512_hash (sha512_begin fresh128) [[97], [98, 99]])) = sha512_spec [97, 98, 99]"
  using sha512_digest [of fresh128 "[[97], [98, 99]]"] by (simp add: fresh128_def)

end
