(* ===== verification/Sha3Digest.thy ===== *)
theory Sha3Digest imports HashDigest begin

text \<open>
  The SHA-3 sponge: absorbing byte by byte or word by word is the same stream of bytes, and the
  digest is the one of FIPS 202 on the whole message.
\<close>

section \<open>Bytes of the state\<close>

lemma length_xor_byte [simp]: "length (xor_byte s p x) = length s"
  by (simp add: xor_byte_def)

lemma length_xor_bytes [simp]: "length (xor_bytes s p xs) = length s"
  by (induction s p xs rule: xor_bytes.induct) auto

lemma xor_bytes_append: "xor_bytes s p (xs @ ys) = xor_bytes (xor_bytes s p xs) (p + length xs) ys"
  by (induction s p xs rule: xor_bytes.induct) auto

lemma puts_xor_byte: "puts xor_byte s p xs = xor_bytes s p xs"
  by (induction s p xs rule: xor_bytes.induct) auto

lemma from_bytes_xor:
  assumes "8 \<le> LENGTH('a::len)"
  shows "(from_bytes (b # bs) :: 'a word) = ucast b XOR push_bit 8 (from_bytes bs)"
proof (rule bit_word_eqI)
  fix n assume "n < LENGTH('a)"
  then show "bit (from_bytes (b # bs) :: 'a word) n = bit (ucast b XOR push_bit 8 (from_bytes bs) :: 'a word) n"
    using byte_bit_high [of n b] by (auto simp: bit_or_iff bit_xor_iff bit_push_bit_iff bit_ucast_iff)
qed

lemma push_bit_xor: "push_bit n (a XOR b) = push_bit n a XOR (push_bit n b :: 'a::len word)"
  by (rule bit_word_eqI) (auto simp: bit_simps)

lemma xor_bytes_in_lane:
  "j + length bs \<le> 8 \<Longrightarrow> i < length s \<Longrightarrow>
   xor_bytes s (8 * i + j) bs = s [i := s ! i XOR push_bit (8 * j) (from_bytes bs)]"
proof (induction bs arbitrary: s j)
  case (Cons b bs)
  have j: "j < 8" using Cons.prems(1) by simp
  have "(8 * i + j) div 8 = i" "(8 * i + j) mod 8 = j" using j by simp_all
  then have "xor_byte s (8 * i + j) b = s [i := s ! i XOR push_bit (8 * j) (ucast b)]"
    by (simp only: xor_byte_def)
  moreover have "8 * i + j + 1 = 8 * i + (j + 1)" by simp
  moreover have "push_bit (8 * (j + 1)) w = push_bit (8 * j) (push_bit 8 w)" for w :: u64
    by (simp add: add.commute)
  moreover have "(from_bytes (b # bs) :: u64) = ucast b XOR push_bit 8 (from_bytes bs)"
    by (rule from_bytes_xor) simp
  ultimately show ?case
    using Cons.IH [of "j + 1" "s [i := s ! i XOR push_bit (8 * j) (ucast b)]"] Cons.prems
    by (simp only: xor_bytes.simps push_bit_xor) (simp add: xor.assoc)
qed simp

lemma xor_bytes_lane:
  "length bs \<le> 8 \<Longrightarrow> i < length s \<Longrightarrow> xor_bytes s (8 * i) bs = s [i := s ! i XOR from_bytes bs]"
  using xor_bytes_in_lane [of 0 bs i s] by simp

lemma xor_words_bytes:
  "8 * k \<le> length data \<Longrightarrow> i + k \<le> length s \<Longrightarrow>
   xor_words k i s data = xor_bytes s (8 * i) (take (8 * k) data)"
proof (induction k arbitrary: i s data)
  case (Suc k)
  let ?s = "s [i := s ! i XOR from_bytes (take 8 data)]"
  have "xor_words k (i + 1) ?s (drop 8 data) = xor_bytes ?s (8 * (i + 1)) (take (8 * k) (drop 8 data))"
    using Suc.prems by (intro Suc.IH) auto
  moreover have "xor_bytes s (8 * i) (take 8 data) = ?s"
    using Suc.prems by (intro xor_bytes_lane) auto
  moreover have "take (8 * Suc k) data = take 8 data @ take (8 * k) (drop 8 data)"
    by (metis mult_Suc_right take_add)
  ultimately show ?case using Suc.prems by (simp add: xor_bytes_append add.commute)
qed simp

section \<open>The stream\<close>

abbreviation absorb :: "bool \<Rightarrow> nat \<Rightarrow> u64 list \<times> nat \<Rightarrow> u8 list \<Rightarrow> u64 list \<times> nat" where
  "absorb small r \<equiv> foldl (feed r xor_byte (sha3_process_block72 small))"

lemma length_sha3_process [simp]: "length s = 25 \<Longrightarrow> length (sha3_process_block72 small s) = 25"
  by (simp add: sha3_process_keccak)

lemma absorb_small:
  assumes "length s = 25" "p < r"
  shows "absorb small r (s, p) xs = absorb True r (s, p) xs"
  using assms
proof (induction xs arbitrary: s p)
  case (Cons x xs)
  have "feed r xor_byte (sha3_process_block72 small) (s, p) x = feed r xor_byte (sha3_process_block72 True) (s, p) x"
    using Cons.prems by (simp add: feed_def Let_def sha3_process_keccak)
  then show ?case using Cons by (auto simp: feed_def [of r xor_byte "sha3_process_block72 True"] Let_def)
qed simp

lemma sha3_loop_stop:
  "0 < r \<Longrightarrow> p + length xs < r \<Longrightarrow> sha3_hash_loop r s p xs = (xor_bytes s p xs, p + length xs)"
  by (subst sha3_hash_loop.simps) (auto simp: Let_def min_def)

lemma sha3_loop_full:
  assumes "0 < r" "p < r" "p + length xs = r"
  shows "sha3_hash_loop r s p (xs @ ys) = sha3_hash_loop r (sha3_process_block72 True (xor_bytes s p xs)) 0 ys"
proof -
  have "min (r - p) (length (xs @ ys)) = length xs" using assms(3) by auto
  then show ?thesis using assms by (subst sha3_hash_loop.simps) (simp add: Let_def)
qed

lemma sha3_loop_absorb:
  "0 < r \<Longrightarrow> p < r \<Longrightarrow> sha3_hash_loop r s p xs = absorb True r (s, p) xs"
proof (induction "length xs" arbitrary: s p xs rule: less_induct)
  case less
  show ?case
  proof (cases "p + length xs < r")
    case True
    then show ?thesis using less.prems by (simp add: sha3_loop_stop feed_puts puts_xor_byte)
  next
    case False
    let ?a = "take (r - p) xs" and ?b = "drop (r - p) xs"
    have a: "p + length ?a = r" using False less.prems(2) by simp
    have "sha3_hash_loop r s p (?a @ ?b) = absorb True r (sha3_process_block72 True (xor_bytes s p ?a), 0) ?b"
      unfolding sha3_loop_full [OF less.prems a] using less.prems False by (intro less.hyps) auto
    also have "\<dots> = absorb True r (s, p) (?a @ ?b)"
      by (simp only: foldl_append feed_full [OF less.prems(2) a] puts_xor_byte)
    finally show ?thesis by simp
  qed
qed

subsection \<open>Word by word\<close>

lemma fill_queue_eq:
  "p < r \<Longrightarrow> fill_queue r s p data =
     (if p + length data < r then (xor_bytes s p data, p + length data, [], False)
      else (xor_bytes s p (take (r - p) data), 0, drop (r - p) data, True))"
proof (induction r s p data rule: fill_queue.induct)
  case (2 r s p b data)
  show ?case
  proof (cases "p + 1 = r")
    case True
    then have "r - p = 1" by simp
    then show ?thesis using True by (simp add: Let_def)
  next
    case False
    then have "p + 1 < r" "r - p = Suc (r - (p + 1))" using 2(2) by simp_all
    then show ?thesis using False 2(1) by (simp add: Let_def)
  qed
qed simp

lemma absorb_blocks_eq:
  assumes "r = 8 * k" "0 < k" "k \<le> 25" "length s = 25"
  shows "\<exists>s' rest. absorb_blocks r s data = (s', rest) \<and> length s' = 25 \<and> length rest < r \<and>
    absorb False r (s, 0) data = absorb False r (s', 0) rest"
  using assms(4)
proof (induction "length data" arbitrary: s data rule: less_induct)
  case less
  have k: "r div 8 = k" using assms(1) by simp
  show ?case
  proof (cases "length data < r")
    case True
    then show ?thesis using less.prems by (subst absorb_blocks.simps) auto
  next
    case False
    let ?a = "take r data" and ?b = "drop r data"
    let ?s = "sha3_process_block72 False (xor_bytes s 0 ?a)"
    have lt: "length ?b < length data" using False assms by simp
    have words: "xor_words k 0 s data = xor_bytes s 0 ?a"
      using xor_words_bytes [of k data 0 s] assms less.prems False by simp
    have step: "absorb_blocks r s data = absorb_blocks r ?s ?b"
      using False assms k words by (subst absorb_blocks.simps) simp
    have full: "absorb False r (s, 0) ?a = (?s, 0)"
      using feed_full [of 0 r ?a xor_byte "sha3_process_block72 False" s] assms False
      by (simp add: puts_xor_byte)
    have "absorb False r (s, 0) (?a @ ?b) = absorb False r (?s, 0) ?b"
      by (simp only: foldl_append full)
    moreover obtain s' rest where "absorb_blocks r ?s ?b = (s', rest)" "length s' = 25" "length rest < r"
      "absorb False r (?s, 0) ?b = absorb False r (s', 0) rest"
      using less.hyps [OF lt, of ?s] less.prems by auto
    ultimately show ?thesis using step by simp
  qed
qed

lemma sha3_fast_absorb:
  assumes "r = 8 * k" "0 < k" "k \<le> 25" "length s = 25" "p < r"
  shows "sha3_hash_fast r s p data = absorb False r (s, p) data"
proof -
  have rest: "sha3_hash_fast r s 0 data = absorb False r (s, 0) data" if s: "length s = 25" for s data
  proof -
    obtain s' rest where "absorb_blocks r s data = (s', rest)" "length rest < r"
      "absorb False r (s, 0) data = absorb False r (s', 0) rest"
      using absorb_blocks_eq [OF assms(1-3) s, of data] by blast
    then show ?thesis by (simp add: sha3_hash_fast_def feed_puts puts_xor_byte)
  qed
  have none: "absorb_blocks r s [] = (s, [])" for s using assms(1,2) by (subst absorb_blocks.simps) simp
  show ?thesis
  proof (cases "p = 0")
    case True
    then show ?thesis using rest assms(4) by simp
  next
    case False
    show ?thesis
    proof (cases "p + length data < r")
      case True
      then show ?thesis using False assms(5)
        by (simp add: sha3_hash_fast_def fill_queue_eq none feed_puts puts_xor_byte)
    next
      case full: False
      let ?a = "take (r - p) data" and ?b = "drop (r - p) data"
      let ?s = "sha3_process_block72 False (xor_bytes s p ?a)"
      have "sha3_hash_fast r s p data = sha3_hash_fast r ?s 0 ?b"
        using False full assms(5) by (simp add: sha3_hash_fast_def fill_queue_eq)
      also have "\<dots> = absorb False r (?s, 0) ?b" using assms(4) by (intro rest) simp
      also have "\<dots> = absorb False r (s, p) (?a @ ?b)"
        using full assms(5) by (simp only: foldl_append) (subst feed_full, auto simp: puts_xor_byte)
      finally show ?thesis by simp
    qed
  qed
qed

text \<open>A context that a sequence of calls has filled.\<close>

definition inv3 :: "sha3_ctx \<Rightarrow> bool" where
  "inv3 ctx \<longleftrightarrow> length (state3 ctx) = 25 \<and> bytes_queued ctx < input_block_bytes ctx \<and>
     8 dvd input_block_bytes ctx \<and> input_block_bytes ctx \<le> 200"

lemma sha3_hash_absorb:
  assumes "inv3 ctx"
  shows "sha3_hash small ctx b = (let (s, p) = absorb True (input_block_bytes ctx) (state3 ctx, bytes_queued ctx) b
    in ctx \<lparr>state3 := s, bytes_queued := p\<rparr>)"
proof -
  let ?r = "input_block_bytes ctx"
  obtain k where k: "?r = 8 * k" "0 < k" "k \<le> 25" using assms by (auto simp: inv3_def dvd_def)
  have "sha3_hash_loop ?r (state3 ctx) (bytes_queued ctx) b = absorb True ?r (state3 ctx, bytes_queued ctx) b"
    using assms k by (intro sha3_loop_absorb) (auto simp: inv3_def)
  moreover have "sha3_hash_fast ?r (state3 ctx) (bytes_queued ctx) b = absorb True ?r (state3 ctx, bytes_queued ctx) b"
    using sha3_fast_absorb [OF k, of "state3 ctx" "bytes_queued ctx" b] assms
      absorb_small [of "state3 ctx" "bytes_queued ctx" ?r False b] by (auto simp: inv3_def)
  ultimately show ?thesis by (simp add: sha3_hash_def)
qed

lemma absorb_length: "length (fst sp) = 25 \<Longrightarrow> length (fst (absorb small r sp xs)) = 25"
proof (induction xs rule: rev_induct)
  case (snoc x xs)
  then show ?case by (auto simp: feed_def [of r xor_byte _ _ x] Let_def)
qed simp

lemma sha3_hash_inv: "inv3 ctx \<Longrightarrow> inv3 (sha3_hash small ctx b)"
  using absorb_length [of "(state3 ctx, bytes_queued ctx)" "input_block_bytes ctx" True b]
    feed_position [of "(state3 ctx, bytes_queued ctx)" "input_block_bytes ctx" xor_byte "sha3_process_block72 True" b]
  by (auto simp: sha3_hash_absorb inv3_def split: prod.splits)

lemma sha3_hash_fields: "input_block_bytes (sha3_hash small ctx b) = input_block_bytes ctx"
  by (simp add: sha3_hash_def split: prod.split)

lemma sha3_hash_chunks:
  "inv3 ctx \<Longrightarrow> foldl (sha3_hash small) ctx chunks =
     (let (s, p) = absorb True (input_block_bytes ctx) (state3 ctx, bytes_queued ctx) (concat chunks)
      in ctx \<lparr>state3 := s, bytes_queued := p\<rparr>)"
proof (induction chunks arbitrary: ctx)
  case (Cons b chunks)
  obtain s p where sp: "absorb True (input_block_bytes ctx) (state3 ctx, bytes_queued ctx) b = (s, p)" by fastforce
  then have h: "sha3_hash small ctx b = ctx \<lparr>state3 := s, bytes_queued := p\<rparr>"
    using Cons.prems by (simp add: sha3_hash_absorb)
  show ?case using Cons.IH [OF sha3_hash_inv [OF Cons.prems, of small b]] by (simp add: h sp split: prod.split)
qed simp

section \<open>FIPS 202\<close>

text \<open>The sponge with rate \<open>r\<close> bytes on the message with the suffix \<open>01\<close> and the padding
  \<open>10*1\<close>; the first 64 bytes of the final state.\<close>

definition pad3 :: "nat \<Rightarrow> u8 list \<Rightarrow> u8 list" where
  "pad3 r m =
     (let q = r - length m mod r
      in if q = 1 then [0x86] else [0x06] @ replicate (q - 2) 0 @ [0x80])"

definition xor_block :: "u64 list \<Rightarrow> u8 list \<Rightarrow> u64 list" where
  "xor_block A b = map (\<lambda>i. A ! i XOR from_bytes (take 8 (drop (8 * i) b))) [0..<25]"

definition sha3_spec :: "nat \<Rightarrow> u8 list \<Rightarrow> u8 list" where
  "sha3_spec r m =
     concat (map bytes64 (take 8
       (foldl (\<lambda>A b. keccak_f (xor_block A b)) (replicate 25 0) (blocks r (m @ pad3 r m)))))"

lemma length_xor_block [simp]: "length (xor_block A b) = 25"
  by (simp add: xor_block_def)

lemma nth_xor_words:
  "8 * k \<le> length data \<Longrightarrow> i + k \<le> length s \<Longrightarrow> j < length s \<Longrightarrow>
   xor_words k i s data ! j =
     (if i \<le> j \<and> j < i + k then s ! j XOR from_bytes (take 8 (drop (8 * (j - i)) data)) else s ! j)"
proof (induction k arbitrary: i s data)
  case (Suc k)
  have IH: "xor_words k (i + 1) (s [i := s ! i XOR from_bytes (take 8 data)]) (drop 8 data) ! j =
      (if i + 1 \<le> j \<and> j < i + 1 + k
       then s [i := s ! i XOR from_bytes (take 8 data)] ! j XOR from_bytes (take 8 (drop (8 * (j - (i + 1))) (drop 8 data)))
       else s [i := s ! i XOR from_bytes (take 8 data)] ! j)"
    using Suc.prems by (intro Suc.IH) auto
  have "i < j \<Longrightarrow> 8 * (j - (i + 1)) + 8 = 8 * (j - i)" by (simp add: right_diff_distrib')
  then show ?case using IH Suc.prems by (auto simp: nth_list_update not_less_eq_eq)
qed auto

lemma xor_bytes_block:
  assumes "length s = 25" "length b = 8 * k" "k \<le> 25"
  shows "xor_bytes s 0 b = xor_block s b"
proof -
  have "xor_bytes s 0 b = xor_words k 0 s b"
    using xor_words_bytes [of k b 0 s] assms by simp
  also have "\<dots> = xor_block s b"
  proof (rule nth_equalityI)
    show "length (xor_words k 0 s b) = length (xor_block s b)"
      using xor_words_bytes [of k b 0 s] assms by (simp add: xor_block_def)
    fix j assume "j < length (xor_words k 0 s b)"
    then have j: "j < 25" using xor_words_bytes [of k b 0 s] assms by simp
    then show "xor_words k 0 s b ! j = xor_block s b ! j"
      using nth_xor_words [of k b 0 s j] assms by (auto simp: xor_block_def)
  qed
  finally show ?thesis .
qed

text \<open>The last block.\<close>

lemma xor_byte_0 [simp]: "xor_byte s p 0 = s"
  by (simp add: xor_byte_def)

lemma xor_bytes_zeros [simp]: "xor_bytes s p (replicate n 0) = s"
  by (induction n arbitrary: p) auto

lemma xor_byte_twice: "p div 8 < length s \<Longrightarrow> xor_byte (xor_byte s p x) p y = xor_byte s p (x XOR y)"
proof -
  assume p: "p div 8 < length s"
  have "push_bit n (ucast x) XOR push_bit n (ucast y) = (push_bit n (ucast (x XOR y)) :: u64)" for n
    by (rule bit_word_eqI) (auto simp: bit_simps)
  then show ?thesis using p by (simp add: xor_byte_def xor.assoc)
qed

lemma pad3_bytes:
  assumes "p < r" "r \<le> 200" "length s = 25" "p = length m mod r"
  shows "xor_bytes s p (pad3 r m) = xor_byte (xor_byte s p 6) (r - 1) 0x80" "p + length (pad3 r m) = r"
proof -
  show len: "p + length (pad3 r m) = r" using assms(1)
    by (simp add: pad3_def Let_def assms(4) [symmetric]) arith
  show "xor_bytes s p (pad3 r m) = xor_byte (xor_byte s p 6) (r - 1) 0x80"
  proof (cases "r - p = 1")
    case True
    then have "r - 1 = p" by simp
    moreover have "p div 8 < 25" using assms(1,2) by simp
    ultimately show ?thesis
      using True assms(3) by (simp add: pad3_def assms(4) [symmetric] xor_byte_twice)
  next
    case False
    then have e: "p + length [6 :: u8] + length (replicate (r - p - 2) (0 :: u8)) = r - 1"
      using assms(1) by simp
    have "pad3 r m = [6] @ replicate (r - p - 2) 0 @ [0x80]"
      using False by (simp add: pad3_def Let_def assms(4) [symmetric])
    then show ?thesis by (simp only: xor_bytes_append append_assoc [symmetric] length_append add.assoc [symmetric] e)
        simp
  qed
qed

interpretation sponge: block_hash "8 * Suc k" xor_byte "sha3_process_block72 True"
    "\<lambda>s. length s = 25 \<and> k < 25" "\<lambda>s p xs. fst (sha3_hash_loop (8 * Suc k) s p xs)"
    "\<lambda>s. s" "\<lambda>A b. keccak_f (xor_block A b)" for k
  by unfold_locales
    (auto simp: sha3_loop_stop sha3_loop_full puts_xor_byte sha3_process_keccak
      xor_bytes_block [where k = "Suc k"])

lemma sha3_digest_lemma:
  assumes "inv3 ctx" "state3 ctx = replicate 25 0" "bytes_queued ctx = 0"
  shows "snd (sha3_end small (foldl (sha3_hash small) ctx chunks)) =
    sha3_spec (input_block_bytes ctx) (concat chunks)"
proof -
  let ?r = "input_block_bytes ctx" and ?m = "concat chunks"
  obtain j where j: "?r = 8 * j" "0 < j" "j \<le> 25" using assms(1) by (auto simp: inv3_def dvd_def)
  define k where "k = j - 1"
  have k: "?r = 8 * Suc k" "k < 25" using j by (auto simp: k_def)
  have r0: "0 < ?r" "?r \<le> 200" using j by simp_all
  obtain s p where sp: "absorb True ?r (replicate 25 0, 0) ?m = (s, p)" by fastforce
  have len: "length s = 25" using absorb_length [of "(replicate 25 0, 0)" ?r True ?m] sp by simp
  have p: "p = length ?m mod ?r"
    using feed_position [of "(replicate 25 0, 0)" ?r xor_byte "sha3_process_block72 True" ?m] sp r0 by simp
  have pr: "p < ?r" using r0 by (simp add: p)
  have ctx: "foldl (sha3_hash small) ctx chunks = ctx \<lparr>state3 := s, bytes_queued := p\<rparr>"
    using sha3_hash_chunks [OF assms(1), of small chunks] by (simp add: assms(2,3) sp)
  note pad = pad3_bytes [OF pr r0(2) len p]
  have full: "absorb True ?r (s, p) (pad3 ?r ?m) = (sha3_process_block72 True (xor_bytes s p (pad3 ?r ?m)), 0)"
    using feed_full [OF pr pad(2), of xor_byte "sha3_process_block72 True" s] by (simp only: puts_xor_byte)
  have "sha3_process_block72 small (xor_byte (xor_byte s p 6) (?r - 1) 0x80) =
      fst (absorb True ?r (s, p) (pad3 ?r ?m))"
    unfolding full pad(1) fst_conv by (simp add: sha3_process_keccak len)
  also have "\<dots> = fst (absorb True ?r (replicate 25 0, 0) (?m @ pad3 ?r ?m))"
    by (simp only: foldl_append sp)
  also have "\<dots> = foldl (\<lambda>A b. keccak_f (xor_block A b)) (replicate 25 0) (blocks ?r (?m @ pad3 ?r ?m))"
  proof -
    have "length (?m @ pad3 ?r ?m) = ?r * (length ?m div ?r) + (p + length (pad3 ?r ?m))"
      by (simp add: p)
    also have "\<dots> = 8 * Suc k * (length ?m div ?r + 1)" unfolding pad(2) by (simp add: k(1))
    finally have l: "length (?m @ pad3 ?r ?m) = 8 * Suc k * (length ?m div ?r + 1)" .
    have i: "length (replicate 25 (0 :: u64)) = 25 \<and> k < 25" using k(2) by simp
    show ?thesis using sponge.feed_blocks [OF i l] unfolding k(1) .
  qed
  finally show ?thesis by (simp add: ctx sha3_end_def sha3_spec_def Let_def)
qed

lemma sha3_digest_rate:
  assumes "8 dvd r" "0 < r" "r \<le> 200"
  shows "snd (sha3_end small (foldl (sha3_hash small) (sha3_begin \<lparr>input_block_bytes := r\<rparr>) chunks)) =
    sha3_spec r (concat chunks)"
proof -
  let ?ctx = "sha3_begin \<lparr>input_block_bytes := r\<rparr>"
  have "inv3 ?ctx" using assms by (simp add: inv3_def sha3_begin_def)
  then show ?thesis using sha3_digest_lemma [of ?ctx small chunks] by (simp add: sha3_begin_def)
qed

section \<open>The properties\<close>

text \<open>C17: SHA-3: for every rate that is a positive multiple of 8 bytes, with either code variant and
  however the message is cut into calls, the 64 bytes the sponge gives are those of FIPS 202 on the
  whole message.\<close>

theorem sha3_digest:
  assumes "8 dvd r" "0 < r" "r \<le> 200"
  shows "snd (sha3_end small (foldl (sha3_hash small) (sha3_begin \<lparr>input_block_bytes := r\<rparr>) chunks)) =
    sha3_spec r (concat chunks)"
  using assms by (rule sha3_digest_rate)

theorem sha3_digest_witness:
  "snd (sha3_end False (foldl (sha3_hash False) (sha3_begin \<lparr>input_block_bytes := 144\<rparr>) [[97], [98, 99]])) =
   sha3_spec 144 [97, 98, 99]"
  using sha3_digest [of 144 False "[[97], [98, 99]]"] by simp

end
