(* ===== verification/TlsPrf.thy ===== *)
theory TlsPrf imports Hash begin

text \<open>
  \<open>networking/tls.c\<close>: HMAC with precomputed key states and the pseudorandom function of TLS 1.2,
  over the streaming hashes of \<open>Hash\<close>.

  A variable argument list is the list of its pieces; \<open>out\<close> is the result.  None is
  \<open>bb_simple_error_msg_and_die\<close>.
\<close>

section \<open>The code\<close>

definition SHA_INSIZE :: nat where "SHA_INSIZE = 64"
definition SHA256_OUTSIZE :: nat where "SHA256_OUTSIZE = 32"

record hmac_precomputed =
  hashed_key_xor_ipad :: md5_ctx
  hashed_key_xor_opad :: md5_ctx

definition hmac_begin ::
    "int \<Rightarrow> hmac_precomputed \<Rightarrow> u8 list \<Rightarrow> (md5_ctx \<Rightarrow> md5_ctx) \<Rightarrow> hmac_precomputed option" where
  "hmac_begin config pre key begin_fun =
     (if length key > SHA_INSIZE then None
      else
        let key_xor_ipad = map (\<lambda>k. k XOR 0x36) key @ replicate (SHA_INSIZE - length key) 0x36;
            key_xor_opad = map (\<lambda>k. k XOR 0x5c) key @ replicate (SHA_INSIZE - length key) 0x5c
        in Some \<lparr>
          hashed_key_xor_ipad = md5_hash config (begin_fun (hashed_key_xor_ipad pre)) key_xor_ipad,
          hashed_key_xor_opad = md5_hash config (begin_fun (hashed_key_xor_opad pre)) key_xor_opad\<rparr>)"

definition hmac_sha_precomputed_v :: "int \<Rightarrow> hmac_precomputed \<Rightarrow> u8 list list \<Rightarrow> u8 list" where
  "hmac_sha_precomputed_v config pre va =
     (let out = snd (sha1_end config (foldl (md5_hash config) (hashed_key_xor_ipad pre) va))
      in snd (sha1_end config (md5_hash config (hashed_key_xor_opad pre) out)))"

definition hmac_sha_precomputed :: "int \<Rightarrow> hmac_precomputed \<Rightarrow> u8 list list \<Rightarrow> u8 list" where
  "hmac_sha_precomputed config pre_init va = hmac_sha_precomputed_v config pre_init va"

text \<open>\<open>hmac\<close>: the size of the connection's MAC chooses the hash, SHA-1 only if
  \<open>FEATURE_TLS_SHA1\<close> is set.\<close>

definition hmac ::
    "int \<Rightarrow> bool \<Rightarrow> nat \<Rightarrow> hmac_precomputed \<Rightarrow> u8 list \<Rightarrow> u8 list list \<Rightarrow> u8 list option" where
  "hmac config tls_sha1 MAC_size pre key va =
     Option.bind (hmac_begin config pre key (if tls_sha1 \<and> MAC_size = 20 then sha1_begin else sha256_begin))
       (\<lambda>pre. Some (hmac_sha_precomputed_v config pre va))"

text \<open>The loop of \<open>prf_hmac_sha256\<close>: what is written from \<open>out_p\<close> on.\<close>

function prf_loop :: "int \<Rightarrow> hmac_precomputed \<Rightarrow> u8 list \<Rightarrow> u8 list \<Rightarrow> u8 list \<Rightarrow> nat \<Rightarrow> u8 list" where
  "prf_loop config pre label seed a outbuf_size =
     (if outbuf_size \<le> SHA256_OUTSIZE then
        take outbuf_size (hmac_sha_precomputed config pre [a, label, seed])
      else
        hmac_sha_precomputed config pre [a, label, seed]
        @ prf_loop config pre label seed (hmac_sha_precomputed config pre [a]) (outbuf_size - SHA256_OUTSIZE))"
  by pat_completeness auto
termination by (relation "measure (\<lambda>(_, _, _, _, _, n). n)") (auto simp: SHA256_OUTSIZE_def)

definition prf_hmac_sha256 ::
    "int \<Rightarrow> hmac_precomputed \<Rightarrow> nat \<Rightarrow> u8 list \<Rightarrow> u8 list \<Rightarrow> u8 list \<Rightarrow> u8 list option" where
  "prf_hmac_sha256 config pre outbuf_size secret label seed =
     Option.bind (hmac_begin config pre secret sha256_begin)
       (\<lambda>pre. let a = hmac_sha_precomputed config pre [label, seed]
              in Some (prf_loop config pre label seed a outbuf_size))"

declare prf_loop.simps [simp del]

end
