(* ===== verification/TlsPrfProps.thy ===== *)
theory TlsPrfProps imports TlsPrf HashDigest begin

text \<open>
  HMAC is that of RFC 2104 over the digests of the standards, proved once in a locale for
  the hashes that stream, and the pseudorandom function is P_SHA256 of RFC 5246.
\<close>

section \<open>The standards\<close>

text \<open>RFC 2104 with blocks of 64 bytes, for keys of at most a block.\<close>

definition pad_key :: "u8 list \<Rightarrow> u8 list" where
  "pad_key key = key @ replicate (64 - length key) 0"

definition rfc_hmac :: "(u8 list \<Rightarrow> u8 list) \<Rightarrow> u8 list \<Rightarrow> u8 list \<Rightarrow> u8 list" where
  "rfc_hmac H key m =
     H (map (\<lambda>k. k XOR 0x5c) (pad_key key) @ H (map (\<lambda>k. k XOR 0x36) (pad_key key) @ m))"

text \<open>RFC 5246, 5: \<open>A(i)\<close> and \<open>P_hash\<close>, \<open>n\<close> terms of it.\<close>

fun rfc_A :: "(u8 list \<Rightarrow> u8 list \<Rightarrow> u8 list) \<Rightarrow> u8 list \<Rightarrow> u8 list \<Rightarrow> nat \<Rightarrow> u8 list" where
  "rfc_A mac secret seed 0 = seed"
| "rfc_A mac secret seed (Suc i) = mac secret (rfc_A mac secret seed i)"

definition rfc_P_hash :: "(u8 list \<Rightarrow> u8 list \<Rightarrow> u8 list) \<Rightarrow> u8 list \<Rightarrow> u8 list \<Rightarrow> nat \<Rightarrow> u8 list" where
  "rfc_P_hash mac secret seed n =
     concat (map (\<lambda>i. mac secret (rfc_A mac secret seed (i + 1) @ seed)) [0..<n])"

section \<open>HMAC over any streaming hash\<close>

definition memory_ok :: "md5_ctx \<Rightarrow> bool" where
  "memory_ok ctx \<longleftrightarrow> length (wbuffer ctx) = 64 \<and> length (hash ctx) = 8"

locale streaming_hash =
  fixes config :: int
    and begin_fun :: "md5_ctx \<Rightarrow> md5_ctx"
    and H :: "u8 list \<Rightarrow> u8 list"
  assumes digest: "memory_ok ctx \<Longrightarrow>
    snd (sha1_end config (foldl (md5_hash config) (begin_fun ctx) chunks)) = H (concat chunks)"
begin

lemma digest_started:
  "memory_ok ctx \<Longrightarrow>
   snd (sha1_end config (foldl (md5_hash config) (md5_hash config (begin_fun ctx) k) va)) = H (k @ concat va)"
  using digest [of ctx "k # va"] by simp

lemma hmac_begin_mac:
  assumes "memory_ok (hashed_key_xor_ipad pre)" "memory_ok (hashed_key_xor_opad pre)" "length key \<le> 64"
  obtains pre' where "hmac_begin config pre key begin_fun = Some pre'"
    and "\<And>va. hmac_sha_precomputed_v config pre' va = rfc_hmac H key (concat va)"
proof -
  let ?i = "map (\<lambda>k. k XOR 0x36) (pad_key key)" and ?o = "map (\<lambda>k. k XOR 0x5c) (pad_key key)"
  let ?pre = "\<lparr>hashed_key_xor_ipad = md5_hash config (begin_fun (hashed_key_xor_ipad pre)) ?i,
    hashed_key_xor_opad = md5_hash config (begin_fun (hashed_key_xor_opad pre)) ?o\<rparr>"
  have "hmac_begin config pre key begin_fun = Some ?pre"
    using assms(3) by (simp add: hmac_begin_def SHA_INSIZE_def pad_key_def)
  moreover have "hmac_sha_precomputed_v config ?pre va = rfc_hmac H key (concat va)" for va
    using digest_started [OF assms(1), of ?i va]
      digest_started [OF assms(2), of ?o "[H (?i @ concat va)]"]
    by (simp add: hmac_sha_precomputed_v_def rfc_hmac_def Let_def)
  ultimately show ?thesis by (rule that)
qed

end

interpretation hmac_sha1: streaming_hash config sha1_begin sha1_spec for config
  by unfold_locales (simp add: memory_ok_def digest_sha1)

interpretation hmac_sha256: streaming_hash config sha256_begin sha256_spec for config
  by unfold_locales (simp add: memory_ok_def digest_sha256)

section \<open>The pseudorandom function\<close>

lemmas length_sha256_spec = digest_lengths(3)

lemma rfc_P_hash_0: "rfc_P_hash mac secret seed 0 = []"
  by (simp add: rfc_P_hash_def)

lemma rfc_A_shift: "rfc_A mac secret (mac secret seed) i = rfc_A mac secret seed (i + 1)"
  by (induction i) auto

lemma length_rfc_P_hash:
  "(\<And>m. length (mac secret m) = 32) \<Longrightarrow> length (rfc_P_hash mac secret seed n) = 32 * n"
  unfolding rfc_P_hash_def by (induction n) auto

text \<open>The loop, entered with \<open>A(i + 1)\<close>, writes the terms from the \<open>i\<close>-th on.\<close>

lemma prf_loop_terms:
  assumes mac: "\<And>va. hmac_sha_precomputed_v config pre va = mac secret (concat va)"
    and len: "\<And>m. length (mac secret m) = SHA256_OUTSIZE"
  shows "n \<le> SHA256_OUTSIZE * Suc k \<Longrightarrow>
    prf_loop config pre label seed (rfc_A mac secret s (Suc i)) n =
    take n (concat (map (\<lambda>j. mac secret (rfc_A mac secret s (Suc j) @ label @ seed)) [i..<i + Suc k]))"
proof (induction k arbitrary: i n)
  case 0
  then show ?case by (subst prf_loop.simps) (simp add: hmac_sha_precomputed_def mac)
next
  case (Suc k)
  let ?t = "\<lambda>j. mac secret (rfc_A mac secret s (Suc j) @ label @ seed)"
  have upt: "[i..<i + Suc (Suc k)] = i # [Suc i..<Suc i + Suc k]" by (simp add: upt_rec)
  have a: "hmac_sha_precomputed config pre [rfc_A mac secret s (Suc i)] = rfc_A mac secret s (Suc (Suc i))"
    by (simp add: hmac_sha_precomputed_def mac)
  show ?case
  proof (cases "n \<le> SHA256_OUTSIZE")
    case True
    then show ?thesis unfolding upt
      by (subst prf_loop.simps) (simp add: hmac_sha_precomputed_def mac len)
  next
    case False
    have "prf_loop config pre label seed (rfc_A mac secret s (Suc (Suc i))) (n - SHA256_OUTSIZE) =
        take (n - SHA256_OUTSIZE) (concat (map ?t [Suc i..<Suc i + Suc k]))"
      using Suc.prems by (intro Suc.IH) simp
    then show ?thesis using False unfolding upt
      by (subst prf_loop.simps) (simp add: hmac_sha_precomputed_def mac len a [unfolded hmac_sha_precomputed_def])
  qed
qed

lemma length_rfc_hmac: "length (rfc_hmac sha256_spec key m) = SHA256_OUTSIZE"
  by (simp add: rfc_hmac_def length_sha256_spec SHA256_OUTSIZE_def)

lemma prf_value:
  assumes "memory_ok (hashed_key_xor_ipad pre)" "memory_ok (hashed_key_xor_opad pre)"
  shows "prf_hmac_sha256 config pre outbuf_size secret label seed =
    (if length secret \<le> 64
     then Some (take outbuf_size (rfc_P_hash (rfc_hmac sha256_spec) secret (label @ seed) (outbuf_size div 32 + 1)))
     else None)"
proof (cases "length secret \<le> 64")
  case True
  obtain pre' where pre': "hmac_begin config pre secret sha256_begin = Some pre'"
    and mac: "\<And>va. hmac_sha_precomputed_v config pre' va = rfc_hmac sha256_spec secret (concat va)"
    using hmac_sha256.hmac_begin_mac [OF assms True] by metis
  have n: "outbuf_size \<le> SHA256_OUTSIZE * Suc (outbuf_size div 32)"
    unfolding SHA256_OUTSIZE_def by (simp add: less_imp_le dividend_less_times_div)
  have "prf_loop config pre' label seed (rfc_A (rfc_hmac sha256_spec) secret (label @ seed) (Suc 0)) outbuf_size =
      take outbuf_size (rfc_P_hash (rfc_hmac sha256_spec) secret (label @ seed) (outbuf_size div 32 + 1))"
    using prf_loop_terms [where mac = "rfc_hmac sha256_spec" and secret = secret, OF mac length_rfc_hmac n,
        of label seed "label @ seed" 0]
    by (simp add: rfc_P_hash_def)
  then show ?thesis
    using True pre' by (simp add: prf_hmac_sha256_def hmac_sha_precomputed_def mac)
next
  case False
  then show ?thesis by (simp add: prf_hmac_sha256_def hmac_begin_def SHA_INSIZE_def)
qed

section \<open>The properties\<close>

text \<open>C18: the TLS pseudorandom function: for a secret of at most 64 bytes it is the first
  \<open>outbuf_size\<close> bytes of \<open>P_SHA256(secret, label + seed)\<close> of RFC 5246, with HMAC of RFC 2104 over
  SHA-256, whatever the memory of the precomputed states was; a longer secret ends the program.\<close>

theorem prf_rfc5246:
  assumes "memory_ok (hashed_key_xor_ipad pre)" "memory_ok (hashed_key_xor_opad pre)"
  shows "prf_hmac_sha256 config pre outbuf_size secret label seed =
    (if length secret \<le> 64
     then Some (take outbuf_size (rfc_P_hash (rfc_hmac sha256_spec) secret (label @ seed) (outbuf_size div 32 + 1)))
     else None)"
  using assms by (rule prf_value)

theorem prf_rfc5246_witness:
  "prf_hmac_sha256 1 \<lparr>hashed_key_xor_ipad = fresh64, hashed_key_xor_opad = fresh64\<rparr> 48 (replicate 48 9) [1, 2] [3] =
   Some (take 48 (rfc_P_hash (rfc_hmac sha256_spec) (replicate 48 9) [1, 2, 3] (48 div 32 + 1)))"
  using prf_rfc5246 [of "\<lparr>hashed_key_xor_ipad = fresh64, hashed_key_xor_opad = fresh64\<rparr>" 1 48 "replicate 48 9" "[1, 2]" "[3]"]
  by (simp add: memory_ok_def fresh64_def)

end
