(* ===== verification/Fe25519.thy ===== *)
theory Fe25519 imports Prelude begin

text \<open>
  \<open>networking/tls_fe.c\<close>: the arithmetic modulo \<open>2 ^ 255 - 19\<close> on 32 bytes, little end first, and
  the Montgomery ladder of Curve25519 over it.

  A field element is its list of bytes.  A loop that shifts the carry before it adds to it is
  \<open>limbs_before\<close>, one that shifts after is \<open>limbs_after\<close>; both return the last carry and the bytes
  written.  The functions allow their result to be one of their arguments where they are called
  so: they read the bytes of a position before they write it.
\<close>

type_synonym fe = "u8 list"

definition F25519_SIZE :: nat where "F25519_SIZE = 32"

section \<open>Field arithmetic\<close>

definition fe_select :: "fe \<Rightarrow> fe \<Rightarrow> u8 \<Rightarrow> fe" where
  "fe_select zero one condition =
     (let mask = - condition
      in map (\<lambda>i. zero ! i XOR (mask AND (one ! i XOR zero ! i))) [0..<F25519_SIZE])"

fun limbs_before :: "(nat \<Rightarrow> u32 \<Rightarrow> u32) \<Rightarrow> nat list \<Rightarrow> u32 \<Rightarrow> u32 \<times> fe" where
  "limbs_before add [] c = (c, [])"
| "limbs_before add (i # is) c =
     (let c = add i (drop_bit 8 c);
          (carry, r) = limbs_before add is c
      in (carry, ucast c # r))"

fun limbs_after :: "u32 list \<Rightarrow> u32 \<Rightarrow> u32 \<times> fe" where
  "limbs_after [] c = (c, [])"
| "limbs_after (f # fs) c =
     (let c = c + f;
          (carry, r) = limbs_after fs (drop_bit 8 c)
      in (carry, ucast c # r))"

text \<open>The end of every operation: \<open>2 ^ 255\<close> is 19.\<close>

definition reduce_top :: "u32 \<Rightarrow> fe \<Rightarrow> fe" where
  "reduce_top c r =
     (let r = r [31 := r ! 31 AND 127];
          c = drop_bit 7 c * 19
      in snd (limbs_after (map ucast r) c))"

definition fe_normalize :: "fe \<Rightarrow> fe" where
  "fe_normalize x =
     (let c = ucast (drop_bit 7 (x ! 31)) * 19;
          x = x [31 := x ! 31 AND 127];
          x = snd (limbs_after (map ucast x) c);
          (c, minusp) = limbs_after (map ucast (take (F25519_SIZE - 1) x)) 19;
          c = c + (ucast (x ! 31) - 128);
          minusp = minusp @ [ucast c]
      in fe_select minusp x (ucast (drop_bit 15 c AND 1)))"

definition lm_add :: "fe \<Rightarrow> fe \<Rightarrow> fe" where
  "lm_add a b =
     (let (c, r) = limbs_before (\<lambda>i c. c + (ucast (a ! i) + ucast (b ! i))) [0..<F25519_SIZE] 0
      in reduce_top c r)"

definition lm_sub :: "fe \<Rightarrow> fe \<Rightarrow> fe" where
  "lm_sub a b =
     (let (c, r) = limbs_after (map (\<lambda>i. 65280 + ucast (a ! i) - ucast (b ! i)) [0..<F25519_SIZE - 1]) 218;
          c = c + (ucast (a ! 31) - ucast (b ! 31));
          r = r @ [ucast (c AND 127)];
          c = drop_bit 7 c * 19
      in snd (limbs_after (map ucast r) c))"

definition mul_limb :: "fe \<Rightarrow> fe \<Rightarrow> nat \<Rightarrow> u32 \<Rightarrow> u32" where
  "mul_limb a b i c =
     (let c = foldl (\<lambda>c j. c + ucast (a ! j) * ucast (b ! (i - j))) c [0..<i + 1]
      in foldl (\<lambda>c j. c + ucast (a ! j) * ucast (b ! (i + F25519_SIZE - j)) * 38) c [i + 1..<F25519_SIZE])"

definition fe_mul__distinct :: "fe \<Rightarrow> fe \<Rightarrow> fe" where
  "fe_mul__distinct a b =
     (let (c, r) = limbs_before (mul_limb a b) [0..<F25519_SIZE] 0
      in reduce_top c r)"

definition fe_mul_c :: "fe \<Rightarrow> u32 \<Rightarrow> fe" where
  "fe_mul_c a b =
     (let (c, r) = limbs_before (\<lambda>i c. c + b * ucast (a ! i)) [0..<F25519_SIZE] 0
      in reduce_top c r)"

text \<open>The binary chain of the inverse: \<open>s\<close> and \<open>r\<close> alternate.\<close>

definition inv_step :: "fe \<Rightarrow> fe \<Rightarrow> fe" where
  "inv_step x r = (let s = fe_mul__distinct r r in fe_mul__distinct s x)"

definition fe_inv__distinct :: "fe \<Rightarrow> fe" where
  "fe_inv__distinct x =
     (let s = fe_mul__distinct x x;
          r = fe_mul__distinct s x;
          r = foldl (\<lambda>r i. inv_step x r) r [0..<248];
          s = fe_mul__distinct r r;
          r = fe_mul__distinct s s;
          s = fe_mul__distinct r x;
          r = fe_mul__distinct s s;
          s = fe_mul__distinct r r;
          r = fe_mul__distinct s x;
          s = fe_mul__distinct r r
      in fe_mul__distinct s x)"

section \<open>The curve\<close>

definition xc_diffadd :: "fe \<times> fe \<Rightarrow> fe \<times> fe \<Rightarrow> fe \<times> fe \<Rightarrow> fe \<times> fe" where
  "xc_diffadd p1 p2 p3 =
     (let (x1, z1) = p1; (x2, z2) = p2; (x3, z3) = p3;
          a = lm_add x2 z2;
          b = lm_sub x3 z3;
          da = fe_mul__distinct a b;
          b = lm_sub x2 z2;
          a = lm_add x3 z3;
          cb = fe_mul__distinct a b;
          a = lm_add da cb;
          b = fe_mul__distinct a a;
          x5 = fe_mul__distinct z1 b;
          a = lm_sub da cb;
          b = fe_mul__distinct a a
      in (x5, fe_mul__distinct x1 b))"

definition xc_double :: "fe \<times> fe \<Rightarrow> fe \<times> fe" where
  "xc_double p1 =
     (let (x1, z1) = p1;
          x1sq = fe_mul__distinct x1 x1;
          z1sq = fe_mul__distinct z1 z1;
          x1z1 = fe_mul__distinct x1 z1;
          a = lm_sub x1sq z1sq;
          x3 = fe_mul__distinct a a;
          a = fe_mul_c x1z1 486662;
          a = lm_add x1sq a;
          a = lm_add z1sq a;
          x1sq = fe_mul__distinct x1z1 a
      in (x3, fe_mul_c x1sq 4))"

definition f25519_one :: fe where
  "f25519_one = 1 # replicate (F25519_SIZE - 1) 0"

text \<open>One bit of the scalar: the current point and its predecessor.\<close>

definition ladder_step :: "fe \<Rightarrow> u8 list \<Rightarrow> (fe \<times> fe) \<times> (fe \<times> fe) \<Rightarrow> nat \<Rightarrow> (fe \<times> fe) \<times> (fe \<times> fe)" where
  "ladder_step q e st i =
     (let (m, m1) = st;
          bit = drop_bit (i mod 8) (e ! (i div 8)) AND 1;
          m1 = xc_diffadd (q, f25519_one) m m1;
          m = xc_double m;
          ms = xc_diffadd m1 m (q, f25519_one);
          m1 = (fe_select (fst m1) (fst m) bit, fe_select (snd m1) (snd m) bit);
          m = (fe_select (fst m) (fst ms) bit, fe_select (snd m) (snd ms) bit)
      in (m, m1))"

definition curve25519 :: "u8 list \<Rightarrow> fe \<Rightarrow> fe" where
  "curve25519 e q =
     (let zero = replicate F25519_SIZE 0;
          (m, m1) = foldl (ladder_step q e) ((q, f25519_one), (f25519_one, zero)) (rev [0..<254]);
          zm1 = fe_inv__distinct (snd m);
          result = fe_mul__distinct zm1 (fst m)
      in fe_normalize result)"

end
