(* ===== verification/Fe25519Props.thy ===== *)
theory Fe25519Props imports Fe25519 begin

text \<open>
  Curve25519: every operation on bytes is the operation modulo \<open>2 ^ 255 - 19\<close>, although the sums
  are words of 32 bits (the only one that wraps is the difference of the top bytes in
  \<open>lm_sub\<close>), and the whole function is Montgomery's ladder over the integers.  A subtrahend
  has to be \<open>reduced\<close>; the results of all operations are, and the coordinate a peer sends is
  never subtracted.
\<close>

section \<open>Values\<close>

fun val :: "u8 list \<Rightarrow> nat" where
  "val [] = 0"
| "val (x # xs) = unat x + 256 * val xs"

text \<open>The value of a list of limbs that need not fit a byte.\<close>

fun lval :: "nat list \<Rightarrow> nat" where
  "lval [] = 0"
| "lval (x # xs) = x + 256 * lval xs"

lemma val_lval: "val xs = lval (map unat xs)"
  by (induction xs) auto

lemma val_less: "val xs < 256 ^ length xs"
proof (induction xs)
  case (Cons x xs)
  have "unat x < 256" using unsigned_less [of x, where ?'a = nat] by simp
  then show ?case using Cons by simp
qed simp

lemma lval_append: "lval (xs @ ys) = lval xs + 256 ^ length xs * lval ys"
  by (induction xs) (simp_all add: algebra_simps)

lemma val_append: "val (xs @ ys) = val xs + 256 ^ length xs * val ys"
  by (simp add: val_lval lval_append)

lemma unat_ucast_u8: "unat (ucast (c :: u32) :: u8) = unat c mod 256"
  by (simp add: unsigned_ucast_eq take_bit_eq_mod)

lemma unat_drop: "unat (drop_bit n (c :: u32)) = unat c div 2 ^ n"
  by (simp only: unat_drop_bit_eq) (simp add: drop_bit_eq_div)

lemma unat_add_small: "unat (a :: u32) + unat b < 2 ^ 32 \<Longrightarrow> unat (a + b) = unat a + unat b"
  using unat_add_lem [of a b] by simp

lemma limbs_after_val:
  assumes "limbs_after fs c = (c', r)" "\<forall>f \<in> set fs. unat f < 2 ^ 31" "unat c < 2 ^ 31"
  shows "length r = length fs \<and> unat c' < 2 ^ 31 \<and> val r + 256 ^ length fs * unat c' = unat c + lval (map unat fs)"
  using assms
proof (induction fs arbitrary: c r)
  case (Cons f fs)
  obtain r1 where r1: "limbs_after fs (drop_bit 8 (c + f)) = (c', r1)" "r = ucast (c + f) # r1"
    using Cons.prems(1) by (auto simp: Let_def split: prod.splits)
  have sum: "unat (c + f) = unat c + unat f" using Cons.prems by (intro unat_add_small) auto
  have shift: "unat (drop_bit 8 (c + f)) = (unat c + unat f) div 256"
    unfolding unat_drop sum by simp
  then have "unat (drop_bit 8 (c + f)) < 2 ^ 31" using Cons.prems by (simp add: div_less_iff_less_mult)
  then have IH: "length r1 = length fs" "unat c' < 2 ^ 31"
    "val r1 + 256 ^ length fs * unat c' = (unat c + unat f) div 256 + lval (map unat fs)"
    using Cons.IH [OF r1(1)] Cons.prems(2) shift by auto
  have "val r + 256 ^ length (f # fs) * unat c' =
      (unat c + unat f) mod 256 + 256 * (val r1 + 256 ^ length fs * unat c')"
    by (simp add: r1(2) unat_ucast_u8 sum algebra_simps)
  also have "\<dots> = unat c + lval (map unat (f # fs))"
    unfolding IH(3) by (simp add: algebra_simps)
  finally show ?case using IH r1(2) by simp
qed simp

lemma limbs_after_sum:
  assumes "\<forall>f \<in> set fs. unat f < 2 ^ 31" "unat c < 2 ^ 31" "unat c + lval (map unat fs) < 256 ^ length fs"
  shows "length (snd (limbs_after fs c)) = length fs \<and> val (snd (limbs_after fs c)) = unat c + lval (map unat fs)"
proof -
  obtain c' r where r: "limbs_after fs c = (c', r)" by fastforce
  note L = limbs_after_val [OF r assms(1,2)]
  have "c' = 0"
  proof (rule ccontr)
    assume "c' \<noteq> 0"
    then have "1 \<le> unat c'" by (simp add: unat_gt_0 Suc_le_eq)
    then have "256 ^ length fs \<le> 256 ^ length fs * unat c'" by simp
    then show False using L assms(3) by linarith
  qed
  then show ?thesis using L r by simp
qed

lemma limbs_before_val:
  assumes "limbs_before add is c = (c', r)"
    and "\<forall>i \<in> set is. F i < 2 ^ 31 \<and> (\<forall>c. unat c < 2 ^ 31 \<longrightarrow> unat (add i c) = unat c + F i)"
  shows "length r = length is \<and> val r + 256 ^ length is * (unat c' div 256) = unat c div 256 + lval (map F is) \<and>
    (is \<noteq> [] \<longrightarrow> (\<exists>r0. r = r0 @ [ucast c']))"
  using assms
proof (induction "is" arbitrary: c r)
  case (Cons i "is")
  let ?c = "add i (drop_bit 8 c)"
  obtain r1 where r1: "limbs_before add is ?c = (c', r1)" "r = ucast ?c # r1"
    using Cons.prems(1) by (auto simp: Let_def split: prod.splits)
  have "unat (drop_bit 8 c) < 2 ^ 31"
    unfolding unat_drop using unsigned_less [of c, where ?'a = nat] by simp
  then have c: "unat ?c = unat c div 256 + F i" using Cons.prems(2) unat_drop [of 8 c] by simp
  have IH: "length r1 = length is" "val r1 + 256 ^ length is * (unat c' div 256) = unat ?c div 256 + lval (map F is)"
    "is \<noteq> [] \<longrightarrow> (\<exists>r0. r1 = r0 @ [ucast c'])"
    using Cons.IH [OF r1(1)] Cons.prems(2) by auto
  have "val r + 256 ^ length (i # is) * (unat c' div 256) =
      unat ?c mod 256 + 256 * (val r1 + 256 ^ length is * (unat c' div 256))"
    by (simp add: r1(2) unat_ucast_u8 algebra_simps)
  also have "\<dots> = unat c div 256 + lval (map F (i # is))"
    unfolding IH(2) by (simp add: c algebra_simps)
  moreover have "\<exists>r0. r = r0 @ [ucast c']"
  proof (cases "is")
    case Nil
    then show ?thesis using r1 by simp
  next
    case Cons
    then show ?thesis using IH(3) r1(2) by (metis append_Cons list.distinct(1))
  qed
  ultimately show ?case using IH r1(2) by simp
qed simp


section \<open>Congruence modulo \<open>2 ^ 255 - 19\<close>\<close>

definition p25519 :: int where
  "p25519 = 2 ^ 255 - 19"

definition fev :: "fe \<Rightarrow> int" where
  "fev x = int (val x)"

definition eqp :: "int \<Rightarrow> int \<Rightarrow> bool" where
  "eqp x y \<longleftrightarrow> x mod p25519 = y mod p25519"

lemma eqp_refl [simp]: "eqp x x" by (simp add: eqp_def)
lemma eqp_trans: "eqp x y \<Longrightarrow> eqp y z \<Longrightarrow> eqp x z" by (simp add: eqp_def)

lemma eqp_add: "eqp x x' \<Longrightarrow> eqp y y' \<Longrightarrow> eqp (x + y) (x' + y')"
  unfolding eqp_def by (metis mod_add_eq)
lemma eqp_diff: "eqp x x' \<Longrightarrow> eqp y y' \<Longrightarrow> eqp (x - y) (x' - y')"
  unfolding eqp_def by (metis mod_diff_eq)
lemma eqp_mult: "eqp x x' \<Longrightarrow> eqp y y' \<Longrightarrow> eqp (x * y) (x' * y')"
  unfolding eqp_def by (metis mod_mult_eq)
lemma eqp_power: "eqp x x' \<Longrightarrow> eqp (x ^ n) (x' ^ n)"
  by (induction n) (auto intro: eqp_mult)

lemmas eqp_intros = eqp_add eqp_diff eqp_mult eqp_power

lemma eqp_multiple: "x = y + k * p25519 \<Longrightarrow> eqp x y"
  by (simp add: eqp_def)

lemma and_127: "unat (ucast (c :: u32) AND 127 :: u8) = unat c mod 128"
proof -
  have "(127 :: u8) = mask 7" by (simp add: mask_eq_exp_minus_1)
  then have "unat (ucast c AND 127 :: u8) = unat (take_bit 7 (ucast c :: u8))"
    by (simp only: take_bit_eq_mask)
  also have "\<dots> = unat c mod 256 mod 128"
    by (subst unsigned_take_bit_eq) (simp only: unat_ucast_u8 take_bit_eq_mod, simp)
  also have "\<dots> = unat c mod 128" by (simp add: mod_mod_cancel)
  finally show ?thesis .
qed

lemma times_19: "unat (drop_bit 7 (c :: u32) * 19) = unat c div 128 * 19"
proof -
  have "unat c div 128 < 2 ^ 25" using unsigned_less [of c, where ?'a = nat] by (simp add: div_less_iff_less_mult)
  then show ?thesis using unat_mult_lem [of "drop_bit 7 c" 19] by (simp add: unat_drop)
qed

lemma unat_u8: "unat (x :: u8) < 256"
  using unsigned_less [of x, where ?'a = nat] by simp

lemma ucast_limbs: "\<forall>f \<in> set (map ucast (xs :: u8 list) :: u32 list). unat f < 2 ^ 31"
proof
  fix f :: u32
  assume "f \<in> set (map ucast xs)"
  then obtain x :: u8 where "f = ucast x" by auto
  then show "unat f < 2 ^ 31" using unat_u8 [of x] by simp
qed

lemma top_limb:
  "x = q + 128 * k \<Longrightarrow> int (v + 256 ^ 31 * x) = int (k * 19 + (v + 256 ^ 31 * q)) + int k * p25519"
  by (simp add: p25519_def algebra_simps)

text \<open>What every operation leaves: hardly more than 255 bits.\<close>

definition reduced :: "fe \<Rightarrow> bool" where
  "reduced x \<longleftrightarrow> length x = 32 \<and> val x < 2 ^ 255 + 2 ^ 31"

lemma reduced_length: "reduced x \<Longrightarrow> length x = 32"
  by (simp add: reduced_def)

lemma reduce_top_val:
  assumes "length r = 32" "r = r0 @ [ucast c]"
  shows "reduced (reduce_top c r) \<and> eqp (fev (reduce_top c r)) (int (val r0 + 256 ^ 31 * unat c))"
proof -
  have l: "length r0 = 31" using assms by simp
  let ?m = "r0 @ [ucast c AND 127]" and ?c = "drop_bit 7 c * 19"
  have m: "r [31 := r ! 31 AND 127] = ?m" using assms l by (simp add: nth_append list_update_append)
  have vm: "val ?m = val r0 + 256 ^ 31 * (unat c mod 128)"
    by (simp only: val_append l and_127 val.simps) simp
  have "val r0 < 256 ^ 31" using val_less [of r0] l by simp
  moreover have "256 ^ 31 * (unat c mod 128) \<le> 256 ^ 31 * (127 :: nat)" by (intro mult_le_mono2) simp
  ultimately have "val ?m < 256 ^ 31 * 128" unfolding vm by simp
  moreover have c: "unat ?c < 2 ^ 30" unfolding times_19
    using unsigned_less [of c, where ?'a = nat] by (simp add: div_less_iff_less_mult)
  ultimately have small: "unat ?c + lval (map unat (map ucast ?m :: u32 list)) < 256 ^ length (map ucast ?m :: u32 list)"
    using l by (simp add: val_lval comp_def)
  have "\<forall>f \<in> set (map ucast ?m :: u32 list). unat f < 2 ^ 31" by (rule ucast_limbs)
  then have L: "length (reduce_top c r) = 32" "val (reduce_top c r) = unat c div 128 * 19 + val ?m"
    using limbs_after_sum [OF _ _ small] c l
    by (simp_all add: reduce_top_def m times_19 [symmetric] val_lval comp_def)
  have "int (val r0 + 256 ^ 31 * unat c) = fev (reduce_top c r) + int (unat c div 128) * p25519"
    unfolding fev_def L(2) vm by (rule top_limb) simp
  then have "eqp (int (val r0 + 256 ^ 31 * unat c)) (fev (reduce_top c r))" by (rule eqp_multiple)
  moreover have "reduced (reduce_top c r)"
    using L \<open>val ?m < 256 ^ 31 * 128\<close> c [unfolded times_19] by (simp add: reduced_def)
  ultimately show ?thesis by (simp add: eqp_def)
qed


section \<open>Addition, subtraction, multiplication\<close>

lemma lval_add: "lval (map (\<lambda>i. F i + G i) xs) = lval (map F xs) + lval (map G xs)"
  by (induction xs) auto

lemma lval_scale: "lval (map (\<lambda>i. k * F i) xs) = k * lval (map F xs)"
  by (induction xs) (auto simp: algebra_simps)

lemma val_nth: "length a = n \<Longrightarrow> lval (map (\<lambda>i. unat (a ! i)) [0..<n]) = val a"
  unfolding val_lval by (rule arg_cong [where f = lval]) (auto intro: nth_equalityI)

lemma before_reduce:
  assumes "limbs_before add [0..<32] 0 = (c, r)"
    and "\<And>i. i < 32 \<Longrightarrow> F i < 2 ^ 31" "\<And>i c. i < 32 \<Longrightarrow> unat c < 2 ^ 31 \<Longrightarrow> unat (add i c) = unat c + F i"
  shows "reduced (reduce_top c r) \<and> eqp (fev (reduce_top c r)) (int (lval (map F [0..<32])))"
proof -
  have L: "length r = 32" "val r + 256 ^ 32 * (unat c div 256) = lval (map F [0..<32])" "\<exists>r0. r = r0 @ [ucast c]"
    using limbs_before_val [OF assms(1), of F] assms(2,3) by auto
  then obtain r0 where r0: "r = r0 @ [ucast c]" by blast
  then have "length r0 = 31" using L(1) by simp
  then have "val r = val r0 + 256 ^ 31 * (unat c mod 256)" by (simp add: r0 val_append unat_ucast_u8)
  moreover have "256 ^ 31 * unat c = 256 ^ 31 * (unat c mod 256 + 256 * (unat c div 256))" by simp
  ultimately have "val r0 + 256 ^ 31 * unat c = lval (map F [0..<32])"
    unfolding L(2) [symmetric] distrib_left by simp
  then show ?thesis using reduce_top_val [OF L(1) r0] by simp
qed

lemma lm_add_val:
  assumes "length a = 32" "length b = 32"
  shows "reduced (lm_add a b) \<and> eqp (fev (lm_add a b)) (fev a + fev b)"
proof -
  let ?add = "\<lambda>i c. c + (ucast (a ! i) + ucast (b ! i) :: u32)"
  let ?F = "\<lambda>i. unat (a ! i) + unat (b ! i)"
  obtain c r where r: "limbs_before ?add [0..<32] 0 = (c, r)" by fastforce
  have s: "unat (ucast (a ! i) + ucast (b ! i) :: u32) = ?F i" for i
    using unat_u8 [of "a ! i"] unat_u8 [of "b ! i"] by (subst unat_add_small) simp_all
  have "?F i < 2 ^ 31" "unat c < 2 ^ 31 \<Longrightarrow> unat (?add i c) = unat c + ?F i" for i c
    using unat_u8 [of "a ! i"] unat_u8 [of "b ! i"] by (simp, subst unat_add_small) (simp_all add: s)
  from before_reduce [OF r this(1) this(2)] show ?thesis
    using r assms by (simp add: lm_add_def F25519_SIZE_def fev_def lval_add val_nth)
qed

lemma fe_mul_c_val:
  assumes "length a = 32" "unat b < 2 ^ 20"
  shows "reduced (fe_mul_c a b) \<and> eqp (fev (fe_mul_c a b)) (fev a * int (unat b))"
proof -
  let ?add = "\<lambda>i c. c + b * (ucast (a ! i) :: u32)"
  let ?F = "\<lambda>i. unat b * unat (a ! i)"
  obtain c r where r: "limbs_before ?add [0..<32] 0 = (c, r)" by fastforce
  have le: "?F i \<le> 2 ^ 20 * 256" for i
    using unat_u8 [of "a ! i"] assms(2) by (intro mult_le_mono) simp_all
  have s: "unat (b * ucast (a ! i) :: u32) = ?F i" for i
    using le [of i] unat_mult_lem [of b "ucast (a ! i)"] by simp
  have "?F i < 2 ^ 31" "unat c < 2 ^ 31 \<Longrightarrow> unat (?add i c) = unat c + ?F i" for i c
    using le [of i] by (simp, subst unat_add_small) (simp_all add: s)
  from before_reduce [OF r this(1) this(2)] show ?thesis
    using r assms by (simp add: fe_mul_c_def F25519_SIZE_def fev_def lval_scale val_nth mult.commute)
qed


lemma foldl_add_unat:
  assumes "\<forall>j \<in> set js. unat (g j :: u32) = G j \<and> G j \<le> B" "unat c + length js * B < 2 ^ 32"
  shows "unat (foldl (\<lambda>c j. c + g j) c js) = unat c + sum_list (map G js)"
  using assms
proof (induction js arbitrary: c)
  case (Cons j js)
  have "unat (c + g j) = unat c + G j" using Cons.prems by (subst unat_add_small) auto
  then show ?case using Cons.IH [of "c + g j"] Cons.prems by simp
qed simp

lemma unat_times_bytes: "unat (ucast (x :: u8) * ucast (y :: u8) :: u32) = unat x * unat y"
proof -
  have "unat x * unat y \<le> 256 * 256" using unat_u8 [of x] unat_u8 [of y] by (intro mult_le_mono) simp_all
  then show ?thesis using unat_mult_lem [of "ucast x :: u32" "ucast y"] by simp
qed

lemma bytes_le: "unat (x :: u8) * unat (y :: u8) \<le> 65536"
  using mult_le_mono [of "unat x" 256 "unat y" 256] unat_u8 [of x] unat_u8 [of y] by simp

lemma unat_times_bytes_38: "unat (ucast (x :: u8) * ucast (y :: u8) * 38 :: u32) = unat x * unat y * 38"
  using unat_mult_lem [of "ucast x * ucast y :: u32" 38] bytes_le [of x y]
  by (simp add: unat_times_bytes)

definition mul_value :: "fe \<Rightarrow> fe \<Rightarrow> nat \<Rightarrow> nat" where
  "mul_value a b i = (\<Sum>j<32. unat (a ! j) * (if j \<le> i then unat (b ! (i - j)) else 38 * unat (b ! (i + 32 - j))))"

lemma sum_list_upt: "sum_list (map G [m..<n]) = sum G {m..<n}"
  by (simp add: interv_sum_list_conv_sum_set_nat)

lemma mul_limb_unat:
  assumes "i < 32" "unat c < 2 ^ 31"
  shows "unat (mul_limb a b i c) = unat c + mul_value a b i" "mul_value a b i < 2 ^ 31"
proof -
  let ?G1 = "\<lambda>j. unat (a ! j) * unat (b ! (i - j))" and ?G2 = "\<lambda>j. unat (a ! j) * unat (b ! (i + 32 - j)) * 38"
  let ?c = "foldl (\<lambda>c j. c + ucast (a ! j) * ucast (b ! (i - j))) c [0..<i + 1]"
  have 1: "unat ?c = unat c + sum ?G1 {0..<i + 1}"
    unfolding sum_list_upt [symmetric]
    by (rule foldl_add_unat [where B = 65536]) (use assms in \<open>simp_all add: unat_times_bytes bytes_le\<close>)
  have "sum ?G1 {0..<i + 1} \<le> of_nat (card {0..<i + 1}) * 65536"
    by (rule sum_bounded_above) (rule bytes_le)
  then have B1: "sum ?G1 {0..<i + 1} \<le> 32 * 65536" using assms(1) by simp
  have "sum ?G2 {i + 1..<32} \<le> of_nat (card {i + 1..<32}) * (65536 * 38)"
    by (rule sum_bounded_above) (use bytes_le in simp)
  moreover have "of_nat (card {i + 1..<32}) * (65536 * 38) \<le> (32 :: nat) * (65536 * 38)" by simp
  ultimately have B2: "sum ?G2 {i + 1..<32} \<le> 32 * (65536 * 38)" by (rule order_trans)
  have 2: "unat (foldl (\<lambda>c j. c + ucast (a ! j) * ucast (b ! (i + F25519_SIZE - j)) * 38) ?c [i + 1..<F25519_SIZE]) =
      unat ?c + sum ?G2 {i + 1..<32}"
    unfolding sum_list_upt [symmetric] F25519_SIZE_def
    by (rule foldl_add_unat [where B = "65536 * 38"]) (use assms 1 B1 bytes_le in \<open>auto simp: unat_times_bytes_38\<close>)
  have "{..<32::nat} = {0..<i + 1} \<union> {i + 1..<32}" using assms(1) by auto
  then have "mul_value a b i =
      (\<Sum>j \<in> {0..<i + 1}. unat (a ! j) * (if j \<le> i then unat (b ! (i - j)) else 38 * unat (b ! (i + 32 - j)))) +
      (\<Sum>j \<in> {i + 1..<32}. unat (a ! j) * (if j \<le> i then unat (b ! (i - j)) else 38 * unat (b ! (i + 32 - j))))"
    unfolding mul_value_def by (simp only:) (rule sum.union_disjoint; auto)
  also have "\<dots> = sum ?G1 {0..<i + 1} + sum ?G2 {i + 1..<32}"
    by (intro arg_cong2 [where f = plus] sum.cong) auto
  finally have v: "mul_value a b i = sum ?G1 {0..<i + 1} + sum ?G2 {i + 1..<32}" .
  show "unat (mul_limb a b i c) = unat c + mul_value a b i"
    unfolding mul_limb_def Let_def 2 1 v by simp
  show "mul_value a b i < 2 ^ 31" using B1 B2 unfolding v by simp
qed


lemma lval_sum: "lval (map F [0..<n]) = (\<Sum>i<n. F i * 256 ^ i)"
  by (induction n) (simp_all add: lval_append lessThan_Suc)

text \<open>One row of the product: what wraps around the top comes back multiplied by 38.\<close>

lemma mul_row:
  assumes "j < 32"
  shows "256 ^ j * (\<Sum>k<32. B k * 256 ^ k) =
    (\<Sum>i<32. (if j \<le> i then B (i - j) else 38 * B (i + 32 - j)) * 256 ^ i) +
    (256 ^ 32 - 38) * (\<Sum>i<j. B (i + 32 - j) * 256 ^ i :: nat)"
proof -
  let ?G = "\<lambda>i. (if j \<le> i then B (i - j) else 38 * B (i + 32 - j)) * 256 ^ i"
  have split: "{..<32} = {..<j} \<union> {j..<32}" and split2: "{..<32} = {..<32 - j} \<union> {32 - j..<32 :: nat}"
    using assms by auto
  have low: "(\<Sum>i \<in> {j..<32}. ?G i) = (\<Sum>k<32 - j. B k * 256 ^ (j + k))"
    by (rule sum.reindex_bij_witness [where i = "\<lambda>k. k + j" and j = "\<lambda>i. i - j"]) auto
  have high: "(\<Sum>k \<in> {32 - j..<32}. B k * 256 ^ (j + k)) = (\<Sum>i<j. B (i + 32 - j) * 256 ^ (i + 32))"
    by (rule sum.reindex_bij_witness [where i = "\<lambda>i. i + 32 - j" and j = "\<lambda>k. k + j - 32"]) (use assms in auto)
  have "256 ^ j * (\<Sum>k<32. B k * 256 ^ k) = (\<Sum>k<32. B k * 256 ^ (j + k))"
    by (simp add: sum_distrib_left power_add mult_ac)
  also have "\<dots> = (\<Sum>k<32 - j. B k * 256 ^ (j + k)) + (\<Sum>k \<in> {32 - j..<32}. B k * 256 ^ (j + k))"
    unfolding split2 by (rule sum.union_disjoint) auto
  also have "(\<Sum>k \<in> {32 - j..<32}. B k * 256 ^ (j + k)) = 256 ^ 32 * (\<Sum>i<j. B (i + 32 - j) * 256 ^ i)"
    unfolding high by (simp only: sum_distrib_left power_add mult_ac)
  also have "256 ^ 32 * (\<Sum>i<j. B (i + 32 - j) * 256 ^ i) =
      (\<Sum>i<j. ?G i) + (256 ^ 32 - 38) * (\<Sum>i<j. B (i + 32 - j) * 256 ^ i)"
  proof -
    have "(\<Sum>i<j. ?G i) = 38 * (\<Sum>i<j. B (i + 32 - j) * 256 ^ i)"
      by (simp add: sum_distrib_left mult.assoc)
    then show ?thesis by (simp add: distrib_right [symmetric])
  qed
  also have "(\<Sum>i<32. ?G i) = (\<Sum>i<j. ?G i) + (\<Sum>i \<in> {j..<32}. ?G i)"
    unfolding split by (rule sum.union_disjoint) auto
  ultimately show ?thesis unfolding low by simp
qed

lemma mul_value_sum:
  assumes "length a = 32" "length b = 32"
  shows "\<exists>k. val a * val b = lval (map (mul_value a b) [0..<32]) + (256 ^ 32 - 38) * k"
proof -
  let ?A = "\<lambda>j. unat (a ! j)" and ?B = "\<lambda>j. unat (b ! j)"
  let ?G = "\<lambda>j i. if j \<le> i then ?B (i - j) else 38 * ?B (i + 32 - j)"
  let ?K = "\<lambda>j. \<Sum>i<j. ?B (i + 32 - j) * 256 ^ i"
  have v: "val a = (\<Sum>j<32. ?A j * 256 ^ j)" "val b = (\<Sum>k<32. ?B k * 256 ^ k)"
    using val_nth [OF assms(1)] val_nth [OF assms(2)] by (simp_all only: lval_sum)
  have "val a * val b = (\<Sum>j<32. ?A j * (256 ^ j * (\<Sum>k<32. ?B k * 256 ^ k)))"
    unfolding v sum_distrib_right by (simp only: mult.assoc)
  also have "\<dots> = (\<Sum>j<32. ?A j * ((\<Sum>i<32. ?G j i * 256 ^ i) + (256 ^ 32 - 38) * ?K j))"
    by (rule sum.cong [OF refl], subst mul_row) simp_all
  also have "\<dots> = (\<Sum>j<32. \<Sum>i<32. ?A j * ?G j i * 256 ^ i) + (256 ^ 32 - 38) * (\<Sum>j<32. ?A j * ?K j)"
    unfolding distrib_left sum.distrib sum_distrib_left by (simp only: mult_ac)
  also have "(\<Sum>j<32. \<Sum>i<32. ?A j * ?G j i * 256 ^ i) = (\<Sum>i<32. mul_value a b i * 256 ^ i)"
    unfolding mul_value_def sum_distrib_right by (rule sum.swap)
  finally show ?thesis unfolding lval_sum by blast
qed

lemma fe_mul_val:
  assumes "length a = 32" "length b = 32"
  shows "reduced (fe_mul__distinct a b) \<and> eqp (fev (fe_mul__distinct a b)) (fev a * fev b)"
proof -
  obtain c r where r: "limbs_before (mul_limb a b) [0..<32] 0 = (c, r)" by fastforce
  obtain k where "val a * val b = lval (map (mul_value a b) [0..<32]) + (256 ^ 32 - 38) * k"
    using mul_value_sum [OF assms] by blast
  then have "fev a * fev b = int (lval (map (mul_value a b) [0..<32])) + int (2 * k) * p25519"
    unfolding fev_def p25519_def of_nat_mult [symmetric] by simp
  then have "eqp (int (lval (map (mul_value a b) [0..<32]))) (fev a * fev b)"
    by (simp add: eqp_def)
  moreover have "mul_value a b i < 2 ^ 31" if "i < 32" for i using mul_limb_unat(2) [OF that, of 0] by simp
  ultimately show ?thesis
    using before_reduce [OF r, of "mul_value a b"] mul_limb_unat(1) r eqp_trans
    by (fastforce simp: fe_mul__distinct_def F25519_SIZE_def)
qed


lemma val_take: "n \<le> length a \<Longrightarrow> lval (map (\<lambda>i. unat (a ! i)) [0..<n]) = val (take n a)"
  unfolding val_lval by (rule arg_cong [where f = lval]) (auto intro: nth_equalityI)

lemma val_top: "length x = 32 \<Longrightarrow> val x = val (take 31 x) + 256 ^ 31 * unat (x ! 31)"
proof -
  assume l: "length x = 32"
  then have "length (take 31 x) = 31" by simp
  moreover have "x = take 31 x @ [x ! 31]" using l by (simp flip: take_Suc_conv_app_nth)
  ultimately show ?thesis
    by (metis (no_types) mult_0_right add.right_neutral val.simps val_append)
qed

lemma reduced_top_byte:
  assumes "reduced x"
  shows "unat (x ! 31) \<le> 128"
proof -
  have "val x = val (take 31 x) + 256 ^ 31 * unat (x ! 31)" using assms by (simp only: reduced_def val_top)
  then have "256 ^ 31 * unat (x ! 31) < 2 ^ 255 + 2 ^ 31" using assms by (simp add: reduced_def)
  also have "\<dots> < 256 ^ 31 * (129 :: nat)" by simp
  finally show ?thesis by simp
qed

lemma unat_diff_small: "unat (b :: u32) \<le> unat a \<Longrightarrow> unat (a - b) = unat a - unat b"
  using unat_sub [of b a] by (simp add: word_le_nat_alt)

lemma lm_sub_val:
  assumes "length a = 32" "reduced b"
  shows "reduced (lm_sub a b) \<and> eqp (fev (lm_sub a b)) (fev a - fev b)"
proof -
  let ?f = "\<lambda>i. 65280 + ucast (a ! i) - ucast (b ! i) :: u32"
  let ?F = "\<lambda>i. 65280 + unat (a ! i) - unat (b ! i)"
  obtain c r where r: "limbs_after (map ?f [0..<31]) 218 = (c, r)" by fastforce
  have f: "unat (?f i) = ?F i" for i
  proof -
    have "unat (65280 + ucast (a ! i) :: u32) = 65280 + unat (a ! i)"
      using unat_u8 [of "a ! i"] by (subst unat_add_small) simp_all
    then show ?thesis using unat_u8 [of "b ! i"] by (subst unat_diff_small) simp_all
  qed
  have B: "?F i < 2 ^ 31" for i using unat_u8 [of "a ! i"] by simp
  have L: "length r = 31" "unat c < 2 ^ 31" "val r + 256 ^ 31 * unat c = 218 + lval (map ?F [0..<31])"
    using limbs_after_val [OF r] B by (auto simp: f comp_def)
  let ?a = "val (take 31 a)" and ?b = "val (take 31 b)"
  have len: "length (take 31 a) = 31" "length (take 31 b) = 31" using assms by (auto simp: reduced_def)
  have ab: "lval (map (\<lambda>i. unat (a ! i)) [0..<31]) = ?a" "lval (map (\<lambda>i. unat (b ! i)) [0..<31]) = ?b"
    using assms by (simp_all add: val_take reduced_def)
  have "lval (map ?F [0..<31]) + lval (map (\<lambda>i. unat (b ! i)) [0..<31]) =
      lval (map (\<lambda>i. 65280 + unat (a ! i)) [0..<31])"
    unfolding lval_add [symmetric]
  proof (rule arg_cong [where f = lval], rule map_cong [OF refl])
    fix i show "?F i + unat (b ! i) = 65280 + unat (a ! i)" using unat_u8 [of "b ! i"] by simp
  qed
  also have "\<dots> = lval (map (\<lambda>i. 65280) [0..<31]) + ?a" unfolding lval_add ab ..
  finally have F: "lval (map ?F [0..<31]) + ?b = lval (map (\<lambda>i. 65280) [0..<31]) + ?a" unfolding ab .
  have "lval (map (\<lambda>i. 65280) [0..<31]) + 218 + 38 = 256 ^ 32" by (simp add: upt_rec)
  with F have N: "val r + 256 ^ 31 * unat c + 38 + ?b = 256 ^ 32 + ?a" unfolding L(3) by linarith
  have small: "val r < 256 ^ 31" "?a < 256 ^ 31" "?b < 256 ^ 31"
    using val_less [of r] val_less [of "take 31 a"] val_less [of "take 31 b"] L(1) len by simp_all
  have c: "128 \<le> unat c"
  proof (rule ccontr)
    assume "\<not> 128 \<le> unat c"
    then have "256 ^ 31 * unat c \<le> 256 ^ 31 * 127" by (intro mult_le_mono2) simp
    then show False using N small by simp
  qed
  let ?c = "c + (ucast (a ! 31) - ucast (b ! 31))"
  have b31: "unat (b ! 31) \<le> 128" using reduced_top_byte [OF assms(2)] .
  have "unat (c + ucast (a ! 31)) = unat c + unat (a ! 31)"
    using L(2) unat_u8 [of "a ! 31"] by (subst unat_add_small) simp_all
  moreover have "?c = c + ucast (a ! 31) - ucast (b ! 31)" by simp
  ultimately have c2: "unat ?c + unat (b ! 31) = unat c + unat (a ! 31)"
    using b31 c by (simp only:) (subst unat_diff_small, simp_all)
  have "256 ^ 31 * unat ?c + 256 ^ 31 * unat (b ! 31) = 256 ^ 31 * unat c + 256 ^ 31 * unat (a ! 31)"
    unfolding distrib_left [symmetric] c2 ..
  then have "val r + 256 ^ 31 * unat ?c + val b = val a + (256 ^ 32 - 38)"
    using N assms by (simp add: val_top reduced_length)
  then have "int (val r + 256 ^ 31 * unat ?c) + fev b = fev a + 2 * p25519"
    unfolding fev_def p25519_def of_nat_add [symmetric] by simp
  then have "int (val r + 256 ^ 31 * unat ?c) = fev a - fev b + 2 * p25519" by simp
  then have "eqp (int (val r + 256 ^ 31 * unat ?c)) (fev a - fev b)" by (rule eqp_multiple)
  moreover have "lm_sub a b = reduce_top ?c (r @ [ucast ?c])"
  proof -
    have "ucast (?c AND 127) = (ucast ?c AND 127 :: u8)" by (rule bit_word_eqI) (auto simp: bit_simps)
    then show ?thesis
      using L(1) by (simp add: lm_sub_def F25519_SIZE_def r reduce_top_def nth_append list_update_append Let_def)
  qed
  ultimately show ?thesis
    using reduce_top_val [of "r @ [ucast ?c]" r ?c] L(1) eqp_trans by auto
qed


lemma fe_select_value:
  assumes "length x = 32" "length y = 32"
  shows "fe_select x y 0 = x" "fe_select x y 1 = y"
proof -
  show "fe_select x y 0 = x" using assms by (auto simp: fe_select_def F25519_SIZE_def intro: nth_equalityI)
  have "- 1 AND (y ! i XOR x ! i) = y ! i XOR x ! i" for i by simp
  then show "fe_select x y 1 = y"
    using assms by (auto simp: fe_select_def F25519_SIZE_def Let_def xor.commute [of "y ! _"] intro!: nth_equalityI)
qed

section \<open>Normalisation\<close>

lemma normalize_first:
  assumes "length x = 32"
  shows "\<exists>x'. snd (limbs_after (map ucast (x [31 := x ! 31 AND 127])) (ucast (drop_bit 7 (x ! 31)) * 19)) = x' \<and>
    length x' = 32 \<and> val x' < 2 ^ 255 + 19 \<and> eqp (fev x') (fev x)"
proof -
  let ?m = "take 31 x @ [x ! 31 AND 127]" and ?c = "ucast (drop_bit 7 (x ! 31)) * 19 :: u32"
  have split: "x = take 31 x @ [x ! 31]" using assms by (simp flip: take_Suc_conv_app_nth)
  have m: "x [31 := x ! 31 AND 127] = ?m" using assms by (subst split) (simp add: list_update_append)
  have d: "unat (drop_bit 7 (x ! 31)) = unat (x ! 31) div 128"
    by (simp only: unat_drop_bit_eq) (simp add: drop_bit_eq_div)
  have le: "unat (x ! 31) div 128 \<le> 1" using unat_u8 [of "x ! 31"] by linarith
  have c: "unat ?c = unat (x ! 31) div 128 * 19"
    using unat_mult_lem [of "ucast (drop_bit 7 (x ! 31)) :: u32" 19] le by (simp add: d)
  have a: "unat (x ! 31 AND 127) = unat (x ! 31) mod 128"
  proof -
    have "(127 :: u8) = mask 7" by (simp add: mask_eq_exp_minus_1)
    then show ?thesis by (simp only: take_bit_eq_mask [symmetric] unsigned_take_bit_eq) (simp add: take_bit_eq_mod)
  qed
  have vm: "val ?m = val (take 31 x) + 256 ^ 31 * (unat (x ! 31) mod 128)"
    using assms by (simp only: val_append a val.simps) simp
  have "val (take 31 x) < 256 ^ 31" using val_less [of "take 31 x"] assms by simp
  moreover have "256 ^ 31 * (unat (x ! 31) mod 128) \<le> 256 ^ 31 * (127 :: nat)" by (intro mult_le_mono2) simp
  ultimately have vm': "val ?m < 2 ^ 255" unfolding vm by simp
  then have small: "unat ?c + lval (map unat (map ucast ?m :: u32 list)) < 256 ^ length (map ucast ?m :: u32 list)"
    using assms c le by (simp add: val_lval comp_def)
  note L = limbs_after_sum [OF ucast_limbs _ small]
  have "int (val (take 31 x) + 256 ^ 31 * unat (x ! 31)) =
      int (unat (x ! 31) div 128 * 19 + (val (take 31 x) + 256 ^ 31 * (unat (x ! 31) mod 128))) + int (unat (x ! 31) div 128) * p25519"
    by (rule top_limb) simp
  from eqp_multiple [OF this] have "eqp (fev x) (int (unat ?c + val ?m))"
    unfolding fev_def vm c val_top [OF assms] .
  then show ?thesis
    using L vm' c le assms unfolding m by (auto simp: val_lval comp_def fev_def eqp_def)
qed

lemma fe_normalize_val:
  assumes "length x = 32"
  shows "length (fe_normalize x) = 32 \<and> fev (fe_normalize x) = fev x mod p25519"
proof -
  obtain x' where x': "snd (limbs_after (map ucast (x [31 := x ! 31 AND 127])) (ucast (drop_bit 7 (x ! 31)) * 19)) = x'"
    and l: "length x' = 32" and v: "val x' < 2 ^ 255 + 19" and e: "eqp (fev x') (fev x)"
    using normalize_first [OF assms] by blast
  obtain c m where m: "limbs_after (map ucast (take 31 x')) 19 = (c, m)" by fastforce
  have M: "length m = 31" "val m + 256 ^ 31 * unat c = 19 + val (take 31 x')"
    using limbs_after_val [OF m ucast_limbs] l by (auto simp: val_lval comp_def)
  let ?t = "unat (x' ! 31)" and ?c = "c + (ucast (x' ! 31) - 128)"
  have vx: "val x' = val (take 31 x') + 256 ^ 31 * ?t" by (rule val_top [OF l])
  have tl: "val (take 31 x') < 256 ^ 31" using val_less [of "take 31 x'"] l by simp
  have t: "?t \<le> 128"
  proof (rule ccontr)
    assume "\<not> ?t \<le> 128"
    then have "256 ^ 31 * 129 \<le> 256 ^ 31 * ?t" by (intro mult_le_mono2) simp
    then show False using v vx by simp
  qed
  have c1: "unat c \<le> 1"
  proof (rule ccontr)
    assume "\<not> unat c \<le> 1"
    then have "256 ^ 31 * 2 \<le> 256 ^ 31 * unat c" by (intro mult_le_mono2) simp
    then show False using M(2) tl by simp
  qed
  have ct: "unat (c + ucast (x' ! 31)) = unat c + ?t" using c1 t by (subst unat_add_small) simp_all
  have sum: "val m + 256 ^ 31 * (unat c + ?t) = val x' + 19" using M(2) vx by (simp add: distrib_left)
  have ml: "val m < 256 ^ 31" using val_less [of m] M(1) by simp
  have n: "fe_normalize x = fe_select (m @ [ucast ?c]) x' (ucast (drop_bit 15 ?c AND 1))"
    by (simp add: fe_normalize_def x' F25519_SIZE_def m Let_def)
  have lm: "length (m @ [ucast ?c]) = 32" using M(1) by simp
  have "fev (fe_normalize x) = fev x' mod p25519"
  proof (cases "128 \<le> unat c + ?t")
    case True
    have "?c = c + ucast (x' ! 31) - 128" by simp
    then have u: "unat ?c = unat c + ?t - 128" using True by (simp only:) (subst unat_diff_small, simp_all add: ct)
    then have "unat ?c \<le> 1" using c1 t by simp
    then have "unat (drop_bit 15 ?c) = 0" unfolding unat_drop by simp
    then have "drop_bit 15 ?c = 0" by (simp only: unat_eq_0)
    then have "fe_normalize x = m @ [ucast ?c]" using fe_select_value [OF lm l] n by simp
    then have "val (fe_normalize x) = val m + 256 ^ 31 * (unat c + ?t - 128)"
      using M(1) \<open>unat ?c \<le> 1\<close> u by (simp add: val_append unat_ucast_u8)
    moreover have "256 ^ 31 * (unat c + ?t) = 256 ^ 31 * (unat c + ?t - 128) + 2 ^ 255"
    proof -
      have "unat c + ?t = (unat c + ?t - 128) + 128" using True by simp
      then show ?thesis by (subst \<open>unat c + ?t = _\<close>) (simp only: distrib_left, simp)
    qed
    ultimately have "val (fe_normalize x) + 2 ^ 255 = val x' + 19" using sum by simp
    then have "fev (fe_normalize x) = fev x' - p25519"
      unfolding fev_def p25519_def by simp
    moreover have "0 \<le> fev (fe_normalize x)" by (simp add: fev_def)
    moreover have "fev x' - p25519 < p25519" using v by (simp add: fev_def p25519_def)
    ultimately show ?thesis
      by (metis minus_mod_self2 mod_pos_pos_trivial)
  next
    case False
    then have "256 ^ 31 * (unat c + ?t) \<le> 256 ^ 31 * 127" by (intro mult_le_mono2) simp
    then have x'P: "val x' + 19 < 2 ^ 255" using sum ml by simp
    have "?c = c + ucast (x' ! 31) - 128" by simp
    then have "unat ?c = unat c + ?t + 2 ^ 32 - 128"
      by (simp only:) (use False unat_sub_if' [of "c + ucast (x' ! 31)" 128] in \<open>simp add: ct\<close>)
    then have "unat (drop_bit 15 ?c) = (unat c + ?t + (2 ^ 32 - 128)) div 2 ^ 15" unfolding unat_drop by simp
    also have "\<dots> = 131071"
      using False by (intro div_nat_eqI) simp_all
    finally have "drop_bit 15 ?c = 131071" by (simp add: word_unat_eq_iff)
    then have "ucast (drop_bit 15 ?c AND 1) = (1 :: u8)" by (simp only:) simp
    then have "fe_normalize x = x'" using fe_select_value [OF lm l] n by simp
    then show ?thesis using x'P by (simp add: fev_def p25519_def)
  qed
  moreover have "fev x' mod p25519 = fev x mod p25519" using e by (simp add: eqp_def)
  moreover have "length (fe_normalize x) = 32" unfolding n by (simp add: fe_select_def F25519_SIZE_def Let_def)
  ultimately show ?thesis by simp
qed


section \<open>The inverse\<close>

definition is_power :: "fe \<Rightarrow> fe \<Rightarrow> nat \<Rightarrow> bool" where
  "is_power x r n \<longleftrightarrow> length r = 32 \<and> eqp (fev r) (fev x ^ n)"

lemma is_power_mul: "is_power x r m \<Longrightarrow> is_power x s n \<Longrightarrow> is_power x (fe_mul__distinct r s) (m + n)"
  using fe_mul_val [of r s] eqp_mult [of "fev r" "fev x ^ m" "fev s" "fev x ^ n"] eqp_trans
  by (auto simp: is_power_def power_add reduced_length)

lemma is_power_self: "length x = 32 \<Longrightarrow> is_power x x 1"
  by (simp add: is_power_def)

lemma is_power_step: "length x = 32 \<Longrightarrow> is_power x r n \<Longrightarrow> is_power x (inv_step x r) (n + n + 1)"
  unfolding inv_step_def Let_def by (intro is_power_mul is_power_self)

lemma is_power_steps:
  assumes "length x = 32" "is_power x r (2 ^ m - 1)"
  shows "is_power x (foldl (\<lambda>r i. inv_step x r) r [0..<n]) (2 ^ (m + n) - 1)"
proof (induction n)
  case (Suc n)
  let ?r = "foldl (\<lambda>r i. inv_step x r) r [0..<n]"
  have "is_power x (inv_step x ?r) (2 ^ (m + n) - 1 + (2 ^ (m + n) - 1) + 1)"
    using is_power_step [OF assms(1) Suc] .
  moreover have "2 ^ (m + n) - 1 + (2 ^ (m + n) - 1) + 1 = (2 :: nat) ^ (m + Suc n) - 1"
  proof -
    have "(1 :: nat) \<le> 2 ^ (m + n)" by simp
    then show ?thesis by (simp only: add_Suc_right power_Suc)
  qed
  ultimately show ?case by simp
qed (use assms in simp)

lemma fe_inv_power:
  assumes "length x = 32"
  shows "is_power x (fe_inv__distinct x) (nat (p25519 - 2))"
proof -
  note m = is_power_mul and x = is_power_self [OF assms]
  let ?s0 = "fe_mul__distinct x x"
  let ?r1 = "foldl (\<lambda>r i. inv_step x r) (fe_mul__distinct ?s0 x) [0..<248]"
  have "is_power x (fe_mul__distinct ?s0 x) (2 ^ 2 - 1)" using m [OF m [OF x x] x] by (simp add: numeral_3_eq_3)
  from is_power_steps [OF assms this, of 248] have r1: "is_power x ?r1 (2 ^ 250 - 1)" by simp
  let ?s2 = "fe_mul__distinct ?r1 ?r1"
  let ?r3 = "fe_mul__distinct ?s2 ?s2"
  let ?s4 = "fe_mul__distinct ?r3 x"
  let ?r5 = "fe_mul__distinct ?s4 ?s4"
  let ?s6 = "fe_mul__distinct ?r5 ?r5"
  let ?r7 = "fe_mul__distinct ?s6 x"
  note s2 = m [OF r1 r1]
  note r3 = m [OF s2 s2]
  note s4 = m [OF r3 x]
  note r5 = m [OF s4 s4]
  note s6 = m [OF r5 r5]
  note r7 = m [OF s6 x]
  have "fe_inv__distinct x = fe_mul__distinct (fe_mul__distinct ?r7 ?r7) x"
    by (simp only: fe_inv__distinct_def Let_def)
  then show ?thesis using m [OF m [OF r7 r7] x] by (simp add: p25519_def)
qed

section \<open>The ladder over the integers modulo \<open>p\<close>\<close>

text \<open>Montgomery's formulas for the sum of two points with known difference and for the double of a
  point, in projective coordinates \<open>x / z\<close>.\<close>

definition xadd :: "int \<times> int \<Rightarrow> int \<times> int \<Rightarrow> int \<times> int \<Rightarrow> int \<times> int" where
  "xadd p1 p2 p3 =
     (let (x1, z1) = p1; (x2, z2) = p2; (x3, z3) = p3;
          da = (x2 + z2) * (x3 - z3); cb = (x3 + z3) * (x2 - z2)
      in (z1 * (da + cb) ^ 2 mod p25519, x1 * (da - cb) ^ 2 mod p25519))"

definition xdbl :: "int \<times> int \<Rightarrow> int \<times> int" where
  "xdbl p1 =
     (let (x, z) = p1
      in ((x ^ 2 - z ^ 2) ^ 2 mod p25519, 4 * x * z * (x ^ 2 + 486662 * x * z + z ^ 2) mod p25519))"

text \<open>The multiples \<open>m\<close> and \<open>m - 1\<close> of the point with coordinate \<open>u\<close>.\<close>

fun multiples :: "int \<Rightarrow> nat \<Rightarrow> (int \<times> int) \<times> (int \<times> int)" where
  "multiples u m =
     (if m \<le> 1 then ((u, 1), (1, 0))
      else
        let (pm, pm1) = multiples u (m div 2);
            q1 = xadd (u, 1) pm pm1;
            q2 = xdbl pm;
            q3 = xadd q1 q2 (u, 1)
        in if odd m then (q3, q2) else (q2, q1))"

declare multiples.simps [simp del]

definition x25519 :: "nat \<Rightarrow> int \<Rightarrow> int" where
  "x25519 m u = (let (x, z) = fst (multiples u m) in x * z ^ nat (p25519 - 2) mod p25519)"

text \<open>What the bytes stand for, with or without the bound that a subtrahend needs.\<close>

definition repr :: "fe \<Rightarrow> int \<Rightarrow> bool" where
  "repr a A \<longleftrightarrow> length a = 32 \<and> eqp (fev a) A"

definition rrepr :: "fe \<Rightarrow> int \<Rightarrow> bool" where
  "rrepr a A \<longleftrightarrow> reduced a \<and> eqp (fev a) A"

definition stands :: "fe \<times> fe \<Rightarrow> int \<times> int \<Rightarrow> bool" where
  "stands p P \<longleftrightarrow> repr (fst p) (fst P) \<and> rrepr (snd p) (snd P)"

lemma eqp_mod [simp]: "eqp x (y mod p25519) \<longleftrightarrow> eqp x y"
  by (simp add: eqp_def)

lemma rrepr_repr: "rrepr a A \<Longrightarrow> repr a A"
  by (simp add: rrepr_def repr_def reduced_length)

lemma add_rule: "repr a A \<Longrightarrow> repr b B \<Longrightarrow> rrepr (lm_add a b) (A + B)"
  unfolding repr_def rrepr_def using lm_add_val eqp_add eqp_trans by blast

lemma sub_rule: "repr a A \<Longrightarrow> rrepr b B \<Longrightarrow> rrepr (lm_sub a b) (A - B)"
  unfolding repr_def rrepr_def using lm_sub_val eqp_diff eqp_trans by blast

lemma mul_rule: "repr a A \<Longrightarrow> repr b B \<Longrightarrow> rrepr (fe_mul__distinct a b) (A * B)"
  unfolding repr_def rrepr_def using fe_mul_val eqp_mult eqp_trans by blast

lemma mul_c_rule: "repr a A \<Longrightarrow> unat b < 2 ^ 20 \<Longrightarrow> rrepr (fe_mul_c a b) (A * int (unat b))"
  unfolding repr_def rrepr_def using fe_mul_c_val eqp_mult [OF _ eqp_refl] eqp_trans by blast

lemmas field_rules = add_rule sub_rule mul_rule mul_c_rule

lemma stands_diffadd:
  assumes "stands p1 P1" "stands p2 P2" "stands p3 P3"
  shows "stands (xc_diffadd p1 p2 p3) (xadd P1 P2 P3)"
proof -
  obtain x1 z1 x2 z2 x3 z3 where p: "p1 = (x1, z1)" "p2 = (x2, z2)" "p3 = (x3, z3)" by (metis surj_pair)
  obtain X1 Z1 X2 Z2 X3 Z3 where P: "P1 = (X1, Z1)" "P2 = (X2, Z2)" "P3 = (X3, Z3)" by (metis surj_pair)
  have x: "repr x1 X1" "repr x2 X2" "repr x3 X3" and z: "rrepr z1 Z1" "rrepr z2 Z2" "rrepr z3 Z3"
    using assms by (auto simp: stands_def p P)
  let ?da = "fe_mul__distinct (lm_add x2 z2) (lm_sub x3 z3)" and ?cb = "fe_mul__distinct (lm_add x3 z3) (lm_sub x2 z2)"
  let ?DA = "(X2 + Z2) * (X3 - Z3)" and ?CB = "(X3 + Z3) * (X2 - Z2)"
  have da: "rrepr ?da ?DA" and cb: "rrepr ?cb ?CB" by (intro field_rules rrepr_repr x z; fact)+
  note r = rrepr_repr
  have "rrepr (fe_mul__distinct z1 (fe_mul__distinct (lm_add ?da ?cb) (lm_add ?da ?cb))) (Z1 * ((?DA + ?CB) * (?DA + ?CB)))"
    by (rule mul_rule [OF r [OF z(1)] r [OF mul_rule [OF r r, OF add_rule add_rule]]]; rule r [OF da] r [OF cb])
  moreover have "rrepr (fe_mul__distinct x1 (fe_mul__distinct (lm_sub ?da ?cb) (lm_sub ?da ?cb))) (X1 * ((?DA - ?CB) * (?DA - ?CB)))"
    by (rule mul_rule [OF x(1) r [OF mul_rule [OF r r, OF sub_rule sub_rule]]]; rule r [OF da] cb)
  ultimately show ?thesis
    by (auto simp: stands_def xc_diffadd_def xadd_def p P Let_def power2_eq_square repr_def rrepr_def reduced_length)
qed


lemma stands_double:
  assumes "stands p P"
  shows "stands (xc_double p) (xdbl P)"
proof -
  obtain x z X Z where p: "p = (x, z)" "P = (X, Z)" by (metis surj_pair)
  have x: "repr x X" "repr z Z" using assms rrepr_repr by (auto simp: stands_def p)
  let ?xx = "fe_mul__distinct x x" and ?zz = "fe_mul__distinct z z" and ?xz = "fe_mul__distinct x z"
  note r = rrepr_repr
  have m: "rrepr ?xx (X * X)" "rrepr ?zz (Z * Z)" "rrepr ?xz (X * Z)" by (intro mul_rule x)+
  have "rrepr (lm_sub ?xx ?zz) (X * X - Z * Z)" by (rule sub_rule [OF r [OF m(1)] m(2)])
  then have 1: "rrepr (fe_mul__distinct (lm_sub ?xx ?zz) (lm_sub ?xx ?zz)) ((X * X - Z * Z) * (X * X - Z * Z))"
    by (intro mul_rule r)
  have "rrepr (fe_mul_c ?xz 486662) (X * Z * int (unat (486662 :: u32)))"
    by (rule mul_c_rule [OF r [OF m(3)]]) simp
  then have "rrepr (lm_add ?zz (lm_add ?xx (fe_mul_c ?xz 486662))) (Z * Z + (X * X + X * Z * int (unat (486662 :: u32))))"
    by (intro add_rule r m)
  then have "rrepr (fe_mul_c (fe_mul__distinct ?xz (lm_add ?zz (lm_add ?xx (fe_mul_c ?xz 486662)))) 4)
      (X * Z * (Z * Z + (X * X + X * Z * int (unat (486662 :: u32)))) * int (unat (4 :: u32)))"
    by (intro mul_c_rule mul_rule r m) simp_all
  note 2 = this
  have e: "X * Z * (Z * Z + (X * X + X * Z * int (unat (486662 :: u32)))) * int (unat (4 :: u32)) =
      4 * X * Z * (X ^ 2 + 486662 * X * Z + Z ^ 2)"
  proof -
    have "int (unat (486662 :: u32)) = 486662" "int (unat (4 :: u32)) = 4" by simp_all
    then show ?thesis by (simp only: power2_eq_square) (simp add: algebra_simps)
  qed
  show ?thesis
    using 1 2 [unfolded e] by (auto simp: stands_def xc_double_def xdbl_def p Let_def power2_eq_square repr_def rrepr_def reduced_length)
qed

lemma stands_select:
  assumes "stands p P" "stands q Q"
  shows "stands (fe_select (fst p) (fst q) (if b then 1 else 0), fe_select (snd p) (snd q) (if b then 1 else 0)) (if b then Q else P)"
  using assms rrepr_repr by (auto simp: stands_def repr_def rrepr_def reduced_length fe_select_value)

lemma length_fe_select: "length (fe_select x y c) = 32"
  by (simp add: fe_select_def F25519_SIZE_def Let_def)

text \<open>The bits of the scalar.\<close>

lemma val_bit: "i < 8 * length e \<Longrightarrow> odd (val e div 2 ^ i) = bit (e ! (i div 8)) (i mod 8)"
proof (induction e arbitrary: i)
  case (Cons x e)
  show ?case
  proof (cases "i < 8")
    case True
    then have "256 = (2 :: nat) ^ i * 2 ^ (8 - i)" by (simp flip: power_add)
    then have "val (x # e) = unat x + 2 ^ i * (2 ^ (8 - i) * val e)" by (simp only: val.simps mult.assoc)
    then have "val (x # e) div 2 ^ i = unat x div 2 ^ i + 2 ^ (8 - i) * val e" by (simp only:) simp
    moreover have "even ((2 :: nat) ^ (8 - i) * val e)" using True by simp
    ultimately have "odd (val (x # e) div 2 ^ i) = odd (unat x div 2 ^ i)" by simp
    then show ?thesis using True by (simp add: bit_iff_odd [symmetric] bit_unsigned_iff bit_imp_le_length)
  next
    case False
    then have "i = 8 + (i - 8)" by simp
    then have "(2 :: nat) ^ i = 2 ^ 8 * 2 ^ (i - 8)" by (metis power_add)
    then have "(2 :: nat) ^ i = 256 * 2 ^ (i - 8)" by simp
    moreover have "val (x # e) div 256 = val e" using unat_u8 [of x] by simp
    ultimately have "val (x # e) div 2 ^ i = val e div 2 ^ (i - 8)" by (simp only: div_mult2_eq)
    moreover have "(i - 8) div 8 = i div 8 - 1" "(i - 8) mod 8 = i mod 8" "0 < i div 8" using False by (auto simp: le_mod_geq div_if)
    ultimately show ?thesis using Cons.IH [of "i - 8"] Cons.prems False
      by (simp add: nth_Cons' less_diff_conv2)
  qed
qed simp

lemma select_bit: "drop_bit n (x :: u8) AND 1 = (if bit x n then 1 else 0)"
  by (simp add: bit_iff_odd_drop_bit and_one_eq odd_iff_mod_2_eq_one even_iff_mod_2_eq_zero)

lemma val_zero: "val (replicate n 0) = 0"
  by (induction n) auto

lemma ladder_step_stands:
  assumes "stands p P" "stands p1 P1" "length q = 32" "length e = 32" "i < 256"
  shows "let (r, r1) = ladder_step q e (p, p1) i;
             Q1 = xadd (fev q, 1) P P1; Q = xdbl P; Q3 = xadd Q1 Q (fev q, 1)
         in if odd (val e div 2 ^ i) then stands r Q3 \<and> stands r1 Q else stands r Q \<and> stands r1 Q1"
proof -
  have one: "stands (q, f25519_one) (fev q, 1)"
    using assms(3) by (simp add: stands_def repr_def rrepr_def reduced_def f25519_one_def F25519_SIZE_def fev_def val_zero)
  have b: "drop_bit (i mod 8) (e ! (i div 8)) AND 1 = (if odd (val e div 2 ^ i) then 1 else 0)"
    using val_bit [of i e] assms(4,5) by (simp add: select_bit)
  let ?m1 = "xc_diffadd (q, f25519_one) p p1" and ?m = "xc_double p"
  let ?ms = "xc_diffadd ?m1 ?m (q, f25519_one)"
  have s: "stands ?m1 (xadd (fev q, 1) P P1)" "stands ?m (xdbl P)"
    by (intro stands_diffadd stands_double one assms)+
  have s3: "stands ?ms (xadd (xadd (fev q, 1) P P1) (xdbl P) (fev q, 1))"
    by (intro stands_diffadd one s)
  show ?thesis
    using stands_select [OF s(1) s(2), of "odd (val e div 2 ^ i)"] stands_select [OF s(2) s3, of "odd (val e div 2 ^ i)"]
    by (cases "odd (val e div 2 ^ i)") (simp_all add: ladder_step_def Let_def b)
qed


lemma ladder_multiples:
  assumes "length q = 32" "length e = 32" "n \<le> 254"
  shows "let (m, m1) = foldl (ladder_step q e) ((q, f25519_one), (f25519_one, replicate F25519_SIZE 0)) (rev [254 - n..<254]);
             (M, M1) = multiples (fev q) (2 ^ n + val e mod 2 ^ 254 div 2 ^ (254 - n))
         in stands m M \<and> stands m1 M1"
  using assms(3)
proof (induction n)
  case 0
  have "val e mod 2 ^ 254 div 2 ^ 254 = 0" by simp
  then show ?case
    using assms(1) by (simp add: multiples.simps stands_def repr_def rrepr_def reduced_def f25519_one_def F25519_SIZE_def fev_def val_zero)
next
  case (Suc n)
  let ?i = "254 - Suc n"
  let ?s = "(((q, f25519_one), (f25519_one, replicate F25519_SIZE 0)) :: (fe \<times> fe) \<times> (fe \<times> fe))"
  let ?v = "val e mod 2 ^ 254"
  let ?k = "2 ^ n + ?v div 2 ^ (254 - n)" and ?l = "2 ^ Suc n + ?v div 2 ^ ?i"
  obtain m m1 where m: "foldl (ladder_step q e) ?s (rev [254 - n..<254]) = (m, m1)" by (metis surj_pair)
  obtain M M1 where M: "multiples (fev q) ?k = (M, M1)" by (metis surj_pair)
  have IH: "stands m M" "stands m1 M1" using Suc m M by auto
  have i: "254 - n = Suc ?i" using Suc.prems by simp
  have "[?i..<254] = ?i # [254 - n..<254]" unfolding i by (rule upt_conv_Cons) simp
  then have f: "foldl (ladder_step q e) ?s (rev [?i..<254]) = ladder_step q e (m, m1) ?i" by (simp add: m)
  have half: "?l div 2 = ?k" unfolding i power_Suc2 div_mult2_eq by simp
  have "even ((2 :: nat) ^ Suc n)" by simp
  then have "odd ?l = odd (?v div 2 ^ ?i)" by simp
  also have "\<dots> = odd (val e div 2 ^ ?i)"
  proof -
    have "?i < 254" by linarith
    then have "bit ?v ?i = bit (val e) ?i"
      unfolding take_bit_eq_mod [symmetric] bit_take_bit_iff by blast
    then show ?thesis unfolding bit_iff_odd .
  qed
  finally have odd: "odd ?l = odd (val e div 2 ^ ?i)" .
  have "1 < ?l" using one_less_power [of "2 :: nat" "Suc n"] by simp
  then have "multiples (fev q) ?l =
      (let q1 = xadd (fev q, 1) M M1; q2 = xdbl M; q3 = xadd q1 q2 (fev q, 1)
       in if odd ?l then (q3, q2) else (q2, q1))"
    using half M by (subst multiples.simps) (simp add: Let_def)
  moreover have "?i < 256" using Suc.prems by simp
  ultimately show ?case
    using ladder_step_stands [OF IH assms(1,2) \<open>?i < 256\<close>] odd unfolding f
    by (auto simp: Let_def split: prod.splits if_splits)
qed

lemma curve25519_value:
  assumes "length e = 32" "length q = 32"
  shows "length (curve25519 e q) = 32 \<and> fev (curve25519 e q) = x25519 (2 ^ 254 + val e mod 2 ^ 254) (fev q)"
proof -
  obtain m m1 where m: "foldl (ladder_step q e) ((q, f25519_one), (f25519_one, replicate F25519_SIZE 0)) (rev [0..<254]) = (m, m1)"
    by (metis surj_pair)
  obtain M M1 where M: "multiples (fev q) (2 ^ 254 + val e mod 2 ^ 254) = (M, M1)" by (metis surj_pair)
  have s: "stands m M"
    using ladder_multiples [OF assms(2,1), of 254] m M by simp
  let ?inv = "fe_inv__distinct (snd m)" and ?n = "nat (p25519 - 2)"
  have "is_power (snd m) ?inv ?n" using s by (intro fe_inv_power) (auto simp: stands_def rrepr_def reduced_length)
  then have "repr ?inv (snd M ^ ?n)"
    using s eqp_power eqp_trans by (fastforce simp: is_power_def repr_def stands_def rrepr_def)
  moreover have "repr (fst m) (fst M)" using s by (simp add: stands_def)
  ultimately have r: "rrepr (fe_mul__distinct ?inv (fst m)) (snd M ^ ?n * fst M)" by (rule mul_rule)
  have c: "curve25519 e q = fe_normalize (fe_mul__distinct ?inv (fst m))"
    by (simp add: curve25519_def m)
  have x: "x25519 (2 ^ 254 + val e mod 2 ^ 254) (fev q) = snd M ^ ?n * fst M mod p25519"
    unfolding x25519_def M by (simp add: case_prod_beta mult.commute)
  show ?thesis
    using fe_normalize_val [OF reduced_length, of "fe_mul__distinct ?inv (fst m)"] r
    unfolding c x by (simp add: rrepr_def eqp_def)
qed

section \<open>The property\<close>

text \<open>C12: for every scalar and every coordinate of 32 bytes \<open>curve25519\<close> gives the canonical bytes of
  \<open>x / z mod 2 ^ 255 - 19\<close>, where \<open>x\<close> and \<open>z\<close> are the coordinates of the multiple of the point by
  the scalar with bit 254 set and bit 255 dropped, by Montgomery's formulas.\<close>

theorem curve25519_ladder:
  assumes "length e = 32" "length q = 32"
  shows "length (curve25519 e q) = 32 \<and>
    int (val (curve25519 e q)) = x25519 (2 ^ 254 + val e mod 2 ^ 254) (int (val q))"
  using curve25519_value [OF assms] by (simp only: fev_def)

theorem curve25519_ladder_witness:
  "length (curve25519 (replicate 32 7) (9 # replicate 31 0)) = 32 \<and>
   int (val (curve25519 (replicate 32 7) (9 # replicate 31 0))) =
     x25519 (2 ^ 254 + val (replicate 32 7) mod 2 ^ 254) (int (val (9 # replicate 31 0)))"
  by (rule curve25519_ladder) simp_all

end
