(* ===== verification/Ghash.thy ===== *)
theory Ghash imports Hash begin

text \<open>
  \<open>networking/tls_aesgcm.c\<close> and the exclusive-or helpers of \<open>networking/tls.c\<close>: the
  authentication hash of AES-GCM on a little-endian 64-bit machine.
\<close>

definition AES_BLOCK_SIZE :: nat where "AES_BLOCK_SIZE = 16"

definition xorbuf3 :: "u8 list \<Rightarrow> u8 list \<Rightarrow> nat \<Rightarrow> u8 list" where
  "xorbuf3 src1 src2 count = map2 (XOR) (take count src1) (take count src2)"

text \<open>\<open>dst\<close> after the call.\<close>

definition xorbuf :: "u8 list \<Rightarrow> u8 list \<Rightarrow> nat \<Rightarrow> u8 list" where
  "xorbuf dst src count = xorbuf3 dst src count @ drop count dst"

definition xorbuf_aligned_AES_BLOCK_SIZE :: "u8 list \<Rightarrow> u8 list \<Rightarrow> u8 list" where
  "xorbuf_aligned_AES_BLOCK_SIZE dst src =
     (let d = words64 dst; s = words64 src
      in bytes64 (d ! 0 XOR s ! 0) @ bytes64 (d ! 1 XOR s ! 1))"

definition RIGHTSHIFTX :: "u8 list \<Rightarrow> u8 list" where
  "RIGHTSHIFTX x =
     (let l = words64 x;
          carryIn = (if x ! 15 AND 0x01 \<noteq> 0 then push_bit (64 - 8) 0xE1 else 0);
          tt = bswap64 (l ! 0);
          carryOut = push_bit (64 - 1) tt;
          tt = drop_bit 1 tt XOR carryIn;
          l0 = bswap64 tt;
          tt = bswap64 (l ! 1);
          tt = drop_bit 1 tt XOR carryOut;
          l1 = bswap64 tt
      in bytes64 l0 @ bytes64 l1)"

text \<open>The inner loop of \<open>GMULT\<close> with \<open>Z\<close>, \<open>X\<close> and \<open>y\<close>; it ends when bit 31 of \<open>y\<close> is
  set.\<close>

partial_function (option) gmult_bits :: "u8 list \<Rightarrow> u8 list \<Rightarrow> u32 \<Rightarrow> (u8 list \<times> u8 list) option" where
  "gmult_bits Z X y =
     (let Z = (if y AND 0x80 \<noteq> 0 then xorbuf_aligned_AES_BLOCK_SIZE Z X else Z);
          X = RIGHTSHIFTX X;
          y = push_bit 1 y
      in if sint y < 0 then Some (Z, X) else gmult_bits Z X y)"

fun gmult_bytes :: "u8 list \<Rightarrow> u8 list \<Rightarrow> u8 list \<Rightarrow> (u8 list \<times> u8 list) option" where
  "gmult_bytes Z X [] = Some (Z, X)"
| "gmult_bytes Z X (b # Y) =
     Option.bind (gmult_bits Z X (0x800000 OR ucast b)) (\<lambda>(Z, X). gmult_bytes Z X Y)"

text \<open>\<open>X\<close> after the call.\<close>

definition GMULT :: "u8 list \<Rightarrow> u8 list \<Rightarrow> u8 list option" where
  "GMULT X Y = map_option fst (gmult_bytes (replicate AES_BLOCK_SIZE 0) X (take AES_BLOCK_SIZE Y))"

text \<open>The whole blocks of the ciphertext: \<open>x\<close> and what \<open>c\<close> points to afterwards.\<close>

fun ghash_blocks :: "bool \<Rightarrow> u8 list \<Rightarrow> nat \<Rightarrow> u8 list \<Rightarrow> u8 list \<Rightarrow> (u8 list \<times> u8 list) option" where
  "ghash_blocks unaligned_ok h 0 x c = Some (x, c)"
| "ghash_blocks unaligned_ok h (Suc blocks) x c =
     Option.bind (GMULT (if unaligned_ok then xorbuf_aligned_AES_BLOCK_SIZE x c else xorbuf x c AES_BLOCK_SIZE) h)
       (\<lambda>x. ghash_blocks unaligned_ok h blocks x (drop AES_BLOCK_SIZE c))"

text \<open>\<open>P32(x)[i] ^= v\<close>.\<close>

definition xor_word32 :: "u8 list \<Rightarrow> nat \<Rightarrow> u32 \<Rightarrow> u8 list" where
  "xor_word32 x i v = memcpy x (4 * i) (bytes32 (words32 x ! i XOR v))"

definition aSz :: nat where "aSz = 13"

definition aesgcm_GHASH :: "bool \<Rightarrow> u8 list \<Rightarrow> u8 list \<Rightarrow> u8 list \<Rightarrow> u8 list option" where
  "aesgcm_GHASH unaligned_ok h a c =
     (let x = take AES_BLOCK_SIZE a; cSz = length c
      in Option.bind (GMULT x h)
           (\<lambda>x. Option.bind
              (if cSz \<noteq> 0 then
                 let blocks = cSz div AES_BLOCK_SIZE; partial = cSz mod AES_BLOCK_SIZE
                 in Option.bind (ghash_blocks unaligned_ok h blocks x c)
                      (\<lambda>(x, c). if partial \<noteq> 0 then GMULT (xorbuf x c partial) h else Some x)
               else Some x)
              (\<lambda>x. let x = xor_word32 x 1 (bswap32 (word_of_nat (aSz * 8)));
                       x = xor_word32 x 3 (bswap32 (word_of_nat (cSz * 8)))
                   in GMULT x h)))"

end
