(* ===== verification/GhashProps.thy ===== *)
theory GhashProps imports Ghash HashDigest begin

text \<open>
  GHASH: a 16-byte block is a 128-bit number; the word operations of \<open>tls_aesgcm.c\<close> are the field
  operations of SP 800-38D, whose product is proved commutative, because the code runs through
  the bits of the other factor than the standard does.
\<close>

section \<open>Blocks as 128-bit numbers\<close>

definition be128 :: "u8 list \<Rightarrow> 128 word" where
  "be128 b = from_bytes (rev b)"

lemma bit_be128:
  assumes "length b = 16"
  shows "bit (be128 b) n \<longleftrightarrow> n < 128 \<and> bit (b ! (15 - n div 8)) (n mod 8)"
proof -
  have "bit (be128 b) n \<longleftrightarrow> n < 8 * length (rev b) \<and> bit (rev b ! (n div 8)) (n mod 8)"
    unfolding be128_def using assms by (intro bit_from_bytes) simp
  moreover have "n < 128 \<Longrightarrow> rev b ! (n div 8) = b ! (15 - n div 8)"
    using assms by (subst rev_nth) auto
  ultimately show ?thesis using assms by auto
qed

lemma be128_inj: "length b = 16 \<Longrightarrow> length c = 16 \<Longrightarrow> be128 b = be128 c \<Longrightarrow> b = c"
proof (rule bytes_eqI)
  fix i n :: nat assume l: "length b = 16" "length c = 16" "i < length b" "n < 8" and e: "be128 b = be128 c"
  have "(8 * (15 - i) + n) div 8 = 15 - i" "(8 * (15 - i) + n) mod 8 = n" "8 * (15 - i) + n < 128" "15 - (15 - i) = i"
    using l by auto
  then show "bit (b ! i) n = bit (c ! i) n"
    using bit_be128 [OF l(1), of "8 * (15 - i) + n"] bit_be128 [OF l(2), of "8 * (15 - i) + n"] e by simp
qed simp

text \<open>The two 64-bit halves the code works on.\<close>

lemma words64_16: "length b = 16 \<Longrightarrow> words64 b = [from_bytes (take 8 b), from_bytes (take 8 (drop 8 b))]"
  by (simp add: words64_def upt_rec)

lemma bit_rev_bytes:
  assumes "length bs = 8" "m < 64"
  shows "bit (from_bytes (rev bs) :: u64) m = bit (bs ! (7 - m div 8)) (m mod 8)"
proof -
  have "rev bs ! (m div 8) = bs ! (7 - m div 8)" using assms by (subst rev_nth) auto
  then show ?thesis using assms by (simp add: bit_from_bytes)
qed

lemma bit_halves:
  "bit (push_bit 64 (ucast (a :: u64)) OR ucast (b :: u64) :: 128 word) n \<longleftrightarrow> (if n < 64 then bit b n else bit a (n - 64))"
proof (cases "n < 128")
  case True
  then have "n - 64 < 128" by simp
  moreover have "\<not> bit b n" if "64 \<le> n" using that by (auto dest: bit_imp_le_length)
  ultimately show ?thesis using True by (simp add: bit_or_iff bit_push_bit_iff bit_ucast_iff)
next
  case False
  then have "\<not> bit a (n - 64)" by (auto dest: bit_imp_le_length)
  moreover have "\<not> bit (push_bit 64 (ucast a) OR ucast b :: 128 word) n" using False by (auto dest: bit_imp_le_length)
  ultimately show ?thesis using False by simp
qed

lemma be128_halves:
  assumes "length b = 16"
  shows "be128 b = push_bit 64 (ucast (bswap64 (words64 b ! 0))) OR ucast (bswap64 (words64 b ! 1))"
proof (rule bit_word_eqI)
  fix n assume "n < LENGTH(128)"
  then have n: "n < 128" by simp
  have h: "bswap64 (words64 b ! 0) = from_bytes (rev (take 8 b))" "bswap64 (words64 b ! 1) = from_bytes (rev (take 8 (drop 8 b)))"
    using assms by (simp_all add: words64_16 bswap64_def bytes64_from_bytes)
  show "bit (be128 b) n = bit (push_bit 64 (ucast (bswap64 (words64 b ! 0))) OR ucast (bswap64 (words64 b ! 1)) :: 128 word) n"
    unfolding h bit_halves
  proof (cases "64 \<le> n")
    case True
    obtain m where m: "n = 64 + m" using True by (metis le_Suc_ex)
    have "(64 + m) div 8 = 8 + m div 8" "(64 + m) mod 8 = m mod 8" by presburger+
    then show "bit (be128 b) n \<longleftrightarrow> (if n < 64 then bit (from_bytes (rev (take 8 (drop 8 b))) :: u64) n
        else bit (from_bytes (rev (take 8 b)) :: u64) (n - 64))"
      using assms n by (simp add: bit_be128 bit_rev_bytes m)
  next
    case False
    moreover have "8 + (7 - n div 8) = 15 - n div 8" using False by simp
    ultimately show "bit (be128 b) n \<longleftrightarrow> (if n < 64 then bit (from_bytes (rev (take 8 (drop 8 b))) :: u64) n
        else bit (from_bytes (rev (take 8 b)) :: u64) (n - 64))"
      using assms n by (simp add: bit_be128 bit_rev_bytes)
  qed
qed

lemma bswap64_bswap64: "bswap64 (bswap64 w) = w"
proof -
  have "bytes64 (bswap64 (bswap64 w)) = bytes64 w" by (simp add: bytes64_bswap64)
  moreover have "from_bytes (bytes64 v) = v" for v :: u64
    by (rule bit_word_eqI) (auto simp: bit_from_bytes nth_bytes64 bit_ucast_iff bit_drop_bit_eq)
  ultimately show ?thesis by metis
qed

lemma from_bytes_bytes64: "from_bytes (bytes64 w) = w"
  by (rule bit_word_eqI) (auto simp: bit_from_bytes nth_bytes64 bit_ucast_iff bit_drop_bit_eq)

lemma be128_bytes64: "be128 (bytes64 a @ bytes64 b) = push_bit 64 (ucast (bswap64 a)) OR ucast (bswap64 b)"
  by (subst be128_halves) (simp_all add: words64_16 from_bytes_bytes64)


section \<open>The field of SP 800-38D\<close>

text \<open>Multiplication by \<open>x\<close>: the leftmost bit is the coefficient of 1.\<close>

definition gf_R :: "128 word" where "gf_R = push_bit 120 0xE1"

definition gf_shift :: "128 word \<Rightarrow> 128 word" where
  "gf_shift v = (if bit v 0 then drop_bit 1 v XOR gf_R else drop_bit 1 v)"

text \<open>The product of Algorithm 1.\<close>

definition gf_step :: "128 word \<Rightarrow> 128 word \<times> 128 word \<Rightarrow> nat \<Rightarrow> 128 word \<times> 128 word" where
  "gf_step x zv i = ((if bit x (127 - i) then fst zv XOR snd zv else fst zv), gf_shift (snd zv))"

definition gf_mult :: "128 word \<Rightarrow> 128 word \<Rightarrow> 128 word" where
  "gf_mult x y = fst (foldl (gf_step x) (0, y) [0..<128])"

lemma bit_e1: "bit gf_R n \<longleftrightarrow> 64 \<le> n \<and> bit (push_bit 56 0xE1 :: u64) (n - 64)"
proof -
  have "gf_R = push_bit 64 (ucast (push_bit 56 0xE1 :: u64)) OR ucast (0 :: u64)" by (simp add: gf_R_def)
  then show ?thesis unfolding \<open>gf_R = _\<close> bit_halves by auto
qed

lemma gf_shift_halves:
  "gf_shift (push_bit 64 (ucast (a :: u64)) OR ucast (b :: u64)) =
   push_bit 64 (ucast (drop_bit 1 a XOR (if bit b 0 then push_bit 56 0xE1 else 0))) OR ucast (drop_bit 1 b XOR push_bit 63 a)"
    (is "gf_shift ?v = ?r")
proof (rule bit_word_eqI)
  fix n assume "n < LENGTH(128)"
  then have n: "n < 128" by simp
  have l: "bit (gf_shift ?v) n \<longleftrightarrow> (if n < 63 then bit b (n + 1) else bit a (n - 63)) \<noteq> (bit b 0 \<and> bit gf_R n)"
  proof -
    have v: "bit ?v k \<longleftrightarrow> (if k < 64 then bit b k else bit a (k - 64))" for k by (rule bit_halves)
    have "bit (gf_shift w) n \<longleftrightarrow> bit w (n + 1) \<noteq> (bit w 0 \<and> bit gf_R n)" for w
      unfolding gf_shift_def by (simp add: bit_xor_iff bit_drop_bit_eq)
    from this [of ?v] show ?thesis unfolding v by simp
  qed
  have r: "bit ?r n \<longleftrightarrow> (if n < 64 then bit (drop_bit 1 b XOR push_bit 63 a) n
      else bit (drop_bit 1 a XOR (if bit b 0 then push_bit 56 0xE1 else 0)) (n - 64))"
    by (rule bit_halves)
  consider "n < 63" | "n = 63" | "64 \<le> n" by linarith
  then show "bit (gf_shift ?v) n = bit ?r n"
  proof cases
    case 1
    then show ?thesis unfolding l r bit_e1 by (simp add: bit_xor_iff bit_drop_bit_eq bit_push_bit_iff)
  next
    case 2
    have "\<not> bit b 64" by (auto dest: bit_imp_le_length)
    then show ?thesis unfolding l r bit_e1 using 2 by (simp add: bit_xor_iff bit_drop_bit_eq bit_push_bit_iff)
  next
    case 3
    then have "n - 63 = Suc (n - 64)" by simp
    then show ?thesis unfolding l r bit_e1 using 3 by (simp add: bit_xor_iff bit_drop_bit_eq del: push_bit_numeral)
  qed
qed


section \<open>The loops of \<open>GMULT\<close>\<close>

lemma RIGHTSHIFTX_shift:
  assumes "length x = 16"
  shows "length (RIGHTSHIFTX x) = 16 \<and> be128 (RIGHTSHIFTX x) = gf_shift (be128 x)"
proof -
  let ?a = "bswap64 (words64 x ! 0)" and ?b = "bswap64 (words64 x ! 1)"
  have "x ! 15 AND 0x01 \<noteq> 0 \<longleftrightarrow> bit (x ! 15) 0"
    by (simp only: and_one_eq bit_0 even_iff_mod_2_eq_zero)
  also have "\<dots> \<longleftrightarrow> bit (be128 x) 0" using bit_be128 [OF assms, of 0] by simp
  also have "\<dots> \<longleftrightarrow> bit ?b 0" unfolding be128_halves [OF assms] bit_halves by simp
  finally have c: "x ! 15 AND 0x01 \<noteq> 0 \<longleftrightarrow> bit ?b 0" .
  have "be128 (RIGHTSHIFTX x) =
      push_bit 64 (ucast (drop_bit 1 ?a XOR (if bit ?b 0 then push_bit 56 0xE1 else 0))) OR ucast (drop_bit 1 ?b XOR push_bit 63 ?a)"
    unfolding RIGHTSHIFTX_def Let_def be128_bytes64 bswap64_bswap64 c by simp
  moreover have "length (RIGHTSHIFTX x) = 16" by (simp add: RIGHTSHIFTX_def Let_def)
  ultimately show ?thesis by (simp only: be128_halves [OF assms] gf_shift_halves)
qed

lemma nth_xor_bytes:
  "i < length b \<Longrightarrow> i < length c \<Longrightarrow> map2 (XOR) b c ! i = b ! i XOR c ! i"
  by simp

lemma be128_xor:
  assumes "length b = 16" "length c = 16"
  shows "be128 (map2 (XOR) b c) = be128 b XOR be128 c"
proof (rule bit_word_eqI)
  fix n assume "n < LENGTH(128)"
  then show "bit (be128 (map2 (XOR) b c)) n = bit (be128 b XOR be128 c) n"
    using assms by (simp add: bit_be128 bit_xor_iff)
qed

lemma map2_append: "length a = length c \<Longrightarrow> map2 f (a @ a') (c @ c') = map2 f a c @ map2 f a' c'"
  by simp

lemma xorbuf_aligned_bytes:
  assumes "length b = 16" "16 \<le> length c"
  shows "xorbuf_aligned_AES_BLOCK_SIZE b c = map2 (XOR) b (take 16 c)"
proof -
  have w: "words64 c ! 0 = from_bytes (take 8 c)" "words64 c ! 1 = from_bytes (take 8 (drop 8 c))"
  proof -
    have "0 < length c div 8" "1 < length c div 8" using assms(2) by linarith+
    then show "words64 c ! 0 = from_bytes (take 8 c)" "words64 c ! 1 = from_bytes (take 8 (drop 8 c))"
      by (simp_all add: words64_def)
  qed
  have x: "bytes64 (from_bytes xs XOR from_bytes ys) = map2 (XOR) xs ys" if "length xs = 8" "length ys = 8" for xs ys
    using that by (intro bytes_eqI) (auto simp: nth_bytes64 bit_ucast_iff bit_drop_bit_eq bit_from_bytes bit_xor_iff)
  have "xorbuf_aligned_AES_BLOCK_SIZE b c = map2 (XOR) (take 8 b) (take 8 c) @ map2 (XOR) (take 8 (drop 8 b)) (take 8 (drop 8 c))"
    using assms by (simp only: xorbuf_aligned_AES_BLOCK_SIZE_def Let_def w words64_16) (simp add: x)
  also have "\<dots> = map2 (XOR) (take 8 b @ take 8 (drop 8 b)) (take 8 c @ take 8 (drop 8 c))"
    by (rule map2_append [symmetric]) (use assms in simp)
  also have "\<dots> = map2 (XOR) b (take 16 c)"
  proof -
    have "take 8 b @ take 8 (drop 8 b) = b" using assms by (simp add: take_add [of 8 8, symmetric, simplified])
    moreover have "take 8 c @ take 8 (drop 8 c) = take 16 c" using take_add [of 8 8 c] by simp
    ultimately show ?thesis by simp
  qed
  finally show ?thesis .
qed

lemma xorbuf_bytes: "n \<le> length b \<Longrightarrow> n \<le> length c \<Longrightarrow> xorbuf b c n = map2 (XOR) (take n b) (take n c) @ drop n b"
  by (simp add: xorbuf_def xorbuf3_def)

lemma xorbuf_full: "length b = 16 \<Longrightarrow> 16 \<le> length c \<Longrightarrow> xorbuf b c AES_BLOCK_SIZE = xorbuf_aligned_AES_BLOCK_SIZE b c"
  by (simp add: xorbuf_bytes xorbuf_aligned_bytes AES_BLOCK_SIZE_def)

text \<open>The sentinel bit makes the loop over \<open>y\<close> run eight times.\<close>

definition byte_step :: "u8 \<Rightarrow> u8 list \<times> u8 list \<Rightarrow> nat \<Rightarrow> u8 list \<times> u8 list" where
  "byte_step b ZX k =
     ((if bit b (7 - k) then xorbuf_aligned_AES_BLOCK_SIZE (fst ZX) (snd ZX) else fst ZX), RIGHTSHIFTX (snd ZX))"

lemma gmult_bits_steps:
  "k < 8 \<Longrightarrow> gmult_bits Z X (push_bit k (0x800000 OR ucast b)) = Some (foldl (byte_step b) (Z, X) [k..<8])"
proof (induction "8 - k" arbitrary: k Z X)
  case (Suc m)
  let ?y = "0x800000 OR ucast b :: u32"
  have y: "bit ?y j \<longleftrightarrow> j = 23 \<or> bit b j" for j
  proof -
    have "bit (0x800000 :: u32) j \<longleftrightarrow> j = 23"
      using bit_push_bit_iff [of 23 "1 :: u32" j] by (auto simp: bit_1_iff)
    then show ?thesis using byte_bit_high [of j b] by (cases "8 \<le> j") (auto simp: bit_or_iff bit_ucast_iff)
  qed
  have "(0x80 :: u32) = push_bit 7 1" by simp
  then have t: "(push_bit k ?y AND 0x80 \<noteq> 0) \<longleftrightarrow> bit (push_bit k ?y) 7"
    by (simp only: and_exp_eq_0_iff_not_bit [of _ 7, unfolded push_bit_of_1 [symmetric]]) simp
  also have "\<dots> \<longleftrightarrow> bit b (7 - k)" unfolding bit_push_bit_iff y using Suc.prems by auto
  finally have t: "(push_bit k ?y AND 0x80 \<noteq> 0) \<longleftrightarrow> bit b (7 - k)" .
  have "sint (push_bit 1 (push_bit k ?y)) < 0 \<longleftrightarrow> bit (push_bit 1 (push_bit k ?y)) 31"
    using bit_last_iff [of "push_bit 1 (push_bit k ?y)"] by simp
  also have "\<dots> \<longleftrightarrow> k = 7"
    unfolding bit_push_bit_iff y using Suc.prems byte_bit_high [of "30 - k" b] by auto
  finally have e: "sint (push_bit 1 (push_bit k ?y)) < 0 \<longleftrightarrow> k = 7" .
  have u: "[k..<8] = k # [Suc k..<8]" using Suc.prems by (simp add: upt_conv_Cons)
  show ?case
  proof (cases "k = 7")
    case True
    then show ?thesis using t e by (subst gmult_bits.simps) (simp add: Let_def byte_step_def upt_rec)
  next
    case False
    then have "gmult_bits Z' X' (push_bit (Suc k) ?y) = Some (foldl (byte_step b) (Z', X') [Suc k..<8])" for Z' X'
      using Suc by (intro Suc.hyps(1)) auto
    moreover have "push_bit 1 (push_bit k ?y) = push_bit (Suc k) ?y" by simp
    ultimately show ?thesis using False t e u
      by (subst gmult_bits.simps) (simp only: Let_def byte_step_def foldl.simps fst_conv snd_conv if_False)
  qed
qed simp


definition gf_state :: "u8 list \<times> u8 list \<Rightarrow> 128 word \<times> 128 word \<Rightarrow> bool" where
  "gf_state ZX zv \<longleftrightarrow> length (fst ZX) = 16 \<and> length (snd ZX) = 16 \<and> be128 (fst ZX) = fst zv \<and> be128 (snd ZX) = snd zv"

lemma byte_step_gf:
  assumes "gf_state ZX zv" "bit b (7 - k) = bit h (127 - i)"
  shows "gf_state (byte_step b ZX k) (gf_step h zv i)"
  using assms RIGHTSHIFTX_shift [of "snd ZX"] be128_xor [of "fst ZX" "snd ZX"]
  by (auto simp: gf_state_def byte_step_def gf_step_def xorbuf_aligned_bytes)

lemma byte_steps_gf:
  assumes "gf_state ZX zv" "\<And>k. k < 8 \<Longrightarrow> bit b (7 - k) = bit h (127 - (o' + k))" "n \<le> 8"
  shows "gf_state (foldl (byte_step b) ZX [0..<n]) (foldl (gf_step h) zv [o'..<o' + n])"
  using assms(3)
proof (induction n)
  case (Suc n)
  then show ?case using byte_step_gf [of _ _ b n h "o' + n"] assms(2) [of n] by simp
qed (use assms(1) in simp)

lemma gmult_bytes_gf:
  assumes "length Y = 16" "n \<le> 16" "gf_state (Z, X) (foldl (gf_step (be128 Y)) (0, v) [0..<8 * (16 - n)])"
  shows "\<exists>ZX. gmult_bytes Z X (drop (16 - n) Y) = Some ZX \<and> gf_state ZX (foldl (gf_step (be128 Y)) (0, v) [0..<128])"
  using assms(2,3)
proof (induction n arbitrary: Z X)
  case (Suc n)
  let ?m = "16 - Suc n" and ?b = "Y ! (16 - Suc n)"
  have m: "16 - n = Suc ?m" using Suc.prems(1) by simp
  have d: "drop ?m Y = ?b # drop (16 - n) Y" unfolding m using assms(1) Suc.prems(1) by (intro Cons_nth_drop_Suc [symmetric]) simp
  have bits: "bit ?b (7 - k) = bit (be128 Y) (127 - (8 * ?m + k))" if "k < 8" for k
  proof -
    have "127 - (8 * ?m + k) = 8 * n + (7 - k)" using that Suc.prems(1) by simp
    moreover have "(8 * n + r) div 8 = n \<and> (8 * n + r) mod 8 = r" if "r < 8" for r using that by simp
    then have "(8 * n + (7 - k)) div 8 = n" "(8 * n + (7 - k)) mod 8 = 7 - k" by simp_all
    moreover have "8 * n + (7 - k) < 128" using Suc.prems(1) by linarith
    ultimately show ?thesis using Suc.prems(1) bit_be128 [OF assms(1), of "8 * n + (7 - k)"] that by (simp only:) simp
  qed
  obtain Z' X' where s: "foldl (byte_step ?b) (Z, X) [0..<8] = (Z', X')" by fastforce
  have e: "8 * (16 - n) = 8 * ?m + 8" unfolding m by simp
  have "[0..<8 * (16 - n)] = [0..<8 * ?m] @ [8 * ?m..<8 * ?m + 8]"
    unfolding e by (rule upt_add_eq_append) simp
  then have "gf_state (Z', X') (foldl (gf_step (be128 Y)) (0, v) [0..<8 * (16 - n)])"
    using byte_steps_gf [OF Suc.prems(2), of ?b "be128 Y" "8 * ?m" 8] bits s by simp
  from Suc.IH [OF _ this] Suc.prems(1) obtain ZX where
    "gmult_bytes Z' X' (drop (16 - n) Y) = Some ZX" "gf_state ZX (foldl (gf_step (be128 Y)) (0, v) [0..<128])" by auto
  moreover have "gmult_bits Z X (0x800000 OR ucast ?b) = Some (Z', X')"
    using gmult_bits_steps [of 0 Z X ?b] s by simp
  ultimately show ?case unfolding d by (simp add: Suc.prems)
qed (use assms(1) in simp)

lemma GMULT_gf:
  assumes "length X = 16" "length Y = 16"
  shows "\<exists>Z. GMULT X Y = Some Z \<and> length Z = 16 \<and> be128 Z = gf_mult (be128 Y) (be128 X)"
proof -
  have z: "be128 (replicate 16 0) = 0" by (rule bit_word_eqI) (simp add: bit_be128)
  then have "gf_state (replicate 16 0, X) (foldl (gf_step (be128 Y)) (0, be128 X) [0..<8 * (16 - 16)])"
    using assms by (simp add: gf_state_def)
  from gmult_bytes_gf [OF assms(2) order_refl this] show ?thesis
    using assms by (auto simp: GMULT_def AES_BLOCK_SIZE_def gf_mult_def gf_state_def)
qed

section \<open>The product is commutative\<close>

fun xsum :: "(nat \<Rightarrow> 128 word) \<Rightarrow> nat \<Rightarrow> 128 word" where
  "xsum f 0 = 0"
| "xsum f (Suc n) = xsum f n XOR f n"

lemma xsum_xor: "xsum (\<lambda>i. f i XOR g i) n = xsum f n XOR xsum g n"
  by (induction n) (simp_all add: xor_ac)

lemma xsum_0 [simp]: "xsum (\<lambda>i. 0) n = 0"
  by (induction n) simp_all

lemma xsum_swap: "xsum (\<lambda>i. xsum (\<lambda>j. f i j) n) m = xsum (\<lambda>j. xsum (\<lambda>i. f i j) m) n"
  by (induction m) (simp_all add: xsum_xor)

lemma xsum_cong: "(\<And>i. i < n \<Longrightarrow> f i = g i) \<Longrightarrow> xsum f n = xsum g n"
  by (induction n) simp_all

lemma gf_shift_xor: "gf_shift (a XOR b) = gf_shift a XOR gf_shift b"
  by (auto simp: gf_shift_def bit_xor_iff drop_bit_xor xor_ac)

lemma gf_shift_0 [simp]: "gf_shift 0 = 0"
  by (simp add: gf_shift_def)

lemma shifts_xsum: "(gf_shift ^^ k) (xsum f n) = xsum (\<lambda>i. (gf_shift ^^ k) (f i)) n"
proof (induction n)
  case 0
  show ?case by (induction k) simp_all
next
  case (Suc n)
  have "(gf_shift ^^ k) (a XOR b) = (gf_shift ^^ k) a XOR (gf_shift ^^ k) b" for a b
    by (induction k) (simp_all add: gf_shift_xor)
  then show ?case using Suc by simp
qed

lemma gf_steps_xsum:
  "foldl (gf_step x) (0, y) [0..<n] = (xsum (\<lambda>i. if bit x (127 - i) then (gf_shift ^^ i) y else 0) n, (gf_shift ^^ n) y)"
  by (induction n) (simp_all add: gf_step_def)

definition gf_one :: "128 word" where "gf_one = push_bit 127 1"

lemma bit_one_at: "m < 128 \<Longrightarrow> bit (push_bit m 1 :: 128 word) k \<longleftrightarrow> k = m"
  unfolding bit_push_bit_iff bit_1_iff by auto

lemma gf_shift_one: "j \<le> 127 \<Longrightarrow> (gf_shift ^^ j) gf_one = push_bit (127 - j) 1"
proof (induction j)
  case (Suc j)
  have "bit (push_bit (127 - j) (1 :: 128 word)) 0 \<longleftrightarrow> False" using Suc.prems by (subst bit_one_at) auto
  moreover have "drop_bit 1 (push_bit (127 - j) (1 :: 128 word)) = push_bit (127 - Suc j) 1"
    by (rule bit_word_eqI) (use Suc.prems in \<open>auto simp: bit_drop_bit_eq bit_one_at simp del: push_bit_of_1\<close>)
  ultimately show ?case using Suc by (simp add: gf_shift_def)
qed (simp add: gf_one_def)

lemma xsum_bit: "bit (xsum (\<lambda>j. if p j then push_bit (127 - j) 1 else 0) n) k \<longleftrightarrow> k < 128 \<and> 127 - k < n \<and> p (127 - k)" if "n \<le> 128"
  using that
proof (induction n)
  case (Suc n)
  have "bit (push_bit (127 - n) 1 :: 128 word) k \<longleftrightarrow> k < 128 \<and> 127 - k = n"
    using Suc.prems by (subst bit_one_at) auto
  then show ?case using Suc by (auto simp: bit_xor_iff less_Suc_eq)
qed simp

lemma word_xsum: "y = xsum (\<lambda>j. if bit y (127 - j) then (gf_shift ^^ j) gf_one else 0) 128"
proof -
  have "xsum (\<lambda>j. if bit y (127 - j) then (gf_shift ^^ j) gf_one else 0) 128 =
      xsum (\<lambda>j. if bit y (127 - j) then push_bit (127 - j) 1 else 0) 128"
    by (rule xsum_cong) (simp add: gf_shift_one)
  moreover have "y = xsum (\<lambda>j. if bit y (127 - j) then push_bit (127 - j) 1 else 0) 128"
    by (rule bit_word_eqI) (subst xsum_bit, auto)
  ultimately show ?thesis by metis
qed

lemma gf_mult_double:
  "gf_mult x y = xsum (\<lambda>i. xsum (\<lambda>j. if bit x (127 - i) \<and> bit y (127 - j) then (gf_shift ^^ (i + j)) gf_one else 0) 128) 128"
proof -
  have "gf_mult x y = xsum (\<lambda>i. if bit x (127 - i) then (gf_shift ^^ i) y else 0) 128"
    by (simp add: gf_mult_def gf_steps_xsum)
  also have "\<dots> = xsum (\<lambda>i. xsum (\<lambda>j. if bit x (127 - i) \<and> bit y (127 - j) then (gf_shift ^^ (i + j)) gf_one else 0) 128) 128"
  proof (rule xsum_cong)
    fix i
    have z: "(gf_shift ^^ i) 0 = 0" by (induction i) simp_all
    have "(gf_shift ^^ i) y = xsum (\<lambda>j. (gf_shift ^^ i) (if bit y (127 - j) then (gf_shift ^^ j) gf_one else 0)) 128"
      by (subst word_xsum) (rule shifts_xsum)
    also have "\<dots> = xsum (\<lambda>j. if bit y (127 - j) then (gf_shift ^^ (i + j)) gf_one else 0) 128"
      by (rule xsum_cong) (simp add: z funpow_add)
    finally show "(if bit x (127 - i) then (gf_shift ^^ i) y else 0) =
      xsum (\<lambda>j. if bit x (127 - i) \<and> bit y (127 - j) then (gf_shift ^^ (i + j)) gf_one else 0) 128" by simp
  qed
  finally show ?thesis .
qed

lemma gf_mult_commute: "gf_mult x y = gf_mult y x"
  unfolding gf_mult_double by (subst xsum_swap) (intro xsum_cong, auto simp: add.commute)


section \<open>The hash\<close>

definition ghash :: "128 word \<Rightarrow> 128 word list \<Rightarrow> 128 word" where
  "ghash h xs = foldl (\<lambda>y x. gf_mult (y XOR x) h) 0 xs"

definition pad16 :: "u8 list \<Rightarrow> u8 list" where
  "pad16 xs = xs @ replicate ((16 - length xs mod 16) mod 16) 0"

definition len64 :: "nat \<Rightarrow> u8 list" where
  "len64 n = rev (bytes64 (word_of_nat n))"

text \<open>Additional data and ciphertext, padded to blocks, and their lengths in bits.\<close>

definition ghash_spec :: "u8 list \<Rightarrow> u8 list \<Rightarrow> u8 list \<Rightarrow> 128 word" where
  "ghash_spec h aad c = ghash (be128 h)
     (map be128 (blocks 16 (pad16 aad @ pad16 c @ len64 (8 * length aad) @ len64 (8 * length c))))"

text \<open>\<open>x\<close> holds the hash of the blocks so far.\<close>

definition hashed :: "u8 list \<Rightarrow> u8 list \<Rightarrow> 128 word list \<Rightarrow> bool" where
  "hashed h x xs \<longleftrightarrow> length x = 16 \<and> be128 x = ghash (be128 h) xs"

lemma GMULT_hashed:
  assumes "length h = 16" "length x = 16" "be128 x = ghash (be128 h) xs XOR b"
  shows "\<exists>x'. GMULT x h = Some x' \<and> hashed h x' (xs @ [b])"
  using GMULT_gf [OF assms(2,1)] assms(3) by (auto simp: hashed_def ghash_def gf_mult_commute)

lemma ghash_blocks_hashed:
  assumes "length h = 16" "hashed h x xs" "16 * n \<le> length c"
  shows "\<exists>x'. ghash_blocks u h n x c = Some (x', drop (16 * n) c) \<and> hashed h x' (xs @ map be128 (blocks 16 (take (16 * n) c)))"
  using assms(2,3)
proof (induction n arbitrary: x xs c)
  case (Suc n)
  have x: "length x = 16" and h: "be128 x = ghash (be128 h) xs" using Suc.prems(1) by (simp_all add: hashed_def)
  let ?x = "if u then xorbuf_aligned_AES_BLOCK_SIZE x c else xorbuf x c AES_BLOCK_SIZE"
  have e: "?x = map2 (XOR) x (take 16 c)"
    using x Suc.prems(2) by (simp add: xorbuf_full xorbuf_aligned_bytes)
  have l: "length (take 16 c) = 16" using Suc.prems(2) by simp
  then have "be128 ?x = ghash (be128 h) xs XOR be128 (take 16 c)" "length ?x = 16"
    unfolding e using x h by (simp_all add: be128_xor)
  from GMULT_hashed [OF assms(1) this(2,1)] obtain x' where
    x': "GMULT ?x h = Some x'" "hashed h x' (xs @ [be128 (take 16 c)])" by blast
  have "16 * n \<le> length (drop 16 c)" using Suc.prems(2) by simp
  from Suc.IH [OF x'(2) this] obtain x'' where
    x'': "ghash_blocks u h n x' (drop 16 c) = Some (x'', drop (16 * n) (drop 16 c))"
      "hashed h x'' ((xs @ [be128 (take 16 c)]) @ map be128 (blocks 16 (take (16 * n) (drop 16 c))))" by blast
  have t: "take (16 * Suc n) c = take 16 c @ take (16 * n) (drop 16 c)"
    using take_add [of 16 "16 * n" c] by simp
  show ?case
    unfolding t blocks_Cons [OF _ l, simplified] using x' x''
    by (simp add: AES_BLOCK_SIZE_def add.commute)
qed simp

lemma hashed_be128: "hashed h x xs \<Longrightarrow> length x = 16 \<and> be128 x = ghash (be128 h) xs"
  by (simp add: hashed_def)

lemma pad16_tail:
  assumes "n = length c div 16"
  shows "blocks 16 (pad16 c @ rest) = blocks 16 (take (16 * n) c) @
    (if length c mod 16 = 0 then [] else [pad16 (drop (16 * n) c)]) @ blocks 16 rest"
  using assms
proof (induction n arbitrary: c)
  case 0
  then have c: "length c < 16" by (simp add: div_eq_0_iff)
  show ?case
  proof (cases "c = []")
    case False
    then have "length (pad16 c) = 16" using c by (simp add: pad16_def)
    then show ?thesis using False c by (simp add: blocks_Cons)
  qed (simp add: pad16_def)
next
  case (Suc n)
  have "16 \<le> length c" using Suc.prems by (metis Suc_leI div_le_mono div_less not_less zero_less_Suc le_zero_eq nat.simps(3) leI)
  then have l: "length (take 16 c) = 16" "length (drop 16 c) div 16 = n" "length (drop 16 c) mod 16 = length c mod 16"
    using Suc.prems by (auto simp: le_mod_geq div_if)
  have p: "pad16 c = take 16 c @ pad16 (drop 16 c)"
    using l(3) by (simp add: pad16_def)
  have t: "take (16 * Suc n) c = take 16 c @ take (16 * n) (drop 16 c)"
    using take_add [of 16 "16 * n" c] by simp
  show ?case
    unfolding p t append_assoc blocks_Cons [OF _ l(1), simplified]
    using Suc.IH [OF l(2) [symmetric]] l(3) by (simp add: add.commute)
qed


text \<open>A partial block: the zeros of the padding change nothing.\<close>

lemma xorbuf_partial:
  assumes "length x = 16" "length c < 16" "c \<noteq> []"
  shows "xorbuf x c (length c) = map2 (XOR) x (pad16 c)"
proof -
  have p: "length (pad16 c) = 16" using assms by (simp add: pad16_def)
  show ?thesis
  proof (rule nth_equalityI)
    show "length (xorbuf x c (length c)) = length (map2 (XOR) x (pad16 c))"
      using assms p by (simp add: xorbuf_bytes)
    fix i assume "i < length (xorbuf x c (length c))"
    then have "i < 16" using assms by (simp add: xorbuf_bytes)
    then show "xorbuf x c (length c) ! i = map2 (XOR) x (pad16 c) ! i"
      using assms p by (simp add: xorbuf_bytes nth_append pad16_def)
  qed
qed

text \<open>The two lengths, each in the low half of its 64 bits.\<close>

lemma len64_small: "n < 2 ^ 32 \<Longrightarrow> len64 n = replicate 4 0 @ bytes32 (bswap32 (word_of_nat n))"
proof (rule bytes_eqI)
  fix i k :: nat
  assume n: "n < 2 ^ 32" and i: "i < length (len64 n)" and k: "k < 8"
  have i8: "i < 8" using i by (simp add: len64_def)
  have high: "\<not> bit n (8 * (7 - i) + k)" if "i < 4"
  proof -
    have "32 \<le> 8 * (7 - i) + k" using that by simp
    then have "(2 :: nat) ^ 32 \<le> 2 ^ (8 * (7 - i) + k)" by (rule power_increasing) simp
    then have "n < 2 ^ (8 * (7 - i) + k)" using n by linarith
    then show ?thesis by (simp add: bit_iff_odd)
  qed
  have l: "bit (len64 n ! i) k \<longleftrightarrow> bit n (8 * (7 - i) + k)"
  proof -
    have "8 * (7 - i) + k < 64" using k by linarith
    then show ?thesis
      using i8 k by (simp add: len64_def rev_nth nth_bytes64 bit_ucast_iff bit_drop_bit_eq bit_of_nat_iff)
  qed
  show "bit (len64 n ! i) k = bit ((replicate 4 0 @ bytes32 (bswap32 (word_of_nat n))) ! i) k"
  proof (cases "i < 4")
    case True
    then show ?thesis using l high by (simp add: nth_append)
  next
    case False
    then have "3 - (i - 4) = 7 - i" "8 * (7 - i) + k < 32" using k by (simp, linarith)
    then show ?thesis using l False i8 k
      by (simp add: nth_append bytes32_bswap32 rev_nth nth_bytes32 bit_ucast_iff bit_drop_bit_eq bit_of_nat_iff)
  qed
qed (simp add: len64_def)

lemma xor_word32_bytes:
  assumes "length x = 16" "i < 4"
  shows "xor_word32 x i v = map2 (XOR) x (replicate (4 * i) 0 @ bytes32 v @ replicate (12 - 4 * i) 0)"
proof (rule bytes_eqI)
  have w: "words32 x ! i = from_bytes (take 4 (drop (4 * i) x))" using assms by (simp add: words32_def)
  have l: "length (xor_word32 x i v) = 16" using assms by (simp add: xor_word32_def memcpy_def)
  then show "length (xor_word32 x i v) = length (map2 (XOR) x (replicate (4 * i) 0 @ bytes32 v @ replicate (12 - 4 * i) 0))"
    using assms by simp
  fix j k :: nat assume "j < length (xor_word32 x i v)" and k: "k < 8"
  then have j: "j < 16" using l by simp
  consider "j < 4 * i" | "4 * i \<le> j" "j < 4 * i + 4" | "4 * i + 4 \<le> j" by linarith
  then show "bit (xor_word32 x i v ! j) k =
      bit (map2 (XOR) x (replicate (4 * i) 0 @ bytes32 v @ replicate (12 - 4 * i) 0) ! j) k"
  proof cases
    case 1
    then show ?thesis using assms j by (simp add: xor_word32_def memcpy_def nth_append)
  next
    case 2
    then obtain m where m: "j = 4 * i + m" "m < 4" by (metis add_less_cancel_left le_Suc_ex)
    have len: "length (take 4 (drop (4 * i) x)) = 4" using assms by simp
    have "8 * m + k < 32" "(8 * m + k) div 8 = m" "(8 * m + k) mod 8 = k" using m(2) k by simp_all
    then have "bit (words32 x ! i) (8 * m + k) = bit (x ! (4 * i + m)) k"
      unfolding w using bit_from_bytes [of "take 4 (drop (4 * i) x)" "8 * m + k", where ?'a = 32] len m(2) assms
      by (simp only: len) simp
    then show ?thesis using assms j k m
      by (simp add: xor_word32_def memcpy_def nth_append nth_bytes32 bit_ucast_iff bit_drop_bit_eq bit_xor_iff)
  next
    case 3
    then have "\<not> j - 4 * i < 4" by linarith
    then show ?thesis using 3 assms j by (simp add: xor_word32_def memcpy_def nth_append)
  qed
qed

lemma xor_lengths:
  assumes "length x = 16" "m < 2 ^ 32" "n < 2 ^ 32"
  shows "xor_word32 (xor_word32 x 1 (bswap32 (word_of_nat m))) 3 (bswap32 (word_of_nat n)) = map2 (XOR) x (len64 m @ len64 n)"
proof -
  let ?m = "bytes32 (bswap32 (word_of_nat m))" and ?n = "bytes32 (bswap32 (word_of_nat n))"
  have "xor_word32 (xor_word32 x 1 (bswap32 (word_of_nat m))) 3 (bswap32 (word_of_nat n)) =
      map2 (XOR) (map2 (XOR) x (replicate 4 0 @ ?m @ replicate 8 0)) (replicate 12 0 @ ?n)"
    using assms(1) by (simp add: xor_word32_bytes)
  also have "\<dots> = map2 (XOR) x (len64 m @ len64 n)"
    unfolding len64_small [OF assms(2)] len64_small [OF assms(3)]
  proof (rule nth_equalityI)
    fix i assume "i < length (map2 (XOR) (map2 (XOR) x (replicate 4 0 @ ?m @ replicate 8 0)) (replicate 12 0 @ ?n))"
    then have i: "i < 16" using assms(1) by simp
    consider "i < 4" | "4 \<le> i" "i < 8" | "8 \<le> i" "i < 12" | "12 \<le> i" by linarith
    then show "map2 (XOR) (map2 (XOR) x (replicate 4 0 @ ?m @ replicate 8 0)) (replicate 12 0 @ ?n) ! i =
        map2 (XOR) x ((replicate 4 0 @ ?m) @ replicate 4 0 @ ?n) ! i"
    proof cases
      case 2
      then have "i - 4 < 4" by linarith
      then show ?thesis using 2 i assms(1) by (simp add: nth_append)
    next
      case 3
      then have "\<not> i - 4 < 4" "i - 8 < 4" "i - 4 - 4 = i - 8" by linarith+
      then show ?thesis using 3 i assms(1) by (simp add: nth_append)
    next
      case 4
      then have "\<not> i - 4 < 4" "\<not> i - 8 < 4" "i - 8 - 4 = i - 12" "\<not> i - 4 < 8" by linarith+
      then show ?thesis using 4 i assms(1) by (simp add: nth_append)
    qed (use i assms(1) in \<open>simp add: nth_append\<close>)
  qed (use assms(1) in simp)
  finally show ?thesis .
qed

lemma aesgcm_GHASH_spec:
  assumes h: "length h = 16" and a: "length aad = 13" and c: "length c < 2 ^ 29"
  shows "\<exists>s. aesgcm_GHASH u h (aad @ [0, 0, 0]) c = Some s \<and> length s = 16 \<and> be128 s = ghash_spec h aad c"
proof -
  let ?p = "pad16 aad" and ?n = "length c div 16" and ?l = "len64 (8 * 13) @ len64 (8 * length c)"
  have "replicate 3 0 = [0, 0, 0 :: u8]" by (simp add: numeral_3_eq_3)
  then have p: "?p = aad @ [0, 0, 0]" unfolding pad16_def a by simp
  then have lp: "length ?p = 16" using a by simp
  have ll: "length ?l = 16" by (simp add: len64_def)
  have "be128 ?p = ghash (be128 h) [] XOR be128 ?p" by (simp add: ghash_def)
  from GMULT_hashed [OF h lp this] obtain x1 where x1: "GMULT ?p h = Some x1" "hashed h x1 [be128 ?p]" by auto
  let ?bs = "blocks 16 (take (16 * ?n) c)" and ?r = "if length c mod 16 = 0 then [] else [pad16 (drop (16 * ?n) c)]"
  have spec: "ghash_spec h aad c = ghash (be128 h) ([be128 ?p] @ map be128 ?bs @ map be128 ?r @ [be128 ?l])"
  proof -
    have b: "blocks 16 ?l = [?l]" using blocks_Cons [of 16 ?l "[]"] ll by simp
    show ?thesis
      unfolding ghash_spec_def a
      by (subst blocks_Cons [OF _ lp], simp, subst pad16_tail [OF refl], subst b) simp
  qed
  have "16 * ?n \<le> length c" by simp
  from ghash_blocks_hashed [OF h x1(2) this, of u] obtain x2 where
    x2: "ghash_blocks u h ?n x1 c = Some (x2, drop (16 * ?n) c)" "hashed h x2 ([be128 ?p] @ map be128 ?bs)" by auto
  let ?c = "drop (16 * ?n) c"
  have lc: "length ?c = length c mod 16" by (simp add: minus_mult_div_eq_mod)
  obtain x3 where x3: "(if length c mod 16 \<noteq> 0 then GMULT (xorbuf x2 ?c (length c mod 16)) h else Some x2) = Some x3"
    "hashed h x3 ([be128 ?p] @ map be128 ?bs @ map be128 ?r)"
  proof (cases "length c mod 16 = 0")
    case False
    then have e: "xorbuf x2 ?c (length c mod 16) = map2 (XOR) x2 (pad16 ?c)"
      using xorbuf_partial [of x2 ?c] hashed_be128 [OF x2(2)] lc by (metis length_0_conv mod_less_divisor zero_less_numeral)
    have "length ?c < 16" "?c \<noteq> []" using lc False by (simp, metis length_0_conv)
    then have "length (pad16 ?c) = 16" by (simp add: pad16_def)
    then have "be128 (map2 (XOR) x2 (pad16 ?c)) = ghash (be128 h) ([be128 ?p] @ map be128 ?bs) XOR be128 (pad16 ?c)"
      "length (map2 (XOR) x2 (pad16 ?c)) = 16"
      using hashed_be128 [OF x2(2)] by (simp_all add: be128_xor)
    from GMULT_hashed [OF h this(2,1)] show thesis using that False unfolding e by auto
  qed (use x2 that in simp)
  have x3': "length x3 = 16" "be128 x3 = ghash (be128 h) ([be128 ?p] @ map be128 ?bs @ map be128 ?r)"
    using hashed_be128 [OF x3(2)] by simp_all
  let ?x = "map2 (XOR) x3 ?l"
  have "be128 ?x = ghash (be128 h) ([be128 ?p] @ map be128 ?bs @ map be128 ?r) XOR be128 ?l" "length ?x = 16"
    using x3' ll by (simp_all add: be128_xor)
  from GMULT_hashed [OF h this(2,1)] obtain s where s: "GMULT ?x h = Some s"
    "hashed h s (([be128 ?p] @ map be128 ?bs @ map be128 ?r) @ [be128 ?l])" by blast
  have lens: "xor_word32 (xor_word32 x3 1 (bswap32 (word_of_nat (aSz * 8)))) 3 (bswap32 (word_of_nat (length c * 8))) = ?x"
    using xor_lengths [OF x3'(1), of "8 * 13" "8 * length c"] c by (simp add: aSz_def mult.commute)
  have t: "take AES_BLOCK_SIZE (aad @ [0, 0, 0]) = ?p" using a p by (simp add: AES_BLOCK_SIZE_def)
  have step: "(if length c \<noteq> 0 then Option.bind (ghash_blocks u h (length c div AES_BLOCK_SIZE) x1 c)
         (\<lambda>(x, c'). if length c mod AES_BLOCK_SIZE \<noteq> 0 then GMULT (xorbuf x c' (length c mod AES_BLOCK_SIZE)) h else Some x)
       else Some x1) = Some x3"
    using x2(1) x3(1) by (cases "c = []") (auto simp: AES_BLOCK_SIZE_def)
  have "aesgcm_GHASH u h (aad @ [0, 0, 0]) c = Some s"
    unfolding aesgcm_GHASH_def Let_def t x1(1) using step lens s(1) by simp
  then show ?thesis using hashed_be128 [OF s(2)] spec by simp
qed

section \<open>The property\<close>

text \<open>C13: for the 13 bytes of additional data with their three zero bytes and every ciphertext below
  2^29 bytes, \<open>aesgcm_GHASH\<close> ends and gives the GHASH of SP 800-38D over the padded data, the
  padded ciphertext and their lengths in bits, whether or not unaligned access is used.\<close>

theorem ghash_standard:
  assumes "length h = 16" "length aad = 13" "length c < 2 ^ 29"
  shows "\<exists>s. aesgcm_GHASH unaligned_ok h (aad @ [0, 0, 0]) c = Some s \<and> length s = 16 \<and> be128 s = ghash_spec h aad c"
  using assms by (rule aesgcm_GHASH_spec)

theorem ghash_standard_witness:
  "\<exists>s. aesgcm_GHASH True (replicate 16 5) (replicate 13 7 @ [0, 0, 0]) (replicate 40 9) = Some s \<and> length s = 16 \<and>
    be128 s = ghash_spec (replicate 16 5) (replicate 13 7) (replicate 40 9)"
  by (rule ghash_standard) simp_all

end
