(* ===== verification/TlsRecord.thy ===== *)
theory TlsRecord imports Aes Ghash TlsPrf begin

text \<open>
  \<open>networking/tls.c\<close>: the record layer of the TLS 1.2 client.  Writing a record: HMAC and AES-CBC,
  or AES-GCM; reading one from the connection, however it arrives in pieces, and decrypting it in
  place.

  The output buffer is its contents between the prefix and the suffix; the record is what goes to
  \<open>xwrite\<close>.  The input buffer is its first \<open>total\<close> bytes.  The key area that starts at
  \<open>client_write_MAC_key\<close> is one list, the pointers into it are offsets.  A connection is the list of
  what \<open>read\<close> would return next: bytes, of which one call takes as many as it asks for, or an
  error; an empty piece and the end of the list are end of file.
\<close>

section \<open>The state\<close>

definition TLS_MAJ :: u8 where "TLS_MAJ = 3"
definition TLS_MIN :: u8 where "TLS_MIN = 3"
definition RECORD_TYPE_ALERT :: u8 where "RECORD_TYPE_ALERT = 21"
definition RECORD_TYPE_HANDSHAKE :: u8 where "RECORD_TYPE_HANDSHAKE = 22"
definition RECORD_TYPE_APPLICATION_DATA :: u8 where "RECORD_TYPE_APPLICATION_DATA = 23"
definition TLS_RSA_WITH_NULL_SHA256 :: "16 word" where "TLS_RSA_WITH_NULL_SHA256 = 0x003B"
definition RECHDR_LEN :: nat where "RECHDR_LEN = 5"
definition MAX_INBUF :: nat where "MAX_INBUF = RECHDR_LEN + 2 ^ 14 + 2048"
definition TLS_MAX_OUTBUF :: nat where "TLS_MAX_OUTBUF = 2 ^ 14"
definition ENCRYPTION_AESGCM :: u32 where "ENCRYPTION_AESGCM = push_bit 4 1"

text \<open>The build options, and \<open>ALLOW_RSA_NULL_SHA256\<close>.\<close>

record tls_config =
  md5_small :: int
  FEATURE_TLS_SHA1 :: bool
  ALLOW_RSA_NULL_SHA256 :: bool
  UNALIGNED_MEMACCESS_OK :: bool

text \<open>Of the RSA key of the server, the bytes its two numbers were read from.\<close>

record psRsaKey =
  rsa_N :: "u8 list"
  rsa_e :: "u8 list"

record tls_handshake_data =
  handshake_hash_ctx :: md5_ctx
  client_and_server_rand32 :: "u8 list"
  master_secret :: "u8 list"
  server_rsa_pub_key :: psRsaKey
  ecc_pub_key32 :: "u8 list"

record tls_state =
  flags :: u32
  min_encrypted_len_on_read :: nat
  cipher_id :: "16 word"
  MAC_size :: nat
  key_size :: nat
  IV_size :: nat
  inbuf_size :: nat
  ofs_to_buffered :: nat
  buffered_size :: nat
  inbuf :: "u8 list"
  hsd :: "tls_handshake_data option"
  write_seq64_be :: u64
  key_area :: "u8 list"
  client_write_key :: nat
  server_write_key :: nat
  client_write_IV :: nat
  server_write_IV :: nat
  aes_encrypt :: tls_aes
  aes_decrypt :: tls_aes
  H :: "u8 list"

definition TLS_MAC_SIZE :: "tls_config \<Rightarrow> tls_state \<Rightarrow> nat" where
  "TLS_MAC_SIZE config tls = (if FEATURE_TLS_SHA1 config then MAC_size tls else SHA256_OUTSIZE)"

text \<open>The shortest record the client accepts once the server encrypts.\<close>

definition set_min_encrypted_len :: "tls_config \<Rightarrow> tls_state \<Rightarrow> tls_state" where
  "set_min_encrypted_len config tls =
     (if ALLOW_RSA_NULL_SHA256 config \<and> cipher_id tls = TLS_RSA_WITH_NULL_SHA256 then
        tls\<lparr>min_encrypted_len_on_read := MAC_size tls\<rparr>
      else if flags tls AND ENCRYPTION_AESGCM = 0 then
        let mac_blocks = (TLS_MAC_SIZE config tls + AES_BLOCK_SIZE - 1) div AES_BLOCK_SIZE
        in tls\<lparr>min_encrypted_len_on_read := AES_BLOCK_SIZE + mac_blocks * AES_BLOCK_SIZE\<rparr>
      else tls\<lparr>min_encrypted_len_on_read := 8 + AES_BLOCK_SIZE\<rparr>)"

text \<open>How an operation ends the program: an error message, or memory that is not there.\<close>

datatype tls_stop = Die | Null_dereference | Overrun

section \<open>Writing a record\<close>

definition record_hdr :: "u8 \<Rightarrow> nat \<Rightarrow> u8 list" where
  "record_hdr type sz = [type, TLS_MAJ, TLS_MIN, word_of_nat (sz div 256), word_of_nat (sz mod 256)]"

text \<open>\<open>do buf[size++] = padding_length; while (size & 15)\<close>.\<close>

function pad_loop :: "u8 \<Rightarrow> u8 list \<Rightarrow> u8 list" where
  "pad_loop padding_length buf =
     (let buf = buf @ [padding_length]
      in if length buf mod AES_BLOCK_SIZE \<noteq> 0 then pad_loop padding_length buf else buf)"
  by pat_completeness auto
termination
  by (relation "measure (\<lambda>(_, buf). 16 - length buf mod 16)") (auto simp: AES_BLOCK_SIZE_def mod_Suc)

definition next_seq :: "u64 \<Rightarrow> u64" where
  "next_seq seq = bswap64 (1 + bswap64 seq)"

text \<open>The random bytes of the initialisation vector and uninitialised memory are arguments.\<close>

definition xwrite_encrypted_and_hmac_signed ::
    "tls_config \<Rightarrow> hmac_precomputed \<Rightarrow> u8 list \<Rightarrow> tls_state \<Rightarrow> u8 list \<Rightarrow> u8 \<Rightarrow> tls_stop + (tls_state \<times> u8 list)" where
  "xwrite_encrypted_and_hmac_signed config pre random_iv tls buf type =
     (let size = length buf in
      case hmac (md5_small config) (FEATURE_TLS_SHA1 config) (MAC_size tls) pre
             (take (TLS_MAC_SIZE config tls) (key_area tls))
             [bytes64 (write_seq64_be tls), record_hdr type size, buf] of
        None \<Rightarrow> Inl Die
      | Some mac \<Rightarrow>
          let tls = tls\<lparr>write_seq64_be := next_seq (write_seq64_be tls)\<rparr>;
              buf = buf @ mac
          in if ALLOW_RSA_NULL_SHA256 config \<and> cipher_id tls = TLS_RSA_WITH_NULL_SHA256 then
               Inr (tls, record_hdr type (length buf) @ buf)
             else
               let padding_length = NOT (word_of_nat (length buf)) AND 15;
                   buf = pad_loop padding_length buf
               in case aes_cbc_encrypt (aes_encrypt tls) random_iv buf of
                    None \<Rightarrow> Inl Overrun
                  | Some buf \<Rightarrow> Inr (tls, record_hdr type (length buf + AES_BLOCK_SIZE) @ random_iv @ buf))"

text \<open>Counter mode: \<open>cnt\<close> blocks are done.\<close>

function gcm_counter :: "tls_aes \<Rightarrow> u8 list \<Rightarrow> u32 \<Rightarrow> u8 list \<Rightarrow> u8 list" where
  "gcm_counter aes nonce cnt buf =
     (if buf = [] then []
      else
        let cnt = cnt + 1;
            scratch = aes_encrypt_one_block aes (nonce @ bytes32 (bswap32 cnt));
            n = (if length buf > AES_BLOCK_SIZE then AES_BLOCK_SIZE else length buf)
        in xorbuf3 buf scratch n @ gcm_counter aes nonce cnt (drop n buf))"
  by pat_completeness auto
termination by (relation "measure (\<lambda>(_, _, _, b). length b)") (auto simp: AES_BLOCK_SIZE_def)

definition xwrite_encrypted_aesgcm ::
    "tls_config \<Rightarrow> tls_state \<Rightarrow> u8 list \<Rightarrow> u8 \<Rightarrow> tls_stop + (tls_state \<times> u8 list)" where
  "xwrite_encrypted_aesgcm config tls buf type =
     (let size = length buf;
          t64 = write_seq64_be tls;
          aad = bytes64 t64 @ [type, TLS_MAJ, TLS_MIN, word_of_nat (size div 256)] @ bytes32 (word_of_nat (size mod 256));
          nonce = take 4 (drop (client_write_IV tls) (key_area tls)) @ bytes64 t64;
          tls = tls\<lparr>write_seq64_be := next_seq t64\<rparr>;
          buf = gcm_counter (aes_encrypt tls) nonce 1 buf
      in case aesgcm_GHASH (UNALIGNED_MEMACCESS_OK config) (H tls) aad buf of
           None \<Rightarrow> Inl Overrun
         | Some authtag \<Rightarrow>
             let scratch = aes_encrypt_one_block (aes_encrypt tls) (nonce @ bytes32 (bswap32 1));
                 authtag = xorbuf_aligned_AES_BLOCK_SIZE authtag scratch
             in Inr (tls, record_hdr type (size + 8 + AES_BLOCK_SIZE) @ bytes64 t64 @ buf @ authtag))"

definition xwrite_encrypted ::
    "tls_config \<Rightarrow> hmac_precomputed \<Rightarrow> u8 list \<Rightarrow> tls_state \<Rightarrow> u8 list \<Rightarrow> u8 \<Rightarrow> tls_stop + (tls_state \<times> u8 list)" where
  "xwrite_encrypted config pre random_iv tls buf type =
     (if flags tls AND ENCRYPTION_AESGCM = 0 then xwrite_encrypted_and_hmac_signed config pre random_iv tls buf type
      else xwrite_encrypted_aesgcm config tls buf type)"

definition tls_xwrite ::
    "tls_config \<Rightarrow> hmac_precomputed \<Rightarrow> u8 list \<Rightarrow> tls_state \<Rightarrow> u8 list \<Rightarrow> tls_stop + (tls_state \<times> u8 list)" where
  "tls_xwrite config pre random_iv tls buf =
     xwrite_encrypted config pre random_iv tls buf RECORD_TYPE_APPLICATION_DATA"

section \<open>Reading from the connection\<close>

type_synonym stream = "u8 list option list"

fun safe_read :: "stream \<Rightarrow> nat \<Rightarrow> u8 list option \<times> stream" where
  "safe_read [] count = (Some [], [])"
| "safe_read (None # s) count = (None, s)"
| "safe_read (Some bytes # s) count =
     (Some (take count bytes), if drop count bytes = [] then s else Some (drop count bytes) # s)"

fun stream_size :: "stream \<Rightarrow> nat" where
  "stream_size [] = 0"
| "stream_size (None # s) = stream_size s"
| "stream_size (Some bytes # s) = length bytes + stream_size s"

lemma safe_read_size:
  "safe_read s count = (Some bytes, s') \<Longrightarrow> stream_size s' + length bytes = stream_size s"
  by (induction s count rule: safe_read.induct) (auto split: if_splits)

lemma safe_read_less:
  "(Some bytes, s') = safe_read s count \<Longrightarrow> bytes \<noteq> [] \<Longrightarrow> stream_size s' < stream_size s"
  using safe_read_size [OF sym] by (metis add_less_cancel_left add.right_neutral length_greater_0_conv)

text \<open>\<open>target\<close> once the header of the record is there; None is a malformed one.\<close>

definition find_target :: "tls_state \<Rightarrow> nat \<Rightarrow> nat option" where
  "find_target tls target =
     (if length (inbuf tls) \<ge> RECHDR_LEN \<and> target = MAX_INBUF then
        let target = RECHDR_LEN + (0x100 * unat (inbuf tls ! 3) + unat (inbuf tls ! 4))
        in if target > MAX_INBUF \<or> inbuf tls ! 1 \<noteq> TLS_MAJ \<or> inbuf tls ! 2 \<noteq> TLS_MIN then None else Some target
      else Some target)"

text \<open>The size of the buffer grows only as needed.\<close>

definition grow_inbuf :: "tls_state \<Rightarrow> tls_state" where
  "grow_inbuf tls =
     (if inbuf_size tls - length (inbuf tls) = 0 then
        tls\<lparr>inbuf_size := min (inbuf_size tls + MAX_INBUF div 8) MAX_INBUF\<rparr>
      else tls)"

text \<open>The loop that reads a full record: the state, \<open>target\<close> and the rest of the connection; there is
  no target at the end of the connection.\<close>

function fill_loop :: "tls_state \<Rightarrow> nat \<Rightarrow> stream \<Rightarrow> tls_stop + (tls_state \<times> nat option \<times> stream)" where
  "fill_loop tls target ifd =
     (case find_target tls target of
        None \<Rightarrow> Inl Die
      | Some target \<Rightarrow>
          if length (inbuf tls) \<ge> target then Inr (tls, Some target, ifd)
          else
            let tls = grow_inbuf tls;
                rem = inbuf_size tls - length (inbuf tls)
            in case safe_read ifd rem of
                 (None, ifd) \<Rightarrow> Inl Die
               | (Some bytes, ifd) \<Rightarrow>
                   if bytes = [] then (if inbuf tls = [] then Inr (tls, None, ifd) else Inl Die)
                   else fill_loop (tls\<lparr>inbuf := inbuf tls @ bytes\<rparr>) target ifd)"
  by pat_completeness auto
termination
  by (relation "measure (\<lambda>(_, _, s). stream_size s)") (auto dest: safe_read_less)

text \<open>What was buffered moves to the start, and what comes after the record stays buffered; the flag
  says whether there is a record.\<close>

definition fetch_record :: "tls_state \<Rightarrow> stream \<Rightarrow> tls_stop + (tls_state \<times> bool \<times> stream)" where
  "fetch_record tls ifd =
     (let tls = tls\<lparr>inbuf := take (buffered_size tls) (drop (ofs_to_buffered tls) (inbuf tls))\<rparr>
      in case fill_loop tls MAX_INBUF ifd of
           Inl stop \<Rightarrow> Inl stop
         | Inr (tls, None, ifd) \<Rightarrow> Inr (tls\<lparr>buffered_size := 0\<rparr>, False, ifd)
         | Inr (tls, Some target, ifd) \<Rightarrow>
             Inr (tls\<lparr>buffered_size := length (inbuf tls) - target, ofs_to_buffered := target\<rparr>, True, ifd))"

declare fill_loop.simps [simp del] gcm_counter.simps [simp del] pad_loop.simps [simp del]

section \<open>Decrypting in place\<close>

text \<open>\<open>tls_aesgcm_decrypt\<close>: what is written to \<open>buf\<close>, eight bytes before the ciphertext.\<close>

definition tls_aesgcm_decrypt :: "tls_state \<Rightarrow> u8 list \<Rightarrow> nat \<Rightarrow> u8 list" where
  "tls_aesgcm_decrypt tls buf sz =
     (let nonce = take 4 (drop (server_write_IV tls) (key_area tls)) @ take 8 buf
      in gcm_counter (aes_decrypt tls) nonce 1 (take sz (drop 8 buf)))"

text \<open>The buffer and the size of the contents, which may be negative; \<open>uninit\<close> is the second
  vector buffer of \<open>aes_cbc_decrypt\<close>.\<close>

definition decrypt_record :: "tls_config \<Rightarrow> u8 list \<Rightarrow> tls_state \<Rightarrow> nat \<Rightarrow> tls_stop + (tls_state \<times> int)" where
  "decrypt_record config uninit tls sz =
     (if min_encrypted_len_on_read tls \<noteq> 0 then
        if sz < min_encrypted_len_on_read tls then Inl Die
        else
          let p = drop RECHDR_LEN (inbuf tls) in
          if flags tls AND ENCRYPTION_AESGCM \<noteq> 0 then
            if sz < 8 + AES_BLOCK_SIZE then Inl Overrun
            else
              let sz = sz - (8 + AES_BLOCK_SIZE)
              in Inr (tls\<lparr>inbuf := memcpy (inbuf tls) RECHDR_LEN (tls_aesgcm_decrypt tls p sz)\<rparr>, int sz)
          else if min_encrypted_len_on_read tls > TLS_MAC_SIZE config tls then
            if sz mod AES_BLOCK_SIZE \<noteq> 0 then Inl Die
            else
              let sz = sz - AES_BLOCK_SIZE
              in case aes_cbc_decrypt (aes_decrypt tls) (take AES_BLOCK_SIZE p) uninit (take sz (drop AES_BLOCK_SIZE p)) of
                   None \<Rightarrow> Inl Overrun
                 | Some plain \<Rightarrow>
                     let tls = tls\<lparr>inbuf := memcpy (inbuf tls) RECHDR_LEN plain\<rparr>;
                         padding_len = unat (inbuf tls ! (RECHDR_LEN + sz - 1))
                     in Inr (tls, int sz - int (TLS_MAC_SIZE config tls + (padding_len + 1)))
          else Inr (tls, int sz - int (min_encrypted_len_on_read tls))
      else Inr (tls, int sz))"

definition hash_handshake :: "tls_config \<Rightarrow> tls_state \<Rightarrow> u8 list \<Rightarrow> tls_stop + tls_state" where
  "hash_handshake config tls buffer =
     (case hsd tls of
        None \<Rightarrow> Inl Null_dereference
      | Some data \<Rightarrow>
          Inr (tls\<lparr>hsd := Some (data\<lparr>handshake_hash_ctx := md5_hash (md5_small config) (handshake_hash_ctx data) buffer\<rparr>)\<rparr>))"

text \<open>What \<open>tls_xread_record\<close> does with a record it has read and decrypted: None is \<open>goto again\<close>.\<close>

definition handle_record :: "tls_config \<Rightarrow> tls_state \<Rightarrow> nat \<Rightarrow> tls_stop + (nat \<times> tls_state) option" where
  "handle_record config tls sz =
     (let p = drop RECHDR_LEN (inbuf tls) in
      if inbuf tls ! 0 = RECORD_TYPE_ALERT \<and> sz \<ge> 2 then
        if p ! 0 = 2 then Inl Die
        else if p ! 0 = 1 then (if p ! 1 = 0 then Inr (Some (0, tls)) else Inr None)
        else Inr (Some (0, tls))
      else if inbuf tls ! 0 = RECORD_TYPE_HANDSHAKE then
        case hash_handshake config tls (take sz p) of
          Inl stop \<Rightarrow> Inl stop
        | Inr tls \<Rightarrow> Inr (Some (sz, tls))
      else Inr (Some (sz, tls)))"

text \<open>One record: the size of its contents, the state and the rest of the connection, or the state
  to go on with after \<open>goto again\<close>.\<close>

definition read_one :: "tls_config \<Rightarrow> u8 list \<Rightarrow> tls_state \<Rightarrow> stream \<Rightarrow>
    tls_stop + (nat \<times> tls_state \<times> stream) + (tls_state \<times> stream)" where
  "read_one config uninit tls ifd =
     (case fetch_record tls ifd of
        Inl stop \<Rightarrow> Inl stop
      | Inr (tls, False, ifd) \<Rightarrow> Inr (Inl (0, tls, ifd))
      | Inr (tls, True, ifd) \<Rightarrow>
          (case decrypt_record config uninit tls (ofs_to_buffered tls - RECHDR_LEN) of
             Inl stop \<Rightarrow> Inl stop
           | Inr (tls, sz) \<Rightarrow>
               if sz < 0 then Inl Die
               else case handle_record config tls (nat sz) of
                      Inl stop \<Rightarrow> Inl stop
                    | Inr (Some (sz, tls)) \<Rightarrow> Inr (Inl (sz, tls, ifd))
                    | Inr None \<Rightarrow> Inr (Inr (tls, ifd))))"

text \<open>Every record takes at least its header from the buffer and the connection.\<close>

lemma grow_inbuf_inbuf [simp]: "inbuf (grow_inbuf tls) = inbuf tls" "buffered_size (grow_inbuf tls) = buffered_size tls"
  by (simp_all add: grow_inbuf_def)

lemma find_target_le: "find_target tls target = Some t \<Longrightarrow> t = target \<or> RECHDR_LEN \<le> t"
  by (auto simp: find_target_def Let_def split: if_splits)

lemma fill_loop_total:
  "fill_loop tls target ifd = Inr (tls', t, ifd') \<Longrightarrow>
   length (inbuf tls') + stream_size ifd' = length (inbuf tls) + stream_size ifd \<and>
   (case t of None \<Rightarrow> inbuf tls' = [] | Some t \<Rightarrow> t \<le> length (inbuf tls') \<and> (target < RECHDR_LEN \<or> RECHDR_LEN \<le> t))"
proof (induction tls target ifd rule: fill_loop.induct)
  case (1 tls target ifd)
  obtain t1 where t1: "find_target tls target = Some t1" "t1 = target \<or> RECHDR_LEN \<le> t1"
    using 1(2) find_target_le by (cases "find_target tls target") (auto simp: fill_loop.simps)
  show ?case
  proof (cases "t1 \<le> length (inbuf tls)")
    case True
    then have "tls' = tls \<and> t = Some t1 \<and> ifd' = ifd" using 1(2) t1(1) by (simp add: fill_loop.simps [of tls])
    then show ?thesis using True t1(2) by auto
  next
    case False
    let ?tls = "grow_inbuf tls"
    obtain r ifd1 where r: "safe_read ifd (inbuf_size ?tls - length (inbuf tls)) = (r, ifd1)" by fastforce
    then obtain bytes where b: "r = Some bytes" using 1(2) t1 False by (cases r) (auto simp: fill_loop.simps [of tls])
    show ?thesis
    proof (cases "bytes = []")
      case True
      then show ?thesis using 1(2) t1 False r b safe_read_size [OF r [unfolded b]]
        by (auto simp: fill_loop.simps [of tls] split: if_splits)
    next
      case nonempty: False
      have "fill_loop (?tls\<lparr>inbuf := inbuf tls @ bytes\<rparr>) t1 ifd1 = Inr (tls', t, ifd')"
        using 1(2) t1 False r b nonempty by (simp add: fill_loop.simps [of tls])
      from 1(1) [OF t1(1) False refl refl, simplified, OF r [unfolded b, symmetric] refl nonempty this]
      show ?thesis using safe_read_size [OF r [unfolded b]] t1(2) by (auto split: option.splits)
    qed
  qed
qed


lemma fetch_record_total:
  assumes "fetch_record tls ifd = Inr (tls', True, ifd')"
  shows "buffered_size tls' + stream_size ifd' + RECHDR_LEN \<le> buffered_size tls + stream_size ifd"
proof -
  let ?tls = "tls\<lparr>inbuf := take (buffered_size tls) (drop (ofs_to_buffered tls) (inbuf tls))\<rparr>"
  obtain tls1 t where r: "fill_loop ?tls MAX_INBUF ifd = Inr (tls1, Some t, ifd')" "buffered_size tls' = length (inbuf tls1) - t"
    using assms by (auto simp: fetch_record_def Let_def split: sum.splits option.splits)
  have "\<not> MAX_INBUF < RECHDR_LEN" by (simp add: MAX_INBUF_def)
  then show ?thesis using fill_loop_total [OF r(1)] r(2) by auto
qed

lemma decrypt_record_buffered: "decrypt_record config uninit tls sz = Inr (tls', n) \<Longrightarrow> buffered_size tls' = buffered_size tls"
  by (auto simp: decrypt_record_def Let_def split: if_splits option.splits)

lemma read_one_again:
  assumes "read_one config uninit tls ifd = Inr (Inr (tls', ifd'))"
  shows "buffered_size tls' + stream_size ifd' < buffered_size tls + stream_size ifd"
proof -
  obtain tls1 tls2 n where r: "fetch_record tls ifd = Inr (tls1, True, ifd')"
    "decrypt_record config uninit tls1 (ofs_to_buffered tls1 - RECHDR_LEN) = Inr (tls2, n)" "tls' = tls2"
    using assms by (auto simp: read_one_def split: sum.splits prod.splits bool.splits if_splits option.splits)
  show ?thesis using fetch_record_total [OF r(1)] decrypt_record_buffered [OF r(2)] r(3) by (simp add: RECHDR_LEN_def)
qed

section \<open>\<open>tls_xread_record\<close>\<close>

text \<open>A discarded alert makes it take the next record.\<close>

function tls_xread_record :: "tls_config \<Rightarrow> u8 list \<Rightarrow> tls_state \<Rightarrow> stream \<Rightarrow> tls_stop + (nat \<times> tls_state \<times> stream)" where
  "tls_xread_record config uninit tls ifd =
     (case read_one config uninit tls ifd of
        Inl stop \<Rightarrow> Inl stop
      | Inr (Inl result) \<Rightarrow> Inr result
      | Inr (Inr (tls, ifd)) \<Rightarrow> tls_xread_record config uninit tls ifd)"
  by pat_completeness auto
termination
  by (relation "measure (\<lambda>(_, _, tls, s). buffered_size tls + stream_size s)") (auto dest: read_one_again)

declare tls_xread_record.simps [simp del]

text \<open>A record that can be taken from the buffer without reading.\<close>

definition tls_has_buffered_record :: "tls_state \<Rightarrow> nat" where
  "tls_has_buffered_record tls =
     (let buffered = buffered_size tls; p = drop (ofs_to_buffered tls) (inbuf tls) in
      if buffered < RECHDR_LEN then 0
      else let rec_size = RECHDR_LEN + (0x100 * unat (p ! 3) + unat (p ! 4))
           in if buffered < rec_size then 0 else rec_size)"

end
