(* ===== verification/TlsRecordProps.thy ===== *)
theory TlsRecordProps imports TlsRecord GhashProps TlsPrfProps begin

text \<open>
  The record layer: what a peer with the mirrored keys writes is read back, in any pieces the
  connection delivers; and whatever arrives, the reader stays inside its buffers.
\<close>

section \<open>Counter mode and padding\<close>

lemma length_aes_encrypt_one_block:
  "aes_rounds aes \<noteq> 0 \<Longrightarrow> length b = 16 \<Longrightarrow> length (aes_encrypt_one_block aes b) = 16"
  using aes_encrypt_1_ok [OF _ st_ok_of_bytes, of aes b] by (simp add: aes_encrypt_one_block_def st_ok_def)

lemma length_xorbuf3 [simp]: "length (xorbuf3 a b n) = min (min n (length a)) (min n (length b))"
  by (simp add: xorbuf3_def)

lemma xorbuf3_twice:
  "n \<le> length a \<Longrightarrow> n \<le> length b \<Longrightarrow> n \<le> m \<Longrightarrow> m \<le> n + length c \<Longrightarrow> m \<le> length b \<Longrightarrow> n = m \<or> n = length a \<Longrightarrow>
   xorbuf3 (xorbuf3 a b n @ c) b n = take n a"
  by (rule nth_equalityI) (auto simp: xorbuf3_def nth_append xor.assoc)

text \<open>Encryption and decryption are the same.\<close>

lemma gcm_counter_twice:
  assumes "aes_rounds aes \<noteq> 0" "length nonce = 12"
  shows "gcm_counter aes nonce cnt (gcm_counter aes nonce cnt buf) = buf \<and>
    length (gcm_counter aes nonce cnt buf) = length buf"
proof (induction buf arbitrary: cnt rule: measure_induct_rule [where f = length])
  case (less buf)
  show ?case
  proof (cases "buf = []")
    case True
    then show ?thesis by (simp add: gcm_counter.simps)
  next
    case False
    let ?s = "aes_encrypt_one_block aes (nonce @ bytes32 (bswap32 (cnt + 1)))"
    let ?n = "min 16 (length buf)"
    let ?rest = "gcm_counter aes nonce (cnt + 1) (drop ?n buf)"
    have s: "length ?s = 16" using assms by (simp add: length_aes_encrypt_one_block)
    have n: "(if length b > AES_BLOCK_SIZE then AES_BLOCK_SIZE else length b) = min 16 (length b)" for b :: "u8 list"
      by (simp add: AES_BLOCK_SIZE_def)
    have one: "gcm_counter aes nonce cnt b = xorbuf3 b ?s (min 16 (length b)) @ gcm_counter aes nonce (cnt + 1) (drop (min 16 (length b)) b)"
      if "b \<noteq> []" for b
      using that by (subst gcm_counter.simps) (simp add: Let_def n)
    have IH: "gcm_counter aes nonce (cnt + 1) ?rest = drop ?n buf" "length ?rest = length buf - ?n"
      using less [of "drop ?n buf" "cnt + 1"] False by (auto simp: min_def)
    let ?out = "xorbuf3 buf ?s ?n @ ?rest"
    have lenx: "length (xorbuf3 buf ?s ?n) = ?n" using s by simp
    have len: "length ?out = length buf" using IH(2) lenx by simp
    have "?out \<noteq> []" using len False by (metis length_0_conv)
    then have "gcm_counter aes nonce cnt ?out = xorbuf3 ?out ?s ?n @ gcm_counter aes nonce (cnt + 1) (drop ?n ?out)"
      using one len by simp
    moreover have "drop ?n ?out = ?rest" using lenx by simp
    moreover have "xorbuf3 ?out ?s ?n = take ?n buf"
      using s by (intro xorbuf3_twice [where m = ?n]) auto
    ultimately show ?thesis using IH one [OF False] len by simp
  qed
qed

lemma pad_loop_replicate:
  "pad_loop k buf = buf @ replicate (16 - length buf mod 16) k"
proof (induction k buf rule: pad_loop.induct)
  case (1 k buf)
  show ?case
  proof (cases "length (buf @ [k]) mod 16 = 0")
    case True
    then have "length buf mod 16 = 15" by (simp add: mod_Suc split: if_splits)
    then show ?thesis using True by (simp add: pad_loop.simps AES_BLOCK_SIZE_def)
  next
    case False
    have l: "length (buf @ [k]) mod 16 = Suc (length buf mod 16)" "length buf mod 16 < 15"
      using False by (auto simp: mod_Suc split: if_splits)
    have "pad_loop k buf = pad_loop k (buf @ [k])"
      using False by (subst pad_loop.simps) (simp add: AES_BLOCK_SIZE_def Let_def)
    also have "\<dots> = (buf @ [k]) @ replicate (16 - length (buf @ [k]) mod 16) k"
      using 1 False by (simp add: AES_BLOCK_SIZE_def)
    also have "16 - length (buf @ [k]) mod 16 = 15 - length buf mod 16" using l by simp
    also have "(buf @ [k]) @ replicate (15 - length buf mod 16) k = buf @ replicate (Suc (15 - length buf mod 16)) k" by simp
    also have "Suc (15 - length buf mod 16) = 16 - length buf mod 16" using l(2) by linarith
    finally show ?thesis .
  qed
qed

lemma length_pad_loop: "16 dvd length (pad_loop k buf)" "length (pad_loop k buf) = length buf + (16 - length buf mod 16)"
proof -
  have "length buf + (16 - length buf mod 16) = 16 * (length buf div 16) + 16"
    using mult_div_mod_eq [of 16 "length buf"] mod_less_divisor [of 16 "length buf"] by linarith
  then show "16 dvd length (pad_loop k buf)" by (simp add: pad_loop_replicate)
qed (simp add: pad_loop_replicate)

lemma neg_mod_16: "(- x - 1) mod 16 = 15 - x mod 16" for x :: int
proof -
  obtain q r where r: "x mod 16 = r" "x = 16 * q + r" using mult_div_mod_eq [of 16 x] by metis
  then have "- x - 1 = (15 - r) + (- q - 1) * 16" by simp
  moreover have "0 \<le> 15 - r" "15 - r < 16" using r(1) pos_mod_bound [of 16 x] pos_mod_sign [of 16 x] by linarith+
  ultimately show ?thesis using r(1) by (simp only: mod_mult_self1 mod_pos_pos_trivial)
qed

lemma padding_length_value: "unat ((NOT (word_of_nat n) AND 15) :: u8) = 15 - n mod 16"
proof -
  have "(15 :: u8) = mask 4" by (simp add: mask_eq_exp_minus_1)
  then have "uint ((NOT (word_of_nat n) AND 15) :: u8) = take_bit 4 (NOT (int n))"
    by (simp only: take_bit_eq_mask [symmetric] unsigned_take_bit_eq unsigned_not_eq)
      (simp add: take_bit_not_iff unsigned_of_nat of_nat_take_bit)
  also have "\<dots> = (- int n - 1) mod 16" by (simp add: take_bit_eq_mod not_eq_complement)
  also have "\<dots> = 15 - int n mod 16" by (rule neg_mod_16)
  finally show ?thesis by (simp add: unat_eq_nat_uint nat_diff_distrib' nat_mod_distrib)
qed

section \<open>Reading a whole record\<close>

text \<open>The bytes received and not consumed yet; the input buffer never outgrows its allocation, nor
  the allocation \<open>MAX_INBUF\<close>.\<close>

definition buffered :: "tls_state \<Rightarrow> u8 list" where
  "buffered tls = take (buffered_size tls) (drop (ofs_to_buffered tls) (inbuf tls))"

definition buf_ok :: "tls_state \<Rightarrow> bool" where
  "buf_ok tls \<longleftrightarrow> length (buffered tls) = buffered_size tls \<and> length (inbuf tls) \<le> inbuf_size tls \<and> inbuf_size tls \<le> MAX_INBUF"

definition record_ok :: "u8 list \<Rightarrow> bool" where
  "record_ok r \<longleftrightarrow> RECHDR_LEN \<le> length r \<and> r ! 1 = TLS_MAJ \<and> r ! 2 = TLS_MIN \<and>
     length r = RECHDR_LEN + (0x100 * unat (r ! 3) + unat (r ! 4)) \<and> length r \<le> MAX_INBUF"

lemma record_hdr_nth [simp]:
  "record_hdr type n ! 0 = type" "record_hdr type n ! 1 = TLS_MAJ" "record_hdr type n ! 2 = TLS_MIN"
  "record_hdr type n ! 3 = word_of_nat (n div 256)" "record_hdr type n ! 4 = word_of_nat (n mod 256)"
  "length (record_hdr type n) = RECHDR_LEN"
  by (simp_all add: record_hdr_def RECHDR_LEN_def)

lemma record_ok_hdr:
  assumes "length body = n" "n \<le> 2 ^ 14 + 2048"
  shows "record_ok (record_hdr type n @ body)"
proof -
  have "unat (word_of_nat (n div 256) :: u8) = n div 256" "unat (word_of_nat (n mod 256) :: u8) = n mod 256"
    using assms(2) by (simp_all add: unat_of_nat)
  then show ?thesis using assms
    by (auto simp: record_ok_def nth_append RECHDR_LEN_def MAX_INBUF_def record_hdr_def)
qed

lemma grow_inbuf_room:
  assumes "length (inbuf tls) < MAX_INBUF" "length (inbuf tls) \<le> inbuf_size tls" "inbuf_size tls \<le> MAX_INBUF"
  obtains n where "grow_inbuf tls = tls\<lparr>inbuf_size := n\<rparr>" "length (inbuf tls) < n" "n \<le> MAX_INBUF"
proof (cases "inbuf_size tls - length (inbuf tls) = 0")
  case True
  then show ?thesis using assms that [of "min (inbuf_size tls + MAX_INBUF div 8) MAX_INBUF"]
    by (auto simp: grow_inbuf_def MAX_INBUF_def)
next
  case False
  then show ?thesis using assms that [of "inbuf_size tls"] by (simp add: grow_inbuf_def)
qed

lemma find_target_record:
  assumes "record_ok r" "inbuf tls @ later = r @ rest" "target = MAX_INBUF \<or> target = length r"
  obtains t where "find_target tls target = Some t" "t = MAX_INBUF \<or> t = length r"
    "t \<le> length (inbuf tls) \<Longrightarrow> t = length r" "length (inbuf tls) < t \<Longrightarrow> length (inbuf tls) < length r"
proof (cases "RECHDR_LEN \<le> length (inbuf tls) \<and> target = MAX_INBUF")
  case True
  have "inbuf tls ! i = r ! i" if "i < RECHDR_LEN" for i
  proof -
    have "inbuf tls ! i = (inbuf tls @ later) ! i" using that True by (simp add: nth_append)
    also have "\<dots> = r ! i" using that assms(1) by (simp add: assms(2) nth_append record_ok_def)
    finally show ?thesis .
  qed
  then have "find_target tls target = Some (length r)"
    using assms(1) True by (simp add: find_target_def Let_def record_ok_def RECHDR_LEN_def)
  then show ?thesis by (rule that) auto
next
  case False
  then have "find_target tls target = Some target" by (auto simp: find_target_def)
  moreover have "target \<le> length (inbuf tls) \<Longrightarrow> target = length r"
    using False assms(3) by (auto simp: MAX_INBUF_def)
  moreover have "length (inbuf tls) < target \<Longrightarrow> length (inbuf tls) < length r"
    using False assms(1,3) by (auto simp: record_ok_def)
  ultimately show ?thesis using that assms(3) by blast
qed

text \<open>However the bytes of a record arrive, the loop stops with the whole record in the buffer, and
  no byte after it is lost.\<close>

lemma fill_loop_record:
  assumes "record_ok r"
  shows "inbuf tls @ concat ps = r @ rest \<Longrightarrow> [] \<notin> set ps \<Longrightarrow> target = MAX_INBUF \<or> target = length r \<Longrightarrow>
    length (inbuf tls) \<le> inbuf_size tls \<Longrightarrow> inbuf_size tls \<le> MAX_INBUF \<Longrightarrow>
    \<exists>b n ps'. fill_loop tls target (map Some ps) = Inr (tls\<lparr>inbuf := b, inbuf_size := n\<rparr>, Some (length r), map Some ps') \<and>
      b @ concat ps' = r @ rest \<and> length r \<le> length b \<and> length b \<le> n \<and> n \<le> MAX_INBUF \<and> [] \<notin> set ps'"
proof (induction "length (concat ps)" arbitrary: tls ps target rule: less_induct)
  case (less ps tls target)
  obtain t where t: "find_target tls target = Some t" "t = MAX_INBUF \<or> t = length r"
    "t \<le> length (inbuf tls) \<Longrightarrow> t = length r" "length (inbuf tls) < t \<Longrightarrow> length (inbuf tls) < length r"
    using find_target_record [OF assms less.prems(1,3)] by metis
  show ?case
  proof (cases "t \<le> length (inbuf tls)")
    case True
    then have "fill_loop tls target (map Some ps) = Inr (tls, Some (length r), map Some ps)"
      using t(1,3) by (simp add: fill_loop.simps)
    then show ?thesis using less.prems t(3) True
      by (intro exI [of _ "inbuf tls"] exI [of _ "inbuf_size tls"] exI [of _ ps]) simp
  next
    case False
    then have short: "length (inbuf tls) < length r" "length r \<le> MAX_INBUF" using t(4) assms by (auto simp: record_ok_def)
    obtain p ps1 where ps: "ps = p # ps1" "p \<noteq> []" "[] \<notin> set ps1"
      using short less.prems(1,2) by (cases ps) auto
    obtain n where n: "grow_inbuf tls = tls\<lparr>inbuf_size := n\<rparr>" "length (inbuf tls) < n" "n \<le> MAX_INBUF"
      using grow_inbuf_room [OF _ less.prems(4,5)] short by (metis order_less_le_trans)
    let ?rem = "n - length (inbuf tls)"
    let ?ps = "if drop ?rem p = [] then ps1 else drop ?rem p # ps1"
    let ?tls = "tls\<lparr>inbuf_size := n, inbuf := inbuf tls @ take ?rem p\<rparr>"
    have got: "take ?rem p \<noteq> []" using n(2) ps(2) by simp
    have cat: "take ?rem p @ concat ?ps = concat ps" by (auto simp: ps(1))
    have step: "fill_loop tls target (map Some ps) = fill_loop ?tls t (map Some ?ps)"
      using t(1) False got n(1) ps(1) by (subst fill_loop.simps) (simp add: Let_def)
    have "length (concat ?ps) < length (concat ps)" using got by (simp flip: cat)
    moreover have "inbuf ?tls @ concat ?ps = r @ rest" using cat less.prems(1) by simp
    moreover have "[] \<notin> set ?ps" using ps(3) by simp
    moreover have "length (inbuf ?tls) \<le> inbuf_size ?tls" using n(2) by simp
    moreover have "inbuf_size ?tls \<le> MAX_INBUF" using n(3) by simp
    ultimately obtain b m ps' where
      "fill_loop ?tls t (map Some ?ps) = Inr (?tls\<lparr>inbuf := b, inbuf_size := m\<rparr>, Some (length r), map Some ps')"
      "b @ concat ps' = r @ rest" "length r \<le> length b" "length b \<le> m" "m \<le> MAX_INBUF" "[] \<notin> set ps'"
      using less.hyps [of ?ps ?tls t] t(2) by blast
    then show ?thesis unfolding step by (intro exI [of _ b] exI [of _ m] exI [of _ ps']) simp
  qed
qed

lemma fetch_record_pieces:
  assumes "record_ok r" "buf_ok tls" "buffered tls @ concat ps = r @ rest" "[] \<notin> set ps"
  obtains b n ps' where
    "fetch_record tls (map Some ps) =
       Inr (tls\<lparr>inbuf := r @ b, inbuf_size := n, buffered_size := length b, ofs_to_buffered := length r\<rparr>, True, map Some ps')"
    "b @ concat ps' = rest" "length (r @ b) \<le> n" "n \<le> MAX_INBUF" "[] \<notin> set ps'"
proof -
  let ?tls = "tls\<lparr>inbuf := buffered tls\<rparr>"
  have "length (inbuf ?tls) \<le> inbuf_size ?tls" using assms(2) by (auto simp: buf_ok_def buffered_def)
  then obtain b n ps' where f: "fill_loop ?tls MAX_INBUF (map Some ps) = Inr (?tls\<lparr>inbuf := b, inbuf_size := n\<rparr>, Some (length r), map Some ps')"
    and b: "b @ concat ps' = r @ rest" "length r \<le> length b" "length b \<le> n" "n \<le> MAX_INBUF" "[] \<notin> set ps'"
    using fill_loop_record [OF assms(1), of ?tls ps rest MAX_INBUF] assms(2-4) by (auto simp: buf_ok_def)
  have r: "b = r @ drop (length r) b" using b(1,2) by (metis append_take_drop_id append_eq_conv_conj take_all_iff take_append take_take min.absorb1 diff_is_0_eq' append_Nil2 take0)
  show ?thesis
  proof (rule that)
    show "fetch_record tls (map Some ps) =
       Inr (tls\<lparr>inbuf := r @ drop (length r) b, inbuf_size := n, buffered_size := length (drop (length r) b), ofs_to_buffered := length r\<rparr>,
         True, map Some ps')"
      using f r by (simp add: fetch_record_def Let_def buffered_def)
    show "drop (length r) b @ concat ps' = rest" using b(1) r by (metis append.assoc same_append_eq)
  qed (use b r in auto)
qed

section \<open>Two ends of a connection\<close>

text \<open>The one end writes with the keys the other reads with, the peer of a client that is the other
  end being modelled by the same code: the cipher, the fixed part of the nonce, the sizes the
  cipher suite gives.\<close>

definition client_nonce :: "tls_state \<Rightarrow> u8 list" where
  "client_nonce tls = take 4 (drop (client_write_IV tls) (key_area tls))"

definition server_nonce :: "tls_state \<Rightarrow> u8 list" where
  "server_nonce tls = take 4 (drop (server_write_IV tls) (key_area tls))"

definition suite_ok :: "tls_config \<Rightarrow> tls_state \<Rightarrow> bool" where
  "suite_ok config tls \<longleftrightarrow>
     (if flags tls AND ENCRYPTION_AESGCM = 0 then
        MAC_size tls = 32 \<or> FEATURE_TLS_SHA1 config \<and> MAC_size tls = 20
      else cipher_id tls \<noteq> TLS_RSA_WITH_NULL_SHA256)"

definition channel :: "tls_config \<Rightarrow> tls_state \<Rightarrow> tls_state \<Rightarrow> bool" where
  "channel config w r \<longleftrightarrow>
     suite_ok config w \<and> suite_ok config r \<and> cipher_id r = cipher_id w \<and> MAC_size r = MAC_size w \<and>
     flags r AND ENCRYPTION_AESGCM = flags w AND ENCRYPTION_AESGCM \<and>
     aes_decrypt r = aes_encrypt w \<and> aes_rounds (aes_encrypt w) \<noteq> 0 \<and> length (H w) = 16 \<and>
     (flags w AND ENCRYPTION_AESGCM \<noteq> 0 \<longrightarrow> server_nonce r = client_nonce w \<and> length (client_nonce w) = 4) \<and>
     min_encrypted_len_on_read r = min_encrypted_len_on_read (set_min_encrypted_len config r)"

lemma channel_update:
  "channel config w r \<Longrightarrow>
   channel config (w\<lparr>write_seq64_be := s\<rparr>) (r\<lparr>inbuf := b, inbuf_size := n, buffered_size := k, ofs_to_buffered := i, hsd := h\<rparr>)"
  unfolding channel_def suite_ok_def client_nonce_def server_nonce_def set_min_encrypted_len_def TLS_MAC_SIZE_def Let_def
  by (auto split: if_splits)

lemma channel_min_len:
  "channel config w r \<Longrightarrow> min_encrypted_len_on_read r =
     (if flags w AND ENCRYPTION_AESGCM \<noteq> 0 then 24
      else if ALLOW_RSA_NULL_SHA256 config \<and> cipher_id w = TLS_RSA_WITH_NULL_SHA256 then MAC_size w else 48)"
proof -
  assume c: "channel config w r"
  then have "min_encrypted_len_on_read r = min_encrypted_len_on_read (set_min_encrypted_len config r)"
    unfolding channel_def by blast
  then show ?thesis using c
    by (auto simp: channel_def suite_ok_def set_min_encrypted_len_def AES_BLOCK_SIZE_def TLS_MAC_SIZE_def SHA256_OUTSIZE_def Let_def split: if_splits)
qed

lemma channel_mac_size:
  "channel config w r \<Longrightarrow> flags w AND ENCRYPTION_AESGCM = 0 \<Longrightarrow>
   TLS_MAC_SIZE config w = MAC_size w \<and> TLS_MAC_SIZE config r = MAC_size w \<and> MAC_size w \<in> {20, 32}"
  by (auto simp: channel_def suite_ok_def TLS_MAC_SIZE_def SHA256_OUTSIZE_def)

lemmas length_sha1_spec = digest_lengths(2)

definition pre_ok :: "hmac_precomputed \<Rightarrow> bool" where
  "pre_ok pre \<longleftrightarrow> memory_ok (hashed_key_xor_ipad pre) \<and> memory_ok (hashed_key_xor_opad pre)"

lemma hmac_total:
  assumes "channel config w r" "flags w AND ENCRYPTION_AESGCM = 0" "pre_ok pre"
  obtains mac where "hmac (md5_small config) (FEATURE_TLS_SHA1 config) (MAC_size w) pre
      (take (TLS_MAC_SIZE config w) (key_area w)) va = Some mac" "length mac = MAC_size w"
proof (cases "MAC_size w = 20")
  case True
  have key: "length (take (TLS_MAC_SIZE config w) (key_area w)) \<le> 64"
    using channel_mac_size [OF assms(1,2)] by auto
  obtain pre' where "hmac_begin (md5_small config) pre (take (TLS_MAC_SIZE config w) (key_area w)) sha1_begin = Some pre'"
    "\<And>va. hmac_sha_precomputed_v (md5_small config) pre' va = rfc_hmac sha1_spec (take (TLS_MAC_SIZE config w) (key_area w)) (concat va)"
    using hmac_sha1.hmac_begin_mac [OF _ _ key] assms(3) unfolding pre_ok_def by metis
  moreover have "FEATURE_TLS_SHA1 config" using assms(1,2) True by (auto simp: channel_def suite_ok_def)
  ultimately show ?thesis using True
    by (intro that [of "rfc_hmac sha1_spec (take (TLS_MAC_SIZE config w) (key_area w)) (concat va)"])
      (simp_all add: hmac_def, simp add: rfc_hmac_def length_sha1_spec)
next
  case False
  have key: "length (take (TLS_MAC_SIZE config w) (key_area w)) \<le> 64"
    using channel_mac_size [OF assms(1,2)] by auto
  obtain pre' where "hmac_begin (md5_small config) pre (take (TLS_MAC_SIZE config w) (key_area w)) sha256_begin = Some pre'"
    "\<And>va. hmac_sha_precomputed_v (md5_small config) pre' va = rfc_hmac sha256_spec (take (TLS_MAC_SIZE config w) (key_area w)) (concat va)"
    using hmac_sha256.hmac_begin_mac [OF _ _ key] assms(3) unfolding pre_ok_def by metis
  then show ?thesis using False channel_mac_size [OF assms(1,2)]
    by (intro that [of "rfc_hmac sha256_spec (take (TLS_MAC_SIZE config w) (key_area w)) (concat va)"])
      (simp_all add: hmac_def, auto simp: rfc_hmac_def length_sha256_spec)
qed

text \<open>What the writer sends for a content, and that the reader's decryption gives it back.\<close>

definition decrypts :: "tls_config \<Rightarrow> u8 list \<Rightarrow> tls_state \<Rightarrow> u8 list \<Rightarrow> u8 list \<Rightarrow> bool" where
  "decrypts config uninit r body buf \<longleftrightarrow>
     (\<exists>plain. decrypt_record config uninit r (length body) =
         Inr (r\<lparr>inbuf := memcpy (inbuf r) RECHDR_LEN plain\<rparr>, int (length buf)) \<and>
       length plain \<le> length body \<and> take (length buf) plain = buf)"

lemma bytes32_small: "w < 256 \<Longrightarrow> bytes32 w = [ucast w, 0, 0, 0]"
proof -
  assume "w < 256"
  then have "\<forall>i\<ge>8. \<not> bit w i" using less_exp_iff_bits [of 8 w] by simp
  then have "ucast (drop_bit k w) = (0 :: u8)" if "8 \<le> k" for k
    using that by (intro bit_word_eqI) (simp add: bit_ucast_iff bit_drop_bit_eq)
  then show ?thesis by (simp add: bytes32_def upt_rec)
qed

lemma record_aesgcm:
  assumes c: "channel config w r" and gcm: "flags w AND ENCRYPTION_AESGCM \<noteq> 0" and size: "length buf \<le> 2 ^ 14"
  obtains body where
    "xwrite_encrypted config pre iv w buf type =
       Inr (w\<lparr>write_seq64_be := next_seq (write_seq64_be w)\<rparr>, record_hdr type (length body) @ body)"
    "length body \<le> 2 ^ 14 + 2048"
    "\<And>b n k ofs. decrypts config uninit (r\<lparr>inbuf := record_hdr type (length body) @ body @ b, inbuf_size := n, buffered_size := k, ofs_to_buffered := ofs\<rparr>) body buf"
proof -
  let ?aes = "aes_encrypt w" and ?seq = "bytes64 (write_seq64_be w)"
  let ?nonce = "client_nonce w @ ?seq"
  let ?ct = "gcm_counter ?aes ?nonce 1 buf"
  let ?aad = "?seq @ [type, TLS_MAJ, TLS_MIN, word_of_nat (length buf div 256)] @ bytes32 (word_of_nat (length buf mod 256))"
  have k: "aes_rounds ?aes \<noteq> 0" "length ?nonce = 12" "length (H w) = 16" "server_nonce r = client_nonce w" "aes_decrypt r = ?aes"
    "flags r AND ENCRYPTION_AESGCM \<noteq> 0"
    using c gcm by (auto simp: channel_def)
  have ct: "gcm_counter ?aes ?nonce 1 ?ct = buf" "length ?ct = length buf"
    using gcm_counter_twice [OF k(1,2)] by auto
  have small: "(word_of_nat (length buf mod 256) :: u32) < 256"
    by (simp add: word_less_nat_alt unat_of_nat take_bit_eq_mod)
  have "\<exists>a. ?aad = a @ [0, 0, 0] \<and> length a = 13"
  proof (intro exI conjI)
    from bytes32_small [OF small] show "?aad = (?seq @ [type, TLS_MAJ, TLS_MIN, word_of_nat (length buf div 256), ucast (word_of_nat (length buf mod 256) :: u32)]) @ [0, 0, 0]"
      by simp
  qed simp
  then obtain a where a: "?aad = a @ [0, 0, 0]" "length a = 13" by blast
  have "length ?ct < 2 ^ 29" using ct(2) size by simp
  then obtain tag where tag: "aesgcm_GHASH (UNALIGNED_MEMACCESS_OK config) (H w) ?aad ?ct = Some tag" "length tag = 16"
    using aesgcm_GHASH_spec [OF k(3) a(2)] unfolding a(1) by blast
  let ?s = "aes_encrypt_one_block ?aes (?nonce @ bytes32 (bswap32 1))"
  let ?body = "?seq @ ?ct @ xorbuf_aligned_AES_BLOCK_SIZE tag ?s"
  have lb: "length ?body = length buf + 24" using ct(2) by (simp add: xorbuf_aligned_AES_BLOCK_SIZE_def Let_def)
  show ?thesis
  proof (rule that [of ?body])
    show "xwrite_encrypted config pre iv w buf type =
       Inr (w\<lparr>write_seq64_be := next_seq (write_seq64_be w)\<rparr>, record_hdr type (length ?body) @ ?body)"
      using gcm tag(1) lb by (simp add: xwrite_encrypted_def xwrite_encrypted_aesgcm_def Let_def client_nonce_def AES_BLOCK_SIZE_def)
    show "length ?body \<le> 2 ^ 14 + 2048" using lb size by simp
    show "decrypts config uninit (r\<lparr>inbuf := record_hdr type (length ?body) @ ?body @ b, inbuf_size := n, buffered_size := k, ofs_to_buffered := ofs\<rparr>) ?body buf" for b n k ofs
      unfolding decrypts_def
    proof (intro exI conjI)
      show "decrypt_record config uninit (r\<lparr>inbuf := record_hdr type (length ?body) @ ?body @ b, inbuf_size := n, buffered_size := k, ofs_to_buffered := ofs\<rparr>) (length ?body) =
        Inr (r\<lparr>inbuf := record_hdr type (length ?body) @ ?body @ b, inbuf_size := n, buffered_size := k, ofs_to_buffered := ofs\<rparr>
          \<lparr>inbuf := memcpy (inbuf (r\<lparr>inbuf := record_hdr type (length ?body) @ ?body @ b, inbuf_size := n, buffered_size := k, ofs_to_buffered := ofs\<rparr>)) RECHDR_LEN buf\<rparr>, int (length buf))"
        using k ct channel_min_len [OF c] gcm unfolding lb
        by (simp add: decrypt_record_def tls_aesgcm_decrypt_def AES_BLOCK_SIZE_def Let_def server_nonce_def)
    qed (use lb in simp_all)
  qed
qed

lemma memcpy_drop [simp]: "n \<le> length b \<Longrightarrow> memcpy b n (take k (drop n b)) = b"
proof -
  assume "n \<le> length b"
  have "take k (drop n b) @ drop (n + length (take k (drop n b))) b = drop n b"
    by (cases "k \<le> length b - n") (simp_all add: min_def flip: drop_drop, metis append_take_drop_id drop_drop add.commute)
  then show ?thesis by (simp add: memcpy_def)
qed

lemma TLS_MAC_SIZE_inbuf [simp]: "TLS_MAC_SIZE config (r\<lparr>inbuf := x\<rparr>) = TLS_MAC_SIZE config r"
  by (simp add: TLS_MAC_SIZE_def)

lemma decrypt_record_cbc:
  assumes "min_encrypted_len_on_read r = 48" "flags r AND ENCRYPTION_AESGCM = 0" "TLS_MAC_SIZE config r < 48"
    and body: "drop RECHDR_LEN (inbuf r) = iv @ ct @ b" "length iv = 16" "16 dvd length ct" "32 \<le> length ct"
    and plain: "aes_cbc_decrypt (aes_decrypt r) iv uninit ct = Some plain"
    and k: "memcpy (inbuf r) RECHDR_LEN plain ! (RECHDR_LEN + length ct - 1) = k"
  shows "decrypt_record config uninit r (length (iv @ ct)) =
    Inr (r\<lparr>inbuf := memcpy (inbuf r) RECHDR_LEN plain\<rparr>, int (length ct) - int (TLS_MAC_SIZE config r + (unat k + 1)))"
proof -
  have "take 16 (iv @ ct @ b) = iv" "take (length ct) (drop 16 (iv @ ct @ b)) = ct" using body(2) by simp_all
  moreover have "(16 + length ct) mod 16 = 0" "\<not> 16 + length ct < 48" "16 + length ct - 16 = length ct"
    using body(3,4) by (simp_all add: dvd_eq_mod_eq_0)
  ultimately show ?thesis using assms(1-3) plain k body(2)
    by (simp add: decrypt_record_def body(1) Let_def AES_BLOCK_SIZE_def)
qed

lemma record_cbc:
  assumes c: "channel config w r" and cbc: "flags w AND ENCRYPTION_AESGCM = 0" and pre: "pre_ok pre"
    and size: "length buf \<le> 2 ^ 14" and iv: "length iv = 16"
  obtains body where
    "xwrite_encrypted config pre iv w buf type =
       Inr (w\<lparr>write_seq64_be := next_seq (write_seq64_be w)\<rparr>, record_hdr type (length body) @ body)"
    "length body \<le> 2 ^ 14 + 2048"
    "\<And>b n k ofs. decrypts config uninit (r\<lparr>inbuf := record_hdr type (length body) @ body @ b, inbuf_size := n, buffered_size := k, ofs_to_buffered := ofs\<rparr>) body buf"
proof -
  obtain mac where mac: "hmac (md5_small config) (FEATURE_TLS_SHA1 config) (MAC_size w) pre
      (take (TLS_MAC_SIZE config w) (key_area w)) [bytes64 (write_seq64_be w), record_hdr type (length buf), buf] = Some mac"
    "length mac = MAC_size w"
    using hmac_total [OF c cbc pre] by metis
  note ms = channel_mac_size [OF c cbc]
  let ?w = "w\<lparr>write_seq64_be := next_seq (write_seq64_be w)\<rparr>"
  let ?null = "ALLOW_RSA_NULL_SHA256 config \<and> cipher_id w = TLS_RSA_WITH_NULL_SHA256"
  have rcbc: "flags r AND ENCRYPTION_AESGCM = 0" "aes_decrypt r = aes_encrypt w" "aes_rounds (aes_encrypt w) \<noteq> 0"
    using c cbc by (simp_all add: channel_def)
  show ?thesis
  proof (cases ?null)
    case True
    show ?thesis
    proof (rule that [of "buf @ mac"])
      show "xwrite_encrypted config pre iv w buf type = Inr (?w, record_hdr type (length (buf @ mac)) @ buf @ mac)"
        using True cbc mac by (simp add: xwrite_encrypted_def xwrite_encrypted_and_hmac_signed_def Let_def)
      show "length (buf @ mac) \<le> 2 ^ 14 + 2048" using size mac(2) ms by auto
      fix b n k ofs
      let ?r = "r\<lparr>inbuf := record_hdr type (length (buf @ mac)) @ (buf @ mac) @ b, inbuf_size := n, buffered_size := k, ofs_to_buffered := ofs\<rparr>"
      show "decrypts config uninit ?r (buf @ mac) buf"
        unfolding decrypts_def
      proof (intro exI conjI)
        have "memcpy (inbuf ?r) RECHDR_LEN (buf @ mac) = inbuf ?r" by (simp add: memcpy_def)
        moreover have "min_encrypted_len_on_read ?r = length mac" "TLS_MAC_SIZE config ?r = length mac" "length mac \<noteq> 0"
          using channel_min_len [OF c] cbc True ms mac(2) by (auto simp: TLS_MAC_SIZE_def)
        ultimately show "decrypt_record config uninit ?r (length (buf @ mac)) =
            Inr (?r\<lparr>inbuf := memcpy (inbuf ?r) RECHDR_LEN (buf @ mac)\<rparr>, int (length buf))"
          using rcbc by (simp add: decrypt_record_def Let_def)
      qed simp_all
    qed
  next
    case False
    let ?k = "NOT (word_of_nat (length (buf @ mac))) AND 15 :: u8"
    let ?p = "pad_loop ?k (buf @ mac)"
    let ?pad = "16 - length (buf @ mac) mod 16"
    have p: "?p = (buf @ mac) @ replicate ?pad ?k" "length ?p = length (buf @ mac) + ?pad" "16 dvd length ?p"
      by (rule pad_loop_replicate, rule length_pad_loop(2), rule length_pad_loop(1))
    obtain ct where ct: "aes_cbc_encrypt (aes_encrypt w) iv ?p = Some ct" "length ct = length ?p"
      "aes_cbc_decrypt (aes_encrypt w) iv uninit ct = Some ?p"
      using cbc_decrypt_encrypt_loop [OF rcbc(3) p(3), of "take 16 iv"]
      unfolding aes_cbc_encrypt_def aes_cbc_decrypt_def by fastforce
    have l: "length (iv @ ct) = length ?p + 16" using iv ct(2) by simp
    have pad: "1 \<le> ?pad" "?pad \<le> 16" by (simp_all add: Suc_leI)
    show ?thesis
    proof (rule that [of "iv @ ct"])
      show "xwrite_encrypted config pre iv w buf type = Inr (?w, record_hdr type (length (iv @ ct)) @ iv @ ct)"
        using False cbc mac ct iv by (auto simp: xwrite_encrypted_def xwrite_encrypted_and_hmac_signed_def Let_def AES_BLOCK_SIZE_def add.commute)
      show "length (iv @ ct) \<le> 2 ^ 14 + 2048" using size mac(2) ms pad unfolding l p(2) by auto
      fix b n k ofs
      let ?r = "r\<lparr>inbuf := record_hdr type (length (iv @ ct)) @ (iv @ ct) @ b, inbuf_size := n, buffered_size := k, ofs_to_buffered := ofs\<rparr>"
      show "decrypts config uninit ?r (iv @ ct) buf"
        unfolding decrypts_def
      proof (intro exI conjI)
        have m: "min_encrypted_len_on_read ?r = 48" "TLS_MAC_SIZE config ?r = length mac" "length mac < 48"
          using channel_min_len [OF c] cbc False ms mac(2) by (auto simp: TLS_MAC_SIZE_def)
        obtain q where "length ?p = 16 * q" using p(3) by (auto simp: dvd_def)
        moreover have "20 < length ?p" using p(2) ms mac(2) pad(1) by auto
        ultimately have big: "48 \<le> length (iv @ ct)" unfolding l by simp
        have body: "drop RECHDR_LEN (inbuf ?r) = iv @ ct @ b" by simp
        have big': "32 \<le> length ct" "16 dvd length ct" using big iv ct(2) p(3) by simp_all
        have last: "memcpy (inbuf ?r) RECHDR_LEN ?p ! (RECHDR_LEN + length ct - 1) = ?k"
        proof -
          obtain d where d: "?pad = Suc d" using pad(1) by (metis One_nat_def Suc_le_D)
          have lc: "length ct = Suc (length (buf @ mac) + d)" unfolding ct(2) p(2) d by simp
          have "memcpy (inbuf ?r) RECHDR_LEN ?p ! (RECHDR_LEN + length ct - 1) = ?p ! (length (buf @ mac) + d)"
            using lc ct(2) unfolding memcpy_def by (simp add: nth_append)
          also have "\<dots> = ?k" unfolding p(1) d by (simp only: nth_append_length_plus nth_replicate lessI)
          finally show ?thesis .
        qed
        have k: "unat ?k + 1 = ?pad" using padding_length_value [of "length (buf @ mac)"] by simp
        show "decrypt_record config uninit ?r (length (iv @ ct)) =
            Inr (?r\<lparr>inbuf := memcpy (inbuf ?r) RECHDR_LEN ?p\<rparr>, int (length buf))"
        proof -
          have "int (length ct) - int (TLS_MAC_SIZE config ?r + (unat ?k + 1)) = int (length buf)"
            unfolding ct(2) p(2) m(2) k by simp
          then show ?thesis
            using decrypt_record_cbc [OF m(1) _ _ body iv big'(2,1) _ last, of config uninit] rcbc m ct(3) by simp
        qed
        show "length ?p \<le> length (iv @ ct)" using ct(2) by simp
        show "take (length buf) ?p = buf" unfolding p(1) by simp
      qed
    qed
  qed
qed

section \<open>Whole records across the connection\<close>

lemma written_record:
  assumes "channel config w r" "pre_ok pre" "length buf \<le> 2 ^ 14" "length iv = 16"
  obtains body where
    "xwrite_encrypted config pre iv w buf type =
       Inr (w\<lparr>write_seq64_be := next_seq (write_seq64_be w)\<rparr>, record_hdr type (length body) @ body)"
    "record_ok (record_hdr type (length body) @ body)"
    "\<And>b n k ofs. decrypts config uninit (r\<lparr>inbuf := record_hdr type (length body) @ body @ b, inbuf_size := n, buffered_size := k, ofs_to_buffered := ofs\<rparr>) body buf"
proof -
  obtain body where b: "xwrite_encrypted config pre iv w buf type =
       Inr (w\<lparr>write_seq64_be := next_seq (write_seq64_be w)\<rparr>, record_hdr type (length body) @ body)"
    "length body \<le> 2 ^ 14 + 2048"
    "\<forall>b n k ofs. decrypts config uninit (r\<lparr>inbuf := record_hdr type (length body) @ body @ b, inbuf_size := n, buffered_size := k, ofs_to_buffered := ofs\<rparr>) body buf"
  proof (cases "flags w AND ENCRYPTION_AESGCM = 0")
    case True
    show ?thesis
      by (rule record_cbc [OF assms(1) True assms(2-4), of type uninit]) (rule that; blast)
  next
    case False
    show ?thesis
      by (rule record_aesgcm [OF assms(1) False assms(3), of pre iv type uninit]) (rule that; blast)
  qed
  then show ?thesis using record_ok_hdr that by blast
qed

text \<open>The record is taken from the pieces, its contents end up behind the header, and what comes after
  it stays buffered.\<close>

lemma fetch_written:
  assumes "channel config w r" "pre_ok pre" "length buf \<le> 2 ^ 14" "length iv = 16" "buf_ok r"
  obtains rec where
    "xwrite_encrypted config pre iv w buf type = Inr (w\<lparr>write_seq64_be := next_seq (write_seq64_be w)\<rparr>, rec)" "rec \<noteq> []"
    "\<And>ps rest. buffered r @ concat ps = rec @ rest \<Longrightarrow> [] \<notin> set ps \<Longrightarrow>
      \<exists>r1 r2 ps'. fetch_record r (map Some ps) = Inr (r1, True, map Some ps') \<and>
        decrypt_record config uninit r1 (ofs_to_buffered r1 - RECHDR_LEN) = Inr (r2, int (length buf)) \<and>
        inbuf r2 ! 0 = type \<and> take (length buf) (drop RECHDR_LEN (inbuf r2)) = buf \<and>
        buffered r2 @ concat ps' = rest \<and> buf_ok r2 \<and> channel config (w\<lparr>write_seq64_be := next_seq (write_seq64_be w)\<rparr>) r2 \<and>
        hsd r2 = hsd r \<and> [] \<notin> set ps'"
proof -
  let ?w = "w\<lparr>write_seq64_be := next_seq (write_seq64_be w)\<rparr>"
  obtain body where w: "xwrite_encrypted config pre iv w buf type = Inr (?w, record_hdr type (length body) @ body)"
    and ok: "record_ok (record_hdr type (length body) @ body)"
    and dec: "\<And>b n k ofs. decrypts config uninit (r\<lparr>inbuf := record_hdr type (length body) @ body @ b, inbuf_size := n, buffered_size := k, ofs_to_buffered := ofs\<rparr>) body buf"
    using written_record [OF assms(1-4), of type uninit] by metis
  let ?rec = "record_hdr type (length body) @ body"
  show ?thesis
  proof (rule that [of ?rec])
    show "xwrite_encrypted config pre iv w buf type = Inr (?w, ?rec)" by (rule w)
    show "?rec \<noteq> []" by (simp add: record_hdr_def)
    fix ps rest
    assume cat: "buffered r @ concat ps = ?rec @ rest" and ps: "[] \<notin> set ps"
    obtain b n ps' where f: "fetch_record r (map Some ps) =
         Inr (r\<lparr>inbuf := ?rec @ b, inbuf_size := n, buffered_size := length b, ofs_to_buffered := length ?rec\<rparr>, True, map Some ps')"
      and b: "b @ concat ps' = rest" "length (?rec @ b) \<le> n" "n \<le> MAX_INBUF" "[] \<notin> set ps'"
      using fetch_record_pieces [OF ok assms(5) cat ps] by metis
    let ?r = "r\<lparr>inbuf := ?rec @ b, inbuf_size := n, buffered_size := length b, ofs_to_buffered := length ?rec\<rparr>"
    obtain plain where p: "decrypt_record config uninit ?r (length body) = Inr (?r\<lparr>inbuf := memcpy (inbuf ?r) RECHDR_LEN plain\<rparr>, int (length buf))"
      "length plain \<le> length body" "take (length buf) plain = buf"
      using dec [where b = b and n = n and k = "length b" and ofs = "length ?rec"] unfolding decrypts_def append_assoc by blast
    let ?in = "record_hdr type (length body) @ plain @ drop (length plain) body @ b"
    let ?r2 = "?r\<lparr>inbuf := ?in\<rparr>"
    have inb: "memcpy (inbuf ?r) RECHDR_LEN plain = ?in" using p(2) by (simp add: memcpy_def)
    have len: "length buf \<le> length plain" using p(3) by (metis length_take min.cobounded1 min.commute)
    show "\<exists>r1 r2 ps'. fetch_record r (map Some ps) = Inr (r1, True, map Some ps') \<and>
        decrypt_record config uninit r1 (ofs_to_buffered r1 - RECHDR_LEN) = Inr (r2, int (length buf)) \<and>
        inbuf r2 ! 0 = type \<and> take (length buf) (drop RECHDR_LEN (inbuf r2)) = buf \<and>
        buffered r2 @ concat ps' = rest \<and> buf_ok r2 \<and> channel config ?w r2 \<and> hsd r2 = hsd r \<and> [] \<notin> set ps'"
    proof (rule exI [of _ ?r], rule exI [of _ ?r2], rule exI [of _ ps'], intro conjI)
      show "fetch_record r (map Some ps) = Inr (?r, True, map Some ps')" by (rule f)
      show "decrypt_record config uninit ?r (ofs_to_buffered ?r - RECHDR_LEN) = Inr (?r2, int (length buf))"
        using p(1) unfolding inb by simp
      show "inbuf ?r2 ! 0 = type" by (simp add: record_hdr_def)
      show "take (length buf) (drop RECHDR_LEN (inbuf ?r2)) = buf" using p(3) len by simp
      show "buffered ?r2 @ concat ps' = rest" using b(1) p(2) by (simp add: buffered_def)
      show "buf_ok ?r2" using b p(2) by (simp add: buf_ok_def buffered_def)
      show "channel config ?w ?r2"
        using channel_update [where s = "next_seq (write_seq64_be w)" and h = "hsd r" and i = "length ?rec" and k = "length b"
          and n = n and b = ?in, OF assms(1)] by (cases r) simp
    qed (use b(4) in simp_all)
  qed
qed

lemma read_written:
  assumes "channel config w r" "pre_ok pre" "length buf \<le> 2 ^ 14" "length iv = 16" "buf_ok r" "type \<noteq> RECORD_TYPE_ALERT"
  obtains rec where
    "xwrite_encrypted config pre iv w buf type = Inr (w\<lparr>write_seq64_be := next_seq (write_seq64_be w)\<rparr>, rec)" "rec \<noteq> []"
    "\<And>ps rest. buffered r @ concat ps = rec @ rest \<Longrightarrow> [] \<notin> set ps \<Longrightarrow> type = RECORD_TYPE_HANDSHAKE \<Longrightarrow> hsd r = None \<Longrightarrow>
       tls_xread_record config uninit r (map Some ps) = Inl Null_dereference"
    "\<And>ps rest. buffered r @ concat ps = rec @ rest \<Longrightarrow> [] \<notin> set ps \<Longrightarrow> type \<noteq> RECORD_TYPE_HANDSHAKE \<or> hsd r \<noteq> None \<Longrightarrow>
      \<exists>r' ps'. tls_xread_record config uninit r (map Some ps) = Inr (length buf, r', map Some ps') \<and>
        inbuf r' ! 0 = type \<and> take (length buf) (drop RECHDR_LEN (inbuf r')) = buf \<and>
        buffered r' @ concat ps' = rest \<and> buf_ok r' \<and> channel config (w\<lparr>write_seq64_be := next_seq (write_seq64_be w)\<rparr>) r' \<and>
        (hsd r' = None \<longleftrightarrow> hsd r = None) \<and> [] \<notin> set ps'"
proof -
  let ?w = "w\<lparr>write_seq64_be := next_seq (write_seq64_be w)\<rparr>"
  obtain rec where rec: "xwrite_encrypted config pre iv w buf type = Inr (?w, rec)" "rec \<noteq> []"
    and get: "\<And>ps rest. buffered r @ concat ps = rec @ rest \<Longrightarrow> [] \<notin> set ps \<Longrightarrow>
      \<exists>r1 r2 ps'. fetch_record r (map Some ps) = Inr (r1, True, map Some ps') \<and>
        decrypt_record config uninit r1 (ofs_to_buffered r1 - RECHDR_LEN) = Inr (r2, int (length buf)) \<and>
        inbuf r2 ! 0 = type \<and> take (length buf) (drop RECHDR_LEN (inbuf r2)) = buf \<and>
        buffered r2 @ concat ps' = rest \<and> buf_ok r2 \<and> channel config ?w r2 \<and> hsd r2 = hsd r \<and> [] \<notin> set ps'"
    using fetch_written [OF assms(1-5), of type uninit] by metis
  show ?thesis
  proof (rule that [OF rec])
    fix ps rest
    assume cat: "buffered r @ concat ps = rec @ rest" and ps: "[] \<notin> set ps"
    obtain r1 r2 ps' where f: "fetch_record r (map Some ps) = Inr (r1, True, map Some ps')"
        "decrypt_record config uninit r1 (ofs_to_buffered r1 - RECHDR_LEN) = Inr (r2, int (length buf))"
      and r2: "inbuf r2 ! 0 = type" "take (length buf) (drop RECHDR_LEN (inbuf r2)) = buf"
        "buffered r2 @ concat ps' = rest" "buf_ok r2" "channel config ?w r2" "hsd r2 = hsd r" "[] \<notin> set ps'"
      using get [OF cat ps] by blast
    {
      assume "type = RECORD_TYPE_HANDSHAKE" "hsd r = None"
      then show "tls_xread_record config uninit r (map Some ps) = Inl Null_dereference"
        using f r2 assms(6) by (simp add: tls_xread_record.simps read_one_def handle_record_def hash_handshake_def Let_def)
    next
      assume alive: "type \<noteq> RECORD_TYPE_HANDSHAKE \<or> hsd r \<noteq> None"
      define h where "h = (if type = RECORD_TYPE_HANDSHAKE then
          Some ((the (hsd r))\<lparr>handshake_hash_ctx := md5_hash (md5_small config) (handshake_hash_ctx (the (hsd r))) buf\<rparr>) else hsd r)"
      let ?r = "r2\<lparr>hsd := h\<rparr>"
      have same: "r2 = r2\<lparr>hsd := hsd r\<rparr>" using r2(6) by simp
      have "tls_xread_record config uninit r (map Some ps) = Inr (length buf, ?r, map Some ps')"
      proof (cases "type = RECORD_TYPE_HANDSHAKE")
        case True
        then obtain d where "hsd r = Some d" using alive by auto
        then show ?thesis using f r2 assms(6) True
          by (simp add: tls_xread_record.simps read_one_def handle_record_def hash_handshake_def Let_def h_def)
      next
        case False
        then show ?thesis using f r2 assms(6) same
          by (simp add: tls_xread_record.simps read_one_def handle_record_def Let_def h_def)
      qed
      moreover have "buffered ?r = buffered r2" "buf_ok ?r = buf_ok r2" by (simp_all add: buffered_def buf_ok_def)
      moreover have "channel config ?w ?r"
        using channel_update [OF r2(5), of "next_seq (write_seq64_be w)" h "ofs_to_buffered r2" "buffered_size r2" "inbuf_size r2" "inbuf r2"] by simp
      moreover have "h = None \<longleftrightarrow> hsd r = None" using alive by (simp add: h_def)
      ultimately show "\<exists>r' ps'. tls_xread_record config uninit r (map Some ps) = Inr (length buf, r', map Some ps') \<and>
        inbuf r' ! 0 = type \<and> take (length buf) (drop RECHDR_LEN (inbuf r')) = buf \<and>
        buffered r' @ concat ps' = rest \<and> buf_ok r' \<and> channel config ?w r' \<and> (hsd r' = None \<longleftrightarrow> hsd r = None) \<and> [] \<notin> set ps'"
        using r2 by (intro exI [of _ ?r] exI [of _ ps']) simp
    }
  qed
qed

section \<open>A conversation\<close>

text \<open>A message is its type, its contents and the random vector its record takes.\<close>

fun write_all :: "tls_config \<Rightarrow> hmac_precomputed \<Rightarrow> tls_state \<Rightarrow> (u8 \<times> u8 list \<times> u8 list) list \<Rightarrow> tls_stop + (tls_state \<times> u8 list)" where
  "write_all config pre tls [] = Inr (tls, [])"
| "write_all config pre tls ((type, buf, iv) # ms) =
     (case xwrite_encrypted config pre iv tls buf type of
        Inl stop \<Rightarrow> Inl stop
      | Inr (tls, rec) \<Rightarrow>
          (case write_all config pre tls ms of
             Inl stop \<Rightarrow> Inl stop
           | Inr (tls, bytes) \<Rightarrow> Inr (tls, rec @ bytes)))"

text \<open>The types and contents of the next \<open>n\<close> records.\<close>

fun read_all :: "tls_config \<Rightarrow> u8 list \<Rightarrow> tls_state \<Rightarrow> nat \<Rightarrow> stream \<Rightarrow> tls_stop + ((u8 \<times> u8 list) list \<times> tls_state \<times> stream)" where
  "read_all config uninit tls 0 ifd = Inr ([], tls, ifd)"
| "read_all config uninit tls (Suc n) ifd =
     (case tls_xread_record config uninit tls ifd of
        Inl stop \<Rightarrow> Inl stop
      | Inr (sz, tls, ifd) \<Rightarrow>
          (case read_all config uninit tls n ifd of
             Inl stop \<Rightarrow> Inl stop
           | Inr (ms, end) \<Rightarrow> Inr ((inbuf tls ! 0, take sz (drop RECHDR_LEN (inbuf tls))) # ms, end)))"

definition sendable :: "tls_state \<Rightarrow> u8 \<times> u8 list \<times> u8 list \<Rightarrow> bool" where
  "sendable r m \<longleftrightarrow> (case m of (type, buf, iv) \<Rightarrow>
     length buf \<le> TLS_MAX_OUTBUF \<and> length iv = 16 \<and> type \<noteq> RECORD_TYPE_ALERT \<and> (type = RECORD_TYPE_HANDSHAKE \<longrightarrow> hsd r \<noteq> None))"

lemma read_all_write_all:
  "channel config w r \<Longrightarrow> pre_ok pre \<Longrightarrow> buf_ok r \<Longrightarrow> \<forall>m \<in> set ms. sendable r m \<Longrightarrow>
   \<exists>w' bytes. write_all config pre w ms = Inr (w', bytes) \<and>
     (\<forall>ps rest. buffered r @ concat ps = bytes @ rest \<longrightarrow> [] \<notin> set ps \<longrightarrow>
       (\<exists>r' ps'. read_all config uninit r (length ms) (map Some ps) = Inr (map (\<lambda>(type, buf, iv). (type, buf)) ms, r', map Some ps') \<and>
         buffered r' @ concat ps' = rest \<and> buf_ok r' \<and> channel config w' r' \<and> [] \<notin> set ps'))"
proof (induction ms arbitrary: w r)
  case Nil
  then show ?case by (auto intro!: exI [of _ r])
next
  case (Cons m ms)
  obtain type buf iv where m: "m = (type, buf, iv)" by (metis prod_cases3)
  have ok: "length buf \<le> 2 ^ 14" "length iv = 16" "type \<noteq> RECORD_TYPE_ALERT" "type \<noteq> RECORD_TYPE_HANDSHAKE \<or> hsd r \<noteq> None"
    using Cons.prems(4) by (auto simp: m sendable_def TLS_MAX_OUTBUF_def)
  let ?w = "w\<lparr>write_seq64_be := next_seq (write_seq64_be w)\<rparr>"
  obtain rec where rec: "xwrite_encrypted config pre iv w buf type = Inr (?w, rec)" "rec \<noteq> []"
    and get: "\<And>ps rest. buffered r @ concat ps = rec @ rest \<Longrightarrow> [] \<notin> set ps \<Longrightarrow> type \<noteq> RECORD_TYPE_HANDSHAKE \<or> hsd r \<noteq> None \<Longrightarrow>
      \<exists>r' ps'. tls_xread_record config uninit r (map Some ps) = Inr (length buf, r', map Some ps') \<and>
        inbuf r' ! 0 = type \<and> take (length buf) (drop RECHDR_LEN (inbuf r')) = buf \<and>
        buffered r' @ concat ps' = rest \<and> buf_ok r' \<and> channel config ?w r' \<and> (hsd r' = None \<longleftrightarrow> hsd r = None) \<and> [] \<notin> set ps'"
    using read_written [OF Cons.prems(1,2) ok(1,2) Cons.prems(3) ok(3), of uninit] by metis
  have IH: "\<exists>w' bytes. write_all config pre ?w ms = Inr (w', bytes) \<and>
     (\<forall>ps rest. buffered r' @ concat ps = bytes @ rest \<longrightarrow> [] \<notin> set ps \<longrightarrow>
       (\<exists>r'' ps'. read_all config uninit r' (length ms) (map Some ps) = Inr (map (\<lambda>(type, buf, iv). (type, buf)) ms, r'', map Some ps') \<and>
         buffered r'' @ concat ps' = rest \<and> buf_ok r'' \<and> channel config w' r'' \<and> [] \<notin> set ps'))"
    if "channel config ?w r'" "buf_ok r'" "hsd r' = None \<longleftrightarrow> hsd r = None" for r'
    using that Cons.prems(4) by (intro Cons.IH [OF that(1) Cons.prems(2) that(2)]) (auto simp: sendable_def)
  have "channel config ?w r"
    using channel_update [OF Cons.prems(1), where s = "next_seq (write_seq64_be w)" and b = "inbuf r" and n = "inbuf_size r"
        and k = "buffered_size r" and i = "ofs_to_buffered r" and h = "hsd r"] by simp
  then obtain w' bytes where w': "write_all config pre ?w ms = Inr (w', bytes)" using IH Cons.prems(3) by blast
  show ?case
  proof (rule exI [of _ w'], rule exI [of _ "rec @ bytes"], intro conjI allI impI)
    show "write_all config pre w (m # ms) = Inr (w', rec @ bytes)" using rec w' by (simp add: m)
    fix ps rest
    assume cat: "buffered r @ concat ps = (rec @ bytes) @ rest" and ps: "[] \<notin> set ps"
    obtain r1 ps1 where r1: "tls_xread_record config uninit r (map Some ps) = Inr (length buf, r1, map Some ps1)"
      "inbuf r1 ! 0 = type" "take (length buf) (drop RECHDR_LEN (inbuf r1)) = buf"
      "buffered r1 @ concat ps1 = bytes @ rest" "buf_ok r1" "channel config ?w r1" "hsd r1 = None \<longleftrightarrow> hsd r = None" "[] \<notin> set ps1"
      using get [of ps "bytes @ rest"] cat ps ok(4) by auto
    obtain r2 ps2 where "read_all config uninit r1 (length ms) (map Some ps1) = Inr (map (\<lambda>(type, buf, iv). (type, buf)) ms, r2, map Some ps2)"
      "buffered r2 @ concat ps2 = rest" "buf_ok r2" "channel config w' r2" "[] \<notin> set ps2"
      using IH [OF r1(6,5,7)] r1(4,8) unfolding w' by blast
    then show "\<exists>r' ps'. read_all config uninit r (length (m # ms)) (map Some ps) = Inr (map (\<lambda>(type, buf, iv). (type, buf)) (m # ms), r', map Some ps') \<and>
         buffered r' @ concat ps' = rest \<and> buf_ok r' \<and> channel config w' r' \<and> [] \<notin> set ps'"
      using r1 by (intro exI [of _ r2] exI [of _ ps2]) (simp add: m)
  qed
qed

text \<open>At the end of the connection there is nothing more to read.\<close>

lemma read_end: "buffered r = [] \<Longrightarrow> \<exists>r'. tls_xread_record config uninit r [] = Inr (0, r', [])"
proof -
  assume b: "buffered r = []"
  have "find_target (r\<lparr>inbuf := []\<rparr>) MAX_INBUF = Some MAX_INBUF" "0 < MAX_INBUF" by (simp_all add: find_target_def RECHDR_LEN_def MAX_INBUF_def)
  then have "fill_loop (r\<lparr>inbuf := []\<rparr>) MAX_INBUF [] = Inr (grow_inbuf (r\<lparr>inbuf := []\<rparr>), None, [])"
    by (subst fill_loop.simps) (simp add: Let_def)
  then have "fetch_record r [] = Inr ((grow_inbuf (r\<lparr>inbuf := []\<rparr>))\<lparr>buffered_size := 0\<rparr>, False, [])"
    unfolding fetch_record_def Let_def b [unfolded buffered_def] by simp
  then show ?thesis by (simp add: tls_xread_record.simps read_one_def)
qed

text \<open>A connection of a client whose GCM keys and those of its peer are the same.\<close>

definition example_state :: tls_state where
  "example_state = \<lparr>flags = ENCRYPTION_AESGCM, min_encrypted_len_on_read = 24, cipher_id = 0xC02F, MAC_size = 0, key_size = 16,
     IV_size = 4, inbuf_size = 0, ofs_to_buffered = 0, buffered_size = 0, inbuf = [], hsd = None, write_seq64_be = 0,
     key_area = replicate 40 7, client_write_key = 0, server_write_key = 16, client_write_IV = 32, server_write_IV = 36,
     aes_encrypt = aes_setkey (replicate 16 7), aes_decrypt = aes_setkey (replicate 16 7), H = replicate 16 3\<rparr>"

definition example_config :: tls_config where
  "example_config = \<lparr>md5_small = 1, FEATURE_TLS_SHA1 = True, ALLOW_RSA_NULL_SHA256 = False, UNALIGNED_MEMACCESS_OK = True\<rparr>"

definition example_pre :: hmac_precomputed where
  "example_pre = \<lparr>hashed_key_xor_ipad = fresh64, hashed_key_xor_opad = fresh64\<rparr>"

lemma example_channel:
  "channel example_config example_state example_state" "pre_ok example_pre" "buf_ok example_state" "buffered example_state = []"
proof -
  have "min_encrypted_len_on_read (set_min_encrypted_len example_config example_state) = 24"
    by (simp add: set_min_encrypted_len_def example_state_def example_config_def ENCRYPTION_AESGCM_def AES_BLOCK_SIZE_def)
  moreover have "aes_rounds (aes_setkey (replicate 16 7)) \<noteq> 0" by (rule setkey_rounds_nonzero) simp
  ultimately show "channel example_config example_state example_state"
    by (auto simp: channel_def suite_ok_def client_nonce_def server_nonce_def example_state_def TLS_RSA_WITH_NULL_SHA256_def ENCRYPTION_AESGCM_def)
  show "pre_ok example_pre" by (simp add: pre_ok_def example_pre_def memory_ok_def fresh64_def)
  show "buf_ok example_state" "buffered example_state = []" by (simp_all add: buf_ok_def buffered_def example_state_def)
qed

text \<open>C3: what one end of a connection writes the other reads.  For AES-GCM, for AES-CBC with HMAC and
  without encryption, any number of messages of at most \<open>2 ^ 14\<close> bytes are written without an error;
  and however the connection cuts their bytes into pieces, the reader gets the same types and
  contents in the same order, and after the last one the end of the connection.  Alerts act on
  the reader itself, and a handshake message needs its handshake data to be there.\<close>

theorem records_roundtrip:
  assumes "channel config w r" "pre_ok pre" "buf_ok r" "buffered r = []" "\<forall>m \<in> set ms. sendable r m"
  shows "\<exists>w' bytes. write_all config pre w ms = Inr (w', bytes) \<and>
    (\<forall>ps. concat ps = bytes \<and> [] \<notin> set ps \<longrightarrow>
      (\<exists>r' r''. read_all config uninit r (length ms) (map Some ps) = Inr (map (\<lambda>(type, buf, iv). (type, buf)) ms, r', []) \<and>
        tls_xread_record config uninit r' [] = Inr (0, r'', [])))"
proof -
  obtain w' bytes where w': "write_all config pre w ms = Inr (w', bytes)"
    and get: "\<And>ps rest. buffered r @ concat ps = bytes @ rest \<Longrightarrow> [] \<notin> set ps \<Longrightarrow>
       \<exists>r' ps'. read_all config uninit r (length ms) (map Some ps) = Inr (map (\<lambda>(type, buf, iv). (type, buf)) ms, r', map Some ps') \<and>
         buffered r' @ concat ps' = rest \<and> buf_ok r' \<and> channel config w' r' \<and> [] \<notin> set ps'"
    using read_all_write_all [OF assms(1-3,5), of uninit] by blast
  have "\<exists>r' r''. read_all config uninit r (length ms) (map Some ps) = Inr (map (\<lambda>(type, buf, iv). (type, buf)) ms, r', []) \<and>
        tls_xread_record config uninit r' [] = Inr (0, r'', [])" if cat: "concat ps = bytes" and ps: "[] \<notin> set ps" for ps
  proof -
    have "buffered r @ concat ps = bytes @ []" using cat assms(4) by simp
    then obtain r' ps' where r': "read_all config uninit r (length ms) (map Some ps) = Inr (map (\<lambda>(type, buf, iv). (type, buf)) ms, r', map Some ps')"
      "buffered r' @ concat ps' = []" "[] \<notin> set ps'"
      using get ps by blast
    then have "ps' = []" by (cases ps') auto
    then show ?thesis using r' read_end [of r' config uninit] by auto
  qed
  then show ?thesis using w' by blast
qed

theorem records_roundtrip_witness:
  "\<exists>w' bytes. write_all example_config example_pre example_state [(23, [1, 2, 3], replicate 16 0), (23, [4], replicate 16 1)] = Inr (w', bytes) \<and>
    (\<forall>ps. concat ps = bytes \<and> [] \<notin> set ps \<longrightarrow>
      (\<exists>r' r''. read_all example_config [] example_state 2 (map Some ps) = Inr ([(23, [1, 2, 3]), (23, [4])], r', []) \<and>
        tls_xread_record example_config [] r' [] = Inr (0, r'', [])))"
proof -
  let ?ms = "[(23, [1, 2, 3], replicate 16 0), (23, [4], replicate 16 1)]"
  have "\<forall>m \<in> set ?ms. sendable example_state m"
    by (simp add: sendable_def TLS_MAX_OUTBUF_def RECORD_TYPE_ALERT_def RECORD_TYPE_HANDSHAKE_def)
  from records_roundtrip [OF example_channel this, of "[]"] show ?thesis
    by (simp add: numeral_2_eq_2 del: read_all.simps write_all.simps)
qed

section \<open>Arbitrary input\<close>

text \<open>Whatever arrives, the reader keeps to its buffer and to the record; what a record is needs before
  encryption has no bound, and after it the one the client sets.\<close>

definition reader_ok :: "tls_config \<Rightarrow> tls_state \<Rightarrow> bool" where
  "reader_ok config r \<longleftrightarrow> buf_ok r \<and> (min_encrypted_len_on_read r = 0 \<or> suite_ok config r \<and>
     min_encrypted_len_on_read r = min_encrypted_len_on_read (set_min_encrypted_len config r))"

lemma reader_min_len:
  "reader_ok config r \<Longrightarrow> min_encrypted_len_on_read r \<noteq> 0 \<Longrightarrow>
     (flags r AND ENCRYPTION_AESGCM \<noteq> 0 \<longrightarrow> min_encrypted_len_on_read r = 24) \<and>
     (min_encrypted_len_on_read r > TLS_MAC_SIZE config r \<longrightarrow> flags r AND ENCRYPTION_AESGCM = 0 \<longrightarrow> min_encrypted_len_on_read r = 48)"
  by (auto simp: reader_ok_def suite_ok_def set_min_encrypted_len_def AES_BLOCK_SIZE_def TLS_MAC_SIZE_def SHA256_OUTSIZE_def Let_def split: if_splits)

lemma fill_loop_bounds:
  "length (inbuf tls) \<le> inbuf_size tls \<Longrightarrow> inbuf_size tls \<le> MAX_INBUF \<Longrightarrow> target \<le> MAX_INBUF \<Longrightarrow>
   (case fill_loop tls target ifd of Inl stop \<Rightarrow> stop = Die
    | Inr (tls', t, ifd') \<Rightarrow> \<exists>b n. tls' = tls\<lparr>inbuf := b, inbuf_size := n\<rparr> \<and> length b \<le> n \<and> n \<le> MAX_INBUF)"
proof (induction tls target ifd rule: fill_loop.induct)
  case (1 tls target ifd)
  show ?case
  proof (cases "find_target tls target")
    case None
    then show ?thesis by (simp add: fill_loop.simps)
  next
    case (Some t)
    have t: "t \<le> MAX_INBUF" using Some 1(4) by (auto simp: find_target_def Let_def split: if_splits)
    show ?thesis
    proof (cases "t \<le> length (inbuf tls)")
      case True
      then show ?thesis using Some 1(2,3)
        by (subst fill_loop.simps) (auto intro!: exI [of _ "inbuf tls"] exI [of _ "inbuf_size tls"])
    next
      case False
      obtain n where n: "grow_inbuf tls = tls\<lparr>inbuf_size := n\<rparr>" "length (inbuf tls) < n" "n \<le> MAX_INBUF"
        using grow_inbuf_room [OF _ 1(2,3)] False t by (metis linorder_not_le order_less_le_trans)
      obtain res ifd1 where r: "safe_read ifd (n - length (inbuf tls)) = (res, ifd1)" by fastforce
      consider "res = None" | "res = Some []" | bytes where "res = Some bytes" "bytes \<noteq> []" by (cases res) auto
      then show ?thesis
      proof cases
        case 3
        let ?tls = "tls\<lparr>inbuf_size := n, inbuf := inbuf tls @ bytes\<rparr>"
        have "length bytes \<le> n - length (inbuf tls)"
          using r 3(1) by (cases "(ifd, n - length (inbuf tls))" rule: safe_read.cases) auto
        then have "length (inbuf ?tls) \<le> inbuf_size ?tls" "inbuf_size ?tls \<le> MAX_INBUF" using n(2,3) by auto
        moreover have "fill_loop tls target ifd = fill_loop ?tls t ifd1"
          using Some False n r 3 by (subst fill_loop.simps) (simp add: Let_def)
        moreover have "case fill_loop ?tls t ifd1 of Inl stop \<Rightarrow> stop = Die
            | Inr (tls', t, ifd') \<Rightarrow> \<exists>b n. tls' = ?tls\<lparr>inbuf := b, inbuf_size := n\<rparr> \<and> length b \<le> n \<and> n \<le> MAX_INBUF"
          using 1(1) [OF Some False refl refl _ _ _ _ _ t] r 3 n(1) calculation(1,2)
          by (simp split: sum.splits prod.splits)
        ultimately show ?thesis by (auto split: sum.splits prod.splits)
      next
        case 2
        have "\<exists>b m. tls\<lparr>inbuf_size := n\<rparr> = tls\<lparr>inbuf := b, inbuf_size := m\<rparr> \<and> length b \<le> m \<and> m \<le> MAX_INBUF"
          using n(2,3) by (intro exI [of _ "inbuf tls"] exI [of _ n]) simp
        then show ?thesis using Some False n r 2 by (simp add: fill_loop.simps [of tls] Let_def)
      qed (use Some False n r in \<open>simp add: fill_loop.simps [of tls] Let_def\<close>)
    qed
  qed
qed

lemma fetch_record_bounds:
  assumes "buf_ok r"
  shows "case fetch_record r ifd of Inl stop \<Rightarrow> stop = Die
    | Inr (r', rec, ifd') \<Rightarrow> \<exists>b n k i. r' = r\<lparr>inbuf := b, inbuf_size := n, buffered_size := k, ofs_to_buffered := i\<rparr> \<and> buf_ok r' \<and>
        (rec \<longrightarrow> RECHDR_LEN \<le> i \<and> i \<le> length b)"
proof -
  let ?r = "r\<lparr>inbuf := take (buffered_size r) (drop (ofs_to_buffered r) (inbuf r))\<rparr>"
  have "length (inbuf ?r) \<le> inbuf_size ?r" "inbuf_size ?r \<le> MAX_INBUF" using assms by (auto simp: buf_ok_def)
  note f = fill_loop_bounds [OF this order.refl, of ifd]
  show ?thesis
  proof (cases "fill_loop ?r MAX_INBUF ifd")
    case (Inl stop)
    then show ?thesis using f by (simp add: fetch_record_def)
  next
    case (Inr res)
    obtain tls t ifd' where res: "res = (tls, t, ifd')" by (metis prod_cases3)
    obtain b n where b: "tls = ?r\<lparr>inbuf := b, inbuf_size := n\<rparr>" "length b \<le> n" "n \<le> MAX_INBUF" using f by (auto simp: Inr res)
    note l = fill_loop_total [OF Inr [unfolded res]]
    show ?thesis
    proof (cases t)
      case None
      then show ?thesis using b
        by (simp add: fetch_record_def Inr res buf_ok_def buffered_def)
          (rule exI [of _ b], rule exI [of _ n], rule exI [of _ 0], rule exI [of _ "ofs_to_buffered r"], simp)
    next
      case (Some i)
      have "i \<le> length b" "RECHDR_LEN \<le> i" using l b(1) Some by (auto simp: RECHDR_LEN_def MAX_INBUF_def)
      then show ?thesis using b Some
        by (simp add: fetch_record_def Inr res buf_ok_def buffered_def)
          (rule exI [of _ b], rule exI [of _ n], rule exI [of _ "length b - i"], rule exI [of _ i], simp)
    qed
  qed
qed

lemma cbc_decrypt_loop_total:
  "16 dvd length ct \<Longrightarrow> \<exists>pt. cbc_decrypt_loop aes iv2 iv3 at2 ct = Some pt \<and> length pt = length ct"
proof (induction ct arbitrary: iv2 iv3 at2 rule: measure_induct_rule [where f = length])
  case (less ct)
  show ?case
  proof (cases "ct = []")
    case True
    then show ?thesis by (simp add: cbc_decrypt_loop.simps)
  next
    case False
    then have "\<not> length ct < 16" "16 dvd length (drop 16 ct)" using less.prems by (auto dest: dvd_imp_le)
    then have b: "length (take 16 ct) = 16" "length (drop 16 ct) < length ct" "16 dvd length (drop 16 ct)" by simp_all
    obtain pt where pt: "cbc_decrypt_loop aes (if at2 then iv2 else take 16 ct) (if at2 then take 16 ct else iv3) (\<not> at2) (drop 16 ct) = Some pt"
      "length pt = length (drop 16 ct)"
      using less.IH [OF b(2,3)] by blast
    from cbc_decrypt_step [OF b(1), of aes iv2 iv3 at2 "drop 16 ct"] pt b(1) show ?thesis by simp
  qed
qed

lemma memcpy_tail:
  "n + length src \<le> m \<Longrightarrow> m \<le> length b \<Longrightarrow> length (memcpy b n src) = length b \<and> drop m (memcpy b n src) = drop m b"
  by (simp add: memcpy_def)

lemma length_gcm_counter_le: "length (gcm_counter aes nonce cnt buf) \<le> length buf"
proof (induction aes nonce cnt buf rule: gcm_counter.induct)
  case (1 aes nonce cnt buf)
  show ?case
  proof (cases "buf = []")
    case False
    let ?n = "if length buf > AES_BLOCK_SIZE then AES_BLOCK_SIZE else length buf"
    have "length (gcm_counter aes nonce (cnt + 1) (drop ?n buf)) \<le> length (drop ?n buf)"
      using 1 False by simp
    then show ?thesis using False by (subst gcm_counter.simps) (auto simp: Let_def)
  qed (simp add: gcm_counter.simps)
qed

text \<open>Decryption changes nothing but the contents of the record.\<close>

lemma decrypt_record_bounds:
  assumes "reader_ok config r" "RECHDR_LEN + sz \<le> length (inbuf r)"
  shows "case decrypt_record config uninit r sz of Inl stop \<Rightarrow> stop = Die
    | Inr (r', n) \<Rightarrow> n \<le> int sz \<and> (\<exists>b. r' = r\<lparr>inbuf := b\<rparr> \<and> length b = length (inbuf r) \<and>
        drop (RECHDR_LEN + sz) b = drop (RECHDR_LEN + sz) (inbuf r))"
proof -
  let ?min = "min_encrypted_len_on_read r" and ?p = "drop RECHDR_LEN (inbuf r)"
  have same: "\<exists>b. r = r\<lparr>inbuf := b\<rparr> \<and> length b = length (inbuf r) \<and> drop (RECHDR_LEN + sz) b = drop (RECHDR_LEN + sz) (inbuf r)"
    by (intro exI [of _ "inbuf r"]) simp
  have moved: "\<exists>b. r\<lparr>inbuf := memcpy (inbuf r) RECHDR_LEN x\<rparr> = r\<lparr>inbuf := b\<rparr> \<and> length b = length (inbuf r) \<and>
      drop (RECHDR_LEN + sz) b = drop (RECHDR_LEN + sz) (inbuf r)" if "length x \<le> sz" for x
    using memcpy_tail [of RECHDR_LEN x "RECHDR_LEN + sz" "inbuf r"] that assms(2) by auto
  consider "?min = 0" | "?min \<noteq> 0" "sz < ?min" | "?min \<noteq> 0" "?min \<le> sz" "flags r AND ENCRYPTION_AESGCM \<noteq> 0"
    | "?min \<noteq> 0" "?min \<le> sz" "flags r AND ENCRYPTION_AESGCM = 0" "TLS_MAC_SIZE config r < ?min"
    | "?min \<noteq> 0" "?min \<le> sz" "flags r AND ENCRYPTION_AESGCM = 0" "\<not> TLS_MAC_SIZE config r < ?min"
    by linarith
  then show ?thesis
  proof cases
    case 3
    let ?plain = "tls_aesgcm_decrypt r ?p (sz - 24)"
    have "24 \<le> sz" using reader_min_len [OF assms(1) 3(1)] 3 by simp
    moreover have "length ?plain \<le> sz"
      using order_trans [OF length_gcm_counter_le, of "take (sz - 24) (drop 8 ?p)"] by (simp add: tls_aesgcm_decrypt_def Let_def)
    ultimately show ?thesis using 3 moved [of ?plain] by (simp add: decrypt_record_def Let_def AES_BLOCK_SIZE_def)
  next
    case 4
    then have m: "?min = 48" using reader_min_len [OF assms(1) 4(1)] by simp
    show ?thesis
    proof (cases "sz mod 16 = 0")
      case True
      let ?ct = "take (sz - 16) (drop 16 ?p)"
      have l: "length ?ct = sz - 16" using assms(2) m 4(2) by simp
      moreover have "16 dvd sz - 16" using True by (simp add: dvd_minus_self flip: dvd_eq_mod_eq_0)
      ultimately obtain plain where plain: "aes_cbc_decrypt (aes_decrypt r) (take 16 ?p) uninit ?ct = Some plain" "length plain = sz - 16"
        using cbc_decrypt_loop_total [of ?ct] unfolding aes_cbc_decrypt_def by metis
      have l16: "length (take 16 ?p) = 16" using assms(2) m 4(2) by simp
      have len: "length (take 16 ?p @ ?ct) = sz" using l l16 m 4(2) by simp
      have p: "?p = take 16 ?p @ ?ct @ drop (sz - 16) (drop 16 ?p)" by (simp only: append_take_drop_id)
      have "16 dvd length ?ct" "32 \<le> length ?ct" unfolding l using True m 4(2) by (simp_all add: dvd_minus_self flip: dvd_eq_mod_eq_0)
      have "TLS_MAC_SIZE config r < 48" using m 4(4) by simp
      from decrypt_record_cbc [OF m 4(3) this p l16 \<open>16 dvd length ?ct\<close> \<open>32 \<le> length ?ct\<close> plain(1) refl]
      obtain y where "decrypt_record config uninit r sz = Inr (r\<lparr>inbuf := memcpy (inbuf r) RECHDR_LEN plain\<rparr>, int (length ?ct) - int y)"
        unfolding len by blast
      then show ?thesis using moved [of plain] plain(2) l by simp
    qed (use 4 in \<open>simp add: decrypt_record_def Let_def AES_BLOCK_SIZE_def\<close>)
  qed (use same in \<open>simp_all add: decrypt_record_def Let_def AES_BLOCK_SIZE_def\<close>)
qed

lemma reader_ok_update:
  "reader_ok config r \<Longrightarrow> buf_ok (r\<lparr>inbuf := b, inbuf_size := n, buffered_size := k, ofs_to_buffered := i, hsd := h\<rparr>) \<Longrightarrow>
   reader_ok config (r\<lparr>inbuf := b, inbuf_size := n, buffered_size := k, ofs_to_buffered := i, hsd := h\<rparr>)"
  unfolding reader_ok_def suite_ok_def set_min_encrypted_len_def TLS_MAC_SIZE_def Let_def
  by (auto split: if_splits)

definition only_input :: "tls_state \<Rightarrow> tls_state \<Rightarrow> bool" where
  "only_input r r' \<longleftrightarrow> (\<exists>b n k i h. r' = r\<lparr>inbuf := b, inbuf_size := n, buffered_size := k, ofs_to_buffered := i, hsd := h\<rparr>)"

lemma only_input_trans: "only_input r r1 \<Longrightarrow> only_input r1 r' \<Longrightarrow> only_input r r'"
  by (cases r) (auto simp: only_input_def)

definition read_ok :: "tls_config \<Rightarrow> tls_state \<Rightarrow> nat \<Rightarrow> tls_state \<Rightarrow> bool" where
  "read_ok config r sz r' \<longleftrightarrow> reader_ok config r' \<and> (sz = 0 \<or> RECHDR_LEN + sz \<le> length (inbuf r')) \<and>
     (hsd r' = None \<longleftrightarrow> hsd r = None) \<and>
     only_input r r'"

lemma read_ok_trans: "read_ok config r sz r1 \<Longrightarrow> read_ok config r1 sz' r' \<Longrightarrow> read_ok config r sz' r'"
  using only_input_trans [of r r1 r'] by (simp add: read_ok_def)

lemma read_one_bounds:
  assumes "reader_ok config r"
  shows "case read_one config uninit r ifd of
      Inl stop \<Rightarrow> stop = Die \<or> stop = Null_dereference \<and> hsd r = None
    | Inr (Inl (sz, r', ifd')) \<Rightarrow> read_ok config r sz r'
    | Inr (Inr (r', ifd')) \<Rightarrow> read_ok config r 0 r'"
proof (cases "fetch_record r ifd")
  case (Inl stop)
  then show ?thesis using fetch_record_bounds [of r ifd] assms by (simp add: read_one_def reader_ok_def)
next
  case (Inr res)
  obtain r1 rec ifd1 where res: "res = (r1, rec, ifd1)" by (metis prod_cases3)
  obtain b n k i where r1: "r1 = r\<lparr>inbuf := b, inbuf_size := n, buffered_size := k, ofs_to_buffered := i\<rparr>" "buf_ok r1"
    and i: "rec \<Longrightarrow> RECHDR_LEN \<le> i \<and> i \<le> length b"
    using fetch_record_bounds [of r ifd] assms by (auto simp: Inr res reader_ok_def)
  have ok1: "reader_ok config r1"
    using reader_ok_update [OF assms, where b = b and n = n and k = k and i = i and h = "hsd r"] r1 by simp
  show ?thesis
  proof (cases rec)
    case False
    have "only_input r r1"
      unfolding only_input_def using r1(1) by (intro exI [of _ b] exI [of _ n] exI [of _ k] exI [of _ i] exI [of _ "hsd r"]) simp
    then show ?thesis using ok1 r1(1) False by (simp add: read_one_def Inr res read_ok_def)
  next
    case True
    let ?sz = "i - RECHDR_LEN"
    have sz: "RECHDR_LEN + ?sz = i" "i \<le> length (inbuf r1)" "ofs_to_buffered r1 = i" using i [OF True] r1(1) by auto
    note d = decrypt_record_bounds [OF ok1, of ?sz uninit, unfolded sz(1), OF sz(2)]
    show ?thesis
    proof (cases "decrypt_record config uninit r1 ?sz")
      case (Inl stop)
      then show ?thesis using d True by (simp add: read_one_def Inr res sz(3))
    next
      case dec: (Inr res2)
      obtain r2 m where res2: "res2 = (r2, m)" by fastforce
      obtain c where c: "r2 = r1\<lparr>inbuf := c\<rparr>" "length c = length (inbuf r1)" "drop i c = drop i (inbuf r1)" "m \<le> int ?sz"
        using d by (auto simp: dec res2)
      have "buffered r2 = buffered r1" using c sz(3) by (simp add: buffered_def)
      then have buf: "buf_ok r2" using r1(2) c by (simp add: buf_ok_def)
      have ok: "read_ok config r s (r2\<lparr>hsd := h\<rparr>)" if "s \<le> ?sz" "h = None \<longleftrightarrow> hsd r = None" for s h
      proof -
        have "reader_ok config (r2\<lparr>hsd := h\<rparr>)"
          using reader_ok_update [OF ok1, where b = c and n = n and k = k and i = i and h = h] buf r1(1) c(1)
          by (cases r) (simp add: buf_ok_def buffered_def)
        moreover have "only_input r (r2\<lparr>hsd := h\<rparr>)"
          unfolding only_input_def
          by (rule exI [of _ c], rule exI [of _ n], rule exI [of _ k], rule exI [of _ i], rule exI [of _ h]) (cases r, simp add: c(1) r1(1))
        ultimately show ?thesis using that sz c(2) by (simp add: read_ok_def c(1))
      qed
      have h2: "hsd r2 = hsd r" using c(1) r1(1) by simp
      have ok2: "read_ok config r s r2" if "s \<le> ?sz" for s
        using ok [OF that, of "hsd r"] h2 by (metis (no_types, lifting) tls_state.surjective tls_state.update_convs(11))
      show ?thesis
      proof (cases "m < 0")
        case True
        then show ?thesis using \<open>rec\<close> by (simp add: read_one_def Inr res sz(3) dec res2)
      next
        case False
        then have m: "nat m \<le> ?sz" using c(4) by simp
        show ?thesis using \<open>rec\<close> False ok2 [of 0] ok2 [OF m] ok [OF m] h2
          by (auto simp: read_one_def Inr res sz(3) dec res2 handle_record_def hash_handshake_def Let_def split: option.splits)
      qed
    qed
  qed
qed

lemma read_record_bounds:
  assumes "reader_ok config r"
  shows "case tls_xread_record config uninit r ifd of
      Inl stop \<Rightarrow> stop = Die \<or> stop = Null_dereference \<and> hsd r = None
    | Inr (sz, r', ifd') \<Rightarrow> read_ok config r sz r'"
  using assms
proof (induction config uninit r ifd rule: tls_xread_record.induct)
  case (1 config uninit r ifd)
  note one = read_one_bounds [OF 1(2), of uninit ifd]
  show ?case
  proof (cases "read_one config uninit r ifd")
    case (Inl stop)
    then show ?thesis using one by (simp add: tls_xread_record.simps [of _ _ r])
  next
    case res: (Inr res)
    show ?thesis
    proof (cases res)
      case (Inl fin)
      then show ?thesis using one by (simp add: tls_xread_record.simps [of _ _ r] res split: prod.splits)
    next
      case (Inr again)
      obtain r1 ifd1 where again: "again = (r1, ifd1)" by fastforce
      have r1: "reader_ok config r1" "hsd r1 = None \<longleftrightarrow> hsd r = None" using one by (simp_all add: res Inr again read_ok_def)
      have "read_ok config r sz r'" if "read_ok config r1 sz r'" for sz r'
        by (rule read_ok_trans [OF _ that, of r 0]) (use one in \<open>simp add: res Inr again\<close>)
      then show ?thesis
        using 1(1) [OF res Inr again [symmetric] r1(1)] r1(2) by (simp add: tls_xread_record.simps [of _ _ r] res Inr again split: sum.splits prod.splits)
    qed
  qed
qed

text \<open>C10: whatever the connection delivers, cut in any way and with errors anywhere, reading a record
  never leaves the input buffer, which never outgrows \<open>MAX_INBUF\<close>: the outcome is an error message,
  or a record whose contents lie in the buffer, with the invariant of the buffer kept for the
  next call and nothing changed but the buffer and the handshake data; a null pointer is used only
  if the handshake data has been freed.\<close>

theorem read_record_safe:
  assumes "reader_ok config r"
  shows "case tls_xread_record config uninit r ifd of
      Inl stop \<Rightarrow> stop = Die \<or> stop = Null_dereference \<and> hsd r = None
    | Inr (sz, r', ifd') \<Rightarrow> read_ok config r sz r'"
  using assms by (rule read_record_bounds)

theorem read_record_safe_witness:
  "case tls_xread_record example_config [] example_state [Some [22, 3, 3, 0, 40], None] of
      Inl stop \<Rightarrow> stop = Die \<or> stop = Null_dereference \<and> hsd example_state = None
    | Inr (sz, r', ifd') \<Rightarrow> read_ok example_config example_state sz r'"
proof (rule read_record_safe)
  show "reader_ok example_config example_state" using example_channel unfolding reader_ok_def channel_def by blast
qed

text \<open>C36: after the handshake its data is freed (\<open>tls->hsd = NULL\<close> at the end of \<open>tls_handshake\<close>); a peer that
  then sends a handshake message, such as the HelloRequest of RFC 5246 or a new session ticket,
  makes \<open>hash_handshake\<close> use the null pointer.\<close>

theorem handshake_record_null_dereference:
  assumes "channel config w r" "pre_ok pre" "buf_ok r" "buffered r = []" "hsd r = None" "length buf \<le> 2 ^ 14" "length iv = 16"
  shows "\<exists>w' bytes. xwrite_encrypted config pre iv w buf RECORD_TYPE_HANDSHAKE = Inr (w', bytes) \<and>
    tls_xread_record config uninit r [Some bytes] = Inl Null_dereference"
proof -
  have t: "RECORD_TYPE_HANDSHAKE \<noteq> RECORD_TYPE_ALERT" by (simp add: RECORD_TYPE_HANDSHAKE_def RECORD_TYPE_ALERT_def)
  obtain bytes where bytes: "xwrite_encrypted config pre iv w buf RECORD_TYPE_HANDSHAKE = Inr (w\<lparr>write_seq64_be := next_seq (write_seq64_be w)\<rparr>, bytes)"
      "bytes \<noteq> []"
    and "\<And>ps rest. buffered r @ concat ps = bytes @ rest \<Longrightarrow> [] \<notin> set ps \<Longrightarrow> RECORD_TYPE_HANDSHAKE = RECORD_TYPE_HANDSHAKE \<Longrightarrow> hsd r = None \<Longrightarrow>
       tls_xread_record config uninit r (map Some ps) = Inl Null_dereference"
    using read_written [OF assms(1,2,6,7,3) t, of uninit] by metis
  from this(3) [of "[bytes]" "[]"] show ?thesis using bytes assms(4,5) by auto
qed

theorem handshake_record_null_dereference_witness:
  "\<exists>w' bytes. xwrite_encrypted example_config example_pre (replicate 16 0) example_state [0, 0, 0, 0] RECORD_TYPE_HANDSHAKE = Inr (w', bytes) \<and>
    tls_xread_record example_config [] example_state [Some bytes] = Inl Null_dereference"
  by (rule handshake_record_null_dereference [OF example_channel]) (simp_all add: example_state_def)

end
