(* ===== verification/TlsHandshake.thy ===== *)
theory TlsHandshake imports TlsRecord Fe25519 begin

text \<open>
  \<open>networking/tls.c\<close>: the handshake of the TLS 1.2 client: its messages, the DER parser that finds the
  server's key in its certificate, the key schedule, and the switch to encryption; and the loop
  that copies data both ways afterwards.

  A pointer into a buffer is the memory from there to the end of the allocation, and with it the
  number of bytes to the end the code keeps.  The bytes of the input buffer's allocation behind what
  has been read are \<open>spare\<close>.  The random bytes are arguments, and so is the RSA encryption of
  \<open>tls_rsa.c\<close>, whose failure is not modelled.
\<close>

section \<open>Constants and state\<close>

definition RECORD_TYPE_CHANGE_CIPHER_SPEC :: u8 where "RECORD_TYPE_CHANGE_CIPHER_SPEC = 20"
definition HANDSHAKE_CLIENT_HELLO :: u8 where "HANDSHAKE_CLIENT_HELLO = 1"
definition HANDSHAKE_SERVER_HELLO :: u8 where "HANDSHAKE_SERVER_HELLO = 2"
definition HANDSHAKE_CERTIFICATE :: u8 where "HANDSHAKE_CERTIFICATE = 11"
definition HANDSHAKE_SERVER_KEY_EXCHANGE :: u8 where "HANDSHAKE_SERVER_KEY_EXCHANGE = 12"
definition HANDSHAKE_CERTIFICATE_REQUEST :: u8 where "HANDSHAKE_CERTIFICATE_REQUEST = 13"
definition HANDSHAKE_SERVER_HELLO_DONE :: u8 where "HANDSHAKE_SERVER_HELLO_DONE = 14"
definition HANDSHAKE_CLIENT_KEY_EXCHANGE :: u8 where "HANDSHAKE_CLIENT_KEY_EXCHANGE = 16"
definition HANDSHAKE_FINISHED :: u8 where "HANDSHAKE_FINISHED = 20"
definition AES128_KEYSIZE :: nat where "AES128_KEYSIZE = 16"
definition AES256_KEYSIZE :: nat where "AES256_KEYSIZE = 32"
definition CURVE25519_KEYSIZE :: nat where "CURVE25519_KEYSIZE = 32"
definition SHA1_OUTSIZE :: nat where "SHA1_OUTSIZE = 20"
definition NEED_EC_KEY :: u32 where "NEED_EC_KEY = push_bit 0 1"
definition GOT_CERT_RSA_KEY_ALG :: u32 where "GOT_CERT_RSA_KEY_ALG = push_bit 1 1"
definition GOT_EC_KEY :: u32 where "GOT_EC_KEY = push_bit 3 1"
definition ENCRYPT_ON_WRITE :: u32 where "ENCRYPT_ON_WRITE = push_bit 5 1"

text \<open>A connection: the state with what its two descriptors stand for, the bytes still to come and
  the bytes written.\<close>

record tls_conn =
  conn_tls :: tls_state
  conn_ifd :: stream
  conn_ofd :: "u8 list"

text \<open>What the code takes from elsewhere: the build options, memory it has not written, random bytes,
  and the RSA encryption.\<close>

record tls_env =
  env_config :: tls_config
  env_pre :: hmac_precomputed
  env_uninit :: "u8 list"
  env_spare :: "tls_state \<Rightarrow> u8 list"
  hello_random :: "u8 list"
  premaster_random :: "u8 list"
  privkey_random :: "u8 list"
  iv_random :: "u8 list"
  psRsaEncryptPub :: "psRsaKey \<Rightarrow> u8 list \<Rightarrow> u8 list"

definition and_then :: "'e + 'a \<Rightarrow> ('a \<Rightarrow> 'e + 'b) \<Rightarrow> 'e + 'b" where
  "and_then r f = (case r of Inl stop \<Rightarrow> Inl stop | Inr x \<Rightarrow> f x)"

lemma and_then_simps [simp]: "and_then (Inl stop) f = Inl stop" "and_then (Inr x) f = f x"
  by (simp_all add: and_then_def)

lemma and_then_Inr: "and_then r f = Inr y \<longleftrightarrow> (\<exists>x. r = Inr x \<and> f x = Inr y)"
  by (cases r) simp_all

section \<open>DER\<close>

definition get24be :: "u8 list \<Rightarrow> nat" where
  "get24be p = 0x100 * (0x100 * unat (p ! 0) + unat (p ! 1)) + unat (p ! 2)"

text \<open>The length of an item, its body, and the bytes from there to the end.\<close>

definition get_der_len :: "u8 list \<Rightarrow> nat \<Rightarrow> tls_stop + (nat \<times> u8 list \<times> nat)" where
  "get_der_len der n =
     (if n < 2 then Inl Die
      else
        let len = unat (der ! 1) in
        and_then
          (if len \<ge> 0x80 then
             if len = 0x80 \<or> n < len - 0x7e then Inl Die
             else if len > 0x82 then Inl Die
             else
               let len1 = unat (der ! 2) in
               if len = 0x82 then Inr (0x100 * len1 + unat (der ! 3), 4) else Inr (len1, 3)
           else Inr (len, 2))
          (\<lambda>(len, k). if n - k < len then Inl Die else Inr (len, drop k der, n - k)))"

definition enter_der_item :: "u8 list \<Rightarrow> nat \<Rightarrow> tls_stop + (u8 list \<times> nat)" where
  "enter_der_item der n = and_then (get_der_len der n) (\<lambda>(len, new_der, _). Inr (new_der, len))"

definition skip_der_item :: "u8 list \<Rightarrow> nat \<Rightarrow> tls_stop + (u8 list \<times> nat)" where
  "skip_der_item der n = and_then (get_der_len der n) (\<lambda>(len, new_der, m). Inr (drop len new_der, m - len))"

text \<open>The bytes of a number, which the code reads into a big number.\<close>

definition der_binary_to_pstm :: "u8 list \<Rightarrow> nat \<Rightarrow> tls_stop + u8 list" where
  "der_binary_to_pstm der n = and_then (get_der_len der n) (\<lambda>(len, bin_ptr, _). Inr (take len bin_ptr))"

definition OID_RSA_KEY_ALG :: "u8 list" where
  "OID_RSA_KEY_ALG = [0x30,0x0d, 0x06,0x09, 0x2a,0x86,0x48,0x86,0xf7,0x0d,0x01,0x01,0x01]"

definition OID_ECDSA_KEY_ALG :: "u8 list" where
  "OID_ECDSA_KEY_ALG = [0x30,0x13, 0x06,0x07, 0x2a,0x86,0x48,0xce,0x3d,0x02,0x01]"

definition memcmp_eq :: "u8 list \<Rightarrow> u8 list \<Rightarrow> tls_stop + bool" where
  "memcmp_eq p q = (if length p < length q then Inl Overrun else Inr (take (length q) p = q))"

text \<open>From the end of the key's algorithm on.\<close>

definition parse_rsa_key :: "tls_state \<Rightarrow> u8 list \<Rightarrow> nat \<Rightarrow> tls_stop + tls_state" where
  "parse_rsa_key tls der n =
     and_then (skip_der_item der n) (\<lambda>(der, n).
     and_then (enter_der_item der n) (\<lambda>(der, n).
     if n < 14 then Inl Die
     else if der ! 0 \<noteq> 0 then Inl Die
     else
       and_then (enter_der_item (drop 1 der) (n - 1)) (\<lambda>(der, n).
       and_then (der_binary_to_pstm der n) (\<lambda>modulus.
       and_then (skip_der_item der n) (\<lambda>(der, n).
       and_then (der_binary_to_pstm der n) (\<lambda>exponent.
       case hsd tls of
         None \<Rightarrow> Inl Null_dereference
       | Some d \<Rightarrow> Inr (tls\<lparr>hsd := Some (d\<lparr>server_rsa_pub_key := \<lparr>rsa_N = modulus, rsa_e = exponent\<rparr>\<rparr>)\<rparr>)))))))"

text \<open>From the certificate to the contents of the subject's public key information.\<close>

definition subject_key_info :: "u8 list \<Rightarrow> nat \<Rightarrow> tls_stop + (u8 list \<times> nat)" where
  "subject_key_info der n =
     and_then (enter_der_item der n) (\<lambda>(der, n).
     and_then (enter_der_item der n) (\<lambda>(der, n).
     if der = [] then Inl Overrun
     else
       and_then (if der ! 0 = 0xa0 then skip_der_item der n else Inr (der, n)) (\<lambda>(der, n).
       and_then (skip_der_item der n) (\<lambda>(der, n).
       and_then (skip_der_item der n) (\<lambda>(der, n).
       and_then (skip_der_item der n) (\<lambda>(der, n).
       and_then (skip_der_item der n) (\<lambda>(der, n).
       and_then (skip_der_item der n) (\<lambda>(der, n).
       enter_der_item der n))))))))"

definition key_algorithm :: "tls_state \<Rightarrow> u8 list \<Rightarrow> tls_stop + tls_state" where
  "key_algorithm tls der =
     and_then (memcmp_eq der OID_RSA_KEY_ALG) (\<lambda>rsa.
       if rsa then Inr (tls\<lparr>flags := flags tls OR GOT_CERT_RSA_KEY_ALG\<rparr>)
       else and_then (memcmp_eq der OID_ECDSA_KEY_ALG) (\<lambda>ecdsa. if ecdsa then Inr tls else Inl Die))"

definition find_key_in_der_cert :: "tls_state \<Rightarrow> u8 list \<Rightarrow> nat \<Rightarrow> tls_stop + tls_state" where
  "find_key_in_der_cert tls der len =
     and_then (subject_key_info der len) (\<lambda>(der, n).
     and_then (key_algorithm tls der) (\<lambda>tls.
     if flags tls AND GOT_CERT_RSA_KEY_ALG \<noteq> 0 then parse_rsa_key tls der n else Inr tls))"

section \<open>Messages\<close>

definition xwrite :: "tls_conn \<Rightarrow> u8 list \<Rightarrow> tls_conn" where
  "xwrite conn bytes = conn\<lparr>conn_ofd := conn_ofd conn @ bytes\<rparr>"

definition xread_record :: "tls_env \<Rightarrow> tls_conn \<Rightarrow> tls_stop + (nat \<times> tls_conn)" where
  "xread_record env conn =
     and_then (tls_xread_record (env_config env) (env_uninit env) (conn_tls conn) (conn_ifd conn))
       (\<lambda>(len, tls, ifd). Inr (len, conn\<lparr>conn_tls := tls, conn_ifd := ifd\<rparr>))"

definition tls_xread_handshake_block :: "tls_env \<Rightarrow> tls_conn \<Rightarrow> nat \<Rightarrow> tls_stop + (nat \<times> tls_conn)" where
  "tls_xread_handshake_block env conn min_len =
     and_then (xread_record env conn) (\<lambda>(len, conn).
       if len < min_len \<or> inbuf (conn_tls conn) ! 0 \<noteq> RECORD_TYPE_HANDSHAKE then Inl Die else Inr (len, conn))"

text \<open>The header of a message whose length, with it, is \<open>len\<close>.\<close>

definition fill_handshake_record_hdr :: "u8 \<Rightarrow> nat \<Rightarrow> u8 list" where
  "fill_handshake_record_hdr type len =
     (let len = len - 4
      in [type, word_of_nat (len div 2 ^ 16), word_of_nat (len div 2 ^ 8), word_of_nat (len mod 256)])"

definition xwrite_handshake_record :: "tls_conn \<Rightarrow> u8 list \<Rightarrow> tls_conn" where
  "xwrite_handshake_record conn buf = xwrite conn (record_hdr RECORD_TYPE_HANDSHAKE (length buf) @ buf)"

definition xwrite_and_update_handshake_hash :: "tls_env \<Rightarrow> tls_conn \<Rightarrow> u8 list \<Rightarrow> tls_stop + tls_conn" where
  "xwrite_and_update_handshake_hash env conn buf =
     (if flags (conn_tls conn) AND ENCRYPT_ON_WRITE = 0 then
        let conn = xwrite_handshake_record conn buf
        in and_then (hash_handshake (env_config env) (conn_tls conn) buf) (\<lambda>tls. Inr (conn\<lparr>conn_tls := tls\<rparr>))
      else
        and_then (xwrite_encrypted (env_config env) (env_pre env) (iv_random env) (conn_tls conn) buf RECORD_TYPE_HANDSHAKE)
          (\<lambda>(tls, bytes). Inr (xwrite (conn\<lparr>conn_tls := tls\<rparr>) bytes)))"

definition NUM_CIPHERS :: "tls_config \<Rightarrow> nat" where
  "NUM_CIPHERS config = 7 + (if FEATURE_TLS_SHA1 config then 6 else 0) + (if ALLOW_RSA_NULL_SHA256 config then 1 else 0)"

definition ciphers :: "tls_config \<Rightarrow> u8 list" where
  "ciphers config =
     [0x00, word_of_nat (2 + NUM_CIPHERS config * 2), 0x00,0xFF]
     @ (if FEATURE_TLS_SHA1 config then [0xC0,0x09, 0xC0,0x0A, 0xC0,0x13, 0xC0,0x14] else [])
     @ [0xC0,0x23, 0xC0,0x27, 0xC0,0x2B, 0xC0,0x2F]
     @ (if FEATURE_TLS_SHA1 config then [0x00,0x2F, 0x00,0x35] else [])
     @ [0x00,0x3C, 0x00,0x3D, 0x00,0x9C]
     @ (if ALLOW_RSA_NULL_SHA256 config then [0x00,0x3B] else [])
     @ [0x01,0x00]"

definition supported_groups :: "u8 list" where
  "supported_groups = [0x00,0x0a, 0x00,0x04, 0x00,0x02, 0x00,0x1d]"

text \<open>The server name is cut to 122 characters.\<close>

definition client_hello :: "tls_config \<Rightarrow> u8 list \<Rightarrow> u8 list option \<Rightarrow> u8 list" where
  "client_hello config rand32 sni =
     (let name = (case sni of None \<Rightarrow> [] | Some s \<Rightarrow> take (127 - 5) s);
          sni_len = length name;
          ext_len = length supported_groups + (if sni_len \<noteq> 0 then 9 + sni_len else 0);
          len = 4 + 2 + 32 + 1 + 2 + (2 + NUM_CIPHERS config * 2) + 1 + 1 + 2 + ext_len
      in fill_handshake_record_hdr HANDSHAKE_CLIENT_HELLO len
         @ [TLS_MAJ, TLS_MIN] @ rand32 @ [0] @ ciphers config
         @ [word_of_nat (ext_len div 256), word_of_nat ext_len]
         @ (if sni_len \<noteq> 0 then
              [0, 0, 0, word_of_nat (sni_len + 5), 0, word_of_nat (sni_len + 3), 0, 0, word_of_nat sni_len] @ name
            else [])
         @ supported_groups)"

text \<open>\<open>xzalloc\<close>.\<close>

definition zeroed_ctx :: md5_ctx where
  "zeroed_ctx = \<lparr>wbuffer = replicate 64 0, process_block = md5_process, total64 = 0, hash = replicate 8 0\<rparr>"

definition zeroed_hsd :: tls_handshake_data where
  "zeroed_hsd = \<lparr>handshake_hash_ctx = zeroed_ctx, client_and_server_rand32 = replicate 64 0, master_secret = replicate 48 0,
     server_rsa_pub_key = \<lparr>rsa_N = [], rsa_e = []\<rparr>, ecc_pub_key32 = replicate 32 0\<rparr>"

definition send_client_hello_and_alloc_hsd :: "tls_env \<Rightarrow> tls_conn \<Rightarrow> u8 list option \<Rightarrow> tls_stop + tls_conn" where
  "send_client_hello_and_alloc_hsd env conn sni =
     (let rand32 = hello_random env;
          record = client_hello (env_config env) rand32 sni;
          d = zeroed_hsd;
          d = d\<lparr>client_and_server_rand32 := memcpy (client_and_server_rand32 d) 0 rand32\<rparr>;
          d = d\<lparr>handshake_hash_ctx := sha256_begin (handshake_hash_ctx d)\<rparr>;
          conn = conn\<lparr>conn_tls := (conn_tls conn)\<lparr>hsd := Some d\<rparr>\<rparr>
      in xwrite_and_update_handshake_hash env conn record)"

text \<open>The parameters of the cipher suite the server chose.\<close>

definition set_cipher_params :: "tls_config \<Rightarrow> tls_state \<Rightarrow> u8 \<Rightarrow> u8 \<Rightarrow> tls_state" where
  "set_cipher_params config tls cipherid0 cipherid1 =
     (let tls = tls\<lparr>cipher_id := 0x100 * ucast cipherid0 + ucast cipherid1, key_size := AES256_KEYSIZE, MAC_size := SHA256_OUTSIZE\<rparr> in
      if cipherid0 = 0xC0 then
        let tls = tls\<lparr>flags := flags tls OR NEED_EC_KEY\<rparr>;
            tls = (if cipherid1 AND 1 \<noteq> 0 then tls\<lparr>key_size := AES128_KEYSIZE\<rparr> else tls)
        in if FEATURE_TLS_SHA1 config \<and> cipherid1 \<le> 0x19 then tls\<lparr>MAC_size := SHA1_OUTSIZE\<rparr>
           else if cipherid1 \<ge> 0x2B \<and> cipherid1 \<le> 0x30 then
             tls\<lparr>flags := flags tls OR ENCRYPTION_AESGCM, MAC_size := 0, IV_size := 4\<rparr>
           else tls
      else
        let tls = (if FEATURE_TLS_SHA1 config \<and> cipherid1 = 0x2F \<or> cipherid1 = 0x3C \<or> cipherid1 = 0x9C
                   then tls\<lparr>key_size := AES128_KEYSIZE\<rparr> else tls)
        in if FEATURE_TLS_SHA1 config \<and> cipherid1 \<le> 0x35 then tls\<lparr>MAC_size := SHA1_OUTSIZE\<rparr>
           else if cipherid1 = 0x9C then
             tls\<lparr>flags := flags tls OR ENCRYPTION_AESGCM, MAC_size := 0, IV_size := 4\<rparr>
           else tls)"

text \<open>The message is read where the structure has its members; a server hello without a session
  identifier is 32 bytes shorter.\<close>

definition get_server_hello :: "tls_env \<Rightarrow> tls_conn \<Rightarrow> tls_stop + tls_conn" where
  "get_server_hello env conn =
     and_then (tls_xread_handshake_block env conn (74 - 32)) (\<lambda>(len, conn).
       let tls = conn_tls conn;
           hp = inbuf tls @ env_spare env tls
       in if hp ! 5 \<noteq> HANDSHAKE_SERVER_HELLO \<or> hp ! 6 \<noteq> 0 \<or> hp ! 7 \<noteq> 0 \<or> hp ! 9 \<noteq> TLS_MAJ \<or> hp ! 10 \<noteq> TLS_MIN then Inl Die
          else if hp ! 43 \<noteq> 32 \<and> hp ! 43 \<noteq> 0 then Inl Die
          else
            let (cipherid, len24) = (if hp ! 43 \<noteq> 32 then (76 - 32, unat (hp ! 8) + 32) else (76, unat (hp ! 8)))
            in if len24 < 70 then Inl Die
               else
                 case hsd tls of
                   None \<Rightarrow> Inl Null_dereference
                 | Some d \<Rightarrow>
                     if length hp < cipherid + 2 then Inl Overrun
                     else
                       let d = d\<lparr>client_and_server_rand32 := memcpy (client_and_server_rand32 d) 32 (take 32 (drop 11 hp))\<rparr>;
                           tls = set_cipher_params (env_config env) (tls\<lparr>hsd := Some d\<rparr>) (hp ! cipherid) (hp ! (cipherid + 1))
                       in Inr (conn\<lparr>conn_tls := tls\<rparr>))"

definition get_server_cert :: "tls_env \<Rightarrow> tls_conn \<Rightarrow> tls_stop + tls_conn" where
  "get_server_cert env conn =
     and_then (tls_xread_handshake_block env conn 10) (\<lambda>(len, conn).
       let tls = conn_tls conn;
           certbuf = drop RECHDR_LEN (inbuf tls @ env_spare env tls)
       in if certbuf ! 0 \<noteq> HANDSHAKE_CERTIFICATE then Inl Die
          else
            let len1 = get24be (drop 1 certbuf) in
            if int len1 > int len - 4 then Inl Die
            else
              let len = len1; len1 = get24be (drop 4 certbuf) in
              if int len1 > int len - 3 then Inl Die
              else
                let len = len1; len1 = get24be (drop 7 certbuf) in
                if int len1 > int len - 3 then Inl Die
                else if len1 \<noteq> 0 then
                  and_then (find_key_in_der_cert tls (drop 10 certbuf) len1) (\<lambda>tls. Inr (conn\<lparr>conn_tls := tls\<rparr>))
                else Inr conn)"

definition process_server_key :: "tls_state \<Rightarrow> nat \<Rightarrow> tls_stop + tls_state" where
  "process_server_key tls len =
     (let keybuf = drop RECHDR_LEN (inbuf tls);
          len1 = get24be (drop 1 keybuf)
      in if int len1 > int len - 4 then Inl Die
         else if len1 < 1 + 2 + 1 + 32 then Inl Die
         else
           let keybuf = drop 4 keybuf in
           if take 4 keybuf \<noteq> [0x03, 0x00, 0x1d, 0x20] then Inl Die
           else
             case hsd tls of
               None \<Rightarrow> Inl Null_dereference
             | Some d \<Rightarrow>
                 Inr (tls\<lparr>hsd := Some (d\<lparr>ecc_pub_key32 := take 32 (drop 4 keybuf)\<rparr>), flags := flags tls OR GOT_EC_KEY\<rparr>))"

definition send_empty_client_cert :: "tls_env \<Rightarrow> tls_conn \<Rightarrow> tls_stop + tls_conn" where
  "send_empty_client_cert env conn =
     xwrite_and_update_handshake_hash env conn [HANDSHAKE_CERTIFICATE, 0, 0, 3, 0, 0, 0]"

section \<open>Key exchange and key schedule\<close>

definition label_bytes :: "string \<Rightarrow> u8 list" where "label_bytes s = map of_char s"

definition basepoint9 :: "u8 list" where "basepoint9 = 9 # replicate (CURVE25519_KEYSIZE - 1) 0"

text \<open>The random private key, clamped.\<close>

definition x25519_privkey :: "u8 list \<Rightarrow> u8 list" where
  "x25519_privkey privkey =
     (let privkey = privkey[0 := privkey ! 0 AND 0xf8]
      in privkey[CURVE25519_KEYSIZE - 1 := (privkey ! (CURVE25519_KEYSIZE - 1) AND 0x7f) OR 0x40])"

text \<open>The key the message carries, and the premaster secret.\<close>

definition client_key :: "tls_env \<Rightarrow> tls_state \<Rightarrow> tls_handshake_data \<Rightarrow> u8 list \<times> u8 list" where
  "client_key env tls d =
     (if flags tls AND NEED_EC_KEY = 0 then
        let rsa_premaster = [TLS_MAJ, TLS_MIN] @ drop 2 (premaster_random env);
            key = psRsaEncryptPub env (server_rsa_pub_key d) rsa_premaster;
            len = length key
        in ([word_of_nat (len div 256), word_of_nat (len mod 256)] @ key, rsa_premaster)
      else
        let privkey = x25519_privkey (privkey_random env)
        in (word_of_nat CURVE25519_KEYSIZE # curve25519 privkey basepoint9, curve25519 privkey (ecc_pub_key32 d)))"

definition derive_keys :: "tls_env \<Rightarrow> tls_state \<Rightarrow> tls_handshake_data \<Rightarrow> u8 list \<Rightarrow> tls_stop + tls_state" where
  "derive_keys env tls d premaster =
     (let prf = prf_hmac_sha256 (md5_small (env_config env)) (env_pre env);
          rand = client_and_server_rand32 d in
      case prf 48 premaster (label_bytes ''master secret'') rand of
        None \<Rightarrow> Inl Die
      | Some secret \<Rightarrow>
          let tmp64 = take 32 (drop 32 rand) @ take 32 rand in
          (case prf (2 * (MAC_size tls + key_size tls + IV_size tls)) secret (label_bytes ''key expansion'') tmp64 of
             None \<Rightarrow> Inl Die
           | Some key_block \<Rightarrow>
               let tls = tls\<lparr>hsd := Some (d\<lparr>master_secret := secret\<rparr>), key_area := memcpy (key_area tls) 0 key_block\<rparr>;
                   tls = tls\<lparr>client_write_key := 2 * MAC_size tls\<rparr>;
                   tls = tls\<lparr>server_write_key := client_write_key tls + key_size tls\<rparr>;
                   tls = tls\<lparr>client_write_IV := server_write_key tls + key_size tls\<rparr>;
                   tls = tls\<lparr>server_write_IV := client_write_IV tls + IV_size tls\<rparr>;
                   tls = tls\<lparr>aes_decrypt := aes_setkey (take (key_size tls) (drop (server_write_key tls) (key_area tls)))\<rparr>;
                   tls = tls\<lparr>aes_encrypt := aes_setkey (take (key_size tls) (drop (client_write_key tls) (key_area tls)))\<rparr>
               in Inr (tls\<lparr>H := aes_encrypt_one_block (aes_encrypt tls) (replicate AES_BLOCK_SIZE 0)\<rparr>)))"

definition send_client_key_exchange :: "tls_env \<Rightarrow> tls_conn \<Rightarrow> tls_stop + tls_conn" where
  "send_client_key_exchange env conn =
     (case hsd (conn_tls conn) of
        None \<Rightarrow> Inl Null_dereference
      | Some d \<Rightarrow>
          let (key, premaster) = client_key env (conn_tls conn) d;
              len = length key;
              record = [HANDSHAKE_CLIENT_KEY_EXCHANGE, 0, word_of_nat (len div 2 ^ 8), word_of_nat (len mod 256)] @ key
          in and_then (xwrite_and_update_handshake_hash env conn record) (\<lambda>conn.
             case hsd (conn_tls conn) of
               None \<Rightarrow> Inl Null_dereference
             | Some d \<Rightarrow> and_then (derive_keys env (conn_tls conn) d premaster) (\<lambda>tls. Inr (conn\<lparr>conn_tls := tls\<rparr>))))"

definition rec_CHANGE_CIPHER_SPEC :: "u8 list" where
  "rec_CHANGE_CIPHER_SPEC = [RECORD_TYPE_CHANGE_CIPHER_SPEC, TLS_MAJ, TLS_MIN, 0x00, 0x01, 0x01]"

definition send_change_cipher_spec :: "tls_conn \<Rightarrow> tls_conn" where
  "send_change_cipher_spec conn = xwrite conn rec_CHANGE_CIPHER_SPEC"

definition send_client_finished :: "tls_env \<Rightarrow> tls_conn \<Rightarrow> tls_stop + tls_conn" where
  "send_client_finished env conn =
     (case hsd (conn_tls conn) of
        None \<Rightarrow> Inl Null_dereference
      | Some d \<Rightarrow>
          let (ctx, handshake_hash) = sha1_end (md5_small (env_config env)) (handshake_hash_ctx d);
              tls = (conn_tls conn)\<lparr>hsd := Some (d\<lparr>handshake_hash_ctx := ctx\<rparr>)\<rparr>
          in case prf_hmac_sha256 (md5_small (env_config env)) (env_pre env) 12 (master_secret d)
                 (label_bytes ''client finished'') handshake_hash of
               None \<Rightarrow> Inl Die
             | Some prf_result \<Rightarrow>
                 and_then (xwrite_encrypted (env_config env) (env_pre env) (iv_random env) tls
                     (fill_handshake_record_hdr HANDSHAKE_FINISHED 16 @ prf_result) RECORD_TYPE_HANDSHAKE)
                   (\<lambda>(tls, bytes). Inr (xwrite (conn\<lparr>conn_tls := tls\<rparr>) bytes)))"

section \<open>The handshake\<close>

definition message_type :: "tls_conn \<Rightarrow> u8" where
  "message_type conn = inbuf (conn_tls conn) ! RECHDR_LEN"

text \<open>Up to the server's last message before the key exchange.\<close>

definition negotiate :: "tls_env \<Rightarrow> tls_conn \<Rightarrow> u8 list option \<Rightarrow> tls_stop + tls_conn" where
  "negotiate env conn sni =
     and_then (send_client_hello_and_alloc_hsd env conn sni) (\<lambda>conn.
     and_then (get_server_hello env conn) (\<lambda>conn.
     and_then (get_server_cert env conn) (\<lambda>conn.
     and_then (tls_xread_handshake_block env conn 4) (\<lambda>(len, conn).
     and_then
       (if message_type conn = HANDSHAKE_SERVER_KEY_EXCHANGE then
          and_then
            (if flags (conn_tls conn) AND NEED_EC_KEY \<noteq> 0 then
               and_then (process_server_key (conn_tls conn) len) (\<lambda>tls. Inr (conn\<lparr>conn_tls := tls\<rparr>))
             else Inr conn)
            (\<lambda>conn. tls_xread_handshake_block env conn 4)
        else Inr (len, conn)) (\<lambda>(len, conn).
     let got_cert_req = (message_type conn = HANDSHAKE_CERTIFICATE_REQUEST) in
     and_then (if got_cert_req then tls_xread_handshake_block env conn 4 else Inr (len, conn)) (\<lambda>(len, conn).
     if message_type conn \<noteq> HANDSHAKE_SERVER_HELLO_DONE then Inl Die
     else if got_cert_req then send_empty_client_cert env conn else Inr conn))))))"

text \<open>What the client sends then, ending with the first encrypted record.\<close>

definition switch_to_encryption :: "tls_env \<Rightarrow> tls_conn \<Rightarrow> tls_stop + tls_conn" where
  "switch_to_encryption env conn =
     and_then (send_client_key_exchange env conn) (\<lambda>conn.
       let conn = send_change_cipher_spec conn;
           conn = conn\<lparr>conn_tls := (conn_tls conn)\<lparr>flags := flags (conn_tls conn) OR ENCRYPT_ON_WRITE\<rparr>\<rparr>
       in send_client_finished env conn)"

text \<open>The server's side of the switch.\<close>

definition finish :: "tls_env \<Rightarrow> tls_conn \<Rightarrow> tls_stop + tls_conn" where
  "finish env conn =
     and_then (xread_record env conn) (\<lambda>(len, conn).
     if len \<noteq> 1 \<or> take 6 (inbuf (conn_tls conn)) \<noteq> rec_CHANGE_CIPHER_SPEC then Inl Die
     else
       let conn = conn\<lparr>conn_tls := set_min_encrypted_len (env_config env) (conn_tls conn)\<rparr> in
       and_then (xread_record env conn) (\<lambda>(len, conn).
       if len < 4 \<or> message_type conn \<noteq> HANDSHAKE_FINISHED then Inl Die
       else Inr (conn\<lparr>conn_tls := (conn_tls conn)\<lparr>hsd := None\<rparr>\<rparr>)))"

definition tls_handshake :: "tls_env \<Rightarrow> tls_conn \<Rightarrow> u8 list option \<Rightarrow> tls_stop + tls_conn" where
  "tls_handshake env conn sni =
     and_then (negotiate env conn sni) (\<lambda>conn. and_then (switch_to_encryption env conn) (finish env))"

text \<open>\<open>new_tls_state\<close>: zeroes.\<close>

definition new_tls_state :: tls_state where
  "new_tls_state = \<lparr>flags = 0, min_encrypted_len_on_read = 0, cipher_id = 0, MAC_size = 0, key_size = 0,
     IV_size = 0, inbuf_size = 0, ofs_to_buffered = 0, buffered_size = 0, inbuf = [], hsd = None, write_seq64_be = 0,
     key_area = replicate (2 * (32 + 32 + 4)) 0, client_write_key = 0, server_write_key = 0, client_write_IV = 0, server_write_IV = 0,
     aes_encrypt = \<lparr>aes_key = replicate 60 0, aes_rounds = 0\<rparr>, aes_decrypt = \<lparr>aes_key = replicate 60 0, aes_rounds = 0\<rparr>,
     H = replicate 16 0\<rparr>"

end
