(* ===== verification/TlsHandshakeProps.thy ===== *)
theory TlsHandshakeProps imports TlsHandshake TlsRecordProps begin

text \<open>
  The certificate in the handshake: the key of every DER certificate is found, and where the walk
  reads past the end.
\<close>

section \<open>DER\<close>

text \<open>The encoding of an item with the shortest length, for bodies below \<open>2 ^ 16\<close> bytes.\<close>

definition der_length :: "nat \<Rightarrow> u8 list" where
  "der_length n =
     (if n < 0x80 then [word_of_nat n]
      else if n < 0x100 then [0x81, word_of_nat n]
      else [0x82, word_of_nat (n div 256), word_of_nat (n mod 256)])"

definition der_item :: "u8 \<Rightarrow> u8 list \<Rightarrow> u8 list" where
  "der_item tag body = tag # der_length (length body) @ body"

lemma length_der_item: "length body + 2 \<le> length (der_item tag body)" "length (der_item tag body) \<le> length body + 4"
  by (auto simp: der_item_def der_length_def)

lemma get_der_len_item:
  assumes "length body < 2 ^ 16" "length (der_item tag body) \<le> n"
  shows "get_der_len (der_item tag body @ rest) n = Inr (length body, body @ rest, n - length (der_item tag body) + length body)"
proof -
  consider "length body < 0x80" | "0x80 \<le> length body" "length body < 0x100" | "0x100 \<le> length body" by linarith
  then show ?thesis
  proof cases
    case 1
    then show ?thesis using assms by (simp add: get_der_len_def der_item_def der_length_def unat_of_nat Let_def)
  next
    case 2
    then show ?thesis using assms by (simp add: get_der_len_def der_item_def der_length_def unat_of_nat Let_def)
  next
    case 3
    have "unat (word_of_nat (length body div 256) :: u8) = length body div 256" "unat (word_of_nat (length body mod 256) :: u8) = length body mod 256"
      using assms(1) by (simp_all add: unat_of_nat)
    then show ?thesis using 3 assms by (simp add: get_der_len_def der_item_def der_length_def Let_def)
  qed
qed

lemma enter_der_item_item:
  "length body < 2 ^ 16 \<Longrightarrow> length (der_item tag body) \<le> n \<Longrightarrow> enter_der_item (der_item tag body @ rest) n = Inr (body @ rest, length body)"
  by (simp add: enter_der_item_def get_der_len_item)

lemma skip_der_item_item:
  "length body < 2 ^ 16 \<Longrightarrow> length (der_item tag body) \<le> n \<Longrightarrow>
   skip_der_item (der_item tag body @ rest) n = Inr (rest, n - length (der_item tag body))"
  by (simp add: skip_der_item_def get_der_len_item)

lemma der_binary_item:
  "length body < 2 ^ 16 \<Longrightarrow> length (der_item tag body) \<le> n \<Longrightarrow> der_binary_to_pstm (der_item tag body @ rest) n = Inr body"
  by (simp add: der_binary_to_pstm_def get_der_len_item)

lemmas der_items = enter_der_item_item skip_der_item_item der_binary_item

text \<open>An X.509 certificate: of the fields before the key only that they are items matters.\<close>

definition rsa_key_info :: "u8 list \<Rightarrow> u8 list \<Rightarrow> u8 list" where
  "rsa_key_info modulus exponent =
     der_item 0x30 (OID_RSA_KEY_ALG @ [0x05, 0x00] @
       der_item 0x03 (0 # der_item 0x30 (der_item 0x02 modulus @ der_item 0x02 exponent)))"

definition certificate :: "u8 list option \<Rightarrow> (u8 \<times> u8 list) list \<Rightarrow> u8 list \<Rightarrow> u8 list \<Rightarrow> u8 list \<Rightarrow> u8 list" where
  "certificate version items key_info extensions signature =
     der_item 0x30 (der_item 0x30
       ((case version of None \<Rightarrow> [] | Some v \<Rightarrow> der_item 0xa0 v) @ concat (map (\<lambda>(tag, body). der_item tag body) items)
        @ key_info @ extensions) @ signature)"

lemma memcmp_eq_append [simp]: "memcmp_eq (q @ rest) q = Inr True"
  by (simp add: memcmp_eq_def)

lemma parse_rsa_key_info:
  assumes "hsd tls = Some d" "length modulus + length exponent < 2 ^ 15" "8 \<le> length modulus"
  shows "parse_rsa_key tls (OID_RSA_KEY_ALG @ [0x05, 0x00] @
       der_item 0x03 (0 # der_item 0x30 (der_item 0x02 modulus @ der_item 0x02 exponent)) @ rest)
      (15 + length (der_item 0x03 (0 # der_item 0x30 (der_item 0x02 modulus @ der_item 0x02 exponent)))) =
    Inr (tls\<lparr>hsd := Some (d\<lparr>server_rsa_pub_key := \<lparr>rsa_N = modulus, rsa_e = exponent\<rparr>\<rparr>)\<rparr>)"
proof -
  let ?nums = "der_item 0x02 modulus @ der_item 0x02 exponent"
  have alg: "OID_RSA_KEY_ALG @ [0x05, 0x00] @ x = der_item 0x30 (drop 2 OID_RSA_KEY_ALG @ [0x05, 0x00]) @ x" for x
    by (simp add: OID_RSA_KEY_ALG_def der_item_def der_length_def)
  have l: "length (der_item 0x30 (drop 2 OID_RSA_KEY_ALG @ [0x05, 0x00])) = 15"
    by (simp add: OID_RSA_KEY_ALG_def der_item_def der_length_def)
  have l2: "length (drop 2 OID_RSA_KEY_ALG @ [0x05, 0x00]) < 2 ^ 16" by (simp add: OID_RSA_KEY_ALG_def)
  have nums: "length ?nums + 8 < 2 ^ 16" "12 \<le> length ?nums"
    using assms(2,3) length_der_item [where tag = 2 and body = modulus] length_der_item [where tag = 2 and body = exponent] by simp_all
  have seq: "length (der_item 0x30 ?nums) + 1 < 2 ^ 16 \<and> 14 \<le> length (der_item 0x30 ?nums)"
    using nums length_der_item [where tag = "0x30" and body = ?nums] by simp
  show ?thesis
    unfolding parse_rsa_key_def alg using assms seq nums l2
    by (simp add: skip_der_item_item l enter_der_item_item der_binary_item)
qed

text \<open>The parser gets to the contents of the key information, whatever the items before it.\<close>

lemma subject_key_info_found:
  assumes "length items = 5" "version = None \<Longrightarrow> fst (hd items) \<noteq> 0xa0"
    and "length (certificate version items (der_item 0x30 key) extensions signature) < 2 ^ 16"
  shows "subject_key_info (certificate version items (der_item 0x30 key) extensions signature @ later)
      (length (certificate version items (der_item 0x30 key) extensions signature)) =
    Inr (key @ extensions @ signature @ later, length key)"
proof -
  obtain t1 b1 t2 b2 t3 b3 t4 b4 t5 b5 where items: "items = [(t1, b1), (t2, b2), (t3, b3), (t4, b4), (t5, b5)]"
    using assms(1) by (auto simp: length_Suc_conv eval_nat_numeral)
  let ?ver = "case version of None \<Rightarrow> [] | Some v \<Rightarrow> der_item 0xa0 v"
  define five where "five = der_item t1 b1 @ der_item t2 b2 @ der_item t3 b3 @ der_item t4 b4 @ der_item t5 b5"
  define tbs where "tbs = ?ver @ five @ der_item 0x30 key @ extensions"
  have cert: "certificate version items (der_item 0x30 key) extensions signature = der_item 0x30 (der_item 0x30 tbs @ signature)"
    by (simp add: certificate_def items tbs_def five_def)
  have small: "length (der_item 0x30 tbs @ signature) < 2 ^ 16" "length tbs < 2 ^ 16" "length five < 2 ^ 16" "length key < 2 ^ 16"
    using assms(3) length_der_item(1) [of "der_item 0x30 tbs @ signature" "0x30"] length_der_item(1) [of tbs "0x30"]
      length_der_item(1) [of key "0x30"] unfolding cert tbs_def by simp_all
  have five: "length b1 < 2 ^ 16" "length b2 < 2 ^ 16" "length b3 < 2 ^ 16" "length b4 < 2 ^ 16" "length b5 < 2 ^ 16"
    using small(3) length_der_item(1) [of b1 t1] length_der_item(1) [of b2 t2] length_der_item(1) [of b3 t3]
      length_der_item(1) [of b4 t4] length_der_item(1) [of b5 t5] unfolding five_def by simp_all
  have after_five: "and_then (skip_der_item (five @ x) (length five + m)) (\<lambda>(der, n).
       and_then (skip_der_item der n) (\<lambda>(der, n).
       and_then (skip_der_item der n) (\<lambda>(der, n).
       and_then (skip_der_item der n) (\<lambda>(der, n).
       and_then (skip_der_item der n) f)))) = f (x, m)" for x m and f :: "u8 list \<times> nat \<Rightarrow> tls_stop + (u8 list \<times> nat)"
    using five unfolding five_def by (simp add: skip_der_item_item)
  have version: "and_then (if (?ver @ five @ x) ! 0 = 0xa0 then skip_der_item (?ver @ five @ x) (length ?ver + m) else Inr (?ver @ five @ x, length ?ver + m)) f =
      f (five @ x, m)" for x m and f :: "u8 list \<times> nat \<Rightarrow> tls_stop + (u8 list \<times> nat)"
  proof (cases version)
    case None
    have "(five @ x) ! 0 = t1" by (simp add: five_def der_item_def)
    then show ?thesis using assms(2) [OF None] None by (simp add: items)
  next
    case (Some v)
    have "length v < 2 ^ 16" using small(2) length_der_item(1) [of v "0xa0"] Some by (simp add: tbs_def)
    then show ?thesis using Some by (simp add: skip_der_item_item) (simp add: der_item_def)
  qed
  have tbs_len: "length tbs = length ?ver + (length five + (length (der_item 0x30 key) + length extensions))" by (simp add: tbs_def)
  have tbs: "tbs @ x = ?ver @ five @ der_item 0x30 key @ extensions @ x" "five \<noteq> []" for x by (simp_all add: tbs_def five_def der_item_def)
  show ?thesis
    unfolding cert subject_key_info_def using small
    by (simp add: enter_der_item_item tbs_len tbs version after_five Let_def)
qed

text \<open>C22: the RSA key of a server's certificate.  In every DER certificate below \<open>2 ^ 16\<close> bytes, with or
  without a version, whatever the serial number, the names, the validity, the extensions, the
  signature and what follows in memory, the parser finds the modulus and the exponent.\<close>

theorem cert_key_found:
  assumes "hsd tls = Some d" "length modulus + length exponent < 2 ^ 15" "8 \<le> length modulus"
    and "length items = 5" "version = None \<Longrightarrow> fst (hd items) \<noteq> 0xa0"
    and "length (certificate version items (rsa_key_info modulus exponent) extensions signature) < 2 ^ 16"
  shows "find_key_in_der_cert tls (certificate version items (rsa_key_info modulus exponent) extensions signature @ later)
      (length (certificate version items (rsa_key_info modulus exponent) extensions signature)) =
    Inr (tls\<lparr>flags := flags tls OR GOT_CERT_RSA_KEY_ALG, hsd := Some (d\<lparr>server_rsa_pub_key := \<lparr>rsa_N = modulus, rsa_e = exponent\<rparr>\<rparr>)\<rparr>)"
proof -
  let ?bits = "der_item 0x03 (0 # der_item 0x30 (der_item 0x02 modulus @ der_item 0x02 exponent))"
  define key where "key = OID_RSA_KEY_ALG @ [0x05, 0x00] @ ?bits"
  let ?tls = "tls\<lparr>flags := flags tls OR GOT_CERT_RSA_KEY_ALG\<rparr>"
  have "bit (flags ?tls AND GOT_CERT_RSA_KEY_ALG) 1" by (simp add: GOT_CERT_RSA_KEY_ALG_def bit_simps)
  then have flag: "flags ?tls AND GOT_CERT_RSA_KEY_ALG \<noteq> 0" by (metis bit_0_eq bot_apply bot_bool_def)
  have len: "length key = 15 + length ?bits" by (simp add: key_def OID_RSA_KEY_ALG_def)
  have rsa: "parse_rsa_key ?tls (key @ x) (length key) = Inr (?tls\<lparr>hsd := Some (d\<lparr>server_rsa_pub_key := \<lparr>rsa_N = modulus, rsa_e = exponent\<rparr>\<rparr>)\<rparr>)" for x
    using parse_rsa_key_info [of ?tls d modulus exponent x] assms(1-3) unfolding len by (simp add: key_def)
  have alg: "memcmp_eq (key @ x) OID_RSA_KEY_ALG = Inr True" for x by (simp add: key_def)
  have info: "rsa_key_info modulus exponent = der_item 0x30 key" by (simp add: rsa_key_info_def key_def)
  show ?thesis
    unfolding info using subject_key_info_found [OF assms(4,5) assms(6) [unfolded info], of later] alg rsa flag
    by (simp add: find_key_in_der_cert_def key_algorithm_def)
qed

text \<open>C38: the comparison with the known key algorithms reads 13 bytes whatever the length of the key
  information: when a certificate ends with an empty one and fewer than 13 bytes of memory follow,
  as at the end of the input buffer, it reads past them.\<close>

theorem cert_key_overrun:
  assumes "length items = 5" "version = None \<Longrightarrow> fst (hd items) \<noteq> 0xa0"
    and "length (certificate version items (der_item 0x30 []) [] []) < 2 ^ 16" "length later < 13"
  shows "find_key_in_der_cert tls (certificate version items (der_item 0x30 []) [] [] @ later)
      (length (certificate version items (der_item 0x30 []) [] [])) = Inl Overrun"
  using subject_key_info_found [OF assms(1,2,3), of later] assms(4)
  by (simp add: find_key_in_der_cert_def key_algorithm_def memcmp_eq_def OID_RSA_KEY_ALG_def)

definition example_hsd :: tls_state where "example_hsd = example_state\<lparr>hsd := Some zeroed_hsd\<rparr>"

theorem cert_key_found_witness:
  "find_key_in_der_cert example_hsd
     (certificate (Some [2, 1, 2]) [(2, [9]), (0x30, [6, 0]), (0x30, []), (0x30, []), (0x30, [])] (rsa_key_info (replicate 16 5) [1, 0, 1]) [0xa3, 0] [3, 1, 0] @ [1, 2])
     (length (certificate (Some [2, 1, 2]) [(2, [9]), (0x30, [6, 0]), (0x30, []), (0x30, []), (0x30, [])] (rsa_key_info (replicate 16 5) [1, 0, 1]) [0xa3, 0] [3, 1, 0])) =
   Inr (example_hsd\<lparr>flags := flags example_hsd OR GOT_CERT_RSA_KEY_ALG,
     hsd := Some (zeroed_hsd\<lparr>server_rsa_pub_key := \<lparr>rsa_N = replicate 16 5, rsa_e = [1, 0, 1]\<rparr>\<rparr>)\<rparr>)"
  by (rule cert_key_found)
    (simp_all add: example_hsd_def certificate_def rsa_key_info_def der_item_def der_length_def OID_RSA_KEY_ALG_def)

theorem cert_key_overrun_witness:
  "find_key_in_der_cert example_hsd (certificate None [(2, []), (2, []), (2, []), (2, []), (2, [])] (der_item 0x30 []) [] [] @ [])
     (length (certificate None [(2, []), (2, []), (2, []), (2, []), (2, [])] (der_item 0x30 []) [] [])) = Inl Overrun"
  by (rule cert_key_overrun) (simp_all add: certificate_def der_item_def der_length_def)

end
