(* ===== verification/TlsChannelProps.thy ===== *)
theory TlsChannelProps imports TlsHandshakeProps Fe25519Props begin

text \<open>
  The handshake: whatever the server sends, one that succeeds leaves both directions of the
  connection ready for the record layer, with the keys of RFC 5246; a handshake that succeeds is
  run; and what happens when the server sends no elliptic curve key.
\<close>

section \<open>Reading records during the handshake\<close>

definition hashed_record :: "tls_config \<Rightarrow> tls_state \<Rightarrow> nat \<Rightarrow> tls_state \<Rightarrow> bool" where
  "hashed_record config r sz r' \<longleftrightarrow> (\<exists>d. hsd r = Some d \<and> hsd r' = Some (d\<lparr>handshake_hash_ctx :=
     md5_hash (md5_small config) (handshake_hash_ctx d) (take sz (drop RECHDR_LEN (inbuf r')))\<rparr>))"

lemma read_one_hash:
  assumes "reader_ok config r"
  shows "case read_one config uninit r ifd of
      Inl stop \<Rightarrow> True
    | Inr (Inl (sz, r', ifd')) \<Rightarrow> (if 0 < sz \<and> inbuf r' ! 0 = RECORD_TYPE_HANDSHAKE then hashed_record config r sz r' else True)
    | Inr (Inr (r', ifd')) \<Rightarrow> hsd r' = hsd r"
proof (cases "fetch_record r ifd")
  case (Inl stop)
  then show ?thesis by (simp add: read_one_def)
next
  case (Inr res)
  obtain r1 rec ifd1 where res: "res = (r1, rec, ifd1)" by (metis prod_cases3)
  obtain b n k i where r1: "r1 = r\<lparr>inbuf := b, inbuf_size := n, buffered_size := k, ofs_to_buffered := i\<rparr>" "buf_ok r1"
    and i: "rec \<Longrightarrow> RECHDR_LEN \<le> i \<and> i \<le> length b"
    using fetch_record_bounds [of r ifd] assms by (auto simp: Inr res reader_ok_def)
  have ok1: "reader_ok config r1"
    using reader_ok_update [OF assms, where b = b and n = n and k = k and i = i and h = "hsd r"] r1 by simp
  show ?thesis
  proof (cases rec)
    case False
    then show ?thesis by (simp add: read_one_def Inr res)
  next
    case True
    let ?sz = "i - RECHDR_LEN"
    have sz: "RECHDR_LEN + ?sz = i" "i \<le> length (inbuf r1)" "ofs_to_buffered r1 = i" using i [OF True] r1(1) by auto
    show ?thesis
    proof (cases "decrypt_record config uninit r1 ?sz")
      case (Inl stop)
      then show ?thesis using True by (simp add: read_one_def Inr res sz(3))
    next
      case dec: (Inr res2)
      obtain r2 m where res2: "res2 = (r2, m)" by fastforce
      have "hsd r2 = hsd r"
        using decrypt_record_bounds [OF ok1, of ?sz uninit, unfolded sz(1), OF sz(2)] unfolding dec res2 by (auto simp: r1(1))
      then show ?thesis using True
        by (auto simp: read_one_def Inr res sz(3) dec res2 handle_record_def hash_handshake_def hashed_record_def Let_def
            RECORD_TYPE_ALERT_def RECORD_TYPE_HANDSHAKE_def split: option.splits)
    qed
  qed
qed

lemma tls_xread_record_hash:
  "tls_xread_record config uninit r ifd = Inr (sz, r', ifd') \<Longrightarrow> reader_ok config r \<Longrightarrow> 0 < sz \<Longrightarrow>
   inbuf r' ! 0 = RECORD_TYPE_HANDSHAKE \<Longrightarrow> hashed_record config r sz r'"
proof (induction config uninit r ifd rule: tls_xread_record.induct)
  case (1 config uninit r ifd)
  note one = read_one_hash [OF 1(3), of uninit ifd] read_one_bounds [OF 1(3), of uninit ifd]
  show ?case
  proof (cases "read_one config uninit r ifd")
    case (Inl stop)
    then show ?thesis using 1(2) by (simp add: tls_xread_record.simps [of _ _ r])
  next
    case res: (Inr res)
    show ?thesis
    proof (cases res)
      case (Inl fin)
      then show ?thesis using one 1(2,4,5) by (simp add: tls_xread_record.simps [of _ _ r] res)
    next
      case (Inr again)
      obtain r1 ifd1 where again: "again = (r1, ifd1)" by fastforce
      have "reader_ok config r1" "hsd r1 = hsd r" using one by (simp_all add: res Inr again read_ok_def)
      then show ?thesis
        using 1(1) [OF res Inr again [symmetric]] 1(2,4,5) by (simp add: tls_xread_record.simps [of _ _ r] res Inr again hashed_record_def)
    qed
  qed
qed

lemma xread_record_conn:
  assumes "xread_record env conn = Inr (len, conn')" "reader_ok (env_config env) (conn_tls conn)"
  shows "read_ok (env_config env) (conn_tls conn) len (conn_tls conn')" "conn_ofd conn' = conn_ofd conn"
    "0 < len \<Longrightarrow> inbuf (conn_tls conn') ! 0 = RECORD_TYPE_HANDSHAKE \<Longrightarrow> hashed_record (env_config env) (conn_tls conn) len (conn_tls conn')"
proof -
  obtain tls ifd where r: "tls_xread_record (env_config env) (env_uninit env) (conn_tls conn) (conn_ifd conn) = Inr (len, tls, ifd)"
    "conn' = conn\<lparr>conn_tls := tls, conn_ifd := ifd\<rparr>"
    using assms(1) by (auto simp: xread_record_def and_then_Inr)
  show "read_ok (env_config env) (conn_tls conn) len (conn_tls conn')"
    using read_record_bounds [OF assms(2), of "env_uninit env" "conn_ifd conn"] by (simp add: r)
  show "conn_ofd conn' = conn_ofd conn" by (simp add: r(2))
  show "0 < len \<Longrightarrow> inbuf (conn_tls conn') ! 0 = RECORD_TYPE_HANDSHAKE \<Longrightarrow> hashed_record (env_config env) (conn_tls conn) len (conn_tls conn')"
    using tls_xread_record_hash [OF r(1) assms(2)] by (simp add: r(2))
qed

lemma handshake_block_conn:
  assumes "tls_xread_handshake_block env conn k = Inr (len, conn')" "reader_ok (env_config env) (conn_tls conn)" "0 < k"
  shows "read_ok (env_config env) (conn_tls conn) len (conn_tls conn')" "conn_ofd conn' = conn_ofd conn" "k \<le> len"
    "hashed_record (env_config env) (conn_tls conn) len (conn_tls conn')"
proof -
  have r: "xread_record env conn = Inr (len, conn')" "k \<le> len" "inbuf (conn_tls conn') ! 0 = RECORD_TYPE_HANDSHAKE"
    using assms(1) by (auto simp: tls_xread_handshake_block_def and_then_Inr split: if_splits)
  show "read_ok (env_config env) (conn_tls conn) len (conn_tls conn')" "conn_ofd conn' = conn_ofd conn" "k \<le> len"
    "hashed_record (env_config env) (conn_tls conn) len (conn_tls conn')"
    using xread_record_conn [OF r(1) assms(2)] r(2,3) assms(3) by auto
qed

section \<open>The state while the keys are negotiated\<close>

lemma bit_flag: "k < 32 \<Longrightarrow> bit (push_bit k 1 :: u32) n \<longleftrightarrow> n = k"
  unfolding bit_push_bit_iff bit_1_iff by auto

lemma flag_bits:
  "bit NEED_EC_KEY n \<longleftrightarrow> n = 0" "bit GOT_CERT_RSA_KEY_ALG n \<longleftrightarrow> n = 1" "bit GOT_EC_KEY n \<longleftrightarrow> n = 3"
  "bit ENCRYPTION_AESGCM n \<longleftrightarrow> n = 4" "bit ENCRYPT_ON_WRITE n \<longleftrightarrow> n = 5"
  unfolding NEED_EC_KEY_def GOT_CERT_RSA_KEY_ALG_def GOT_EC_KEY_def ENCRYPTION_AESGCM_def ENCRYPT_ON_WRITE_def
  by (rule bit_flag; simp)+

lemma flags_or [simp]:
  "(f OR NEED_EC_KEY) AND ENCRYPTION_AESGCM = f AND ENCRYPTION_AESGCM" "(f OR NEED_EC_KEY) AND ENCRYPT_ON_WRITE = f AND ENCRYPT_ON_WRITE"
  "(f OR GOT_CERT_RSA_KEY_ALG) AND ENCRYPTION_AESGCM = f AND ENCRYPTION_AESGCM" "(f OR GOT_CERT_RSA_KEY_ALG) AND ENCRYPT_ON_WRITE = f AND ENCRYPT_ON_WRITE"
  "(f OR GOT_EC_KEY) AND ENCRYPTION_AESGCM = f AND ENCRYPTION_AESGCM" "(f OR GOT_EC_KEY) AND ENCRYPT_ON_WRITE = f AND ENCRYPT_ON_WRITE"
  "(f OR ENCRYPTION_AESGCM) AND ENCRYPT_ON_WRITE = f AND ENCRYPT_ON_WRITE"
  "(f OR ENCRYPT_ON_WRITE) AND ENCRYPTION_AESGCM = f AND ENCRYPTION_AESGCM"
  by (rule bit_word_eqI, auto simp: bit_and_iff bit_or_iff flag_bits)+

lemma flags_or_set [simp]: "(f OR ENCRYPTION_AESGCM) AND ENCRYPTION_AESGCM \<noteq> 0"
proof -
  have "bit ((f OR ENCRYPTION_AESGCM) AND ENCRYPTION_AESGCM) 4" by (simp add: bit_and_iff bit_or_iff flag_bits)
  then show ?thesis by (metis bit_0_eq bot_apply bot_bool_def)
qed

text \<open>What a step may change: the input, the handshake data, and flags of no account here.\<close>

definition same_suite :: "tls_state \<Rightarrow> tls_state \<Rightarrow> bool" where
  "same_suite t t' \<longleftrightarrow> (\<exists>f b n k i h. t' = t\<lparr>flags := f, inbuf := b, inbuf_size := n, buffered_size := k, ofs_to_buffered := i, hsd := h\<rparr> \<and>
     f AND ENCRYPTION_AESGCM = flags t AND ENCRYPTION_AESGCM \<and> f AND ENCRYPT_ON_WRITE = flags t AND ENCRYPT_ON_WRITE)"

lemma same_suite_trans: "same_suite t t1 \<Longrightarrow> same_suite t1 t' \<Longrightarrow> same_suite t t'"
  by (cases t) (auto simp: same_suite_def)

lemma same_suite_input: "only_input t t' \<Longrightarrow> same_suite t t'"
proof -
  assume "only_input t t'"
  then obtain b n k i h where "t' = t\<lparr>inbuf := b, inbuf_size := n, buffered_size := k, ofs_to_buffered := i, hsd := h\<rparr>"
    unfolding only_input_def by blast
  then show ?thesis unfolding same_suite_def
    by (intro exI [of _ "flags t"] exI [of _ b] exI [of _ n] exI [of _ k] exI [of _ i] exI [of _ h]) simp
qed

lemma same_suite_hsd: "f AND ENCRYPTION_AESGCM = flags t AND ENCRYPTION_AESGCM \<Longrightarrow> f AND ENCRYPT_ON_WRITE = flags t AND ENCRYPT_ON_WRITE \<Longrightarrow>
   same_suite t (t\<lparr>flags := f, hsd := h\<rparr>)"
  unfolding same_suite_def
  by (intro exI [of _ f] exI [of _ "inbuf t"] exI [of _ "inbuf_size t"] exI [of _ "buffered_size t"] exI [of _ "ofs_to_buffered t"] exI [of _ h]) simp

lemma same_suite_hsd_only: "same_suite t (t\<lparr>hsd := h\<rparr>)"
  using same_suite_hsd [of "flags t" t h] by simp

definition plain_ok :: "tls_state \<Rightarrow> bool" where
  "plain_ok t \<longleftrightarrow> buf_ok t \<and> min_encrypted_len_on_read t = 0 \<and> hsd t \<noteq> None \<and> flags t AND ENCRYPT_ON_WRITE = 0"

lemma plain_reader: "plain_ok t \<Longrightarrow> reader_ok config t"
  by (simp add: plain_ok_def reader_ok_def)

lemma plain_ok_read: "plain_ok t \<Longrightarrow> read_ok config t len t' \<Longrightarrow> plain_ok t' \<and> same_suite t t'"
  using same_suite_input [of t t'] by (auto simp: plain_ok_def read_ok_def reader_ok_def only_input_def)

lemma plain_ok_hsd: "plain_ok t \<Longrightarrow> h \<noteq> None \<Longrightarrow> f AND ENCRYPT_ON_WRITE = flags t AND ENCRYPT_ON_WRITE \<Longrightarrow> plain_ok (t\<lparr>flags := f, hsd := h\<rparr>)"
  by (simp add: plain_ok_def buf_ok_def buffered_def)

lemma block_plain:
  assumes "tls_xread_handshake_block env conn k = Inr (len, conn')" "plain_ok (conn_tls conn)" "0 < k"
  shows "plain_ok (conn_tls conn') \<and> same_suite (conn_tls conn) (conn_tls conn')"
  using handshake_block_conn(1) [OF assms(1) plain_reader [OF assms(2)] assms(3)] plain_ok_read [OF assms(2)] by blast

lemma hash_plain:
  assumes "hash_handshake config t buf = Inr t'" "plain_ok t"
  shows "plain_ok t' \<and> same_suite t t'"
proof -
  obtain d where d: "hsd t = Some d" "t' = t\<lparr>hsd := Some (d\<lparr>handshake_hash_ctx := md5_hash (md5_small config) (handshake_hash_ctx d) buf\<rparr>)\<rparr>"
    using assms(1) by (auto simp: hash_handshake_def split: option.splits)
  then show ?thesis using plain_ok_hsd [OF assms(2), of "hsd t'" "flags t"] same_suite_hsd_only [of t] by simp
qed

text \<open>A message that is sent.\<close>

lemma sent_plain:
  assumes "xwrite_and_update_handshake_hash env conn buf = Inr conn'" "plain_ok (conn_tls conn)"
  shows "plain_ok (conn_tls conn') \<and> same_suite (conn_tls conn) (conn_tls conn') \<and>
    conn_ofd conn' = conn_ofd conn @ record_hdr RECORD_TYPE_HANDSHAKE (length buf) @ buf"
proof -
  obtain t where t: "hash_handshake (env_config env) (conn_tls conn) buf = Inr t" "conn' = (xwrite_handshake_record conn buf)\<lparr>conn_tls := t\<rparr>"
    using assms by (auto simp: xwrite_and_update_handshake_hash_def xwrite_handshake_record_def xwrite_def plain_ok_def and_then_Inr Let_def)
  then show ?thesis using hash_plain [OF t(1) assms(2)] by (simp add: xwrite_handshake_record_def xwrite_def)
qed

lemma parse_rsa_key_frame: "parse_rsa_key t der n = Inr t' \<Longrightarrow> \<exists>d. hsd t \<noteq> None \<and> t' = t\<lparr>hsd := Some d\<rparr> \<and>
   handshake_hash_ctx d = handshake_hash_ctx (the (hsd t))"
  unfolding parse_rsa_key_def and_then_Inr by (auto simp: and_then_Inr split: if_splits option.splits)

lemma key_algorithm_frame:
  "key_algorithm t der = Inr t' \<Longrightarrow> t' = t \<or> t' = t\<lparr>flags := flags t OR GOT_CERT_RSA_KEY_ALG\<rparr>"
  by (auto simp: key_algorithm_def and_then_Inr split: if_splits)

lemma find_key_frame:
  assumes "find_key_in_der_cert t der n = Inr t'" "hsd t \<noteq> None"
  shows "\<exists>f d. t' = t\<lparr>flags := f, hsd := Some d\<rparr> \<and> f AND ENCRYPTION_AESGCM = flags t AND ENCRYPTION_AESGCM \<and>
    f AND ENCRYPT_ON_WRITE = flags t AND ENCRYPT_ON_WRITE \<and> handshake_hash_ctx d = handshake_hash_ctx (the (hsd t))"
proof -
  obtain der' n' t1 where t1: "key_algorithm t der' = Inr t1"
    "(if flags t1 AND GOT_CERT_RSA_KEY_ALG \<noteq> 0 then parse_rsa_key t1 der' n' else Inr t1) = Inr t'"
    using assms(1) by (auto simp: find_key_in_der_cert_def and_then_Inr)
  have "\<exists>f. t1 = t\<lparr>flags := f\<rparr> \<and> f AND ENCRYPTION_AESGCM = flags t AND ENCRYPTION_AESGCM \<and>
      f AND ENCRYPT_ON_WRITE = flags t AND ENCRYPT_ON_WRITE"
    using key_algorithm_frame [OF t1(1)]
  proof
    assume "t1 = t"
    then show ?thesis by (intro exI [of _ "flags t"]) simp
  next
    assume "t1 = t\<lparr>flags := flags t OR GOT_CERT_RSA_KEY_ALG\<rparr>"
    then show ?thesis by (intro exI [of _ "flags t OR GOT_CERT_RSA_KEY_ALG"]) simp
  qed
  then obtain f where f: "t1 = t\<lparr>flags := f\<rparr>" "f AND ENCRYPTION_AESGCM = flags t AND ENCRYPTION_AESGCM"
    "f AND ENCRYPT_ON_WRITE = flags t AND ENCRYPT_ON_WRITE"
    by blast
  show ?thesis
  proof (cases "parse_rsa_key t1 der' n' = Inr t'")
    case True
    then show ?thesis using parse_rsa_key_frame [OF True] f by (intro exI [of _ f]) auto
  next
    case False
    then have "t' = t1" using t1(2) by (auto split: if_splits)
    then show ?thesis using f assms(2) by (intro exI [of _ f] exI [of _ "the (hsd t)"]) (auto simp: f(1) intro: tls_state.equality)
  qed
qed

section \<open>What the negotiation leaves\<close>

text \<open>Before and after the server's choice of a suite.\<close>

definition fresh :: "tls_state \<Rightarrow> bool" where
  "fresh t \<longleftrightarrow> flags t AND ENCRYPTION_AESGCM = 0 \<and> IV_size t = 0 \<and> length (key_area t) = 136"

definition ready :: "tls_config \<Rightarrow> tls_state \<Rightarrow> bool" where
  "ready config t \<longleftrightarrow> suite_ok config t \<and> (key_size t = 16 \<or> key_size t = 32) \<and> MAC_size t \<le> 32 \<and>
     IV_size t = (if flags t AND ENCRYPTION_AESGCM = 0 then 0 else 4) \<and> length (key_area t) = 136"

lemma same_suite_fresh: "same_suite t t' \<Longrightarrow> fresh t \<Longrightarrow> fresh t'"
  by (auto simp: same_suite_def fresh_def)

lemma same_suite_ready: "same_suite t t' \<Longrightarrow> ready config t \<Longrightarrow> ready config t'"
  by (auto simp: same_suite_def ready_def suite_ok_def)

lemma cipher_id_low: "ucast (0x100 * x + ucast b :: 16 word) = (b :: u8)"
proof -
  have "take_bit 8 (256 * i + take_bit 8 j) = take_bit 8 j" for i j :: int
    by (simp add: take_bit_eq_mod)
  then show ?thesis by transfer (simp add: take_bit_mult)
qed

lemma ENCRYPTION_AESGCM_nonzero: "ENCRYPTION_AESGCM \<noteq> 0"
  using flags_or_set [of 0] by auto

lemma set_cipher_params_ready:
  assumes "fresh t"
  shows "ready config (set_cipher_params config t a b)"
proof -
  let ?c = "0x100 * ucast a + ucast b :: 16 word"
  let ?sha1 = "FEATURE_TLS_SHA1 config \<and> (if a = 0xC0 then b \<le> 0x19 else b \<le> 0x35)"
  let ?gcm = "if a = 0xC0 then b \<ge> 0x2B \<and> b \<le> 0x30 else b = 0x9C"
  note defs = set_cipher_params_def ready_def suite_ok_def Let_def AES128_KEYSIZE_def AES256_KEYSIZE_def SHA1_OUTSIZE_def SHA256_OUTSIZE_def
  have f: "flags t AND ENCRYPTION_AESGCM = 0" "IV_size t = 0" "length (key_area t) = 136" using assms by (simp_all add: fresh_def)
  have "?gcm \<Longrightarrow> b \<noteq> 0x3B" by (cases "a = 0xC0") auto
  moreover have "b \<noteq> 0x3B \<Longrightarrow> ?c \<noteq> TLS_RSA_WITH_NULL_SHA256"
    using cipher_id_low [of "ucast a" b] by (auto simp: TLS_RSA_WITH_NULL_SHA256_def)
  ultimately have c: "?gcm \<Longrightarrow> ?c \<noteq> TLS_RSA_WITH_NULL_SHA256" by blast
  consider (sha1) ?sha1 | (gcm) "\<not> ?sha1" ?gcm | (sha256) "\<not> ?sha1" "\<not> ?gcm" by blast
  then show ?thesis
  proof cases
    case sha1
    then show ?thesis using f by (cases "a = 0xC0") (simp_all add: defs)
  next
    case gcm
    show ?thesis using f gcm c [OF gcm(2)] flags_or_set [of "flags t"] flags_or_set [of "flags t OR NEED_EC_KEY"]
      by (cases "a = 0xC0") (simp_all only: defs if_True if_False simp_thms tls_state.simps, simp_all add: conj_commute)
  next
    case sha256
    then show ?thesis using f by (cases "a = 0xC0") (auto simp: defs)
  qed
qed

lemma set_cipher_params_plain: "plain_ok t \<Longrightarrow> plain_ok (set_cipher_params config t a b)"
  by (auto simp: set_cipher_params_def Let_def plain_ok_def buf_ok_def buffered_def)

lemma client_hello_plain:
  assumes "send_client_hello_and_alloc_hsd env conn sni = Inr conn'" "buf_ok (conn_tls conn)"
    "min_encrypted_len_on_read (conn_tls conn) = 0" "flags (conn_tls conn) AND ENCRYPT_ON_WRITE = 0" "fresh (conn_tls conn)"
  shows "plain_ok (conn_tls conn') \<and> fresh (conn_tls conn')"
proof -
  obtain d where "xwrite_and_update_handshake_hash env (conn\<lparr>conn_tls := (conn_tls conn)\<lparr>hsd := Some d\<rparr>\<rparr>)
      (client_hello (env_config env) (hello_random env) sni) = Inr conn'"
    using assms(1) by (simp add: send_client_hello_and_alloc_hsd_def Let_def)
  moreover have "plain_ok ((conn_tls conn)\<lparr>hsd := Some d\<rparr>)"
    using assms(2-4) by (simp add: plain_ok_def buf_ok_def buffered_def)
  moreover have "fresh ((conn_tls conn)\<lparr>hsd := Some d\<rparr>)" using assms(5) by (simp add: fresh_def)
  ultimately show ?thesis using sent_plain same_suite_fresh by fastforce
qed

lemma server_hello_steps:
  assumes "get_server_hello env conn = Inr conn'"
  obtains len c d r a b where "tls_xread_handshake_block env conn (74 - 32) = Inr (len, c)" "hsd (conn_tls c) = Some d"
    "conn' = c\<lparr>conn_tls := set_cipher_params (env_config env) ((conn_tls c)\<lparr>hsd := Some (d\<lparr>client_and_server_rand32 := r\<rparr>)\<rparr>) a b\<rparr>"
  using assms unfolding get_server_hello_def and_then_Inr
  by (auto simp: Let_def split: if_splits option.splits)

lemma server_hello_ready:
  assumes "get_server_hello env conn = Inr conn'" "plain_ok (conn_tls conn)" "fresh (conn_tls conn)"
  shows "plain_ok (conn_tls conn') \<and> ready (env_config env) (conn_tls conn')"
proof -
  obtain len conn1 d1 r a b where 1: "tls_xread_handshake_block env conn (74 - 32) = Inr (len, conn1)"
    "conn' = conn1\<lparr>conn_tls := set_cipher_params (env_config env) ((conn_tls conn1)\<lparr>hsd := Some (d1\<lparr>client_and_server_rand32 := r\<rparr>)\<rparr>) a b\<rparr>"
    using server_hello_steps [OF assms(1)] by metis
  let ?t = "(conn_tls conn1)\<lparr>hsd := Some (d1\<lparr>client_and_server_rand32 := r\<rparr>)\<rparr>"
  have "plain_ok (conn_tls conn1) \<and> same_suite (conn_tls conn) (conn_tls conn1)"
    using block_plain [OF 1(1) assms(2)] by simp
  then have "plain_ok ?t" "fresh ?t"
    using plain_ok_hsd [of "conn_tls conn1" "hsd ?t" "flags (conn_tls conn1)"] same_suite_fresh [OF _ assms(3)] by (auto simp: fresh_def)
  then show ?thesis using set_cipher_params_ready set_cipher_params_plain by (simp add: 1(2))
qed

lemma server_cert_plain:
  assumes "get_server_cert env conn = Inr conn'" "plain_ok (conn_tls conn)"
  shows "plain_ok (conn_tls conn') \<and> same_suite (conn_tls conn) (conn_tls conn')"
proof -
  obtain len conn1 where 1: "tls_xread_handshake_block env conn 10 = Inr (len, conn1)"
    "conn' = conn1 \<or> (\<exists>der n t. find_key_in_der_cert (conn_tls conn1) der n = Inr t \<and> conn' = conn1\<lparr>conn_tls := t\<rparr>)"
    using assms(1) unfolding get_server_cert_def and_then_Inr by (auto simp: Let_def and_then_Inr split: if_splits)
  have block: "plain_ok (conn_tls conn1) \<and> same_suite (conn_tls conn) (conn_tls conn1)"
    using block_plain [OF 1(1) assms(2)] by simp
  show ?thesis
    using 1(2)
  proof
    assume "\<exists>der n t. find_key_in_der_cert (conn_tls conn1) der n = Inr t \<and> conn' = conn1\<lparr>conn_tls := t\<rparr>"
    then obtain der n t where t: "find_key_in_der_cert (conn_tls conn1) der n = Inr t" "conn' = conn1\<lparr>conn_tls := t\<rparr>" by blast
    obtain f d where "t = (conn_tls conn1)\<lparr>flags := f, hsd := Some d\<rparr>" "f AND ENCRYPTION_AESGCM = flags (conn_tls conn1) AND ENCRYPTION_AESGCM"
      "f AND ENCRYPT_ON_WRITE = flags (conn_tls conn1) AND ENCRYPT_ON_WRITE"
      using find_key_frame [OF t(1)] block by (auto simp: plain_ok_def)
    then show ?thesis using block t(2) plain_ok_hsd [of "conn_tls conn1" "Some d" f] same_suite_hsd [of f "conn_tls conn1" "Some d"]
        same_suite_trans by auto
  qed (use block in simp)
qed

lemma server_key_plain:
  assumes "process_server_key t len = Inr t'" "plain_ok t"
  shows "plain_ok t' \<and> same_suite t t'"
proof -
  obtain d where "t' = t\<lparr>flags := flags t OR GOT_EC_KEY, hsd := Some d\<rparr>"
    using assms(1) by (cases t) (auto simp: process_server_key_def Let_def split: if_splits option.splits)
  then show ?thesis using plain_ok_hsd [OF assms(2), of "Some d" "flags t OR GOT_EC_KEY"] same_suite_hsd [of "flags t OR GOT_EC_KEY" t "Some d"] by simp
qed

text \<open>The whole negotiation.\<close>

definition negotiated :: "tls_config \<Rightarrow> tls_state \<Rightarrow> bool" where
  "negotiated config t \<longleftrightarrow> plain_ok t \<and> ready config t"

lemma negotiated_step:
  "plain_ok t' \<and> same_suite t t' \<Longrightarrow> negotiated config t \<Longrightarrow> negotiated config t'"
  using same_suite_ready by (auto simp: negotiated_def)

lemma negotiated_block:
  "tls_xread_handshake_block env conn k = Inr (len, conn') \<Longrightarrow> negotiated config (conn_tls conn) \<Longrightarrow> 0 < k \<Longrightarrow>
   negotiated config (conn_tls conn')"
  using block_plain negotiated_step negotiated_def by blast

lemma negotiated_sent:
  "xwrite_and_update_handshake_hash env conn buf = Inr conn' \<Longrightarrow> negotiated config (conn_tls conn) \<Longrightarrow>
   negotiated config (conn_tls conn')"
  using sent_plain negotiated_step negotiated_def by blast

definition starting :: "tls_state \<Rightarrow> bool" where
  "starting t \<longleftrightarrow> buf_ok t \<and> min_encrypted_len_on_read t = 0 \<and> flags t AND ENCRYPT_ON_WRITE = 0 \<and> fresh t"

lemma new_tls_state_starting: "starting new_tls_state"
  by (simp add: starting_def fresh_def buf_ok_def buffered_def new_tls_state_def)

text \<open>The steps of the negotiation.\<close>

lemma negotiate_steps:
  assumes "negotiate env conn sni = Inr conn'"
  obtains c1 c2 c3 len4 c4 c4' len5 c5 len6 c6 where
    "send_client_hello_and_alloc_hsd env conn sni = Inr c1" "get_server_hello env c1 = Inr c2" "get_server_cert env c2 = Inr c3"
    "tls_xread_handshake_block env c3 4 = Inr (len4, c4)"
    "c4' = c4 \<or> (\<exists>t. process_server_key (conn_tls c4) len4 = Inr t \<and> c4' = c4\<lparr>conn_tls := t\<rparr>)"
    "c4' = c4 \<and> c5 = c4 \<or> tls_xread_handshake_block env c4' 4 = Inr (len5, c5)"
    "c6 = c5 \<or> tls_xread_handshake_block env c5 4 = Inr (len6, c6)"
    "conn' = c6 \<or> send_empty_client_cert env c6 = Inr conn'"
proof -
  obtain c1 c2 c3 len4 c4 len5 c5 len6 c6 where
    c1: "send_client_hello_and_alloc_hsd env conn sni = Inr c1" and c2: "get_server_hello env c1 = Inr c2"
    and c3: "get_server_cert env c2 = Inr c3" and c4: "tls_xread_handshake_block env c3 4 = Inr (len4, c4)"
    and c5: "(if message_type c4 = HANDSHAKE_SERVER_KEY_EXCHANGE then
          and_then
            (if flags (conn_tls c4) AND NEED_EC_KEY \<noteq> 0 then
               and_then (process_server_key (conn_tls c4) len4) (\<lambda>tls. Inr (c4\<lparr>conn_tls := tls\<rparr>))
             else Inr c4)
            (\<lambda>conn. tls_xread_handshake_block env conn 4)
        else Inr (len4, c4)) = Inr (len5, c5)"
    and c6: "(if message_type c5 = HANDSHAKE_CERTIFICATE_REQUEST then tls_xread_handshake_block env c5 4 else Inr (len5, c5)) = Inr (len6, c6)"
    and last: "(if message_type c5 = HANDSHAKE_CERTIFICATE_REQUEST then send_empty_client_cert env c6 else Inr c6) = Inr conn'"
    using assms unfolding negotiate_def and_then_Inr Let_def split_paired_Ex prod.case
    by (elim exE conjE) (rule that, assumption+, simp split: if_split_asm)
  obtain c4' where key: "c4' = c4 \<or> (\<exists>t. process_server_key (conn_tls c4) len4 = Inr t \<and> c4' = c4\<lparr>conn_tls := t\<rparr>)"
    "c4' = c4 \<and> c5 = c4 \<or> tls_xread_handshake_block env c4' 4 = Inr (len5, c5)"
  proof (cases "message_type c4 = HANDSHAKE_SERVER_KEY_EXCHANGE")
    case True
    then obtain c where "tls_xread_handshake_block env c 4 = Inr (len5, c5)"
      "c = c4 \<or> (\<exists>t. process_server_key (conn_tls c4) len4 = Inr t \<and> c = c4\<lparr>conn_tls := t\<rparr>)"
      using c5 unfolding and_then_Inr by (auto simp: and_then_Inr split: if_splits)
    then show ?thesis by (intro that [of c]) blast+
  qed (use c5 that [of c4] in simp)
  show ?thesis
    using that [OF c1 c2 c3 c4 key] c6 last by (metis (no_types, lifting) sum.inject(2) prod.inject)
qed

lemma negotiate_negotiated:
  assumes "negotiate env conn sni = Inr conn'" "starting (conn_tls conn)"
  shows "negotiated (env_config env) (conn_tls conn')"
proof -
  let ?n = "\<lambda>c. negotiated (env_config env) (conn_tls c)"
  obtain c1 c2 c3 len4 c4 c4' len5 c5 len6 c6 where
    c1: "send_client_hello_and_alloc_hsd env conn sni = Inr c1" and c2: "get_server_hello env c1 = Inr c2" and c3: "get_server_cert env c2 = Inr c3"
    and c4: "tls_xread_handshake_block env c3 4 = Inr (len4, c4)"
    and c4': "c4' = c4 \<or> (\<exists>t. process_server_key (conn_tls c4) len4 = Inr t \<and> c4' = c4\<lparr>conn_tls := t\<rparr>)"
    and c5: "c4' = c4 \<and> c5 = c4 \<or> tls_xread_handshake_block env c4' 4 = Inr (len5, c5)"
    and c6: "c6 = c5 \<or> tls_xread_handshake_block env c5 4 = Inr (len6, c6)" and last: "conn' = c6 \<or> send_empty_client_cert env c6 = Inr conn'"
    by (rule negotiate_steps [OF assms(1)])
  have "plain_ok (conn_tls c1) \<and> fresh (conn_tls c1)"
    using client_hello_plain [OF c1] assms(2) by (simp add: starting_def)
  then have "?n c2" using server_hello_ready [OF c2] by (simp add: negotiated_def)
  then have "?n c3" using server_cert_plain [OF c3] negotiated_step by (auto simp: negotiated_def)
  then have n4: "?n c4" using negotiated_block [OF c4] by simp
  have "?n c4'" using c4' n4 server_key_plain negotiated_step by (fastforce simp: negotiated_def)
  then have "?n c5" using c5 negotiated_block [of env c4' 4] by auto
  then have "?n c6" using c6 negotiated_block [of env c5 4] by auto
  then show ?thesis using last negotiated_sent by (auto simp: send_empty_client_cert_def)
qed

section \<open>The keys\<close>

text \<open>The partition of the key block, RFC 5246, 6.3.\<close>

definition key_part :: "u8 list \<Rightarrow> nat \<Rightarrow> nat \<Rightarrow> u8 list" where
  "key_part block pos n = take n (drop pos block)"

definition keyed :: "tls_state \<Rightarrow> u8 list \<Rightarrow> bool" where
  "keyed t block \<longleftrightarrow> (let m = MAC_size t; k = key_size t; i = IV_size t in
     length block = 2 * (m + k + i) \<and> take (length block) (key_area t) = block \<and>
     client_write_key t = 2 * m \<and> server_write_key t = 2 * m + k \<and>
     client_write_IV t = 2 * m + 2 * k \<and> server_write_IV t = 2 * m + 2 * k + i \<and>
     aes_encrypt t = aes_setkey (key_part block (2 * m) k) \<and>
     aes_decrypt t = aes_setkey (key_part block (2 * m + k) k) \<and>
     H t = aes_encrypt_one_block (aes_encrypt t) (replicate 16 0))"

definition rfc_prf :: "u8 list \<Rightarrow> string \<Rightarrow> u8 list \<Rightarrow> nat \<Rightarrow> u8 list" where
  "rfc_prf secret label seed n = take n (rfc_P_hash (rfc_hmac sha256_spec) secret (label_bytes label @ seed) (n div 32 + 1))"

lemma length_rfc_prf: "length (rfc_prf secret label seed n) = n"
proof -
  have "n \<le> 32 * Suc (n div 32)" by (simp add: less_imp_le dividend_less_times_div)
  then show ?thesis
    using length_rfc_P_hash [of "rfc_hmac sha256_spec" secret "label_bytes label @ seed" "n div 32 + 1"] length_rfc_hmac
    by (simp add: rfc_prf_def SHA256_OUTSIZE_def)
qed

lemma prf_rfc_prf:
  "pre_ok pre \<Longrightarrow> length secret \<le> 64 \<Longrightarrow> prf_hmac_sha256 config pre n secret (label_bytes label) seed = Some (rfc_prf secret label seed n)"
  by (simp add: prf_value pre_ok_def rfc_prf_def)

definition key_block :: "u8 list \<Rightarrow> u8 list \<Rightarrow> nat \<Rightarrow> u8 list" where
  "key_block premaster rand n =
     rfc_prf (rfc_prf premaster ''master secret'' rand 48) ''key expansion'' (take 32 (drop 32 rand) @ take 32 rand) n"

text \<open>What the key schedule keeps.\<close>

definition same_buffers :: "tls_state \<Rightarrow> tls_state \<Rightarrow> bool" where
  "same_buffers t t' \<longleftrightarrow> flags t' = flags t \<and> min_encrypted_len_on_read t' = min_encrypted_len_on_read t \<and> cipher_id t' = cipher_id t \<and>
     MAC_size t' = MAC_size t \<and> key_size t' = key_size t \<and> IV_size t' = IV_size t \<and> inbuf_size t' = inbuf_size t \<and>
     ofs_to_buffered t' = ofs_to_buffered t \<and> buffered_size t' = buffered_size t \<and> inbuf t' = inbuf t \<and>
     length (key_area t') = length (key_area t) \<and> write_seq64_be t' = write_seq64_be t"

lemma derive_keys_keyed:
  assumes "pre_ok (env_pre env)" "length premaster \<le> 64" "2 * (MAC_size t + key_size t + IV_size t) \<le> length (key_area t)"
  shows "\<exists>t'. derive_keys env t d premaster = Inr t' \<and>
    keyed t' (key_block premaster (client_and_server_rand32 d) (2 * (MAC_size t + key_size t + IV_size t))) \<and>
    hsd t' = Some (d\<lparr>master_secret := rfc_prf premaster ''master secret'' (client_and_server_rand32 d) 48\<rparr>) \<and> same_buffers t t'"
proof -
  define n where "n = 2 * (MAC_size t + key_size t + IV_size t)"
  define secret where "secret = rfc_prf premaster ''master secret'' (client_and_server_rand32 d) 48"
  define block where "block = key_block premaster (client_and_server_rand32 d) n"
  have len: "length block = n" by (simp add: block_def key_block_def length_rfc_prf)
  define ka where "ka = memcpy (key_area t) 0 block"
  have ka: "length ka = length (key_area t)" "take n ka = block" "ka = block @ drop n (key_area t)"
    using assms(3) len by (simp_all add: ka_def memcpy_def n_def)
  have part: "take k (drop p ka) = key_part block p k" if "p + k \<le> n" for p k
    using that len by (simp add: ka(3) key_part_def)
  let ?e = "aes_setkey (take (key_size t) (drop (2 * MAC_size t) ka))"
  let ?dd = "aes_setkey (take (key_size t) (drop (2 * MAC_size t + key_size t) ka))"
  let ?t = "t\<lparr>hsd := Some (d\<lparr>master_secret := secret\<rparr>), key_area := ka, client_write_key := 2 * MAC_size t,
     server_write_key := 2 * MAC_size t + key_size t, client_write_IV := 2 * MAC_size t + key_size t + key_size t,
     server_write_IV := 2 * MAC_size t + key_size t + key_size t + IV_size t, aes_decrypt := ?dd, aes_encrypt := ?e,
     H := aes_encrypt_one_block ?e (replicate 16 0)\<rparr>"
  have steps: "prf_hmac_sha256 (md5_small (env_config env)) (env_pre env) 48 premaster (label_bytes ''master secret'') (client_and_server_rand32 d) = Some secret"
    "prf_hmac_sha256 (md5_small (env_config env)) (env_pre env) n secret (label_bytes ''key expansion'')
      (take 32 (drop 32 (client_and_server_rand32 d)) @ take 32 (client_and_server_rand32 d)) = Some block"
    using assms(1,2) by (simp_all add: prf_rfc_prf length_rfc_prf secret_def block_def key_block_def)
  have "derive_keys env t d premaster = Inr ?t"
    unfolding derive_keys_def Let_def steps(1) option.case steps(2) [unfolded n_def] ka_def [symmetric]
    by (simp add: AES_BLOCK_SIZE_def)
  moreover have "keyed ?t block"
    using ka(2) len part by (simp add: keyed_def Let_def n_def)
  moreover have "same_buffers t ?t" using ka(1) by (simp add: same_buffers_def)
  ultimately show ?thesis unfolding secret_def [symmetric] block_def [unfolded n_def, symmetric]
    by (intro exI [of _ ?t] conjI) (assumption, assumption, simp, assumption)
qed

section \<open>The switch to encryption\<close>

lemma hashed_message:
  assumes "xwrite_and_update_handshake_hash env conn buf = Inr conn'" "flags (conn_tls conn) AND ENCRYPT_ON_WRITE = 0"
  obtains d ctx where "hsd (conn_tls conn) = Some d" "conn_tls conn' = (conn_tls conn)\<lparr>hsd := Some (d\<lparr>handshake_hash_ctx := ctx\<rparr>)\<rparr>"
  using assms by (auto simp: xwrite_and_update_handshake_hash_def xwrite_handshake_record_def xwrite_def and_then_Inr
      hash_handshake_def Let_def split: option.splits)

lemma xwrite_encrypted_frame:
  "xwrite_encrypted config pre iv t buf type = Inr (t', bytes) \<Longrightarrow> t' = t\<lparr>write_seq64_be := next_seq (write_seq64_be t)\<rparr>"
  by (auto simp: xwrite_encrypted_def xwrite_encrypted_and_hmac_signed_def xwrite_encrypted_aesgcm_def Let_def split: if_splits option.splits)

lemma keyed_frame [simp]:
  "keyed (t\<lparr>flags := f\<rparr>) b = keyed t b" "keyed (t\<lparr>hsd := h\<rparr>) b = keyed t b" "keyed (t\<lparr>write_seq64_be := s\<rparr>) b = keyed t b"
  "keyed (t\<lparr>min_encrypted_len_on_read := n\<rparr>) b = keyed t b"
  by (simp_all add: keyed_def)

lemma ready_frame [simp]:
  "ready config (t\<lparr>flags := flags t OR ENCRYPT_ON_WRITE\<rparr>) = ready config t" "ready config (t\<lparr>hsd := h\<rparr>) = ready config t"
  "ready config (t\<lparr>write_seq64_be := s\<rparr>) = ready config t" "ready config (t\<lparr>min_encrypted_len_on_read := n\<rparr>) = ready config t"
  by (simp_all add: ready_def suite_ok_def)

lemma buf_ok_frame [simp]:
  "buf_ok (t\<lparr>flags := f\<rparr>) = buf_ok t" "buf_ok (t\<lparr>hsd := h\<rparr>) = buf_ok t" "buf_ok (t\<lparr>write_seq64_be := s\<rparr>) = buf_ok t"
  "buf_ok (t\<lparr>min_encrypted_len_on_read := n\<rparr>) = buf_ok t"
  by (simp_all add: buf_ok_def buffered_def)

lemma ready_room: "ready config t \<Longrightarrow> 2 * (MAC_size t + key_size t + IV_size t) \<le> length (key_area t)"
  by (auto simp: ready_def split: if_splits)

definition handshake_keys :: "tls_env \<Rightarrow> tls_state \<Rightarrow> u8 list" where
  "handshake_keys env t =
     (let d = the (hsd t)
      in key_block (snd (client_key env t d)) (client_and_server_rand32 d) (2 * (MAC_size t + key_size t + IV_size t)))"

lemma key_exchange_steps:
  assumes "send_client_key_exchange env conn = Inr conn'" "negotiated (env_config env) (conn_tls conn)" "pre_ok (env_pre env)"
  obtains d msg c d1 where "hsd (conn_tls conn) = Some d" "xwrite_and_update_handshake_hash env conn (HANDSHAKE_CLIENT_KEY_EXCHANGE # msg) = Inr c"
    "hsd (conn_tls c) = Some d1" "conn' = c\<lparr>conn_tls := conn_tls conn'\<rparr>" "keyed (conn_tls conn') (handshake_keys env (conn_tls conn))"
    "hsd (conn_tls conn') = Some (d1\<lparr>master_secret := rfc_prf (snd (client_key env (conn_tls conn) d)) ''master secret'' (client_and_server_rand32 d) 48\<rparr>)"
    "same_buffers (conn_tls conn) (conn_tls conn')"
proof -
  obtain d c1 d1 t key premaster msg where s: "hsd (conn_tls conn) = Some d" "client_key env (conn_tls conn) d = (key, premaster)"
    "xwrite_and_update_handshake_hash env conn (HANDSHAKE_CLIENT_KEY_EXCHANGE # msg) = Inr c1" "hsd (conn_tls c1) = Some d1"
    "derive_keys env (conn_tls c1) d1 premaster = Inr t" "conn' = c1\<lparr>conn_tls := t\<rparr>"
    using assms(1) by (auto simp: send_client_key_exchange_def and_then_Inr Let_def split: option.splits prod.splits)
  have "flags (conn_tls conn) AND ENCRYPT_ON_WRITE = 0" using assms(2) by (simp add: negotiated_def plain_ok_def)
  from hashed_message [OF s(3) this] obtain ctx where
    h: "conn_tls c1 = (conn_tls conn)\<lparr>hsd := Some (d\<lparr>handshake_hash_ctx := ctx\<rparr>)\<rparr>" using s(1) by auto
  have d1: "client_and_server_rand32 d1 = client_and_server_rand32 d" using s(4) h by auto
  have room: "2 * (MAC_size (conn_tls c1) + key_size (conn_tls c1) + IV_size (conn_tls c1)) \<le> length (key_area (conn_tls c1))"
    using ready_room [of "env_config env" "conn_tls conn"] assms(2) h by (simp add: negotiated_def)
  have "derive_keys env (conn_tls c1) d1 premaster = Inl Die" if "\<not> length premaster \<le> 64"
    using that assms(3) unfolding derive_keys_def Let_def by (simp add: prf_value pre_ok_def)
  then have "length premaster \<le> 64" using s(5) by auto
  from derive_keys_keyed [OF assms(3) this room, of d1] s(5)
  have t: "keyed t (key_block premaster (client_and_server_rand32 d1) (2 * (MAC_size (conn_tls c1) + key_size (conn_tls c1) + IV_size (conn_tls c1))))"
    "hsd t = Some (d1\<lparr>master_secret := rfc_prf premaster ''master secret'' (client_and_server_rand32 d1) 48\<rparr>)" "same_buffers (conn_tls c1) t" by auto
  have "keyed t (handshake_keys env (conn_tls conn))"
    using t(1) s(1,2) d1 h by (simp add: handshake_keys_def Let_def)
  moreover have "same_buffers (conn_tls conn) t" using t(3) h by (simp add: same_buffers_def)
  ultimately show ?thesis using that [OF s(1,3,4)] t(2) d1 s(2,6) by simp
qed

lemma key_exchange_keyed:
  assumes "send_client_key_exchange env conn = Inr conn'" "negotiated (env_config env) (conn_tls conn)" "pre_ok (env_pre env)"
  shows "keyed (conn_tls conn') (handshake_keys env (conn_tls conn))" "same_buffers (conn_tls conn) (conn_tls conn')" "hsd (conn_tls conn') \<noteq> None"
  by (rule key_exchange_steps [OF assms]; simp)+

lemma same_buffers_ready: "same_buffers t t' \<Longrightarrow> ready config t \<Longrightarrow> ready config t'"
  by (simp add: same_buffers_def ready_def suite_ok_def)

lemma same_buffers_buf_ok: "same_buffers t t' \<Longrightarrow> buf_ok t \<Longrightarrow> buf_ok t'"
  by (simp add: same_buffers_def buf_ok_def buffered_def)

lemma client_finished_frame:
  assumes "send_client_finished env conn = Inr conn'"
  obtains h s where "conn_tls conn' = (conn_tls conn)\<lparr>hsd := h, write_seq64_be := s\<rparr>"
proof -
  obtain d where d: "hsd (conn_tls conn) = Some d" using assms by (cases "hsd (conn_tls conn)") (auto simp: send_client_finished_def)
  obtain ctx hash where e: "sha1_end (md5_small (env_config env)) (handshake_hash_ctx d) = (ctx, hash)" by fastforce
  obtain v where v: "prf_hmac_sha256 (md5_small (env_config env)) (env_pre env) 12 (master_secret d) (label_bytes ''client finished'') hash = Some v"
    using assms d e by (cases "prf_hmac_sha256 (md5_small (env_config env)) (env_pre env) 12 (master_secret d) (label_bytes ''client finished'') hash")
      (auto simp: send_client_finished_def)
  obtain t bytes msg where "xwrite_encrypted (env_config env) (env_pre env) (iv_random env)
      ((conn_tls conn)\<lparr>hsd := Some (d\<lparr>handshake_hash_ctx := ctx\<rparr>)\<rparr>) msg RECORD_TYPE_HANDSHAKE = Inr (t, bytes)"
    "conn' = xwrite (conn\<lparr>conn_tls := t\<rparr>) bytes"
    using assms d e v by (auto simp: send_client_finished_def and_then_Inr Let_def)
  from xwrite_encrypted_frame [OF this(1)] this(2) show ?thesis by (intro that) (simp add: xwrite_def)
qed

lemma switch_keyed:
  assumes "switch_to_encryption env conn = Inr conn'" "negotiated (env_config env) (conn_tls conn)" "pre_ok (env_pre env)"
  shows "keyed (conn_tls conn') (handshake_keys env (conn_tls conn))" "ready (env_config env) (conn_tls conn')"
    "buf_ok (conn_tls conn')" "min_encrypted_len_on_read (conn_tls conn') = 0"
proof -
  obtain c1 where c1: "send_client_key_exchange env conn = Inr c1"
    and f: "send_client_finished env ((send_change_cipher_spec c1)\<lparr>conn_tls := (conn_tls (send_change_cipher_spec c1))\<lparr>flags :=
        flags (conn_tls (send_change_cipher_spec c1)) OR ENCRYPT_ON_WRITE\<rparr>\<rparr>) = Inr conn'"
    using assms(1) by (auto simp: switch_to_encryption_def and_then_Inr Let_def)
  obtain h s where c: "conn_tls conn' = (conn_tls c1)\<lparr>flags := flags (conn_tls c1) OR ENCRYPT_ON_WRITE, hsd := h, write_seq64_be := s\<rparr>"
    using client_finished_frame [OF f] by (simp add: send_change_cipher_spec_def xwrite_def) blast
  note k = key_exchange_keyed [OF c1 assms(2,3)]
  have n: "plain_ok (conn_tls conn)" "ready (env_config env) (conn_tls conn)" using assms(2) by (simp_all add: negotiated_def)
  show "keyed (conn_tls conn') (handshake_keys env (conn_tls conn))" using k(1) by (simp add: c)
  show "ready (env_config env) (conn_tls conn')" using same_buffers_ready [OF k(2) n(2)] by (simp add: c)
  show "buf_ok (conn_tls conn')" using same_buffers_buf_ok [OF k(2)] n(1) by (simp add: c plain_ok_def)
  show "min_encrypted_len_on_read (conn_tls conn') = 0" using k(2) n(1) by (simp add: c plain_ok_def same_buffers_def)
qed

section \<open>After the handshake\<close>

definition established :: "tls_config \<Rightarrow> tls_state \<Rightarrow> u8 list \<Rightarrow> bool" where
  "established config t block \<longleftrightarrow> keyed t block \<and> ready config t \<and> buf_ok t \<and>
     min_encrypted_len_on_read t = min_encrypted_len_on_read (set_min_encrypted_len config t)"

lemma set_min_encrypted_len_frame: "\<exists>n. set_min_encrypted_len config t = t\<lparr>min_encrypted_len_on_read := n\<rparr>"
  by (auto simp: set_min_encrypted_len_def Let_def)

lemma set_min_encrypted_len_again:
  "min_encrypted_len_on_read (set_min_encrypted_len config (t\<lparr>min_encrypted_len_on_read := n\<rparr>)) =
   min_encrypted_len_on_read (set_min_encrypted_len config t)"
  by (simp add: set_min_encrypted_len_def TLS_MAC_SIZE_def)

lemma established_set_min:
  assumes "keyed t block" "ready config t" "buf_ok t"
  shows "established config (set_min_encrypted_len config t) block"
proof -
  obtain n where n: "set_min_encrypted_len config t = t\<lparr>min_encrypted_len_on_read := n\<rparr>" using set_min_encrypted_len_frame by blast
  then show ?thesis using assms set_min_encrypted_len_again [where config = config and t = t and n = n] by (simp add: established_def)
qed

lemma only_input_keyed: "only_input t t' \<Longrightarrow> keyed t block \<Longrightarrow> ready config t \<Longrightarrow> keyed t' block \<and> ready config t'"
  by (auto simp: only_input_def keyed_def ready_def suite_ok_def)

lemma established_reader: "established config t block \<Longrightarrow> reader_ok config t"
  by (simp add: established_def reader_ok_def ready_def)

lemma only_input_min_len:
  "only_input t t' \<Longrightarrow> min_encrypted_len_on_read t' = min_encrypted_len_on_read t \<and>
     min_encrypted_len_on_read (set_min_encrypted_len config t') = min_encrypted_len_on_read (set_min_encrypted_len config t)"
  by (auto simp: only_input_def set_min_encrypted_len_def TLS_MAC_SIZE_def Let_def)

lemma established_read: "established config t block \<Longrightarrow> read_ok config t len t' \<Longrightarrow> established config t' block"
  using only_input_keyed [of t t' block config] only_input_min_len [of t t' config]
  by (simp add: established_def read_ok_def reader_ok_def)

lemma finish_established:
  assumes "finish env conn = Inr conn'" "keyed (conn_tls conn) block" "ready (env_config env) (conn_tls conn)" "buf_ok (conn_tls conn)"
    "min_encrypted_len_on_read (conn_tls conn) = 0"
  shows "established (env_config env) (conn_tls conn') block \<and> hsd (conn_tls conn') = None"
proof -
  obtain len1 c1 len2 c2 where c1: "xread_record env conn = Inr (len1, c1)"
    and c2: "xread_record env (c1\<lparr>conn_tls := set_min_encrypted_len (env_config env) (conn_tls c1)\<rparr>) = Inr (len2, c2)"
    and c: "conn_tls conn' = (conn_tls c2)\<lparr>hsd := None\<rparr>"
    using assms(1) by (auto simp: finish_def and_then_Inr Let_def split: if_splits)
  have "reader_ok (env_config env) (conn_tls conn)" using assms(4,5) by (simp add: reader_ok_def)
  from xread_record_conn(1) [OF c1 this] have r1: "only_input (conn_tls conn) (conn_tls c1)" "buf_ok (conn_tls c1)"
    by (simp_all add: read_ok_def reader_ok_def)
  have "established (env_config env) (set_min_encrypted_len (env_config env) (conn_tls c1)) block"
    using only_input_keyed [OF r1(1) assms(2,3)] r1(2) by (intro established_set_min) simp_all
  moreover from this have "read_ok (env_config env) (set_min_encrypted_len (env_config env) (conn_tls c1)) len2 (conn_tls c2)"
    using xread_record_conn(1) [OF c2] established_reader by simp
  ultimately have "established (env_config env) (conn_tls c2) block" by (rule established_read)
  then show ?thesis by (simp add: c established_def) (simp add: set_min_encrypted_len_def TLS_MAC_SIZE_def)
qed

lemma handshake_established:
  assumes "tls_handshake env conn sni = Inr conn'" "starting (conn_tls conn)" "pre_ok (env_pre env)"
  obtains conn0 where "negotiate env conn sni = Inr conn0"
    "established (env_config env) (conn_tls conn') (handshake_keys env (conn_tls conn0))" "hsd (conn_tls conn') = None"
proof -
  obtain c0 c1 where c: "negotiate env conn sni = Inr c0" "switch_to_encryption env c0 = Inr c1" "finish env c1 = Inr conn'"
    using assms(1) by (auto simp: tls_handshake_def and_then_Inr)
  note s = switch_keyed [OF c(2) negotiate_negotiated [OF c(1) assms(2)] assms(3)]
  show ?thesis using finish_established [OF c(3) s] by (intro that [OF c(1)]) simp_all
qed

section \<open>A handshake that succeeds\<close>

text \<open>With the null cipher suite of the debugging option, without a certificate.\<close>

definition example_env :: tls_env where
  "example_env = \<lparr>env_config = example_config\<lparr>ALLOW_RSA_NULL_SHA256 := True\<rparr>, env_pre = example_pre, env_uninit = [], env_spare = \<lambda>t. [],
     hello_random = replicate 32 1, premaster_random = replicate 48 2, privkey_random = replicate 32 3, iv_random = replicate 16 4,
     psRsaEncryptPub = \<lambda>key m. m\<rparr>"

definition example_server :: "u8 list list" where
  "example_server = [
     [22, 3, 3, 0, 42, 2, 0, 0, 38, 3, 3] @ replicate 32 9 @ [0, 0, 0x3B, 0],
     [22, 3, 3, 0, 10, 11, 0, 0, 6, 0, 0, 3, 0, 0, 0],
     [22, 3, 3, 0, 4, 14, 0, 0, 0],
     [20, 3, 3, 0, 1, 1],
     [22, 3, 3, 0, 36, 20, 0, 0, 0] @ replicate 32 7]"

definition example_conn :: tls_conn where
  "example_conn = \<lparr>conn_tls = new_tls_state, conn_ifd = map Some example_server, conn_ofd = []\<rparr>"

lemma inbuf_sizes: "MAX_INBUF = 18437" "RECHDR_LEN = 5" by (simp_all add: MAX_INBUF_def RECHDR_LEN_def)

lemmas reads = tls_xread_handshake_block_def xread_record_def tls_xread_record.simps read_one_def fetch_record_def fill_loop.simps find_target_def
  grow_inbuf_def inbuf_sizes decrypt_record_def handle_record_def hash_handshake_def RECORD_TYPE_ALERT_def RECORD_TYPE_HANDSHAKE_def
  TLS_MAJ_def TLS_MIN_def Let_def

lemmas message_types = HANDSHAKE_SERVER_HELLO_def HANDSHAKE_CERTIFICATE_def HANDSHAKE_SERVER_KEY_EXCHANGE_def
  HANDSHAKE_CERTIFICATE_REQUEST_def HANDSHAKE_SERVER_HELLO_DONE_def message_type_def RECHDR_LEN_def

text \<open>The state after the negotiation, up to the output and the handshake data.\<close>

definition example_negotiated :: "tls_handshake_data \<Rightarrow> tls_state" where
  "example_negotiated d = new_tls_state\<lparr>cipher_id := 0x3B, MAC_size := 32, key_size := 32, inbuf_size := 2304, ofs_to_buffered := 9,
     inbuf := [22, 3, 3, 0, 4, 14, 0, 0, 0], hsd := Some d\<rparr>"

definition example_step :: "tls_state \<Rightarrow> tls_handshake_data \<Rightarrow> nat \<Rightarrow> u8 list \<Rightarrow> u8 list \<Rightarrow> tls_conn" where
  "example_step t d n buf ofd = \<lparr>conn_tls = t\<lparr>inbuf_size := 2304, ofs_to_buffered := length buf, inbuf := buf, hsd := Some d\<rparr>,
     conn_ifd = map Some (drop n example_server), conn_ofd = ofd\<rparr>"

lemmas example_defs = example_env_def example_conn_def example_server_def new_tls_state_def example_step_def example_config_def

definition example_suite :: tls_state where
  "example_suite = new_tls_state\<lparr>cipher_id := 0x3B, MAC_size := 32, key_size := 32\<rparr>"

lemma example_negotiate:
  "\<exists>d ofd. negotiate example_env example_conn None = Inr (example_step example_suite d 3 (example_server ! 2) ofd)"
proof -
  obtain d1 ofd where c1: "send_client_hello_and_alloc_hsd example_env example_conn None =
      Inr (example_conn\<lparr>conn_tls := new_tls_state\<lparr>hsd := Some d1\<rparr>, conn_ofd := ofd\<rparr>)"
    by (simp add: send_client_hello_and_alloc_hsd_def xwrite_and_update_handshake_hash_def xwrite_handshake_record_def xwrite_def
        hash_handshake_def example_conn_def new_tls_state_def Let_def)
  have "\<exists>d. get_server_hello example_env (example_conn\<lparr>conn_tls := new_tls_state\<lparr>hsd := Some d1\<rparr>, conn_ofd := ofd\<rparr>) =
      Inr (example_step example_suite d 1 (example_server ! 0) ofd)"
    by (simp add: get_server_hello_def example_defs example_suite_def reads message_types set_cipher_params_def SHA256_OUTSIZE_def AES256_KEYSIZE_def nth_append)
  then obtain d2 where c2: "get_server_hello example_env (example_conn\<lparr>conn_tls := new_tls_state\<lparr>hsd := Some d1\<rparr>, conn_ofd := ofd\<rparr>) =
      Inr (example_step example_suite d2 1 (example_server ! 0) ofd)" by blast
  have "\<exists>d. get_server_cert example_env (example_step example_suite d2 1 (example_server ! 0) ofd) =
      Inr (example_step example_suite d 2 (example_server ! 1) ofd)"
    by (simp add: get_server_cert_def example_defs example_suite_def reads message_types get24be_def)
  then obtain d3 where c3: "get_server_cert example_env (example_step example_suite d2 1 (example_server ! 0) ofd) =
      Inr (example_step example_suite d3 2 (example_server ! 1) ofd)" by blast
  have "\<exists>d. tls_xread_handshake_block example_env (example_step example_suite d3 2 (example_server ! 1) ofd) 4 =
      Inr (4, example_step example_suite d 3 (example_server ! 2) ofd)"
    by (simp add: example_defs example_suite_def reads)
  then obtain d4 where c4: "tls_xread_handshake_block example_env (example_step example_suite d3 2 (example_server ! 1) ofd) 4 =
      Inr (4, example_step example_suite d4 3 (example_server ! 2) ofd)" by blast
  have m: "message_type (example_step example_suite d4 3 (example_server ! 2) ofd) = HANDSHAKE_SERVER_HELLO_DONE"
    by (simp add: example_defs message_types)
  have ne: "HANDSHAKE_SERVER_HELLO_DONE \<noteq> HANDSHAKE_SERVER_KEY_EXCHANGE" "HANDSHAKE_SERVER_HELLO_DONE \<noteq> HANDSHAKE_CERTIFICATE_REQUEST"
    by (simp_all add: message_types)
  show ?thesis
    unfolding negotiate_def c1 and_then_simps c2 c3 c4 prod.case m if_not_P [OF ne(1)] using ne by (simp add: m Let_def) blast
qed

lemma example_pre_ok: "pre_ok example_pre" by (rule example_channel)

lemma example_switch:
  "\<exists>t ofd'. switch_to_encryption example_env (example_step example_suite d 3 buf ofd) =
     Inr \<lparr>conn_tls = t, conn_ifd = map Some (drop 3 example_server), conn_ofd = ofd'\<rparr> \<and>
     inbuf_size t = 2304 \<and> inbuf t = buf \<and> buffered_size t = 0 \<and> ofs_to_buffered t = length buf \<and> min_encrypted_len_on_read t = 0 \<and> hsd t \<noteq> None \<and>
     cipher_id t = 0x3B \<and> MAC_size t = 32 \<and> flags t AND ENCRYPTION_AESGCM = 0"
proof -
  have eow: "ENCRYPT_ON_WRITE AND ENCRYPTION_AESGCM = 0" using flags_or(8) [of 0] by simp
  let ?conn = "example_step example_suite d 3 buf ofd"
  have pre: "env_pre example_env = example_pre" by (simp add: example_env_def)
  have plain: "flags (conn_tls ?conn) AND ENCRYPT_ON_WRITE = 0" "flags (conn_tls ?conn) AND NEED_EC_KEY = 0"
    "flags (conn_tls ?conn) = 0" "hsd (conn_tls ?conn) = Some d"
    by (simp_all add: example_step_def example_suite_def new_tls_state_def)
  obtain key premaster where key: "client_key example_env (conn_tls ?conn) d = (key, premaster)" "length premaster = 48"
    using plain(2) by (simp add: client_key_def Let_def example_env_def)
  define msg where "msg = [HANDSHAKE_CLIENT_KEY_EXCHANGE, 0, word_of_nat (length key div 2 ^ 8), word_of_nat (length key mod 256)] @ key"
  have "\<exists>d1 ofd1. xwrite_and_update_handshake_hash example_env ?conn msg = Inr (example_step example_suite d1 3 buf ofd1)"
    by (simp add: xwrite_and_update_handshake_hash_def xwrite_handshake_record_def xwrite_def hash_handshake_def Let_def
        example_step_def example_suite_def new_tls_state_def)
  then obtain d1 ofd1 where c1: "xwrite_and_update_handshake_hash example_env ?conn msg = Inr (example_step example_suite d1 3 buf ofd1)" by blast
  let ?t1 = "conn_tls (example_step example_suite d1 3 buf ofd1)"
  have t1: "MAC_size ?t1 = 32" "key_size ?t1 = 32" "IV_size ?t1 = 0" "length (key_area ?t1) = 136" "hsd ?t1 = Some d1"
    by (simp_all add: example_step_def example_suite_def new_tls_state_def)
  obtain t2 where t2: "derive_keys example_env ?t1 d1 premaster = Inr t2" "hsd t2 \<noteq> None" "same_buffers ?t1 t2"
    "length (master_secret (the (hsd t2))) = 48"
    using derive_keys_keyed [of example_env premaster ?t1 d1] example_pre_ok key(2) t1 by (auto simp: pre length_rfc_prf)
  define c2 where "c2 = (example_step example_suite d1 3 buf ofd1)\<lparr>conn_tls := t2\<rparr>"
  have c2: "send_client_key_exchange example_env ?conn = Inr c2"
    using plain(4) key(1) c1 t1(5) t2(1) by (simp add: send_client_key_exchange_def msg_def Let_def c2_def)
  define c3 where "c3 = (send_change_cipher_spec c2)\<lparr>conn_tls := t2\<lparr>flags := flags t2 OR ENCRYPT_ON_WRITE\<rparr>\<rparr>"
  have sw: "switch_to_encryption example_env ?conn = send_client_finished example_env c3"
    using c2 by (simp add: switch_to_encryption_def Let_def c3_def) (simp add: send_change_cipher_spec_def xwrite_def c2_def)
  obtain d2 where d2: "hsd (conn_tls c3) = Some d2" "length (master_secret d2) = 48" using t2(2,4) by (auto simp: c3_def)
  obtain ctx hash where e: "sha1_end (md5_small (env_config example_env)) (handshake_hash_ctx d2) = (ctx, hash)" by fastforce
  let ?t3 = "(conn_tls c3)\<lparr>hsd := Some (d2\<lparr>handshake_hash_ctx := ctx\<rparr>)\<rparr>"
  have t3: "flags ?t3 AND ENCRYPTION_AESGCM = 0" "cipher_id ?t3 = 0x3B" "MAC_size ?t3 = 32"
    using t2(3) eow by (simp_all add: c3_def same_buffers_def example_step_def example_suite_def new_tls_state_def)
  define fin where "fin = fill_handshake_record_hdr HANDSHAKE_FINISHED 16 @ rfc_prf (master_secret d2) ''client finished'' hash 12"
  have key: "length (take (TLS_MAC_SIZE (env_config example_env) ?t3) (key_area ?t3)) \<le> 64"
    by (simp add: TLS_MAC_SIZE_def t3 SHA256_OUTSIZE_def)
  obtain pre' where "hmac_begin (md5_small (env_config example_env)) example_pre (take (TLS_MAC_SIZE (env_config example_env) ?t3) (key_area ?t3)) sha256_begin = Some pre'"
    using hmac_sha256.hmac_begin_mac [OF _ _ key] example_pre_ok unfolding pre_ok_def by metis
  then obtain mac where "hmac (md5_small (env_config example_env)) True 32 example_pre
     (take (TLS_MAC_SIZE (env_config example_env) ?t3) (key_area ?t3)) [bytes64 (write_seq64_be ?t3), record_hdr RECORD_TYPE_HANDSHAKE (length fin), fin] = Some mac"
    by (simp add: hmac_def)
  moreover have "FEATURE_TLS_SHA1 (env_config example_env)" "ALLOW_RSA_NULL_SHA256 (env_config example_env)"
    by (simp_all add: example_env_def example_config_def)
  ultimately have "\<exists>t4 bytes. xwrite_encrypted (env_config example_env) (env_pre example_env) (iv_random example_env) ?t3 fin RECORD_TYPE_HANDSHAKE = Inr (t4, bytes)"
    using t3 by (simp add: xwrite_encrypted_def xwrite_encrypted_and_hmac_signed_def Let_def pre TLS_RSA_WITH_NULL_SHA256_def)
  then obtain t4 bytes where t4: "xwrite_encrypted (env_config example_env) (env_pre example_env) (iv_random example_env) ?t3 fin RECORD_TYPE_HANDSHAKE = Inr (t4, bytes)"
    by blast
  have "send_client_finished example_env c3 = Inr (xwrite (c3\<lparr>conn_tls := t4\<rparr>) bytes)"
    using d2 e t4 prf_rfc_prf [OF example_pre_ok, of "master_secret d2"] by (simp add: send_client_finished_def fin_def pre)
  moreover have "t4 = ?t3\<lparr>write_seq64_be := next_seq (write_seq64_be ?t3)\<rparr>" using xwrite_encrypted_frame [OF t4] .
  ultimately show ?thesis
    unfolding sw using t2(3) eow by (simp add: xwrite_def c3_def c2_def send_change_cipher_spec_def same_buffers_def)
      (simp add: example_step_def example_suite_def new_tls_state_def)
qed

lemma example_handshake: "\<exists>conn. tls_handshake example_env example_conn None = Inr conn"
proof -
  obtain d ofd where n: "negotiate example_env example_conn None = Inr (example_step example_suite d 3 (example_server ! 2) ofd)"
    using example_negotiate by blast
  obtain t ofd' where s: "switch_to_encryption example_env (example_step example_suite d 3 (example_server ! 2) ofd) =
     Inr \<lparr>conn_tls = t, conn_ifd = map Some (drop 3 example_server), conn_ofd = ofd'\<rparr>"
    and t: "inbuf_size t = 2304" "inbuf t = example_server ! 2" "buffered_size t = 0" "ofs_to_buffered t = length (example_server ! 2)"
      "min_encrypted_len_on_read t = 0" "hsd t \<noteq> None" "cipher_id t = 0x3B" "MAC_size t = 32" "flags t AND ENCRYPTION_AESGCM = 0"
    using example_switch [of d "example_server ! 2" ofd] by metis
  let ?c = "\<lparr>conn_tls = t, conn_ifd = map Some (drop 3 example_server), conn_ofd = ofd'\<rparr>"
  obtain h where h: "hsd t = Some h" using t(6) by auto
  have c1: "xread_record example_env ?c = Inr (1, ?c\<lparr>conn_tls := t\<lparr>inbuf := example_server ! 3, ofs_to_buffered := 6\<rparr>, conn_ifd := map Some (drop 4 example_server)\<rparr>)"
    using t by (simp add: reads example_server_def example_env_def)
  define t1 where "t1 = t\<lparr>inbuf := example_server ! 3, ofs_to_buffered := 6, min_encrypted_len_on_read := 32\<rparr>"
  have min: "set_min_encrypted_len (env_config example_env) (t\<lparr>inbuf := example_server ! 3, ofs_to_buffered := 6\<rparr>) = t1"
    using t by (simp add: set_min_encrypted_len_def t1_def example_env_def TLS_RSA_WITH_NULL_SHA256_def)
  have ccs: "take 6 (example_server ! 3) = rec_CHANGE_CIPHER_SPEC"
    by (simp add: example_server_def rec_CHANGE_CIPHER_SPEC_def RECORD_TYPE_CHANGE_CIPHER_SPEC_def TLS_MAJ_def TLS_MIN_def)
  have "\<exists>t'. xread_record example_env \<lparr>conn_tls = t1, conn_ifd = map Some (drop 4 example_server), conn_ofd = ofd'\<rparr> =
      Inr (4, \<lparr>conn_tls = t', conn_ifd = [], conn_ofd = ofd'\<rparr>) \<and> inbuf t' ! 5 = 20"
    using t by (simp add: reads example_server_def example_env_def t1_def h TLS_MAC_SIZE_def SHA256_OUTSIZE_def example_config_def)
  then obtain t2 where c2: "xread_record example_env \<lparr>conn_tls = t1, conn_ifd = map Some (drop 4 example_server), conn_ofd = ofd'\<rparr> =
      Inr (4, \<lparr>conn_tls = t2, conn_ifd = [], conn_ofd = ofd'\<rparr>)" "inbuf t2 ! 5 = 20" by blast
  show ?thesis
    by (simp add: tls_handshake_def n s finish_def c1 min ccs c2 message_type_def RECHDR_LEN_def HANDSHAKE_FINISHED_def)
qed

section \<open>The properties\<close>

text \<open>The other end: each side's keys are the other's.\<close>

definition peer :: "tls_state \<Rightarrow> tls_state" where
  "peer t = (let m = MAC_size t in
     t\<lparr>key_area := take m (drop m (key_area t)) @ take m (key_area t) @ drop (2 * m) (key_area t),
       client_write_key := server_write_key t, server_write_key := client_write_key t,
       client_write_IV := server_write_IV t, server_write_IV := client_write_IV t,
       aes_encrypt := aes_decrypt t, aes_decrypt := aes_encrypt t,
       H := aes_encrypt_one_block (aes_decrypt t) (replicate 16 0)\<rparr>)"

lemma drop_swapped:
  "2 * m \<le> length a \<Longrightarrow> drop (2 * m + x) (take m (drop m a) @ take m a @ drop (2 * m) a) = drop (2 * m + x) a" for a :: "u8 list"
  by (simp add: add.commute)

lemma established_channel:
  assumes "established config t block"
  shows "channel config t (peer t) \<and> channel config (peer t) t"
proof -
  let ?m = "MAC_size t" and ?k = "key_size t" and ?i = "IV_size t"
  have r: "ready config t" and min: "min_encrypted_len_on_read t = min_encrypted_len_on_read (set_min_encrypted_len config t)"
    and iv: "client_write_IV t = 2 * ?m + 2 * ?k" "server_write_IV t = 2 * ?m + (2 * ?k + ?i)"
    and block: "length block = 2 * (?m + ?k + ?i)"
    and keys: "aes_encrypt t = aes_setkey (key_part block (2 * ?m) ?k)" "aes_decrypt t = aes_setkey (key_part block (2 * ?m + ?k) ?k)"
    and h: "H t = aes_encrypt_one_block (aes_encrypt t) (replicate 16 0)"
    using assms by (simp_all add: established_def keyed_def Let_def)
  have area: "length (key_area t) = 136" "2 * ?m \<le> length (key_area t)" "?k \<le> 32" "?m \<le> 32" "?i \<le> 4"
    using r by (auto simp: ready_def)
  have gcm: "?i = 4" if "flags t AND ENCRYPTION_AESGCM \<noteq> 0" using r that by (simp add: ready_def)
  have nonce: "client_nonce (peer t) = server_nonce t" "server_nonce (peer t) = client_nonce t"
    using drop_swapped [OF area(2)] by (simp_all add: client_nonce_def server_nonce_def peer_def Let_def iv)
  have len: "length (client_nonce t) = 4" "length (server_nonce t) = 4" if "flags t AND ENCRYPTION_AESGCM \<noteq> 0"
    using area gcm [OF that] by (simp_all add: client_nonce_def server_nonce_def iv)
  have rounds: "aes_rounds (aes_encrypt t) \<noteq> 0" "aes_rounds (aes_decrypt t) \<noteq> 0"
    using area(3) by (simp_all add: keys key_part_def setkey_rounds_nonzero)
  have hs: "length (H t) = 16" "length (H (peer t)) = 16"
    using rounds length_aes_encrypt_one_block [of "aes_encrypt t"] length_aes_encrypt_one_block [of "aes_decrypt t"]
    by (simp_all add: h peer_def Let_def)
  have same: "flags (peer t) = flags t" "cipher_id (peer t) = cipher_id t" "MAC_size (peer t) = ?m" "aes_encrypt (peer t) = aes_decrypt t"
    "aes_decrypt (peer t) = aes_encrypt t" "min_encrypted_len_on_read (peer t) = min_encrypted_len_on_read t"
    by (simp_all add: peer_def Let_def)
  have suite: "suite_ok config t" "suite_ok config (peer t)" using r same by (simp_all add: ready_def suite_ok_def)
  have min': "min_encrypted_len_on_read (peer t) = min_encrypted_len_on_read (set_min_encrypted_len config (peer t))"
    using min by (simp add: set_min_encrypted_len_def TLS_MAC_SIZE_def same)
  show ?thesis
    unfolding channel_def using suite min min' nonce len rounds hs by (simp add: same)
qed

text \<open>C4: a handshake that succeeds, whatever the server sends, leaves a state that mirrors the server's:
  the record layers of the two ends fit in both directions, the keys are the partition of the key
  block that RFC 5246 computes from the secrets and randoms of the negotiation, the input buffer
  is within its bounds, and the handshake data is gone.\<close>

theorem handshake_establishes_channel:
  assumes "tls_handshake env \<lparr>conn_tls = new_tls_state, conn_ifd = ifd, conn_ofd = ofd\<rparr> sni = Inr conn'" "pre_ok (env_pre env)"
  shows "\<exists>conn0. negotiate env \<lparr>conn_tls = new_tls_state, conn_ifd = ifd, conn_ofd = ofd\<rparr> sni = Inr conn0 \<and>
    keyed (conn_tls conn') (handshake_keys env (conn_tls conn0)) \<and>
    channel (env_config env) (conn_tls conn') (peer (conn_tls conn')) \<and> channel (env_config env) (peer (conn_tls conn')) (conn_tls conn') \<and>
    buf_ok (conn_tls conn') \<and> hsd (conn_tls conn') = None"
proof -
  obtain conn0 where n: "negotiate env \<lparr>conn_tls = new_tls_state, conn_ifd = ifd, conn_ofd = ofd\<rparr> sni = Inr conn0"
    and e: "established (env_config env) (conn_tls conn') (handshake_keys env (conn_tls conn0))" "hsd (conn_tls conn') = None"
    using handshake_established [OF assms(1) _ assms(2)] new_tls_state_starting by auto
  show ?thesis using n e established_channel [OF e(1)] by (auto simp: established_def)
qed

theorem handshake_establishes_channel_witness:
  "\<exists>conn'. tls_handshake example_env example_conn None = Inr conn' \<and> channel (env_config example_env) (conn_tls conn') (peer (conn_tls conn')) \<and>
    hsd (conn_tls conn') = None"
proof -
  obtain conn' where c: "tls_handshake example_env example_conn None = Inr conn'" using example_handshake by blast
  have "pre_ok (env_pre example_env)" using example_pre_ok by (simp add: example_env_def)
  from handshake_establishes_channel [OF c [unfolded example_conn_def] this] c show ?thesis by (auto simp: example_conn_def)
qed

text \<open>C16: the key schedule of RFC 5246, 6.3 and 8.1: the master secret is the pseudorandom function of the
  premaster secret under \<open>master secret\<close>, the key block that of the master secret under
  \<open>key expansion\<close> with the server's random first, and the block is cut into the MAC keys, the write
  keys and the initialisation vectors of the client and the server; the length never exceeds the
  key area.\<close>

theorem key_schedule_rfc5246:
  assumes "pre_ok (env_pre env)" "length premaster \<le> 64" "ready config t"
  shows "\<exists>t'. derive_keys env t d premaster = Inr t' \<and>
    keyed t' (key_block premaster (client_and_server_rand32 d) (2 * (MAC_size t + key_size t + IV_size t))) \<and>
    hsd t' = Some (d\<lparr>master_secret := rfc_prf premaster ''master secret'' (client_and_server_rand32 d) 48\<rparr>) \<and> same_buffers t t'"
  using assms(1,2) ready_room [OF assms(3)] by (rule derive_keys_keyed)

theorem key_schedule_rfc5246_witness:
  "\<exists>t'. derive_keys example_env (set_cipher_params example_config new_tls_state 0xC0 0x2F) zeroed_hsd (replicate 32 5) = Inr t' \<and>
    keyed t' (key_block (replicate 32 5) (replicate 64 0) 40)"
proof -
  let ?t = "set_cipher_params example_config new_tls_state 0xC0 0x2F"
  have "fresh new_tls_state" using new_tls_state_starting by (simp add: starting_def)
  from set_cipher_params_ready [OF this] have "ready example_config ?t" .
  moreover have "MAC_size ?t = 0" "key_size ?t = 16" "IV_size ?t = 4"
    by (simp_all add: set_cipher_params_def example_config_def AES128_KEYSIZE_def new_tls_state_def)
  moreover have "pre_ok (env_pre example_env)" using example_pre_ok by (simp add: example_env_def)
  ultimately show ?thesis
    using key_schedule_rfc5246 [of example_env "replicate 32 5" example_config ?t zeroed_hsd] by (auto simp: zeroed_hsd_def)
qed

text \<open>The ladder from the point with coordinate 0.\<close>

lemma multiples_zero:
  "fst (fst (multiples 0 m)) * snd (fst (multiples 0 m)) = 0 \<and> fst (snd (multiples 0 m)) * snd (snd (multiples 0 m)) = 0"
proof (induction "0 :: int" m rule: multiples.induct)
  case (1 m)
  then show ?case
    by (subst (1 2 3 4) multiples.simps) (auto simp: Let_def xadd_def xdbl_def split: prod.splits)
qed

lemma curve25519_zero:
  assumes "length e = 32"
  shows "curve25519 e (replicate 32 0) = replicate 32 0"
proof -
  have zero: "val (replicate n 0) = 0" for n by (induction n) auto
  let ?m = "2 ^ 254 + val e mod 2 ^ 254"
  obtain x z where m: "fst (multiples 0 ?m) = (x, z)" by fastforce
  have "x * z = 0" using conjunct1 [OF multiples_zero [of ?m]] unfolding m fst_conv snd_conv .
  moreover have "0 ^ nat (p25519 - 2) = (0 :: int)" by (rule zero_power) (simp add: p25519_def)
  ultimately have "x * z ^ nat (p25519 - 2) = 0" by (metis mult_eq_0_iff)
  then have "x25519 ?m 0 = 0" by (simp only: x25519_def m prod.case Let_def mod_0)
  then have v: "length (curve25519 e (replicate 32 0)) = 32" "val (curve25519 e (replicate 32 0)) = 0"
    using curve25519_value [OF assms, of "replicate 32 0"] by (simp_all add: fev_def zero)
  have "val xs = 0 \<Longrightarrow> xs = replicate (length xs) 0" for xs by (induction xs) (auto simp: unat_eq_0)
  from this [OF v(2)] v(1) show ?thesis by simp
qed

text \<open>C37: with an elliptic curve suite and a server that never sent its key, which the code reports and
  then ignores, the key it uses is the zeroed memory of the handshake data, and the premaster secret
  is 32 zero bytes, whatever the client's private key: the secret is known to everyone.\<close>

theorem missing_server_key_secret:
  assumes "flags t AND NEED_EC_KEY \<noteq> 0" "ecc_pub_key32 d = ecc_pub_key32 zeroed_hsd" "length (privkey_random env) = 32"
  shows "snd (client_key env t d) = replicate 32 0"
proof -
  have "length (x25519_privkey (privkey_random env)) = 32" using assms(3) by (simp add: x25519_privkey_def Let_def)
  then show ?thesis using assms(1,2) curve25519_zero by (simp add: client_key_def Let_def zeroed_hsd_def)
qed

theorem missing_server_key_secret_witness:
  "snd (client_key example_env (new_tls_state\<lparr>flags := NEED_EC_KEY\<rparr>) zeroed_hsd) = replicate 32 0"
  by (rule missing_server_key_secret) (simp_all add: NEED_EC_KEY_def example_env_def)

end
