(* ===== verification/TlsTranscriptProps.thy ===== *)
theory TlsTranscriptProps imports TlsChannelProps begin

text \<open>
  The transcript of the handshake, byte by byte: the Finished message the client sends covers every
  handshake message sent and received before it, and nothing else.
\<close>

section \<open>The bytes on the connection\<close>

text \<open>What is still to come from the peer.\<close>

fun flow :: "stream \<Rightarrow> u8 list" where
  "flow [] = []"
| "flow (None # s) = flow s"
| "flow (Some bytes # s) = bytes @ flow s"

definition wire :: "tls_conn \<Rightarrow> u8 list" where
  "wire c = buffered (conn_tls c) @ flow (conn_ifd c)"

text \<open>A plaintext record of TLS 1.2, as RFC 5246 lays it out: a type and contents.\<close>

fun plain_record :: "u8 \<times> u8 list \<Rightarrow> u8 list" where
  "plain_record (type, body) = type # 3 # 3 # word_of_nat (length body div 256) # word_of_nat (length body mod 256) # body"

text \<open>The records a client takes until it has the message it waits for: handshake messages, and alerts
  that only warn (level 1).\<close>

fun expected_record :: "u8 \<times> u8 list \<Rightarrow> bool" where
  "expected_record (type, body) \<longleftrightarrow> type = 22 \<or> type = 21 \<and> body \<noteq> [] \<and> hd body = 1"

definition handshake_messages :: "(u8 \<times> u8 list) list \<Rightarrow> u8 list list" where
  "handshake_messages recs = map snd (filter (\<lambda>r. fst r = 22) recs)"

lemma handshake_messages_append [simp]: "handshake_messages (r @ r') = handshake_messages r @ handshake_messages r'"
  by (simp add: handshake_messages_def)

lemma plain_record_hdr: "plain_record (type, body) = record_hdr type (length body) @ body"
  by (simp add: record_hdr_def TLS_MAJ_def TLS_MIN_def)

lemma safe_read_flow: "safe_read s n = (Some bytes, s') \<Longrightarrow> bytes @ flow s' = flow s"
proof (induction s n rule: safe_read.induct)
  case (3 b s n)
  then show ?case using append_take_drop_id [of n b] by (auto split: if_splits)
qed auto

definition header_size :: "u8 list \<Rightarrow> nat" where
  "header_size b = RECHDR_LEN + (0x100 * unat (b ! 3) + unat (b ! 4))"

lemma find_target_header:
  "find_target tls target = Some t \<Longrightarrow> t \<le> length (inbuf tls) \<Longrightarrow>
   target = MAX_INBUF \<or> RECHDR_LEN \<le> length (inbuf tls) \<and> target = header_size (inbuf tls) \<and> inbuf tls ! 1 = TLS_MAJ \<and> inbuf tls ! 2 = TLS_MIN \<Longrightarrow>
   t = header_size (inbuf tls) \<and> inbuf tls ! 1 = TLS_MAJ \<and> inbuf tls ! 2 = TLS_MIN"
  by (auto simp: find_target_def header_size_def Let_def MAX_INBUF_def RECHDR_LEN_def split: if_splits)

lemma find_target_next:
  "find_target tls target = Some t \<Longrightarrow>
   target = MAX_INBUF \<or> RECHDR_LEN \<le> length (inbuf tls) \<and> target = header_size (inbuf tls) \<and> inbuf tls ! 1 = TLS_MAJ \<and> inbuf tls ! 2 = TLS_MIN \<Longrightarrow>
   t = MAX_INBUF \<or> RECHDR_LEN \<le> length (inbuf tls @ b) \<and> t = header_size (inbuf tls @ b) \<and> (inbuf tls @ b) ! 1 = TLS_MAJ \<and> (inbuf tls @ b) ! 2 = TLS_MIN"
  by (auto simp: find_target_def header_size_def Let_def RECHDR_LEN_def nth_append split: if_splits)

lemma fill_loop_flow:
  "fill_loop tls target ifd = Inr (tls', Some t, ifd') \<Longrightarrow>
   target = MAX_INBUF \<or> RECHDR_LEN \<le> length (inbuf tls) \<and> target = header_size (inbuf tls) \<and> inbuf tls ! 1 = TLS_MAJ \<and> inbuf tls ! 2 = TLS_MIN \<Longrightarrow>
   inbuf tls' @ flow ifd' = inbuf tls @ flow ifd \<and> t \<le> length (inbuf tls') \<and> t = header_size (inbuf tls') \<and>
   inbuf tls' ! 1 = TLS_MAJ \<and> inbuf tls' ! 2 = TLS_MIN"
proof (induction tls target ifd rule: fill_loop.induct)
  case (1 tls target ifd)
  obtain t1 where t1: "find_target tls target = Some t1"
    using 1(2) by (cases "find_target tls target") (auto simp: fill_loop.simps)
  show ?case
  proof (cases "t1 \<le> length (inbuf tls)")
    case True
    then have "tls' = tls \<and> t = t1 \<and> ifd' = ifd" using 1(2) t1(1) by (simp add: fill_loop.simps [of tls])
    then show ?thesis using find_target_header [OF t1 True 1(3)] True by simp
  next
    case False
    let ?tls = "grow_inbuf tls"
    obtain r ifd1 where r: "safe_read ifd (inbuf_size ?tls - length (inbuf tls)) = (r, ifd1)" by fastforce
    then obtain bytes where b: "r = Some bytes" using 1(2) t1 False by (cases r) (auto simp: fill_loop.simps [of tls])
    have ne: "bytes \<noteq> []" using 1(2) t1 False r b by (auto simp: fill_loop.simps [of tls] split: if_splits)
    have "fill_loop (?tls\<lparr>inbuf := inbuf tls @ bytes\<rparr>) t1 ifd1 = Inr (tls', Some t, ifd')"
      using 1(2) t1 False r b ne by (simp add: fill_loop.simps [of tls])
    from 1(1) [OF t1(1) False refl refl, simplified, OF r [unfolded b, symmetric] refl ne this]
    show ?thesis using safe_read_flow [OF r [unfolded b]] find_target_next [OF t1 1(3)] by simp
  qed
qed

lemma header_bytes: "RECHDR_LEN \<le> length b \<Longrightarrow> b ! 1 = TLS_MAJ \<Longrightarrow> b ! 2 = TLS_MIN \<Longrightarrow> header_size b \<le> length b \<Longrightarrow>
   take (header_size b) b = plain_record (b ! 0, take (header_size b - RECHDR_LEN) (drop RECHDR_LEN b))"
proof -
  assume *: "RECHDR_LEN \<le> length b" "b ! 1 = TLS_MAJ" "b ! 2 = TLS_MIN" "header_size b \<le> length b"
  obtain x0 x1 x2 x3 x4 c where b: "b = x0 # x1 # x2 # x3 # x4 # c"
    using *(1) by (auto simp: RECHDR_LEN_def numeral_eq_Suc Suc_le_length_iff)
  have x: "x1 = 3" "x2 = 3" using *(2,3) by (simp_all add: b TLS_MAJ_def TLS_MIN_def)
  have n: "header_size b = 5 + (256 * unat x3 + unat x4)" by (simp add: header_size_def b RECHDR_LEN_def)
  have "(256 * unat x3 + unat x4) div 256 = unat x3" "(256 * unat x3 + unat x4) mod 256 = unat x4"
    using unsigned_less [of x4, where ?'a = nat] by simp_all
  then show ?thesis using *(4) unfolding n RECHDR_LEN_def by (simp add: b x min_absorb2 take_Cons')
qed

lemma fetch_record_flow:
  assumes "fetch_record r ifd = Inr (r', True, ifd')"
  obtains body where "buffered r @ flow ifd = plain_record (inbuf r' ! 0, body) @ buffered r' @ flow ifd'"
    "length body = ofs_to_buffered r' - RECHDR_LEN" "body = take (length body) (drop RECHDR_LEN (inbuf r'))" "RECHDR_LEN + length body \<le> length (inbuf r')"
proof -
  let ?r = "r\<lparr>inbuf := take (buffered_size r) (drop (ofs_to_buffered r) (inbuf r))\<rparr>"
  obtain r1 t where f: "fill_loop ?r MAX_INBUF ifd = Inr (r1, Some t, ifd')"
    "r' = r1\<lparr>buffered_size := length (inbuf r1) - t, ofs_to_buffered := t\<rparr>"
    using assms by (auto simp: fetch_record_def Let_def split: sum.splits option.splits)
  have l: "inbuf r1 @ flow ifd' = buffered r @ flow ifd" "t \<le> length (inbuf r1)" "t = header_size (inbuf r1)"
    "inbuf r1 ! 1 = TLS_MAJ" "inbuf r1 ! 2 = TLS_MIN"
    using fill_loop_flow [OF f(1)] by (simp_all add: buffered_def)
  have t: "RECHDR_LEN \<le> t" using l(3) by (simp add: header_size_def)
  let ?body = "take (t - RECHDR_LEN) (drop RECHDR_LEN (inbuf r1))"
  have "inbuf r1 = plain_record (inbuf r1 ! 0, ?body) @ drop t (inbuf r1)"
    using header_bytes [of "inbuf r1"] l t append_take_drop_id [of t "inbuf r1"] by (metis order_trans)
  then have "buffered r @ flow ifd = plain_record (inbuf r1 ! 0, ?body) @ drop t (inbuf r1) @ flow ifd'"
    using l(1) by (metis append.assoc)
  then show ?thesis using l(2) t by (intro that [of ?body]) (simp_all add: f(2) buffered_def)
qed

lemma read_one_flow:
  assumes "reader_ok config r" "min_encrypted_len_on_read r = 0"
  shows "case read_one config uninit r ifd of
      Inl stop \<Rightarrow> True
    | Inr (Inl (sz, r', ifd')) \<Rightarrow> 0 < sz \<longrightarrow> buffered r @ flow ifd =
        plain_record (inbuf r' ! 0, take sz (drop RECHDR_LEN (inbuf r'))) @ buffered r' @ flow ifd'
    | Inr (Inr (r', ifd')) \<Rightarrow> \<exists>body. expected_record (21, body) \<and> buffered r @ flow ifd = plain_record (21, body) @ buffered r' @ flow ifd'"
proof (cases "fetch_record r ifd")
  case (Inl stop)
  then show ?thesis by (simp add: read_one_def)
next
  case (Inr res)
  obtain r1 rec ifd1 where res: "res = (r1, rec, ifd1)" by (metis prod_cases3)
  have m: "min_encrypted_len_on_read r1 = 0"
    using fetch_record_bounds [of r ifd] assms by (auto simp: Inr res reader_ok_def)
  show ?thesis
  proof (cases rec)
    case False
    then show ?thesis by (simp add: read_one_def Inr res)
  next
    case True
    obtain body where b: "buffered r @ flow ifd = plain_record (inbuf r1 ! 0, body) @ buffered r1 @ flow ifd1"
      "length body = ofs_to_buffered r1 - RECHDR_LEN" "body = take (length body) (drop RECHDR_LEN (inbuf r1))" "RECHDR_LEN + length body \<le> length (inbuf r1)"
      using fetch_record_flow [of r ifd r1 ifd1] Inr res True by auto
    have "body \<noteq> []" if "2 \<le> length body" using that by auto
    then have hd: "drop RECHDR_LEN (inbuf r1) ! 0 = hd body" "body \<noteq> []" if "2 \<le> length body"
      using that b(4) by (subst b(3), subst hd_take, auto simp: hd_drop_conv_nth RECHDR_LEN_def)
    have h: "buffered (r1\<lparr>hsd := h\<rparr>) = buffered r1" for h by (simp add: buffered_def)
    show ?thesis using True b(1) hd m
      by (auto simp: read_one_def Inr res decrypt_record_def b(2) [symmetric] b(3) [symmetric] handle_record_def hash_handshake_def Let_def
          RECORD_TYPE_ALERT_def h simp del: plain_record.simps split: option.splits)
  qed
qed

lemma read_record_flow:
  "tls_xread_record config uninit r ifd = Inr (sz, r', ifd') \<Longrightarrow> reader_ok config r \<Longrightarrow> min_encrypted_len_on_read r = 0 \<Longrightarrow> 0 < sz \<Longrightarrow>
   inbuf r' ! 0 = RECORD_TYPE_HANDSHAKE \<Longrightarrow>
   \<exists>recs. list_all expected_record recs \<and> handshake_messages recs = [take sz (drop RECHDR_LEN (inbuf r'))] \<and>
     buffered r @ flow ifd = concat (map plain_record recs) @ buffered r' @ flow ifd'"
proof (induction config uninit r ifd rule: tls_xread_record.induct)
  case (1 config uninit r ifd)
  note one = read_one_flow [OF 1(3,4), of ifd uninit] read_one_bounds [OF 1(3), of uninit ifd]
  show ?case
  proof (cases "read_one config uninit r ifd")
    case (Inl stop)
    then show ?thesis using 1(2) by (simp add: tls_xread_record.simps [of _ _ r])
  next
    case res: (Inr res)
    show ?thesis
    proof (cases res)
      case (Inl fin)
      then show ?thesis using one(1) 1(2,5,6)
        by (intro exI [of _ "[(22, take sz (drop RECHDR_LEN (inbuf r')))]"])
          (simp add: tls_xread_record.simps [of _ _ r] res handshake_messages_def RECORD_TYPE_HANDSHAKE_def)
    next
      case (Inr again)
      obtain r1 ifd1 where again: "again = (r1, ifd1)" by fastforce
      obtain body where body: "expected_record (21, body)" "buffered r @ flow ifd = plain_record (21, body) @ buffered r1 @ flow ifd1"
        using one(1) by (auto simp: res Inr again)
      have r1: "reader_ok config r1" "min_encrypted_len_on_read r1 = 0" using one(2) 1(4) by (auto simp: res Inr again read_ok_def only_input_def)
      have "tls_xread_record config uninit r1 ifd1 = Inr (sz, r', ifd')"
        using 1(2) by (simp add: tls_xread_record.simps [of _ _ r] res Inr again)
      from 1(1) [OF res Inr again [symmetric] this r1 1(5,6)] obtain recs where "list_all expected_record recs"
        "handshake_messages recs = [take sz (drop RECHDR_LEN (inbuf r'))]" "buffered r1 @ flow ifd1 = concat (map plain_record recs) @ buffered r' @ flow ifd'"
        by blast
      then show ?thesis using body by (intro exI [of _ "(21, body) # recs"]) (simp add: handshake_messages_def)
    qed
  qed
qed

section \<open>The messages exchanged\<close>

text \<open>The state \<open>c1\<close> after the records \<open>recs\<close> of the bytes \<open>w\<close> have been taken, and after \<open>ofd\<close> the hello and
  the messages \<open>out\<close> have been written: the hash covers the messages of both sides.\<close>

definition covers :: "tls_config \<Rightarrow> u8 list list \<Rightarrow> tls_state \<Rightarrow> bool" where
  "covers config ms t \<longleftrightarrow> (\<exists>d. hsd t = Some d \<and>
     handshake_hash_ctx d = foldl (md5_hash (md5_small config)) (sha256_begin zeroed_ctx) ms)"

definition sent_record :: "u8 list \<Rightarrow> u8 list" where
  "sent_record m = plain_record (22, m)"

definition followed :: "tls_env \<Rightarrow> u8 list \<Rightarrow> u8 list \<Rightarrow> u8 list \<Rightarrow> (u8 \<times> u8 list) list \<Rightarrow> u8 list list \<Rightarrow> tls_conn \<Rightarrow> bool" where
  "followed env w ofd hello recs out c1 \<longleftrightarrow>
     w = concat (map plain_record recs) @ wire c1 \<and> list_all expected_record recs \<and>
     conn_ofd c1 = ofd @ concat (map sent_record (hello # out)) \<and>
     covers (env_config env) (hello # handshake_messages recs @ out) (conn_tls c1) \<and> plain_ok (conn_tls c1)"

text \<open>Until the client answers, it has sent only its hello.\<close>

definition awaiting :: "tls_env \<Rightarrow> u8 list \<Rightarrow> u8 list \<Rightarrow> u8 list \<Rightarrow> tls_conn \<Rightarrow> bool" where
  "awaiting env w ofd hello c1 \<longleftrightarrow> (\<exists>recs. followed env w ofd hello recs [] c1)"

lemma awaiting_plain: "awaiting env w ofd hello c1 \<Longrightarrow> plain_ok (conn_tls c1)"
  by (auto simp: awaiting_def followed_def)

lemma followed_block:
  assumes "awaiting env w ofd hello c1" "tls_xread_handshake_block env c1 k = Inr (len, c2)" "0 < k"
  shows "awaiting env w ofd hello c2"
proof -
  obtain recs where f: "followed env w ofd hello recs [] c1" using assms(1) by (auto simp: awaiting_def)
  then have p: "plain_ok (conn_tls c1)" "min_encrypted_len_on_read (conn_tls c1) = 0" by (simp_all add: followed_def plain_ok_def)
  note b = handshake_block_conn [OF assms(2) plain_reader [OF p(1)] assms(3)]
  have "tls_xread_record (env_config env) (env_uninit env) (conn_tls c1) (conn_ifd c1) = Inr (len, conn_tls c2, conn_ifd c2)"
    "inbuf (conn_tls c2) ! 0 = RECORD_TYPE_HANDSHAKE"
    using assms(2) by (auto simp: tls_xread_handshake_block_def xread_record_def and_then_Inr split: if_splits)
  from read_record_flow [OF this(1) plain_reader [OF p(1)] p(2) _ this(2)] b(3) assms(3) obtain new where
    new: "list_all expected_record new" "handshake_messages new = [take len (drop RECHDR_LEN (inbuf (conn_tls c2)))]"
      "wire c1 = concat (map plain_record new) @ wire c2" by (auto simp: wire_def)
  have "covers (env_config env) (hello # handshake_messages (recs @ new)) (conn_tls c2)"
    using f b(4) new(2) by (auto simp: followed_def covers_def hashed_record_def)
  then have "followed env w ofd hello (recs @ new) [] c2"
    using f new b(2) block_plain [OF assms(2) p(1) assms(3)] by (simp add: followed_def)
  then show ?thesis by (auto simp: awaiting_def)
qed

lemma written_message:
  assumes "xwrite_and_update_handshake_hash env c1 m = Inr c2" "plain_ok (conn_tls c1)" "covers (env_config env) ms (conn_tls c1)"
  shows "wire c2 = wire c1" "conn_ofd c2 = conn_ofd c1 @ sent_record m" "covers (env_config env) (ms @ [m]) (conn_tls c2)" "plain_ok (conn_tls c2)"
    "conn_ifd c2 = conn_ifd c1"
proof -
  obtain d where d: "hsd (conn_tls c1) = Some d" "c2 = (xwrite_handshake_record c1 m)\<lparr>conn_tls :=
      (conn_tls c1)\<lparr>hsd := Some (d\<lparr>handshake_hash_ctx := md5_hash (md5_small (env_config env)) (handshake_hash_ctx d) m\<rparr>)\<rparr>\<rparr>"
    using assms(1,2) by (auto simp: xwrite_and_update_handshake_hash_def xwrite_handshake_record_def xwrite_def plain_ok_def and_then_Inr
        hash_handshake_def Let_def split: option.splits)
  show "wire c2 = wire c1" "covers (env_config env) (ms @ [m]) (conn_tls c2)" "conn_ifd c2 = conn_ifd c1"
    using assms(3) d by (auto simp: wire_def buffered_def covers_def xwrite_handshake_record_def xwrite_def)
  show "conn_ofd c2 = conn_ofd c1 @ sent_record m" "plain_ok (conn_tls c2)"
    using sent_plain [OF assms(1,2)] by (simp_all add: sent_record_def plain_record_hdr RECORD_TYPE_HANDSHAKE_def del: plain_record.simps)
qed

lemma followed_sent:
  assumes "followed env w ofd hello recs out c1" "xwrite_and_update_handshake_hash env c1 m = Inr c2"
  shows "followed env w ofd hello recs (out @ [m]) c2"
  using assms(1) written_message [OF assms(2), of "hello # handshake_messages recs @ out"] by (simp add: followed_def)

text \<open>Computing keeps the hash and the connection.\<close>

lemma followed_computed:
  assumes "awaiting env w ofd hello c1" "plain_ok t" "buffered t = buffered (conn_tls c1)"
    "\<exists>d d1. hsd t = Some d \<and> hsd (conn_tls c1) = Some d1 \<and> handshake_hash_ctx d = handshake_hash_ctx d1"
  shows "awaiting env w ofd hello (c1\<lparr>conn_tls := t\<rparr>)"
  using assms by (auto simp: awaiting_def followed_def covers_def wire_def)

lemma followed_hello:
  assumes "send_client_hello_and_alloc_hsd env c sni = Inr c1" "starting (conn_tls c)"
  shows "awaiting env (wire c) (conn_ofd c) (client_hello (env_config env) (hello_random env) sni) c1"
proof -
  obtain d where d: "xwrite_and_update_handshake_hash env (c\<lparr>conn_tls := (conn_tls c)\<lparr>hsd := Some d\<rparr>\<rparr>)
      (client_hello (env_config env) (hello_random env) sni) = Inr c1" "handshake_hash_ctx d = sha256_begin zeroed_ctx"
    using assms(1) by (simp add: send_client_hello_and_alloc_hsd_def Let_def zeroed_hsd_def)
  have "plain_ok ((conn_tls c)\<lparr>hsd := Some d\<rparr>)" "covers (env_config env) [] ((conn_tls c)\<lparr>hsd := Some d\<rparr>)"
    using assms(2) d(2) by (simp_all add: covers_def starting_def plain_ok_def buf_ok_def buffered_def)
  from written_message [OF d(1), simplified, OF this] show ?thesis
    by (auto simp: awaiting_def followed_def wire_def buffered_def handshake_messages_def intro!: exI [of _ "[]"])
qed

lemma set_cipher_params_keeps:
  "hsd (set_cipher_params config t a b) = hsd t" "buffered (set_cipher_params config t a b) = buffered t"
  by (simp_all add: set_cipher_params_def Let_def buffered_def)

lemma followed_server_hello:
  assumes "get_server_hello env c1 = Inr c2" "awaiting env w ofd hello c1"
  shows "awaiting env w ofd hello c2"
proof -
  obtain len c3 d1 r a b where 1: "tls_xread_handshake_block env c1 (74 - 32) = Inr (len, c3)" "hsd (conn_tls c3) = Some d1"
    and c2: "c2 = c3\<lparr>conn_tls := set_cipher_params (env_config env) ((conn_tls c3)\<lparr>hsd := Some (d1\<lparr>client_and_server_rand32 := r\<rparr>)\<rparr>) a b\<rparr>"
    using server_hello_steps [OF assms(1)] by metis
  have m: "awaiting env w ofd hello c3" using followed_block [OF assms(2) 1(1)] by simp
  have "plain_ok ((conn_tls c3)\<lparr>hsd := Some (d1\<lparr>client_and_server_rand32 := r\<rparr>)\<rparr>)"
    using awaiting_plain [OF m] by (simp add: plain_ok_def buf_ok_def buffered_def)
  then show ?thesis unfolding c2
    using 1(2) by (intro followed_computed [OF m] set_cipher_params_plain) (simp_all add: set_cipher_params_keeps, simp_all add: buffered_def)
qed

lemma followed_server_cert:
  assumes "get_server_cert env c1 = Inr c2" "awaiting env w ofd hello c1"
  shows "awaiting env w ofd hello c2"
proof -
  obtain len c3 where 1: "tls_xread_handshake_block env c1 10 = Inr (len, c3)"
    "c2 = c3 \<or> (\<exists>der n t. find_key_in_der_cert (conn_tls c3) der n = Inr t \<and> c2 = c3\<lparr>conn_tls := t\<rparr>)"
    using assms(1) unfolding get_server_cert_def and_then_Inr by (auto simp: Let_def and_then_Inr split: if_splits)
  have m: "awaiting env w ofd hello c3" using followed_block [OF assms(2) 1(1)] by simp
  have "awaiting env w ofd hello (c3\<lparr>conn_tls := t\<rparr>)" if t: "find_key_in_der_cert (conn_tls c3) der n = Inr t" for der n t
  proof -
    note p = awaiting_plain [OF m]
    then obtain d1 where d1: "hsd (conn_tls c3) = Some d1" by (auto simp: plain_ok_def)
    obtain f d where "t = (conn_tls c3)\<lparr>flags := f, hsd := Some d\<rparr>" "f AND ENCRYPT_ON_WRITE = flags (conn_tls c3) AND ENCRYPT_ON_WRITE"
      "handshake_hash_ctx d = handshake_hash_ctx d1"
      using find_key_frame [OF t] d1 by auto
    then show ?thesis using p d1 plain_ok_hsd [of "conn_tls c3" "Some d" f] by (intro followed_computed [OF m]) (simp_all add: buffered_def)
  qed
  then show ?thesis using 1(2) m by blast
qed

lemma followed_server_key:
  assumes "process_server_key (conn_tls c1) len = Inr t" "awaiting env w ofd hello c1"
  shows "awaiting env w ofd hello (c1\<lparr>conn_tls := t\<rparr>)"
proof -
  obtain d k where "hsd (conn_tls c1) = Some d" "t = (conn_tls c1)\<lparr>hsd := Some (d\<lparr>ecc_pub_key32 := k\<rparr>), flags := flags (conn_tls c1) OR GOT_EC_KEY\<rparr>"
    using assms(1) by (auto simp: process_server_key_def Let_def split: if_split_asm option.split_asm)
  then have "buffered t = buffered (conn_tls c1)"
    "\<exists>d d1. hsd t = Some d \<and> hsd (conn_tls c1) = Some d1 \<and> handshake_hash_ctx d = handshake_hash_ctx d1"
    by (simp_all add: buffered_def)
  then show ?thesis using server_key_plain [OF assms(1) awaiting_plain [OF assms(2)]] by (intro followed_computed [OF assms(2)]) simp_all
qed

text \<open>The client's certificate message, which has no certificates, when it is asked for one.\<close>

definition no_certificates :: "u8 list" where
  "no_certificates = [11, 0, 0, 3, 0, 0, 0]"

lemma negotiate_followed:
  assumes "negotiate env c sni = Inr c'" "starting (conn_tls c)"
  shows "\<exists>recs certs. (certs = [] \<or> certs = [no_certificates]) \<and>
    followed env (wire c) (conn_ofd c) (client_hello (env_config env) (hello_random env) sni) recs certs c'"
proof -
  let ?f = "awaiting env (wire c) (conn_ofd c) (client_hello (env_config env) (hello_random env) sni)"
  obtain c1 c2 c3 len4 c4 c4' len5 c5 len6 c6 where
    c1: "send_client_hello_and_alloc_hsd env c sni = Inr c1" and c2: "get_server_hello env c1 = Inr c2" and c3: "get_server_cert env c2 = Inr c3"
    and c4: "tls_xread_handshake_block env c3 4 = Inr (len4, c4)"
    and c4': "c4' = c4 \<or> (\<exists>t. process_server_key (conn_tls c4) len4 = Inr t \<and> c4' = c4\<lparr>conn_tls := t\<rparr>)"
    and c5: "c4' = c4 \<and> c5 = c4 \<or> tls_xread_handshake_block env c4' 4 = Inr (len5, c5)"
    and c6: "c6 = c5 \<or> tls_xread_handshake_block env c5 4 = Inr (len6, c6)" and last: "c' = c6 \<or> send_empty_client_cert env c6 = Inr c'"
    by (rule negotiate_steps [OF assms(1)])
  have block: "?f c2" if "?f c1" "tls_xread_handshake_block env c1 4 = Inr (len, c2)" for c1 c2 len
    using that followed_block [OF _ that(2)] by simp
  have "?f c1" using followed_hello [OF c1 assms(2)] .
  then have "?f c2" using followed_server_hello [OF c2] by simp
  then have "?f c3" using followed_server_cert [OF c3] by simp
  then have "?f c4" using block c4 by blast
  then have "?f c4'" using c4' followed_server_key by blast
  then have "?f c5" using c5 block \<open>?f c4\<close> by blast
  then have "?f c6" using c6 block by blast
  then obtain recs where recs: "followed env (wire c) (conn_ofd c) (client_hello (env_config env) (hello_random env) sni) recs [] c6"
    by (auto simp: awaiting_def)
  consider "c' = c6" | "xwrite_and_update_handshake_hash env c6 no_certificates = Inr c'"
    using last by (auto simp: send_empty_client_cert_def no_certificates_def HANDSHAKE_CERTIFICATE_def)
  then show ?thesis
  proof cases
    case 1
    then show ?thesis using recs by blast
  next
    case 2
    show ?thesis using followed_sent [OF recs 2] by auto
  qed
qed

section \<open>The Finished message\<close>

lemma client_finished_steps:
  assumes "send_client_finished env conn = Inr conn'" "hsd (conn_tls conn) = Some d" "length (master_secret d) \<le> 64" "pre_ok (env_pre env)"
  obtains h bytes where "xwrite_encrypted (env_config env) (env_pre env) (iv_random env) ((conn_tls conn)\<lparr>hsd := h\<rparr>)
      (fill_handshake_record_hdr HANDSHAKE_FINISHED 16 @
       rfc_prf (master_secret d) ''client finished'' (snd (sha1_end (md5_small (env_config env)) (handshake_hash_ctx d))) 12)
      RECORD_TYPE_HANDSHAKE = Inr (conn_tls conn', bytes)" "conn_ofd conn' = conn_ofd conn @ bytes" "wire conn' = wire conn"
proof -
  obtain ctx hash where e: "sha1_end (md5_small (env_config env)) (handshake_hash_ctx d) = (ctx, hash)" by fastforce
  obtain t bytes where t: "xwrite_encrypted (env_config env) (env_pre env) (iv_random env) ((conn_tls conn)\<lparr>hsd := Some (d\<lparr>handshake_hash_ctx := ctx\<rparr>)\<rparr>)
      (fill_handshake_record_hdr HANDSHAKE_FINISHED 16 @ rfc_prf (master_secret d) ''client finished'' hash 12) RECORD_TYPE_HANDSHAKE = Inr (t, bytes)"
    "conn' = xwrite (conn\<lparr>conn_tls := t\<rparr>) bytes"
    using assms(1) unfolding send_client_finished_def assms(2) option.case e Let_def prod.case prf_rfc_prf [OF assms(4,3)] and_then_Inr by auto
  have "buffered t = buffered (conn_tls conn)" by (simp add: xwrite_encrypted_frame [OF t(1)] buffered_def)
  then show ?thesis using e t by (intro that) (simp_all add: xwrite_def wire_def)
qed

text \<open>C5: the Finished message of the client: in a handshake that gets as far as sending it, whatever the
  server sends, the encrypted record carries the pseudorandom function of the master secret, under
  \<open>client finished\<close>, of the SHA-256 digest of every handshake message of the connection, in order: the
  hello, the contents of every handshake record among the bytes taken from the server so far (which are
  whole records: handshake messages, or alerts that only warn), the empty certificate message if one
  was sent, and the key exchange; the client has written just these messages, as records, before the
  change of cipher and the Finished record.\<close>

theorem client_finished_transcript:
  assumes "negotiate env \<lparr>conn_tls = new_tls_state, conn_ifd = ifd, conn_ofd = ofd\<rparr> sni = Inr c0" "switch_to_encryption env c0 = Inr c'"
    "pre_ok (env_pre env)"
  shows "\<exists>recs certs key_msg t finished. let d = the (hsd (conn_tls c0));
      hello = client_hello (env_config env) (hello_random env) sni;
      key_exchange = HANDSHAKE_CLIENT_KEY_EXCHANGE # key_msg;
      transcript = hello # handshake_messages recs @ certs @ [key_exchange];
      master = rfc_prf (snd (client_key env (conn_tls c0) d)) ''master secret'' (client_and_server_rand32 d) 48
    in flow ifd = concat (map plain_record recs) @ buffered (conn_tls c') @ flow (conn_ifd c') \<and> list_all expected_record recs \<and>
      (certs = [] \<or> certs = [no_certificates]) \<and>
      conn_ofd c' = ofd @ concat (map sent_record (hello # certs @ [key_exchange])) @ rec_CHANGE_CIPHER_SPEC @ finished \<and>
      keyed t (handshake_keys env (conn_tls c0)) \<and>
      xwrite_encrypted (env_config env) (env_pre env) (iv_random env) t
        (fill_handshake_record_hdr HANDSHAKE_FINISHED 16 @ rfc_prf master ''client finished'' (sha256_spec (concat transcript)) 12)
        RECORD_TYPE_HANDSHAKE = Inr (conn_tls c', finished)"
proof -
  let ?c = "\<lparr>conn_tls = new_tls_state, conn_ifd = ifd, conn_ofd = ofd\<rparr>" and ?config = "env_config env"
  let ?hello = "client_hello ?config (hello_random env) sni"
  obtain recs certs where certs: "certs = [] \<or> certs = [no_certificates]" and f0: "followed env (flow ifd) ofd ?hello recs certs c0"
    using negotiate_followed [OF assms(1)] new_tls_state_starting by (auto simp: wire_def buffered_def new_tls_state_def)
  obtain c1 where c1: "send_client_key_exchange env c0 = Inr c1"
    and f: "send_client_finished env ((send_change_cipher_spec c1)\<lparr>conn_tls := (conn_tls (send_change_cipher_spec c1))\<lparr>flags :=
        flags (conn_tls (send_change_cipher_spec c1)) OR ENCRYPT_ON_WRITE\<rparr>\<rparr>) = Inr c'"
    using assms(2) by (auto simp: switch_to_encryption_def and_then_Inr Let_def)
  have "negotiated ?config (conn_tls c0)" using negotiate_negotiated [OF assms(1)] new_tls_state_starting by simp
  from key_exchange_steps [OF c1 this assms(3)] obtain d msg c2 d1 where k: "hsd (conn_tls c0) = Some d"
    "xwrite_and_update_handshake_hash env c0 (HANDSHAKE_CLIENT_KEY_EXCHANGE # msg) = Inr c2" "hsd (conn_tls c2) = Some d1"
    "c1 = c2\<lparr>conn_tls := conn_tls c1\<rparr>" "keyed (conn_tls c1) (handshake_keys env (conn_tls c0))"
    "hsd (conn_tls c1) = Some (d1\<lparr>master_secret := rfc_prf (snd (client_key env (conn_tls c0) d)) ''master secret'' (client_and_server_rand32 d) 48\<rparr>)"
    "same_buffers (conn_tls c0) (conn_tls c1)"
    by metis
  let ?key = "HANDSHAKE_CLIENT_KEY_EXCHANGE # msg"
  let ?ms = "?hello # handshake_messages recs @ certs @ [?key]"
  have f2: "followed env (flow ifd) ofd ?hello recs (certs @ [?key]) c2" using followed_sent [OF f0 k(2)] .
  have hash: "snd (sha1_end (md5_small ?config) (handshake_hash_ctx d1)) = sha256_spec (concat ?ms)"
    using f2 k(3) digest_sha256 [of zeroed_ctx "md5_small ?config" ?ms]
    by (auto simp: followed_def covers_def memory_ok_def zeroed_ctx_def)
  let ?t = "(conn_tls c1)\<lparr>flags := flags (conn_tls c1) OR ENCRYPT_ON_WRITE\<rparr>"
  let ?conn = "(send_change_cipher_spec c1)\<lparr>conn_tls := ?t\<rparr>"
  let ?master = "rfc_prf (snd (client_key env (conn_tls c0) d)) ''master secret'' (client_and_server_rand32 d) 48"
  have ccs: "conn_tls (send_change_cipher_spec c1) = conn_tls c1" "conn_ofd ?conn = conn_ofd c1 @ rec_CHANGE_CIPHER_SPEC"
    by (simp_all add: send_change_cipher_spec_def xwrite_def)
  have h1: "hsd (conn_tls ?conn) = Some (d1\<lparr>master_secret := ?master\<rparr>)" using k(6) by simp
  have "length (master_secret (d1\<lparr>master_secret := ?master\<rparr>)) \<le> 64" by (simp add: length_rfc_prf)
  from client_finished_steps [OF f [unfolded ccs(1)] h1 this assms(3)] obtain h finished where
    "xwrite_encrypted ?config (env_pre env) (iv_random env) ((conn_tls ?conn)\<lparr>hsd := h\<rparr>)
      (fill_handshake_record_hdr HANDSHAKE_FINISHED 16 @
       rfc_prf (master_secret (d1\<lparr>master_secret := ?master\<rparr>)) ''client finished'' (snd (sha1_end (md5_small ?config) (handshake_hash_ctx (d1\<lparr>master_secret := ?master\<rparr>)))) 12)
      RECORD_TYPE_HANDSHAKE = Inr (conn_tls c', finished)" "conn_ofd c' = conn_ofd ?conn @ finished" and w: "wire c' = wire ?conn" .
  then have x: "xwrite_encrypted ?config (env_pre env) (iv_random env) (?t\<lparr>hsd := h\<rparr>)
      (fill_handshake_record_hdr HANDSHAKE_FINISHED 16 @ rfc_prf ?master ''client finished'' (sha256_spec (concat ?ms)) 12)
      RECORD_TYPE_HANDSHAKE = Inr (conn_tls c', finished)" "conn_ofd c' = conn_ofd c1 @ rec_CHANGE_CIPHER_SPEC @ finished"
    unfolding hash [symmetric] ccs(2) by simp_all
  have keep: "conn_ofd c1 = conn_ofd c2" "conn_ifd c1 = conn_ifd c2" by (subst k(4), simp)+
  have "wire c0 = wire c2" using f0 written_message(1) [OF k(2)] by (auto simp: followed_def)
  moreover have "conn_ifd c2 = conn_ifd c0" using f0 written_message(5) [OF k(2)] by (auto simp: followed_def)
  ultimately have "wire ?conn = wire c2"
    using keep k(7) by (simp add: wire_def buffered_def same_buffers_def send_change_cipher_spec_def xwrite_def)
  then have "flow ifd = concat (map plain_record recs) @ buffered (conn_tls c') @ flow (conn_ifd c')" "list_all expected_record recs"
    "conn_ofd c' = ofd @ concat (map sent_record (?hello # certs @ [?key])) @ rec_CHANGE_CIPHER_SPEC @ finished"
    using f2 x(2) w keep(1) by (simp_all add: followed_def wire_def [of c'])
  moreover have "keyed (?t\<lparr>hsd := h\<rparr>) (handshake_keys env (conn_tls c0))" using k(5) by simp
  ultimately show ?thesis unfolding Let_def k(1) option.sel using certs x(1) by blast
qed

theorem client_finished_transcript_witness:
  "\<exists>c0 c' recs certs key_msg finished. negotiate example_env example_conn None = Inr c0 \<and> switch_to_encryption example_env c0 = Inr c' \<and>
     flow (conn_ifd example_conn) = concat (map plain_record recs) @ buffered (conn_tls c') @ flow (conn_ifd c') \<and>
     conn_ofd c' = conn_ofd example_conn @ concat (map sent_record
       (client_hello (env_config example_env) (replicate 32 1) None # certs @ [HANDSHAKE_CLIENT_KEY_EXCHANGE # key_msg])) @
       rec_CHANGE_CIPHER_SPEC @ finished"
proof -
  obtain c0 c' where n: "negotiate example_env example_conn None = Inr c0" "switch_to_encryption example_env c0 = Inr c'"
    using example_negotiate example_switch by blast
  have pre: "pre_ok (env_pre example_env)" "hello_random example_env = replicate 32 1" using example_pre_ok by (simp_all add: example_env_def)
  from client_finished_transcript [OF n(1) [unfolded example_conn_def] n(2) pre(1)] n show ?thesis
    unfolding Let_def pre(2) example_conn_def tls_conn.simps by blast
qed

end
