(* ===== verification/TlsLoop.thy ===== *)
theory TlsLoop imports TlsHandshake begin

text \<open>
  \<open>networking/tls.c\<close>: the loop that copies standard input to the server and what the server sends to
  standard output, \<open>tls_run_copy_loop\<close>.

  The outcomes of \<open>poll\<close> are a list: an error, or which of the two descriptors is ready; at its end
  the loop waits.  A record takes the next of a list of random vectors, without one reading
  \<open>/dev/urandom\<close> fails.
\<close>

definition TLSLOOP_EXIT_ON_LOCAL_EOF :: u32 where "TLSLOOP_EXIT_ON_LOCAL_EOF = push_bit 0 1"
definition INBUF_STEP :: nat where "INBUF_STEP = 4 * 1024"

record copy_state =
  loop_tls :: tls_state
  loop_ifd :: stream
  loop_ofd :: "u8 list"
  loop_stdin :: stream
  stdin_watched :: bool
  loop_stdout :: "u8 list"
  loop_inbuf_size :: nat
  loop_ivs :: "u8 list list"

text \<open>\<open>if (pfds[0].revents)\<close>; the flag says whether the loop goes on.\<close>

definition copy_stdin :: "tls_config \<Rightarrow> hmac_precomputed \<Rightarrow> u32 \<Rightarrow> copy_state \<Rightarrow> tls_stop + (copy_state \<times> bool)" where
  "copy_stdin config pre loop_flags st =
     (if loop_inbuf_size st > TLS_MAX_OUTBUF then Inl Die
      else
        let (nread, rest) = safe_read (loop_stdin st) (loop_inbuf_size st);
            st = st\<lparr>loop_stdin := rest\<rparr>
        in case nread of
             None \<Rightarrow> Inr (st\<lparr>stdin_watched := False\<rparr>, loop_flags AND TLSLOOP_EXIT_ON_LOCAL_EOF = 0)
           | Some buf \<Rightarrow>
               if buf = [] then Inr (st\<lparr>stdin_watched := False\<rparr>, loop_flags AND TLSLOOP_EXIT_ON_LOCAL_EOF = 0)
               else
                 let st = (if length buf = loop_inbuf_size st then
                             st\<lparr>loop_inbuf_size := min (loop_inbuf_size st + INBUF_STEP) TLS_MAX_OUTBUF\<rparr>
                           else st)
                 in case loop_ivs st of
                      [] \<Rightarrow> Inl Die
                    | iv # ivs \<Rightarrow>
                        and_then (tls_xwrite config pre iv (loop_tls st) buf) (\<lambda>(tls, bytes).
                          Inr (st\<lparr>loop_tls := tls, loop_ofd := loop_ofd st @ bytes, loop_ivs := ivs\<rparr>, True)))"

lemma tls_xread_record_less:
  "tls_xread_record config uninit tls ifd = Inr (n, tls', ifd') \<Longrightarrow> 0 < n \<Longrightarrow>
   buffered_size tls' + stream_size ifd' < buffered_size tls + stream_size ifd"
proof (induction config uninit tls ifd rule: tls_xread_record.induct)
  case (1 config uninit tls ifd)
  consider res where "read_one config uninit tls ifd = Inr (Inl res)" | tls1 ifd1 where "read_one config uninit tls ifd = Inr (Inr (tls1, ifd1))"
    using 1(2) by (cases "read_one config uninit tls ifd") (auto simp: tls_xread_record.simps [of _ _ tls] split: sum.splits)
  then show ?case
  proof cases
    case 1
    then have "read_one config uninit tls ifd = Inr (Inl (n, tls', ifd'))"
      using \<open>tls_xread_record config uninit tls ifd = Inr (n, tls', ifd')\<close> by (simp add: tls_xread_record.simps [of _ _ tls])
    with \<open>0 < n\<close> obtain tls1 tls2 m where r: "fetch_record tls ifd = Inr (tls1, True, ifd')"
      "decrypt_record config uninit tls1 (ofs_to_buffered tls1 - RECHDR_LEN) = Inr (tls2, m)"
      "handle_record config tls2 (nat m) = Inr (Some (n, tls'))"
      by (auto simp: read_one_def split: sum.splits prod.splits bool.splits if_splits option.splits)
    have "buffered_size tls' = buffered_size tls2"
      using r(3) by (auto simp: handle_record_def hash_handshake_def Let_def split: if_splits sum.splits option.splits)
    then show ?thesis using fetch_record_total [OF r(1)] decrypt_record_buffered [OF r(2)] by (simp add: RECHDR_LEN_def)
  next
    case 2
    then have "tls_xread_record config uninit tls1 ifd1 = Inr (n, tls', ifd')"
      using \<open>tls_xread_record config uninit tls ifd = Inr (n, tls', ifd')\<close> by (simp add: tls_xread_record.simps [of _ _ tls])
    then show ?thesis using "1.IH" [OF 2 refl refl] \<open>0 < n\<close> read_one_again [OF 2] by simp
  qed
qed

text \<open>From the label \<open>read_record\<close> on.\<close>

function copy_records :: "tls_config \<Rightarrow> u8 list \<Rightarrow> copy_state \<Rightarrow> tls_stop + (copy_state \<times> bool)" where
  "copy_records config uninit st =
     (case tls_xread_record config uninit (loop_tls st) (loop_ifd st) of
        Inl stop \<Rightarrow> Inl stop
      | Inr (nread, tls, ifd) \<Rightarrow>
          let st = st\<lparr>loop_tls := tls, loop_ifd := ifd\<rparr> in
          if nread < 1 then Inr (st, False)
          else if inbuf tls ! 0 \<noteq> RECORD_TYPE_APPLICATION_DATA then Inl Die
          else
            let st = st\<lparr>loop_stdout := loop_stdout st @ take nread (drop RECHDR_LEN (inbuf tls))\<rparr>
            in if tls_has_buffered_record tls \<noteq> 0 then copy_records config uninit st
               else Inr (st, True))"
  by pat_completeness auto
termination
  by (relation "measure (\<lambda>(_, _, st). buffered_size (loop_tls st) + stream_size (loop_ifd st))")
    (auto dest: tls_xread_record_less)

declare copy_records.simps [simp del]

fun tls_run_copy_loop :: "tls_config \<Rightarrow> hmac_precomputed \<Rightarrow> u8 list \<Rightarrow> u32 \<Rightarrow> (bool \<times> bool) option list \<Rightarrow> copy_state \<Rightarrow>
    tls_stop + (copy_state \<times> bool)" where
  "tls_run_copy_loop config pre uninit loop_flags [] st = Inr (st, True)"
| "tls_run_copy_loop config pre uninit loop_flags (None # polls) st = Inl Die"
| "tls_run_copy_loop config pre uninit loop_flags (Some (in_ready, net_ready) # polls) st =
     and_then (if in_ready \<and> stdin_watched st then copy_stdin config pre loop_flags st else Inr (st, True)) (\<lambda>(st, go).
     if \<not> go then Inr (st, False)
     else
       and_then (if net_ready then copy_records config uninit st else Inr (st, True)) (\<lambda>(st, go).
       if \<not> go then Inr (st, False)
       else tls_run_copy_loop config pre uninit loop_flags polls st))"

end
