(* ===== verification/TlsLoopProps.thy ===== *)
theory TlsLoopProps imports TlsLoop TlsRecordProps begin

text \<open>
  The copy loop: between two ends with mirrored keys, what one reads from standard input the other
  writes to standard output; from its first wake-up by the network on it never waits while it has a
  whole record; and an empty record ends it.
\<close>

section \<open>Receiving\<close>

definition contents :: "(u8 \<times> u8 list \<times> u8 list) list \<Rightarrow> u8 list" where
  "contents ms = concat (map (\<lambda>(type, buf, iv). buf) ms)"

definition nonempty :: "u8 \<times> u8 list \<times> u8 list \<Rightarrow> bool" where
  "nonempty m \<longleftrightarrow> fst (snd m) \<noteq> []"

definition data_message :: "u8 \<times> u8 list \<times> u8 list \<Rightarrow> bool" where
  "data_message m \<longleftrightarrow> (case m of (type, buf, iv) \<Rightarrow> type = RECORD_TYPE_APPLICATION_DATA \<and> length buf \<le> TLS_MAX_OUTBUF \<and> length iv = 16)"

lemma contents_simps [simp]: "contents [] = []" "contents ((type, buf, iv) # ms) = buf @ contents ms"
  by (simp_all add: contents_def)

text \<open>A receiver that still has to get the records of \<open>ms\<close>.\<close>

definition expecting :: "tls_config \<Rightarrow> hmac_precomputed \<Rightarrow> (u8 \<times> u8 list \<times> u8 list) list \<Rightarrow> copy_state \<Rightarrow> bool" where
  "expecting config pre ms st \<longleftrightarrow> (\<exists>w w' ps bytes. channel config w (loop_tls st) \<and> buf_ok (loop_tls st) \<and>
     write_all config pre w ms = Inr (w', bytes) \<and> loop_ifd st = map Some ps \<and> [] \<notin> set ps \<and>
     buffered (loop_tls st) @ concat ps = bytes)"

lemma copy_record_step:
  assumes "expecting config pre (m # ms) st" "pre_ok pre" "data_message m"
  obtains st' where "tls_xread_record config uninit (loop_tls st) (loop_ifd st) = Inr (length (fst (snd m)), loop_tls st', loop_ifd st')"
    "st' = st\<lparr>loop_tls := loop_tls st', loop_ifd := loop_ifd st'\<rparr>" "expecting config pre ms st'"
    "inbuf (loop_tls st') ! 0 = RECORD_TYPE_APPLICATION_DATA"
    "take (length (fst (snd m))) (drop RECHDR_LEN (inbuf (loop_tls st'))) = fst (snd m)"
proof -
  obtain buf iv where m: "m = (RECORD_TYPE_APPLICATION_DATA, buf, iv)" "length buf \<le> 2 ^ 14" "length iv = 16"
    using assms(3) by (auto simp: data_message_def TLS_MAX_OUTBUF_def split: prod.splits)
  obtain w w' ps bytes where e: "channel config w (loop_tls st)" "buf_ok (loop_tls st)" "write_all config pre w (m # ms) = Inr (w', bytes)"
    "loop_ifd st = map Some ps" "[] \<notin> set ps" "buffered (loop_tls st) @ concat ps = bytes"
    using assms(1) unfolding expecting_def by blast
  have types: "RECORD_TYPE_APPLICATION_DATA \<noteq> RECORD_TYPE_ALERT" "RECORD_TYPE_APPLICATION_DATA \<noteq> RECORD_TYPE_HANDSHAKE"
    by (simp_all add: RECORD_TYPE_APPLICATION_DATA_def RECORD_TYPE_ALERT_def RECORD_TYPE_HANDSHAKE_def)
  let ?w = "w\<lparr>write_seq64_be := next_seq (write_seq64_be w)\<rparr>"
  obtain rec where rec: "xwrite_encrypted config pre iv w buf RECORD_TYPE_APPLICATION_DATA = Inr (?w, rec)"
    and get: "\<And>ps rest. buffered (loop_tls st) @ concat ps = rec @ rest \<Longrightarrow> [] \<notin> set ps \<Longrightarrow>
        RECORD_TYPE_APPLICATION_DATA \<noteq> RECORD_TYPE_HANDSHAKE \<or> hsd (loop_tls st) \<noteq> None \<Longrightarrow>
      \<exists>r' ps'. tls_xread_record config uninit (loop_tls st) (map Some ps) = Inr (length buf, r', map Some ps') \<and>
        inbuf r' ! 0 = RECORD_TYPE_APPLICATION_DATA \<and> take (length buf) (drop RECHDR_LEN (inbuf r')) = buf \<and>
        buffered r' @ concat ps' = rest \<and> buf_ok r' \<and> channel config ?w r' \<and> (hsd r' = None \<longleftrightarrow> hsd (loop_tls st) = None) \<and> [] \<notin> set ps'"
    using read_written [OF e(1) assms(2) m(2,3) e(2) types(1), of uninit] by metis
  obtain rest where rest: "write_all config pre ?w ms = Inr (w', rest)" "bytes = rec @ rest"
    using e(3) rec by (auto simp: m(1) split: sum.splits)
  obtain r' ps' where r': "tls_xread_record config uninit (loop_tls st) (map Some ps) = Inr (length buf, r', map Some ps')"
      "inbuf r' ! 0 = RECORD_TYPE_APPLICATION_DATA" "take (length buf) (drop RECHDR_LEN (inbuf r')) = buf"
      "buffered r' @ concat ps' = rest" "buf_ok r'" "channel config ?w r'" "[] \<notin> set ps'"
    using get [OF e(6) [unfolded rest(2)] e(5)] types(2) by blast
  show ?thesis
  proof (rule that [of "st\<lparr>loop_tls := r', loop_ifd := map Some ps'\<rparr>"])
    show "expecting config pre ms (st\<lparr>loop_tls := r', loop_ifd := map Some ps'\<rparr>)"
      unfolding expecting_def using r'(4-7) rest(1) by auto
  qed (use r'(1-3) e(4) m(1) in simp_all)
qed

lemma copy_record_end:
  assumes "expecting config pre [] st"
  obtains st' where "tls_xread_record config uninit (loop_tls st) (loop_ifd st) = Inr (0, loop_tls st', loop_ifd st')"
    "st' = st\<lparr>loop_tls := loop_tls st', loop_ifd := loop_ifd st'\<rparr>"
proof -
  have e: "buffered (loop_tls st) = []" "loop_ifd st = []"
    using assms unfolding expecting_def by (auto; metis list.set_intros(1) neq_Nil_conv)+
  obtain r' where "tls_xread_record config uninit (loop_tls st) (loop_ifd st) = Inr (0, r', [])"
    using read_end [OF e(1)] e(2) by metis
  then show ?thesis using that [of "st\<lparr>loop_tls := r', loop_ifd := []\<rparr>"] by simp
qed

text \<open>One wake-up takes some of the records, and stops for good at the end or at an empty one.\<close>

lemma copy_records_delivers:
  assumes "pre_ok pre"
  shows "expecting config pre ms st \<Longrightarrow> \<forall>m \<in> set ms. data_message m \<Longrightarrow>
    \<exists>ms1 ms2 st' go. ms = ms1 @ ms2 \<and> copy_records config uninit st = Inr (st', go) \<and>
      loop_stdout st' = loop_stdout st @ contents ms1 \<and> (\<forall>m \<in> set ms1. nonempty m) \<and>
      (if go then ms1 \<noteq> [] \<and> expecting config pre ms2 st' else ms2 = [] \<or> \<not> nonempty (hd ms2))"
proof (induction ms arbitrary: st)
  case Nil
  obtain st' where st': "tls_xread_record config uninit (loop_tls st) (loop_ifd st) = Inr (0, loop_tls st', loop_ifd st')"
    "st' = st\<lparr>loop_tls := loop_tls st', loop_ifd := loop_ifd st'\<rparr>"
    using copy_record_end [OF Nil(1)] by metis
  then have "copy_records config uninit st = Inr (st', False)" by (subst copy_records.simps) simp
  moreover have "loop_stdout st' = loop_stdout st" by (subst st'(2)) simp
  ultimately show ?case by (intro exI [of _ "[]"] exI [of _ "[]"] exI [of _ st'] exI [of _ False]) simp
next
  case (Cons m ms)
  obtain st1 where st1: "tls_xread_record config uninit (loop_tls st) (loop_ifd st) = Inr (length (fst (snd m)), loop_tls st1, loop_ifd st1)"
    "st1 = st\<lparr>loop_tls := loop_tls st1, loop_ifd := loop_ifd st1\<rparr>" "expecting config pre ms st1"
    "inbuf (loop_tls st1) ! 0 = RECORD_TYPE_APPLICATION_DATA"
    "take (length (fst (snd m))) (drop RECHDR_LEN (inbuf (loop_tls st1))) = fst (snd m)"
    using copy_record_step [OF Cons.prems(1) assms] Cons.prems(2) by (metis list.set_intros(1))
  show ?case
  proof (cases "nonempty m")
    case False
    then have "copy_records config uninit st = Inr (st1, False)"
      using st1(1,2) by (subst copy_records.simps) (simp add: nonempty_def)
    moreover have "loop_stdout st1 = loop_stdout st" by (subst st1(2)) simp
    ultimately show ?thesis using False by (intro exI [of _ "[]"] exI [of _ "m # ms"] exI [of _ st1] exI [of _ False]) simp
  next
    case True
    let ?st = "st1\<lparr>loop_stdout := loop_stdout st @ fst (snd m)\<rparr>"
    have e: "expecting config pre ms ?st" using st1(3) by (simp add: expecting_def)
    have step: "copy_records config uninit st = (if tls_has_buffered_record (loop_tls st1) \<noteq> 0 then copy_records config uninit ?st else Inr (?st, True))"
      using st1 True by (subst copy_records.simps) (simp add: nonempty_def Suc_le_eq)
    have c: "contents (m # ms1) = fst (snd m) @ contents ms1" for ms1 by (cases m) simp
    show ?thesis
    proof (cases "tls_has_buffered_record (loop_tls st1) \<noteq> 0")
      case more: True
      obtain ms1 ms2 st' go where "ms = ms1 @ ms2" "copy_records config uninit ?st = Inr (st', go)"
        "loop_stdout st' = loop_stdout ?st @ contents ms1" "\<forall>m \<in> set ms1. nonempty m"
        "if go then ms1 \<noteq> [] \<and> expecting config pre ms2 st' else ms2 = [] \<or> \<not> nonempty (hd ms2)"
        using Cons.IH [OF e] Cons.prems(2) by auto
      then show ?thesis using True more step c by (intro exI [of _ "m # ms1"] exI [of _ ms2] exI [of _ st'] exI [of _ go]) simp
    next
      case False
      then show ?thesis using True step e c by (intro exI [of _ "[m]"] exI [of _ ms] exI [of _ ?st] exI [of _ True]) simp
    qed
  qed
qed

lemma copy_loop_delivers:
  assumes "pre_ok pre"
  shows "expecting config pre ms st \<Longrightarrow> \<forall>m \<in> set ms. data_message m \<Longrightarrow> length ms < n \<Longrightarrow>
    \<exists>st'. tls_run_copy_loop config pre uninit loop_flags (replicate n (Some (False, True))) st = Inr (st', False) \<and>
      loop_stdout st' = loop_stdout st @ contents (takeWhile nonempty ms)"
proof (induction "length ms" arbitrary: ms st n rule: less_induct)
  case (less ms st n)
  obtain k where n: "n = Suc k" using less.prems(3) by (cases n) auto
  obtain ms1 ms2 st' go where r: "ms = ms1 @ ms2" "copy_records config uninit st = Inr (st', go)"
    "loop_stdout st' = loop_stdout st @ contents ms1" "\<forall>m \<in> set ms1. nonempty m"
    "if go then ms1 \<noteq> [] \<and> expecting config pre ms2 st' else ms2 = [] \<or> \<not> nonempty (hd ms2)"
    using copy_records_delivers [OF assms less.prems(1,2)] by metis
  have tw: "takeWhile nonempty ms = ms1 @ takeWhile nonempty ms2" using r(1,4) by simp
  have step: "tls_run_copy_loop config pre uninit loop_flags (replicate n (Some (False, True))) st =
      (if go then tls_run_copy_loop config pre uninit loop_flags (replicate k (Some (False, True))) st' else Inr (st', False))"
    using r(2) by (simp add: n)
  have c: "contents (xs @ ys) = contents xs @ contents ys" for xs ys by (simp add: contents_def)
  show ?case
  proof (cases go)
    case True
    then have "length ms2 < length ms" "expecting config pre ms2 st'" "\<forall>m \<in> set ms2. data_message m" "length ms2 < k"
      using r(1,5) less.prems(2,3) n by (auto simp: length_greater_0_conv [symmetric] simp del: length_greater_0_conv)
    from less.hyps [OF this] show ?thesis using step True r(3) tw c by auto
  next
    case False
    then have "takeWhile nonempty ms2 = []" using r(5) by (cases ms2) auto
    then show ?thesis using step False r(3) tw by simp
  qed
qed

section \<open>Never waiting with a whole record in the buffer\<close>

lemma no_whole_record:
  assumes "tls_has_buffered_record tls = 0" "record_ok r"
  shows "buffered tls \<noteq> r @ rest"
proof
  assume b: "buffered tls = r @ rest"
  let ?p = "drop (ofs_to_buffered tls) (inbuf tls)"
  have size: "length (buffered tls) \<le> buffered_size tls" by (simp add: buffered_def)
  have r: "RECHDR_LEN \<le> length r" "length r = RECHDR_LEN + (0x100 * unat (r ! 3) + unat (r ! 4))"
    using assms(2) by (simp_all add: record_ok_def)
  have nth: "?p ! i = r ! i" if "i < length r" for i
  proof -
    have i: "i < length (buffered tls)" using that b by simp
    then have "buffered tls ! i = ?p ! i" by (simp add: buffered_def)
    then show ?thesis using that b by (simp add: nth_append)
  qed
  have "?p ! 3 = r ! 3" "?p ! 4 = r ! 4" using nth [of 3] nth [of 4] r(1) by (simp_all add: RECHDR_LEN_def)
  moreover have "length r \<le> buffered_size tls" using b size by simp
  ultimately have "tls_has_buffered_record tls = length r"
    using r unfolding tls_has_buffered_record_def Let_def by simp
  then show False using assms(1) r(1) by (simp add: RECHDR_LEN_def)
qed

lemma copy_records_buffered:
  "copy_records config uninit st = Inr (st', True) \<Longrightarrow> tls_has_buffered_record (loop_tls st') = 0"
proof (induction config uninit st rule: copy_records.induct)
  case (1 config uninit st)
  from 1(2) obtain n tls ifd where r: "tls_xread_record config uninit (loop_tls st) (loop_ifd st) = Inr (n, tls, ifd)"
      "\<not> n < 1" "inbuf tls ! 0 = RECORD_TYPE_APPLICATION_DATA"
    by (auto simp: copy_records.simps [of _ _ st] Let_def split: sum.splits if_splits)
  show ?case using 1(1) [OF r(1) refl refl refl r(2)] 1(2) r
    by (auto simp: copy_records.simps [of _ _ st] Let_def split: if_splits)
qed

text \<open>What a wake-up of standard input leaves alone.\<close>

definition whole_record :: "tls_state \<Rightarrow> bool" where
  "whole_record tls \<longleftrightarrow> (\<exists>r rest. record_ok r \<and> buffered tls = r @ rest)"

lemma tls_xwrite_buffered: "tls_xwrite config pre iv tls buf = Inr (tls', bytes) \<Longrightarrow> buffered tls' = buffered tls"
  by (auto simp: tls_xwrite_def xwrite_encrypted_def xwrite_encrypted_and_hmac_signed_def xwrite_encrypted_aesgcm_def
      Let_def buffered_def split: if_splits option.splits)

lemma copy_stdin_buffered:
  assumes "copy_stdin config pre loop_flags st = Inr (st', go)"
  shows "buffered (loop_tls st') = buffered (loop_tls st) \<and> loop_stdout st' = loop_stdout st"
  using assms
  by (auto simp: copy_stdin_def Let_def and_then_def split: if_splits prod.splits option.splits list.splits sum.splits
      dest!: tls_xwrite_buffered simp del: safe_read.simps)

lemma stdin_wake_up_buffered:
  "(if b then copy_stdin config pre loop_flags st else Inr (st, True)) = Inr (st', go) \<Longrightarrow>
   buffered (loop_tls st') = buffered (loop_tls st) \<and> loop_stdout st' = loop_stdout st"
  using copy_stdin_buffered by (auto split: if_splits)

lemma copy_loop_quiet:
  "\<forall>p \<in> set polls. \<forall>b. p \<noteq> Some (b, True) \<Longrightarrow> tls_run_copy_loop config pre uninit loop_flags polls st = Inr (st', True) \<Longrightarrow>
   buffered (loop_tls st') = buffered (loop_tls st) \<and> loop_stdout st' = loop_stdout st"
proof (induction config pre uninit loop_flags polls st rule: tls_run_copy_loop.induct)
  case (3 config pre uninit loop_flags in_ready net_ready polls st)
  have net: "\<not> net_ready" using "3.prems"(1) by auto
  obtain st1 where st1: "(if in_ready \<and> stdin_watched st then copy_stdin config pre loop_flags st else Inr (st, True)) = Inr (st1, True)"
    "tls_run_copy_loop config pre uninit loop_flags polls st1 = Inr (st', True)"
    using "3.prems"(2) net by (auto simp: and_then_def split: sum.splits if_split_asm)
  have "buffered (loop_tls st') = buffered (loop_tls st1) \<and> loop_stdout st' = loop_stdout st1"
    by (rule "3.IH" [of True True]) (use "3.prems"(1) st1(2) in auto)
  then show ?case using stdin_wake_up_buffered [OF st1(1)] by simp
qed simp_all

lemma copy_loop_whole_record:
  "tls_run_copy_loop config pre uninit loop_flags polls st = Inr (st', True) \<Longrightarrow>
   \<not> whole_record (loop_tls st) \<or> (\<exists>b. Some (b, True) \<in> set polls) \<Longrightarrow> \<not> whole_record (loop_tls st')"
proof (induction config pre uninit loop_flags polls st rule: tls_run_copy_loop.induct)
  case (3 config pre uninit loop_flags in_ready net_ready polls st)
  obtain st1 where st1: "(if in_ready \<and> stdin_watched st then copy_stdin config pre loop_flags st else Inr (st, True)) = Inr (st1, True)"
    using "3.prems"(1) by (auto simp: and_then_def split: sum.splits if_split_asm)
  obtain st2 where st2: "(if net_ready then copy_records config uninit st1 else Inr (st1, True)) = Inr (st2, True)"
    "tls_run_copy_loop config pre uninit loop_flags polls st2 = Inr (st', True)"
    using "3.prems"(1) st1 by (auto simp: and_then_def split: sum.splits if_split_asm)
  have "\<not> whole_record (loop_tls st2) \<or> (\<exists>b. Some (b, True) \<in> set polls)"
  proof (cases net_ready)
    case True
    then have "tls_has_buffered_record (loop_tls st2) = 0" using st2(1) copy_records_buffered by simp
    then show ?thesis using no_whole_record by (auto simp: whole_record_def)
  next
    case False
    then have "st2 = st1" using st2(1) by simp
    then show ?thesis using "3.prems"(2) False stdin_wake_up_buffered [OF st1] by (auto simp: whole_record_def)
  qed
  then show ?case by (intro "3.IH" [of True True, OF _ _ st2(2)]) simp_all
qed simp_all

text \<open>C35: when the loop goes back to \<open>poll\<close> after the network has woken it at least once, what it has
  buffered does not start with a whole record, so nothing it has received waits for the server to
  send more.  Until the network wakes it, whatever the handshake has left in the buffer, a whole
  record too, stays there unread, and nothing is written to standard output.\<close>

theorem copy_loop_drains:
  assumes "tls_run_copy_loop config pre uninit loop_flags polls st = Inr (st', True)"
  shows "if \<exists>b. Some (b, True) \<in> set polls then \<not> whole_record (loop_tls st')
    else buffered (loop_tls st') = buffered (loop_tls st) \<and> loop_stdout st' = loop_stdout st"
  using copy_loop_whole_record [OF assms] copy_loop_quiet [OF _ assms] by auto

section \<open>Sending\<close>

lemma tls_xwrite_message:
  assumes "channel config w r" "pre_ok pre" "length buf \<le> TLS_MAX_OUTBUF" "length iv = 16"
  obtains rec where "tls_xwrite config pre iv w buf = Inr (w\<lparr>write_seq64_be := next_seq (write_seq64_be w)\<rparr>, rec)"
    "\<And>ms. write_all config pre w ((RECORD_TYPE_APPLICATION_DATA, buf, iv) # ms) =
       map_sum id (\<lambda>(w', bytes). (w', rec @ bytes)) (write_all config pre (w\<lparr>write_seq64_be := next_seq (write_seq64_be w)\<rparr>) ms)"
proof -
  have size: "length buf \<le> 2 ^ 14" using assms(3) by (simp add: TLS_MAX_OUTBUF_def)
  obtain body where "xwrite_encrypted config pre iv w buf RECORD_TYPE_APPLICATION_DATA =
       Inr (w\<lparr>write_seq64_be := next_seq (write_seq64_be w)\<rparr>, record_hdr RECORD_TYPE_APPLICATION_DATA (length body) @ body)"
    using written_record [OF assms(1,2) size assms(4)] by metis
  then show ?thesis by (intro that) (auto simp: tls_xwrite_def split: sum.splits)
qed

lemma channel_seq: "channel config w r \<Longrightarrow> channel config (w\<lparr>write_seq64_be := s\<rparr>) r"
  using channel_update [where b = "inbuf r" and n = "inbuf_size r" and k = "buffered_size r" and i = "ofs_to_buffered r" and h = "hsd r" and r = r]
  by simp

lemma copy_loop_sends:
  assumes "pre_ok pre" "loop_flags AND TLSLOOP_EXIT_ON_LOCAL_EOF \<noteq> 0"
  shows "channel config (loop_tls st) r \<Longrightarrow> loop_stdin st = map Some ps \<Longrightarrow> [] \<notin> set ps \<Longrightarrow> stdin_watched st \<Longrightarrow>
    0 < loop_inbuf_size st \<Longrightarrow> loop_inbuf_size st \<le> TLS_MAX_OUTBUF \<Longrightarrow> \<forall>iv \<in> set (loop_ivs st). length iv = 16 \<Longrightarrow>
    length (concat ps) \<le> length (loop_ivs st) \<Longrightarrow> length (concat ps) < n \<Longrightarrow>
    \<exists>st' ms w' bytes. tls_run_copy_loop config pre uninit loop_flags (replicate n (Some (True, False))) st = Inr (st', False) \<and>
      write_all config pre (loop_tls st) ms = Inr (w', bytes) \<and> loop_ofd st' = loop_ofd st @ bytes \<and>
      contents ms = concat ps \<and> (\<forall>m \<in> set ms. data_message m \<and> nonempty m)"
proof (induction "length (concat ps)" arbitrary: ps st n rule: less_induct)
  case (less ps st n)
  obtain k where n: "n = Suc k" using less.prems(9) by (cases n) auto
  show ?case
  proof (cases ps)
    case Nil
    then have "copy_stdin config pre loop_flags st = Inr (st\<lparr>loop_stdin := [], stdin_watched := False\<rparr>, False)"
      using less.prems(2,6) assms(2) by (simp add: copy_stdin_def)
    then have "tls_run_copy_loop config pre uninit loop_flags (replicate n (Some (True, False))) st =
        Inr (st\<lparr>loop_stdin := [], stdin_watched := False\<rparr>, False)"
      using less.prems(4) by (simp add: n)
    then show ?thesis using Nil
      by (intro exI [of _ "st\<lparr>loop_stdin := [], stdin_watched := False\<rparr>"] exI [of _ "[]"] exI [of _ "loop_tls st"] exI [of _ "[]"]) simp
  next
    case (Cons p ps1)
    let ?k = "loop_inbuf_size st"
    obtain buf where bd: "take ?k p = buf" by blast
    let ?ps = "if drop ?k p = [] then ps1 else drop ?k p # ps1"
    have p: "p \<noteq> []" "[] \<notin> set ps1" using less.prems(3) Cons by auto
    have buf: "buf \<noteq> []" "length buf \<le> TLS_MAX_OUTBUF" using p(1) less.prems(5,6) by (auto simp flip: bd)
    have cat: "concat ps = buf @ concat ?ps" by (auto simp: Cons simp flip: bd)
    obtain iv ivs where iv: "loop_ivs st = iv # ivs" "length iv = 16" "\<forall>iv \<in> set ivs. length iv = 16"
      using less.prems(7,8) p(1) Cons by (cases "loop_ivs st") auto
    let ?w = "(loop_tls st)\<lparr>write_seq64_be := next_seq (write_seq64_be (loop_tls st))\<rparr>"
    obtain rec where rec: "tls_xwrite config pre iv (loop_tls st) buf = Inr (?w, rec)"
      "\<And>ms. write_all config pre (loop_tls st) ((RECORD_TYPE_APPLICATION_DATA, buf, iv) # ms) =
         map_sum id (\<lambda>(w', bytes). (w', rec @ bytes)) (write_all config pre ?w ms)"
      using tls_xwrite_message [OF less.prems(1) assms(1) buf(2) iv(2)] by metis
    define size where "size = (if length buf = ?k then min (?k + INBUF_STEP) TLS_MAX_OUTBUF else ?k)"
    let ?st = "st\<lparr>loop_stdin := map Some ?ps, loop_inbuf_size := size, loop_tls := ?w, loop_ofd := loop_ofd st @ rec, loop_ivs := ivs\<rparr>"
    have read: "safe_read (loop_stdin st) ?k = (Some buf, map Some ?ps)" using less.prems(2) Cons by (simp flip: bd)
    have "copy_stdin config pre loop_flags st = Inr (?st, True)"
      using read buf iv(1) rec(1) less.prems(6) by (simp add: copy_stdin_def size_def Let_def del: safe_read.simps)
    then have step: "tls_run_copy_loop config pre uninit loop_flags (replicate n (Some (True, False))) st =
        tls_run_copy_loop config pre uninit loop_flags (replicate k (Some (True, False))) ?st"
      using less.prems(4) by (simp add: n)
    have "0 < length buf" using buf(1) by simp
    moreover have "length (concat ps) = length buf + length (concat ?ps)" unfolding cat by (rule length_append)
    moreover have "length (concat ps) \<le> Suc (length ivs)" "length (concat ps) < Suc k" using less.prems(8,9) iv(1) n by simp_all
    ultimately have shorter: "length (concat ?ps) < length (concat ps)" "length (concat ?ps) < k" "length (concat ?ps) \<le> length ivs"
      by linarith+
    have "\<exists>st' ms w' bytes. tls_run_copy_loop config pre uninit loop_flags (replicate k (Some (True, False))) ?st = Inr (st', False) \<and>
      write_all config pre (loop_tls ?st) ms = Inr (w', bytes) \<and> loop_ofd st' = loop_ofd ?st @ bytes \<and>
      contents ms = concat ?ps \<and> (\<forall>m \<in> set ms. data_message m \<and> nonempty m)"
      using shorter p(2) iv(3) less.prems(4-6) channel_seq [OF less.prems(1)]
      by (intro less.hyps [OF shorter(1)]) (auto simp: size_def INBUF_STEP_def TLS_MAX_OUTBUF_def)
    then obtain st' ms w' bytes where r: "tls_run_copy_loop config pre uninit loop_flags (replicate k (Some (True, False))) ?st = Inr (st', False)"
      "write_all config pre ?w ms = Inr (w', bytes)" "loop_ofd st' = (loop_ofd st @ rec) @ bytes"
      "contents ms = concat ?ps" "\<forall>m \<in> set ms. data_message m \<and> nonempty m" by auto
    let ?m = "(RECORD_TYPE_APPLICATION_DATA, buf, iv)"
    have "write_all config pre (loop_tls st) (?m # ms) = Inr (w', rec @ bytes)" using rec(2) r(2) by simp
    moreover have "contents (?m # ms) = concat ps" using r(4) cat by simp
    moreover have "data_message ?m \<and> nonempty ?m" using buf iv(2) by (simp add: data_message_def nonempty_def)
    ultimately show ?thesis using step r(1,3,5)
      by (intro exI [of _ st'] exI [of _ "?m # ms"] exI [of _ w'] exI [of _ "rec @ bytes"]) simp
  qed
qed

section \<open>The properties of both loops\<close>

lemma takeWhile_all: "\<forall>m \<in> set ms. nonempty m \<Longrightarrow> takeWhile nonempty ms = ms"
  by (simp add: takeWhile_eq_all_conv)

text \<open>C6: two copy loops with mirrored keys are a pipe.  Whatever the first reads from standard input,
  in any pieces, it sends; and however the connection cuts that, the second writes exactly the
  same bytes to standard output, in order, and ends at the end of the connection.\<close>

theorem copy_loops_pipe:
  assumes "channel config (loop_tls a) (loop_tls b)" "pre_ok pre" "buf_ok (loop_tls b)" "buffered (loop_tls b) = []"
    and "loop_stdin a = map Some ps" "[] \<notin> set ps" "stdin_watched a" "0 < loop_inbuf_size a" "loop_inbuf_size a \<le> TLS_MAX_OUTBUF"
    and "length (concat ps) \<le> length (loop_ivs a)" "\<forall>iv \<in> set (loop_ivs a). length iv = 16"
  shows "\<exists>a' bytes. tls_run_copy_loop config pre uninit TLSLOOP_EXIT_ON_LOCAL_EOF
      (replicate (Suc (length (concat ps))) (Some (True, False))) a = Inr (a', False) \<and> loop_ofd a' = loop_ofd a @ bytes \<and>
    (\<forall>qs. concat qs = bytes \<and> [] \<notin> set qs \<longrightarrow>
      (\<exists>n b'. tls_run_copy_loop config pre uninit loop_flags (replicate n (Some (False, True))) (b\<lparr>loop_ifd := map Some qs\<rparr>) = Inr (b', False) \<and>
        loop_stdout b' = loop_stdout b @ concat ps))"
proof -
  have "TLSLOOP_EXIT_ON_LOCAL_EOF AND TLSLOOP_EXIT_ON_LOCAL_EOF \<noteq> 0" by (simp add: TLSLOOP_EXIT_ON_LOCAL_EOF_def)
  from copy_loop_sends [OF assms(2) this assms(1,5-9,11,10) lessI]
  obtain a' ms w' bytes where a: "tls_run_copy_loop config pre uninit TLSLOOP_EXIT_ON_LOCAL_EOF
      (replicate (Suc (length (concat ps))) (Some (True, False))) a = Inr (a', False)"
    "write_all config pre (loop_tls a) ms = Inr (w', bytes)" "loop_ofd a' = loop_ofd a @ bytes"
    "contents ms = concat ps" "\<forall>m \<in> set ms. data_message m \<and> nonempty m" by blast
  have "\<exists>n b'. tls_run_copy_loop config pre uninit loop_flags (replicate n (Some (False, True))) (b\<lparr>loop_ifd := map Some qs\<rparr>) = Inr (b', False) \<and>
        loop_stdout b' = loop_stdout b @ concat ps" if "concat qs = bytes" "[] \<notin> set qs" for qs
  proof -
    have ex: "expecting config pre ms (b\<lparr>loop_ifd := map Some qs\<rparr>)"
      unfolding expecting_def using assms(1,3,4) a(2) that by (intro exI [of _ "loop_tls a"] exI [of _ w'] exI [of _ qs] exI [of _ bytes]) simp
    have ms: "\<forall>m \<in> set ms. data_message m" "takeWhile nonempty ms = ms" using a(5) by (auto intro: takeWhile_all)
    obtain b' where "tls_run_copy_loop config pre uninit loop_flags (replicate (Suc (length ms)) (Some (False, True)))
        (b\<lparr>loop_ifd := map Some qs\<rparr>) = Inr (b', False)" "loop_stdout b' = loop_stdout (b\<lparr>loop_ifd := map Some qs\<rparr>) @ contents (takeWhile nonempty ms)"
      using copy_loop_delivers [OF assms(2) ex ms(1) lessI] by metis
    moreover have "loop_stdout (b\<lparr>loop_ifd := map Some qs\<rparr>) = loop_stdout b" by simp
    ultimately show ?thesis unfolding ms(2) a(4) by metis
  qed
  then show ?thesis using a(1,3) by blast
qed

text \<open>C39: a record without contents, which RFC 5246 allows a server to send at any time, counts as
  the end of the connection: the loop ends there and what was sent after it never appears.\<close>

theorem empty_record_ends_transfer:
  assumes "channel config w (loop_tls st)" "pre_ok pre" "buf_ok (loop_tls st)" "buffered (loop_tls st) = []"
    and "\<forall>m \<in> set (ms1 @ [(RECORD_TYPE_APPLICATION_DATA, [], iv)] @ ms2). data_message m" "\<forall>m \<in> set ms1. nonempty m"
    and "write_all config pre w (ms1 @ [(RECORD_TYPE_APPLICATION_DATA, [], iv)] @ ms2) = Inr (w', bytes)"
    and "loop_ifd st = map Some ps" "concat ps = bytes" "[] \<notin> set ps"
  shows "\<exists>n st'. tls_run_copy_loop config pre uninit loop_flags (replicate n (Some (False, True))) st = Inr (st', False) \<and>
    loop_stdout st' = loop_stdout st @ contents ms1"
proof -
  let ?ms = "ms1 @ [(RECORD_TYPE_APPLICATION_DATA, [], iv)] @ ms2"
  have "expecting config pre ?ms st"
    unfolding expecting_def using assms(1,3,4,7-10) by (intro exI [of _ w] exI [of _ w'] exI [of _ ps] exI [of _ bytes]) simp
  moreover have "takeWhile nonempty ?ms = ms1" using assms(6) by (simp add: nonempty_def)
  ultimately show ?thesis using copy_loop_delivers [OF assms(2) _ assms(5) lessI, of config st uninit loop_flags] by metis
qed

definition example_loop :: copy_state where
  "example_loop = \<lparr>loop_tls = example_state, loop_ifd = [], loop_ofd = [], loop_stdin = [Some [1, 2], Some [3]], stdin_watched = True,
     loop_stdout = [], loop_inbuf_size = INBUF_STEP, loop_ivs = replicate 3 (replicate 16 0)\<rparr>"

theorem copy_loops_pipe_witness:
  "\<exists>a' bytes. tls_run_copy_loop example_config example_pre [] TLSLOOP_EXIT_ON_LOCAL_EOF
      (replicate 4 (Some (True, False))) example_loop = Inr (a', False) \<and> loop_ofd a' = bytes \<and>
    (\<forall>qs. concat qs = bytes \<and> [] \<notin> set qs \<longrightarrow>
      (\<exists>n b'. tls_run_copy_loop example_config example_pre [] 0 (replicate n (Some (False, True))) (example_loop\<lparr>loop_ifd := map Some qs\<rparr>) = Inr (b', False) \<and>
        loop_stdout b' = [1, 2, 3]))"
proof -
  have e: "loop_tls example_loop = example_state" "loop_ofd example_loop = []" "loop_stdout example_loop = []" by (simp_all add: example_loop_def)
  have pipe: "\<exists>a' bytes. tls_run_copy_loop example_config example_pre [] TLSLOOP_EXIT_ON_LOCAL_EOF
      (replicate (Suc (length (concat [[1, 2], [3 :: u8]]))) (Some (True, False))) example_loop = Inr (a', False) \<and> loop_ofd a' = loop_ofd example_loop @ bytes \<and>
    (\<forall>qs. concat qs = bytes \<and> [] \<notin> set qs \<longrightarrow>
      (\<exists>n b'. tls_run_copy_loop example_config example_pre [] 0 (replicate n (Some (False, True))) (example_loop\<lparr>loop_ifd := map Some qs\<rparr>) = Inr (b', False) \<and>
        loop_stdout b' = loop_stdout example_loop @ concat [[1, 2], [3]]))"
    by (rule copy_loops_pipe; (unfold e)?; (rule example_channel)?)
      (simp_all add: example_loop_def INBUF_STEP_def TLS_MAX_OUTBUF_def)
  have n: "Suc (length (concat [[1, 2], [3 :: u8]])) = 4" and c: "concat [[1, 2], [3 :: u8]] = [1, 2, 3]" by simp_all
  from pipe [unfolded n e, unfolded c append_Nil] show ?thesis .
qed

theorem empty_record_ends_transfer_witness:
  "\<exists>w' bytes. write_all example_config example_pre example_state [(23, [7], replicate 16 0), (23, [], replicate 16 1), (23, [8], replicate 16 2)] = Inr (w', bytes) \<and>
    (\<exists>n st'. tls_run_copy_loop example_config example_pre [] 0 (replicate n (Some (False, True))) (example_loop\<lparr>loop_ifd := map Some [bytes]\<rparr>) = Inr (st', False) \<and>
      loop_stdout st' = [7])"
proof -
  let ?ms1 = "[(RECORD_TYPE_APPLICATION_DATA, [7], replicate 16 0)]" and ?ms2 = "[(RECORD_TYPE_APPLICATION_DATA, [8], replicate 16 2)]"
  let ?ms = "?ms1 @ [(RECORD_TYPE_APPLICATION_DATA, [], replicate 16 1)] @ ?ms2"
  let ?st = "\<lambda>bytes. example_loop\<lparr>loop_ifd := map Some [bytes]\<rparr>"
  have types: "RECORD_TYPE_APPLICATION_DATA \<noteq> RECORD_TYPE_ALERT" "RECORD_TYPE_APPLICATION_DATA \<noteq> RECORD_TYPE_HANDSHAKE"
    by (simp_all add: RECORD_TYPE_APPLICATION_DATA_def RECORD_TYPE_ALERT_def RECORD_TYPE_HANDSHAKE_def)
  have data: "\<forall>m \<in> set ?ms. data_message m" by (simp add: data_message_def TLS_MAX_OUTBUF_def)
  then have "\<forall>m \<in> set ?ms. sendable example_state m" using types by (simp add: sendable_def TLS_MAX_OUTBUF_def)
  from read_all_write_all [OF example_channel(1-3) this]
  obtain w' bytes where w': "write_all example_config example_pre example_state ?ms = Inr (w', bytes)" by blast
  have st: "loop_tls (?st bytes) = example_state" "loop_stdout (?st bytes) = []" for bytes by (simp_all add: example_loop_def)
  have nonempty1: "\<forall>m \<in> set ?ms1. nonempty m" by (simp add: nonempty_def)
  have "bytes \<noteq> []"
  proof -
    have len: "length [7 :: u8] \<le> 2 ^ 14" "length (replicate 16 (0 :: u8)) = 16" by simp_all
    obtain rec where "xwrite_encrypted example_config example_pre (replicate 16 0) example_state [7] RECORD_TYPE_APPLICATION_DATA = Inr (example_state\<lparr>write_seq64_be := next_seq (write_seq64_be example_state)\<rparr>, rec)" "rec \<noteq> []"
      using fetch_written [OF example_channel(1,2) len example_channel(3)] by metis
    then show ?thesis using w' by (auto split: sum.splits)
  qed
  then have "\<exists>n st'. tls_run_copy_loop example_config example_pre [] 0 (replicate n (Some (False, True))) (?st bytes) = Inr (st', False) \<and>
      loop_stdout st' = loop_stdout (?st bytes) @ contents ?ms1"
    by (intro empty_record_ends_transfer [OF _ example_channel(2) _ _ data nonempty1 w', where ps = "[bytes]"])
      (simp_all only: st example_channel, simp_all add: example_loop_def)
  then show ?thesis using w' unfolding st by (simp add: RECORD_TYPE_APPLICATION_DATA_def del: write_all.simps)
qed

theorem copy_loop_drains_witness:
  "\<exists>st' st''. tls_run_copy_loop example_config example_pre [] 0 [Some (False, True)]
      (example_loop\<lparr>loop_tls := example_state\<lparr>min_encrypted_len_on_read := 0\<rparr>, loop_ifd := [Some [23, 3, 3, 0, 1, 65, 23, 3]]\<rparr>) = Inr (st', True) \<and>
    \<not> whole_record (loop_tls st') \<and>
    tls_run_copy_loop example_config example_pre [] 0 [Some (False, False)]
      (example_loop\<lparr>loop_tls := example_state\<lparr>inbuf := [23, 3, 3, 0, 1, 65], buffered_size := 6\<rparr>\<rparr>) = Inr (st'', True) \<and>
    buffered (loop_tls st'') = [23, 3, 3, 0, 1, 65] \<and> whole_record (loop_tls st'')"
proof -
  let ?st = "example_loop\<lparr>loop_tls := example_state\<lparr>min_encrypted_len_on_read := 0\<rparr>, loop_ifd := [Some [23, 3, 3, 0, 1, 65, 23, 3]]\<rparr>"
  let ?quiet = "example_loop\<lparr>loop_tls := example_state\<lparr>inbuf := [23, 3, 3, 0, 1, 65], buffered_size := 6\<rparr>\<rparr>"
  have "\<exists>st'. copy_records example_config [] ?st = Inr (st', True)"
    by (simp add: copy_records.simps tls_xread_record.simps read_one_def fetch_record_def fill_loop.simps find_target_def grow_inbuf_def
        decrypt_record_def handle_record_def tls_has_buffered_record_def example_loop_def example_state_def RECHDR_LEN_def MAX_INBUF_def
        TLS_MAJ_def TLS_MIN_def RECORD_TYPE_ALERT_def RECORD_TYPE_HANDSHAKE_def RECORD_TYPE_APPLICATION_DATA_def)
  then obtain st' where st': "copy_records example_config [] ?st = Inr (st', True)" by blast
  then have run: "tls_run_copy_loop example_config example_pre [] 0 [Some (False, True)] ?st = Inr (st', True)" by simp
  have quiet: "tls_run_copy_loop example_config example_pre [] 0 [Some (False, False)] ?quiet = Inr (?quiet, True)" by simp
  have b: "buffered (loop_tls ?quiet) = [23, 3, 3, 0, 1, 65]" by (simp add: buffered_def example_state_def)
  have "record_ok [23, 3, 3, 0, 1, 65]" by (simp add: record_ok_def RECHDR_LEN_def MAX_INBUF_def TLS_MAJ_def TLS_MIN_def)
  with b have "whole_record (loop_tls ?quiet)" unfolding whole_record_def by (metis append_Nil2)
  moreover have e: "\<exists>b. Some (b, True) \<in> set [Some (False, True)]" by (rule exI [of _ False]) simp
  note copy_loop_drains [OF run, unfolded if_P [OF e]]
  moreover have "\<not> (\<exists>b. Some (b, True) \<in> set [Some (False, False)])" by simp
  note copy_loop_drains [OF quiet, unfolded if_not_P [OF this]]
  ultimately show ?thesis using run quiet b by blast
qed

end
