(* ===== verification/Sums.thy ===== *)
theory Sums imports Sha3Digest CLib begin

text \<open>
  \<open>coreutils/md5_sha1_sum.c\<close>: the applets \<open>md5sum\<close>, \<open>sha1sum\<close>, \<open>sha256sum\<close>,
  \<open>sha512sum\<close> and \<open>sha3sum\<close>, and their check mode.

  The environment gives, for every name the applet opens, the non-empty reads up to the end of the
  file and whether the last read failed; and the text of a list of checksums.  Memory that is
  not initialised is part of it.  Standard output and the exit status are modelled, the messages on
  standard error are not.
\<close>

record sums_env =
  file_reads :: "string \<Rightarrow> (u8 list list \<times> bool) option"
  list_text :: "string \<Rightarrow> string option"
  mem_md5 :: md5_ctx
  mem_sha512 :: sha512_ctx
  mem_buf :: "u8 list"

section \<open>Hexadecimal digits\<close>

definition bb_hexdigits_upcase :: string where
  "bb_hexdigits_upcase = ''0123456789ABCDEF''"

definition hex_lower :: "u8 \<Rightarrow> char" where
  "hex_lower d = char_of (0x20 OR (of_char (bb_hexdigits_upcase ! unat d) :: nat))"

fun bin2hex :: "u8 list \<Rightarrow> string" where
  "bin2hex [] = []"
| "bin2hex (c # cp) = hex_lower (drop_bit 4 c) # hex_lower (c AND 0xf) # bin2hex cp"

section \<open>Hashing a file\<close>

text \<open>The loop of reads and the final call; the buffer that receives the digest is the one the reads
  went to.\<close>

definition hash_reads ::
    "('c \<Rightarrow> u8 list \<Rightarrow> 'c) \<Rightarrow> ('c \<Rightarrow> u8 list) \<Rightarrow> 'c \<Rightarrow> u8 list \<Rightarrow> nat \<Rightarrow> u8 list list \<times> bool \<Rightarrow> string option" where
  "hash_reads update final ctx in_buf hash_len reads =
     (let (ctx, in_buf) = foldl (\<lambda>(ctx, buf) chunk. (update ctx chunk, memcpy buf 0 chunk)) (ctx, in_buf) (fst reads)
      in if snd reads then None
         else Some (bin2hex (take hash_len (memcpy in_buf 0 (final ctx)))))"

text \<open>\<open>hash_file\<close>: None is the exit of \<open>bb_error_msg_and_die\<close> or \<open>xfunc_die\<close>, Some None the
  NULL result.\<close>

definition hash_file :: "int \<Rightarrow> bool \<Rightarrow> char \<Rightarrow> sums_env \<Rightarrow> string \<Rightarrow> nat \<Rightarrow> string option option" where
  "hash_file config small hash_algo env filename sha3_width =
     (case file_reads env filename of
        None \<Rightarrow> Some None
      | Some reads \<Rightarrow>
          let in_buf = mem_buf env in
          if hash_algo = CHR ''s'' then
            Some (hash_reads (md5_hash config) (\<lambda>c. snd (md5_end config c)) (md5_begin (mem_md5 env)) in_buf 16 reads)
          else if hash_algo = CHR ''1'' then
            Some (hash_reads (md5_hash config) (\<lambda>c. snd (sha1_end config c)) (sha1_begin (mem_md5 env)) in_buf 20 reads)
          else if hash_algo = CHR ''2'' then
            Some (hash_reads (md5_hash config) (\<lambda>c. snd (sha1_end config c)) (sha256_begin (mem_md5 env)) in_buf 32 reads)
          else if hash_algo = CHR ''5'' then
            Some (hash_reads sha512_hash (\<lambda>c. snd (sha512_end c)) (sha512_begin (mem_sha512 env)) in_buf 64 reads)
          else if hash_algo = CHR ''3'' then
            (if sha3_width \<ge> 1600 div 2 \<or> sha3_width = 0 \<or> sha3_width mod 32 \<noteq> 0 then None
             else
               let sha3_width = sha3_width div 4;
                   ctx = sha3_begin \<lparr>input_block_bytes := 1600 div 8 - sha3_width\<rparr>
               in Some (hash_reads (sha3_hash small) (\<lambda>c. snd (sha3_end small c)) ctx in_buf (sha3_width div 2) reads))
          else None)"

section \<open>The applet\<close>

record sum_flags =
  flag_silent :: bool
  flag_check :: bool

text \<open>A line of the list: the name and whether the checksum is that of the file now; None is an
  invalid line.\<close>

definition check_line ::
    "(string \<Rightarrow> string option option) \<Rightarrow> string \<Rightarrow> (string \<times> bool) option option" where
  "check_line hash_of line =
     (case (case strstr line ''  '' of None \<Rightarrow> strstr line '' *'' | Some p \<Rightarrow> Some p) of
        None \<Rightarrow> Some None
      | Some filename_ptr \<Rightarrow>
          let line = take (length line - length filename_ptr) line;
              filename_ptr = drop 2 filename_ptr
          in Option.bind (hash_of filename_ptr)
               (\<lambda>hash_value. Some (Some (filename_ptr, hash_value = Some line))))"

text \<open>The lines of a list: the output, the two counters and the exit status so far.\<close>

function check_lines ::
    "(string \<Rightarrow> string option option) \<Rightarrow> bool \<Rightarrow> string \<Rightarrow> string \<times> nat \<times> nat \<times> nat \<Rightarrow>
     (string \<times> nat \<times> nat \<times> nat) option" where
  "check_lines hash_of silent stream st =
     (case xmalloc_fgetline stream of
        None \<Rightarrow> Some st
      | Some (line, rest) \<Rightarrow>
          let (outp, count_total, count_failed, return_value) = st in
          (case check_line hash_of line of
             None \<Rightarrow> None
           | Some None \<Rightarrow> check_lines hash_of silent rest (outp, count_total + 1, count_failed + 1, 1)
           | Some (Some (name, good)) \<Rightarrow>
               check_lines hash_of silent rest
                 (if silent then outp else outp @ name @ (if good then '': OK'' else '': FAILED'') @ nl,
                  count_total + 1,
                  if good then count_failed else count_failed + 1,
                  if good then return_value else 1)))"
  by pat_completeness auto
termination by (relation "measure (\<lambda>(_, _, s, _). length s)") (auto dest: xmalloc_fgetline_less)

declare check_lines.simps [simp del]

text \<open>One argument: the output and the exit status so far.\<close>

definition sum_arg ::
    "int \<Rightarrow> bool \<Rightarrow> char \<Rightarrow> sums_env \<Rightarrow> sum_flags \<Rightarrow> nat \<Rightarrow> string \<times> nat \<Rightarrow> string \<Rightarrow> (string \<times> nat) option" where
  "sum_arg config small hash_algo env flags sha3_width st arg =
     (let (outp, return_value) = st;
          hash_of = \<lambda>name. hash_file config small hash_algo env name sha3_width
      in if flag_check flags then
           Option.bind (list_text env arg)
             (\<lambda>stream. Option.bind (check_lines hash_of (flag_silent flags) stream (outp, 0, 0, return_value))
               (\<lambda>(outp, count_total, count_failed, return_value).
                  Some (outp, if count_total = 0 then 1 else return_value)))
         else
           Option.bind (hash_of arg)
             (\<lambda>hash_value. case hash_value of
                None \<Rightarrow> Some (outp, 1)
              | Some h \<Rightarrow> Some (outp @ h @ ''  '' @ arg @ nl, return_value)))"

fun sum_args ::
    "int \<Rightarrow> bool \<Rightarrow> char \<Rightarrow> sums_env \<Rightarrow> sum_flags \<Rightarrow> nat \<Rightarrow> string list \<Rightarrow> string \<times> nat \<Rightarrow> (string \<times> nat) option" where
  "sum_args config small hash_algo env flags sha3_width [] st = Some st"
| "sum_args config small hash_algo env flags sha3_width (arg # argv) st =
     Option.bind (sum_arg config small hash_algo env flags sha3_width st arg)
       (sum_args config small hash_algo env flags sha3_width argv)"

definition md5_sha1_sum_main ::
    "int \<Rightarrow> bool \<Rightarrow> string \<Rightarrow> sums_env \<Rightarrow> sum_flags \<Rightarrow> nat \<Rightarrow> string list \<Rightarrow> (string \<times> nat) option" where
  "md5_sha1_sum_main config small applet_name env flags sha3_width argv =
     sum_args config small (applet_name ! 3) env flags sha3_width (if argv = [] then [''-''] else argv) ([], 0)"

end
