(* ===== verification/SumsProps.thy ===== *)
theory SumsProps imports Sums begin

text \<open>
  The checksum applets: \<open>hash_file\<close> computes the digest of the whole file whatever the sizes of
  the reads (over the lemmas of HashDigest and Sha3Digest), and check mode reads back the list
  the applet writes.
\<close>

section \<open>Digests\<close>

definition digest_of :: "char \<Rightarrow> nat \<Rightarrow> u8 list \<Rightarrow> u8 list option" where
  "digest_of algo w m =
     (if algo = CHR ''s'' then Some (md5_spec m)
      else if algo = CHR ''1'' then Some (sha1_spec m)
      else if algo = CHR ''2'' then Some (sha256_spec m)
      else if algo = CHR ''5'' then Some (sha512_spec m)
      else if algo = CHR ''3'' \<and> 0 < w \<and> w \<le> 512 \<and> w mod 32 = 0
      then Some (take (w div 8) (sha3_spec (200 - w div 4) m))
      else None)"

definition mem_ok :: "sums_env \<Rightarrow> bool" where
  "mem_ok env \<longleftrightarrow> length (wbuffer (mem_md5 env)) = 64 \<and> length (hash (mem_md5 env)) = 8 \<and>
     length (wbuffer512 (mem_sha512 env)) = 128"

lemma length_sha3_spec: "length (sha3_spec r m) = 64"
proof -
  have "length (foldl (\<lambda>A b. keccak_f (xor_block A b)) A bs) = 25" if "length A = 25" for A bs
    using that by (induction bs arbitrary: A) auto
  then show ?thesis unfolding sha3_spec_def
    by (subst length_concat_const [where k = 8]) simp_all
qed

lemma hash_reads_fst:
  "foldl (\<lambda>(ctx, buf) chunk. (update ctx chunk, memcpy buf 0 chunk)) (ctx, buf) chunks =
   (foldl update ctx chunks, foldl (\<lambda>buf chunk. memcpy buf 0 chunk) buf chunks)"
  by (induction chunks arbitrary: ctx buf) auto

lemma hash_reads_digest:
  assumes "hash_len \<le> length (final (foldl update ctx chunks))"
  shows "hash_reads update final ctx in_buf hash_len (chunks, False) =
    Some (bin2hex (take hash_len (final (foldl update ctx chunks))))"
  using assms by (simp add: hash_reads_def hash_reads_fst) (simp add: memcpy_def)

lemma hash_reads_error: "hash_reads update final ctx in_buf hash_len (chunks, True) = None"
  by (simp add: hash_reads_def hash_reads_fst)

lemma hash_file_digest_lemma:
  assumes mem: "mem_ok env" and reads: "file_reads env name = Some (chunks, err)"
    and chunks: "\<forall>c \<in> set chunks. length c \<le> 4096" and d: "digest_of algo w (concat chunks) = Some d"
  shows "hash_file config small algo env name w = Some (if err then None else Some (bin2hex d))"
proof -
  have c64: "\<forall>c \<in> set chunks. length c < 2 ^ 64" using chunks by auto
  have w: "w div 8 \<le> 64" "w div 4 div 2 = w div 8" "w < 800" if "w \<le> 512" using that by (simp_all add: div_mult2_eq [symmetric])
  have r: "8 dvd 200 - w div 4" "0 < 200 - w div 4" if le: "w \<le> 512" and m: "w mod 32 = 0"
  proof -
    obtain k where k: "w = 32 * k" using m by auto
    then have "200 - w div 4 = 8 * (25 - k)" by simp
    then show "8 dvd 200 - w div 4" by simp
    show "0 < 200 - w div 4" using le by simp
  qed
  show ?thesis
    using mem reads d
    by (cases err) (auto simp: hash_file_def digest_of_def mem_ok_def hash_reads_error hash_reads_digest
        digest_lengths digest_md5 digest_sha1 digest_sha256 digest_sha512 [OF _ c64]
        sha3_digest_rate [OF r] length_sha3_spec w split: if_splits)
qed

section \<open>Check mode\<close>

lemma hex_digit_chars: "d < 16 \<Longrightarrow> hex_lower d \<in> set ''0123456789abcdef''"
proof -
  assume d: "d < 16"
  have "list_all (\<lambda>n. hex_lower (word_of_nat n) \<in> set ''0123456789abcdef'') [0..<16]"
    by (simp add: upt_rec hex_lower_def bb_hexdigits_upcase_def char_of_def bit_Suc_0_iff)
  moreover have "unat d \<in> set [0..<16]" using d by (simp add: word_less_nat_alt)
  ultimately have "hex_lower (word_of_nat (unat d)) \<in> set ''0123456789abcdef''"
    unfolding list_all_iff by (rule bspec)
  then show ?thesis by (simp only: of_nat_unat unsigned_ucast_eq ucast_id)
qed

lemma bin2hex_chars: "set (bin2hex xs) \<subseteq> set ''0123456789abcdef''"
proof (induction xs)
  case (Cons x xs)
  have "drop_bit 4 x < 16"
  proof -
    have "unat (drop_bit 4 x) = unat x div 16" by (simp only: unat_drop_bit_eq) (simp add: drop_bit_eq_div)
    moreover have "unat x < 256" using unsigned_less [of x, where ?'a = nat] by simp
    ultimately show ?thesis by (simp add: word_less_nat_alt)
  qed
  moreover have "x AND 0xf < 16"
  proof -
    have "x AND 0xf \<le> 0xf" by (rule word_and_le1)
    then show ?thesis by (simp add: word_le_nat_alt word_less_nat_alt)
  qed
  ultimately show ?case using Cons hex_digit_chars by simp
qed simp

lemma bin2hex_no_blank: "c \<in> set (bin2hex xs) \<Longrightarrow> c \<noteq> CHR '' '' \<and> c \<noteq> CHR 0x0A \<and> c \<noteq> cnul"
  using bin2hex_chars [of xs] by (auto simp: cnul_def)

lemma strstr_two_spaces:
  "\<forall>c \<in> set h. c \<noteq> CHR '' '' \<Longrightarrow> strstr (h @ ''  '' @ s) ''  '' = Some (''  '' @ s)"
proof (induction h)
  case Nil
  show ?case by (subst strstr.simps) simp
next
  case (Cons c h)
  then show ?case by (subst strstr.simps) simp
qed

lemma check_line_own:
  assumes "\<forall>c \<in> set h. c \<noteq> CHR '' ''"
  shows "check_line hash_of (h @ ''  '' @ name) =
    Option.bind (hash_of name) (\<lambda>v. Some (Some (name, v = Some h)))"
  using strstr_two_spaces [OF assms, of name] by (simp add: check_line_def Let_def)

definition plain_name :: "string \<Rightarrow> bool" where
  "plain_name n \<longleftrightarrow> CHR 0x0A \<notin> set n \<and> cnul \<notin> set n"

text \<open>One line of the list.\<close>

lemma check_lines_step:
  assumes "\<forall>c \<in> set h. c \<noteq> CHR '' '' \<and> c \<noteq> CHR 0x0A \<and> c \<noteq> cnul" "plain_name name" "hash_of name = Some v"
  shows "check_lines hash_of False (h @ ''  '' @ name @ nl @ rest) (outp, tot, failed, ret) =
    check_lines hash_of False rest
      (outp @ name @ (if v = Some h then '': OK'' else '': FAILED'') @ nl, tot + 1,
       if v = Some h then failed else failed + 1, if v = Some h then ret else 1)"
proof -
  have "cnul \<notin> set (h @ ''  '' @ name)" "CHR 0x0A \<notin> set (h @ ''  '' @ name)"
    using assms(1,2) by (auto simp: plain_name_def cnul_def)
  then have "xmalloc_fgetline ((h @ ''  '' @ name) @ CHR 0x0A # rest) = Some (h @ ''  '' @ name, rest)"
    by (rule xmalloc_fgetline_line)
  moreover have "check_line hash_of (h @ ''  '' @ name) = Some (Some (name, v = Some h))"
    using assms by (subst check_line_own) auto
  ultimately show ?thesis by (subst check_lines.simps) simp
qed

lemma check_lines_end: "check_lines hash_of silent [] st = Some st"
  by (subst check_lines.simps) (simp add: xmalloc_fgetline_def)

text \<open>A list written for the values \<open>h1\<close>, checked against \<open>h2\<close>.\<close>

definition list_line :: "(string \<Rightarrow> string) \<Rightarrow> string \<Rightarrow> string" where
  "list_line h1 n = h1 n @ ''  '' @ n @ nl"

definition verdict :: "(string \<Rightarrow> string) \<Rightarrow> (string \<Rightarrow> string option) \<Rightarrow> string \<Rightarrow> string" where
  "verdict h1 h2 n = n @ (if h2 n = Some (h1 n) then '': OK'' else '': FAILED'') @ nl"

lemma check_lines_list:
  assumes "\<forall>n \<in> set names. (\<forall>c \<in> set (h1 n). c \<noteq> CHR '' '' \<and> c \<noteq> CHR 0x0A \<and> c \<noteq> cnul) \<and>
    plain_name n \<and> hash_of n = Some (h2 n)"
  shows "\<exists>failed. check_lines hash_of False (concat (map (list_line h1) names)) (outp, tot, f, ret) =
    Some (outp @ concat (map (verdict h1 h2) names), tot + length names, failed,
      if \<forall>n \<in> set names. h2 n = Some (h1 n) then ret else 1)"
  using assms
proof (induction names arbitrary: outp tot f ret)
  case Nil
  then show ?case by (simp add: check_lines_end)
next
  case (Cons n names)
  have n: "\<forall>c \<in> set (h1 n). c \<noteq> CHR '' '' \<and> c \<noteq> CHR 0x0A \<and> c \<noteq> cnul" "plain_name n" "hash_of n = Some (h2 n)"
    using Cons.prems by auto
  have l: "concat (map (list_line h1) (n # names)) = h1 n @ ''  '' @ n @ nl @ concat (map (list_line h1) names)"
    by (simp add: list_line_def)
  have step: "check_lines hash_of False (concat (map (list_line h1) (n # names))) (outp, tot, f, ret) =
      check_lines hash_of False (concat (map (list_line h1) names))
        (outp @ verdict h1 h2 n, tot + 1, if h2 n = Some (h1 n) then f else f + 1,
         if h2 n = Some (h1 n) then ret else 1)"
    unfolding l check_lines_step [where hash_of = hash_of, OF n] verdict_def ..
  have IH: "\<exists>failed. check_lines hash_of False (concat (map (list_line h1) names)) (outp, tot, f, ret) =
      Some (outp @ concat (map (verdict h1 h2) names), tot + length names, failed,
        if \<forall>n \<in> set names. h2 n = Some (h1 n) then ret else 1)" for outp tot f ret
    using Cons.IH Cons.prems by simp
  show ?case
    using IH [of "outp @ verdict h1 h2 n" "tot + 1" "if h2 n = Some (h1 n) then f else f + 1"
        "if h2 n = Some (h1 n) then ret else 1"]
    unfolding step by auto
qed

text \<open>The value \<open>hash_file\<close> gives, or nothing.\<close>

definition sum_of :: "string option option \<Rightarrow> string" where
  "sum_of r = (case r of Some (Some h) \<Rightarrow> h | _ \<Rightarrow> [])"

lemma hash_reads_hex: "hash_reads update final ctx in_buf hash_len reads = Some h \<Longrightarrow> \<exists>xs. h = bin2hex xs"
  by (auto simp: hash_reads_def Let_def split: prod.splits if_splits)

lemma hash_file_hex: "hash_file config small a env n w = Some (Some h) \<Longrightarrow> \<exists>xs. h = bin2hex xs"
  by (auto simp: hash_file_def Let_def split: option.splits if_splits dest: hash_reads_hex)

lemma sum_of_chars: "c \<in> set (sum_of (hash_file config small a env n w)) \<Longrightarrow> c \<noteq> CHR '' '' \<and> c \<noteq> CHR 0x0A \<and> c \<noteq> cnul"
proof -
  assume c: "c \<in> set (sum_of (hash_file config small a env n w))"
  then obtain h where h: "hash_file config small a env n w = Some (Some h)" "c \<in> set h"
    by (cases "hash_file config small a env n w"; cases "the (hash_file config small a env n w)")
      (auto simp: sum_of_def)
  obtain xs where "h = bin2hex xs" using hash_file_hex [OF h(1)] by blast
  then show ?thesis using h(2) bin2hex_no_blank by blast
qed

lemma sum_arg_plain:
  assumes "\<not> flag_check flags" "sum_arg config small a env flags w (outp, r) n = Some (t, r')"
  shows "(case hash_file config small a env n w of
      Some (Some h) \<Rightarrow> t = outp @ list_line (\<lambda>_. h) n \<and> r' = r | _ \<Rightarrow> r' = 1)"
  using assms by (auto simp: sum_arg_def list_line_def bind_eq_Some_conv split: option.splits)

lemma sum_args_failed:
  "\<not> flag_check flags \<Longrightarrow> sum_args config small a env flags w names (outp, 1) = Some (t, r) \<Longrightarrow> r = 1"
proof (induction names arbitrary: outp)
  case (Cons n names)
  then show ?case using sum_arg_plain [of flags config small a env w outp 1 n]
    by (fastforce simp: bind_eq_Some_conv split: option.splits)
qed simp

lemma sum_args_plain:
  assumes "\<not> flag_check flags"
  shows "sum_args config small a env flags w names (outp, 0) = Some (t, 0) \<Longrightarrow>
    t = outp @ concat (map (list_line (\<lambda>n. sum_of (hash_file config small a env n w))) names) \<and>
    (\<forall>n \<in> set names. hash_file config small a env n w = Some (Some (sum_of (hash_file config small a env n w))))"
proof (induction names arbitrary: outp)
  case (Cons n names)
  obtain t1 r1 where arg: "sum_arg config small a env flags w (outp, 0) n = Some (t1, r1)"
    and rest: "sum_args config small a env flags w names (t1, r1) = Some (t, 0)"
    using Cons.prems by (auto simp: bind_eq_Some_conv)
  have "r1 \<noteq> 1" using rest sum_args_failed [OF assms] by fastforce
  then obtain h where h: "hash_file config small a env n w = Some (Some h)" "t1 = outp @ list_line (\<lambda>_. h) n" "r1 = 0"
    using sum_arg_plain [OF assms arg] by (auto split: option.splits)
  then show ?case using Cons.IH [OF rest [unfolded h(3)]] by (simp add: sum_of_def list_line_def)
qed simp

text \<open>Whether \<open>hash_file\<close> ends the program depends on the algorithm and the width only.\<close>

lemma hash_file_ends:
  assumes "hash_file config small a env n w = Some (Some h)"
  shows "hash_file config small a env2 n2 w \<noteq> None"
  using assms by (auto simp: hash_file_def Let_def split: option.splits if_splits)

section \<open>The properties\<close>

text \<open>C19: the applets print the digest of the standards: for every way the file is read in pieces of at
  most 4096 bytes, \<open>hash_file\<close> gives the hexadecimal digest of the whole file, for MD5, SHA-1,
  SHA-256, SHA-512 and for SHA-3 of every width up to 512 bits; a read error gives NULL.\<close>

theorem hash_file_digest:
  assumes "mem_ok env" "file_reads env name = Some (chunks, err)" "\<forall>c \<in> set chunks. length c \<le> 4096"
    and "digest_of algo w (concat chunks) = Some d"
  shows "hash_file config small algo env name w = Some (if err then None else Some (bin2hex d))"
  using assms by (rule hash_file_digest_lemma)

definition abc_env :: sums_env where
  "abc_env = \<lparr>file_reads = (\<lambda>n. if n = ''a'' then Some ([[97], [98, 99]], False) else None),
     list_text = (\<lambda>n. None), mem_md5 = fresh64, mem_sha512 = fresh128, mem_buf = replicate 4096 0\<rparr>"

theorem hash_file_digest_witness:
  "hash_file 1 True CHR ''3'' abc_env ''a'' 224 = Some (Some (bin2hex (take 28 (sha3_spec 144 [97, 98, 99]))))"
  using hash_file_digest [of abc_env "''a''" "[[97], [98, 99]]" False "CHR ''3''" 224]
  by (simp add: abc_env_def mem_ok_def fresh64_def fresh128_def digest_of_def)

text \<open>C20: check mode reads the list the applet writes: if a run over some names ends with success, then
  checking its output, with the files as they are later, prints \<open>OK\<close> for exactly the names whose
  checksum is the same and \<open>FAILED\<close> for the others, and succeeds iff there is no other.\<close>

theorem check_own_list:
  assumes "names \<noteq> []" "\<forall>n \<in> set names. plain_name n"
    and run: "md5_sha1_sum_main config small applet env \<lparr>flag_silent = silent, flag_check = False\<rparr> w names = Some (t, 0)"
    and list: "list_text env2 lst = Some t"
  shows "md5_sha1_sum_main config small applet env2 \<lparr>flag_silent = False, flag_check = True\<rparr> w [lst] =
    Some (concat (map (\<lambda>n. n @ (if hash_file config small (applet ! 3) env2 n w = hash_file config small (applet ! 3) env n w
                               then '': OK'' else '': FAILED'') @ nl) names),
      if \<forall>n \<in> set names. hash_file config small (applet ! 3) env2 n w = hash_file config small (applet ! 3) env n w
      then 0 else 1)"
proof -
  let ?h = "\<lambda>env n. hash_file config small (applet ! 3) env n w"
  let ?h1 = "\<lambda>n. sum_of (?h env n)" and ?h2 = "\<lambda>n. the (?h env2 n)"
  have plain: "t = concat (map (list_line ?h1) names)" "\<forall>n \<in> set names. ?h env n = Some (Some (?h1 n))"
    using sum_args_plain [of "\<lparr>flag_silent = silent, flag_check = False\<rparr>" config small "applet ! 3" env w names "[]" t]
      run assms(1) by (auto simp: md5_sha1_sum_main_def)
  have h2: "?h env2 n = Some (?h2 n)" if "n \<in> set names" for n
    using hash_file_ends [of config small "applet ! 3" env n w _ env2 n] plain(2) that by auto
  have same: "(?h2 n = Some (?h1 n)) = (?h env2 n = ?h env n)" if "n \<in> set names" for n
    using h2 [OF that] plain(2) that by (metis option.sel)
  obtain f where f: "check_lines (?h env2) False t ([], 0, 0, 0) =
      Some (concat (map (verdict ?h1 ?h2) names), length names, f, if \<forall>n \<in> set names. ?h2 n = Some (?h1 n) then 0 else 1)"
    using check_lines_list [of names ?h1 "?h env2" ?h2 "[]" 0 0 0] sum_of_chars h2 assms(2) plain(1) by auto
  have v: "map (verdict ?h1 ?h2) names =
      map (\<lambda>n. n @ (if ?h env2 n = ?h env n then '': OK'' else '': FAILED'') @ nl) names"
    using same by (auto simp: verdict_def)
  have a: "(\<forall>n \<in> set names. ?h2 n = Some (?h1 n)) = (\<forall>n \<in> set names. ?h env2 n = ?h env n)"
    using same by auto
  show ?thesis
    using f assms(1) by (simp add: md5_sha1_sum_main_def sum_arg_def list v a)
qed

definition abc_list :: string where
  "abc_list = list_line (\<lambda>n. sum_of (hash_file 1 True CHR ''3'' abc_env n 224)) ''a''"

text \<open>The file changed after the list was written.\<close>

definition abd_env :: sums_env where
  "abd_env = abc_env\<lparr>file_reads := (\<lambda>n. if n = ''a'' then Some ([[97, 98, 100]], False) else None),
     list_text := (\<lambda>n. if n = ''list'' then Some abc_list else None)\<rparr>"

lemma abc_env_run:
  "md5_sha1_sum_main 1 True ''sha3sum'' abc_env \<lparr>flag_silent = False, flag_check = False\<rparr> 224 [''a''] = Some (abc_list, 0)"
proof -
  have "hash_file 1 True CHR ''3'' abc_env ''a'' 224 = Some (Some (bin2hex (take 28 (sha3_spec 144 [97, 98, 99]))))"
    by (rule trans [OF hash_file_digest_lemma [of abc_env "''a''" "[[97], [98, 99]]" False "CHR ''3''" 224]])
      (simp_all add: abc_env_def mem_ok_def fresh64_def fresh128_def digest_of_def)
  then show ?thesis
    by (simp add: md5_sha1_sum_main_def sum_arg_def abc_list_def list_line_def sum_of_def)
qed

theorem check_own_list_witness:
  "md5_sha1_sum_main 1 True ''sha3sum'' abd_env \<lparr>flag_silent = False, flag_check = True\<rparr> 224 [''list''] =
    Some (concat (map (\<lambda>n. n @ (if hash_file 1 True (''sha3sum'' ! 3) abd_env n 224 = hash_file 1 True (''sha3sum'' ! 3) abc_env n 224
                               then '': OK'' else '': FAILED'') @ nl) [''a'']),
      if \<forall>n \<in> set [''a'']. hash_file 1 True (''sha3sum'' ! 3) abd_env n 224 = hash_file 1 True (''sha3sum'' ! 3) abc_env n 224
      then 0 else 1)"
  by (rule check_own_list [OF _ _ abc_env_run]) (simp_all add: plain_name_def cnul_def abd_env_def)

end
