(* ===== verification/Spec2Isabelle.thy ===== *)
theory Spec2Isabelle imports Prelude Libbb Aes ShellMath ShellMathProps ShellMathExpr BaseCode BaseCodeProps Uuencode CLib Json JsonProps Agent AgentProps LlmServer LlmServerProps AgentSystem Factor FactorProps Hash Sha3 HashSpec HashBlocks HashStream HashDigest Sha3Digest TlsPrf TlsPrfProps Fe25519 Fe25519Props Ghash GhashProps TlsRecord TlsRecordProps TlsHandshake TlsHandshakeProps TlsChannelProps TlsTranscriptProps TlsLoop TlsLoopProps Sums SumsProps begin

text \<open>
  Verification of BusyBox code and of the agent test programs of this repository.

  The repository collects the test suites of an operating-system contest. The code of its own
  modelled here is that of BusyBox (\<open>src/busybox\<close>) with an algorithm to get right, not
  only system calls to issue, and the two programs of \<open>src/cagent-test\<close> with the JSON library
  they embed. There are five groups of components, which meet where the programs do:

  \<^item> shell arithmetic, the value of \<open>$((...))\<close> in ash and hush;
  \<^item> the codecs behind base32, base64, uuencode and uudecode;
  \<^item> the hash functions, with the checksum applets that run them;
  \<^item> the TLS 1.2 client: cipher, HMAC, key exchange, record layer, handshake, copy loop, which
    uses the hash functions;
  \<^item> the agent and the test server: the agent sends its conversation as JSON over HTTP, the
    server chooses a command for it, the agent runs the command and reports the result.

  \<^bold>\<open>Shared theories.\<close>

  \<^item> \<open>Prelude\<close>: the machine integers (\<open>u8\<close>, \<open>u32\<close>, \<open>u64\<close> are words, so they wrap as in C), C
    strings as lists of characters up to the NUL, blocks of a byte buffer, and the collection
    \<open>state_ok\<close> of invariant facts.
  \<^item> \<open>Libbb\<close>: the character tests of \<open>include/libbb.h\<close> and the scanning helpers of \<open>libbb/\<close>
    (\<open>skip_whitespace\<close>, \<open>endofname\<close>, \<open>safe_strncpy\<close>).
  \<^item> \<open>CLib\<close>: what the programs use of the C library's string functions, and the line input and
    trimming of \<open>libbb/\<close>.

  \<^bold>\<open>Shell arithmetic\<close> (\<open>shell/math.c\<close>).

  \<^item> \<open>ShellMath\<close>: \<open>operator\<close> and \<open>tok_byte\<close> are the token bytes with their precedences,
    \<open>arith_apply\<close> applies an operator to the number stack of \<open>math_state\<close>, \<open>strto_arith_t\<close> reads
    base-N numbers, \<open>math_step\<close> is one round of the loop of \<open>evaluate_string\<close> and \<open>math_loop\<close> the
    loop. The variables of the shell are a parameter. Values of variables are evaluated in turn,
    to a given depth; None means that the depth did not suffice (the C code would recurse for
    ever on a variable that names itself).
  \<^item> \<open>ShellMathProps\<close>: over the reachable states, both stacks stay below the length of the
    expression; the claim of the source about the number stack is refuted; the operators on
    64-bit values, with the division of the smallest number by -1.
  \<^item> \<open>ShellMathExpr\<close>: the expressions of C as a datatype of its own (\<open>c_expr\<close>), with the levels of
    the C grammar and the values of C, neither taken from the program. Printing an expression
    with the parentheses C needs and evaluating it gives its C value.

  \<^bold>\<open>Codecs\<close> (\<open>libbb/uuencode.c\<close>, \<open>coreutils/uuencode.c\<close>, \<open>coreutils/uudecode.c\<close>).

  \<^item> \<open>BaseCode\<close>: encoders and decoders, the stream reader \<open>read_base64\<close>, line wrapping.
  \<^item> \<open>BaseCodeProps\<close>: the locale \<open>stream_codec\<close> states once what the reader needs of a code and is
    interpreted for base64 and base32; the file round trips, and the byte base64 loses where a
    line ends between two pad characters, for every length and line width that brings it about.
  \<^item> \<open>Uuencode\<close>: the two applets and their round trip in both formats.

  \<^bold>\<open>Numbers\<close> (\<open>coreutils/factor.c\<close>, \<open>libbb/isqrt.c\<close>, \<open>libbb/bb_strtonum.c\<close>).

  \<^item> \<open>Factor\<close>: the packed wheel, \<open>isqrt\<close>, trial division as partial functions, number parsing.
  \<^item> \<open>FactorProps\<close>: factorization ends on every non-zero 64-bit number, with its prime factors in
    order.

  \<^bold>\<open>Hash functions\<close> (\<open>libbb/hash_md5_sha.c\<close>).

  \<^item> \<open>Hash\<close>: the contexts \<open>md5_ctx\<close> and \<open>sha512_ctx\<close>, the block functions (MD5 in every variant of
    \<open>MD5_SMALL\<close>), and begin, hash and end. \<open>Sha3\<close>: the permutation in both variants, the sponge.
  \<^item> \<open>HashSpec\<close>: the digests of RFC 1321 and FIPS 180-4 from the documents alone: padding, message
    schedules, rounds, feed-forward, and the constants as the fractional parts of the roots of
    the first primes (for MD5 the table of RFC 1321).
  \<^item> \<open>HashBlocks\<close>: each block function is the compression function of its standard.
    \<open>HashStream\<close>: the locales \<open>block_buffer\<close> and \<open>block_hash\<close>, a buffer that hands over full blocks,
    interpreted for the 64-byte and the 128-byte hashes and for the sponge. \<open>HashDigest\<close> and
    \<open>Sha3Digest\<close>: the digests, for every way the message is cut into calls, are those of the
    standards; FIPS 202 is written out in \<open>Sha3Digest\<close>.
  \<^item> \<open>Sums\<close> and \<open>SumsProps\<close> (\<open>coreutils/md5_sha1_sum.c\<close>): \<open>hash_file\<close> over the reads of a file, the
    list of checksums, and check mode on the applet's own list.

  \<^bold>\<open>TLS\<close> (\<open>networking/tls.c\<close>, \<open>tls_aes.c\<close>, \<open>tls_aesgcm.c\<close>, \<open>tls_fe.c\<close>).

  \<^item> \<open>Aes\<close>: tables, key schedule and rounds, CBC; \<open>aes_rounds\<close> of the key drives the loop over the
    rounds, as in the code. Decryption inverts encryption, through the locales \<open>round_layers\<close> and
    \<open>block_cipher\<close>.
  \<^item> \<open>TlsPrf\<close>, \<open>TlsPrfProps\<close>: HMAC and the pseudorandom function, against RFC 2104 and RFC 5246, in
    the locale \<open>streaming_hash\<close>. \<open>Fe25519\<close>, \<open>Fe25519Props\<close>: arithmetic on 32 bytes is arithmetic
    modulo the prime, and the ladder. \<open>Ghash\<close>, \<open>GhashProps\<close>: the product in the field of GCM.
  \<^item> \<open>TlsRecord\<close>: \<open>tls_state\<close> is the struct, a connection to read from is a list of what the reads
    deliver (None an error), \<open>read_one\<close> is \<open>tls_xread_record\<close> up to \<open>goto again\<close>; \<open>tls_stop\<close> tells
    the error exit from a read past the memory and from a null pointer. \<open>TlsRecordProps\<close>: the
    round trip between mirrored keys in any pieces, the bounds of the input buffer.
  \<^item> \<open>TlsHandshake\<close>: \<open>negotiate\<close>, \<open>switch_to_encryption\<close> and \<open>finish\<close> are the three parts of
    \<open>tls_handshake\<close>. \<open>TlsHandshakeProps\<close>: the key found in a certificate. \<open>TlsChannelProps\<close>: a
    handshake that succeeds leaves keyed, empty record layers and the keys of RFC 5246, and one that
    succeeds is run. \<open>TlsTranscriptProps\<close>: the bytes taken from and given to the connection are the
    records of the messages that the Finished message covers.
  \<^item> \<open>TlsLoop\<close>, \<open>TlsLoopProps\<close>: \<open>tls_run_copy_loop\<close> over the wake-ups of \<open>poll\<close>; two loops with
    mirrored keys are a pipe. From its first wake-up by the network on, the loop never goes back
    to \<open>poll\<close> with a whole record in its buffer; before that it can, with a record that came together
    with the end of the handshake.

  \<^bold>\<open>Agent and server\<close> (\<open>cagent-test/agent_lite.c\<close>, \<open>simple_llm_server.c\<close>, \<open>third_party/cJSON/cJSON.c\<close>).

  \<^item> \<open>Json\<close>: parser and printer over trees. \<open>parse_value\<close> recurses to the library's nesting limit
    (1000) on a number of levels left, as the library does with its depth. The loops over elements
    and members are partial functions: None is a loop that does not return, \<open>Some None\<close> a parse error.
    \<open>JsonProps\<close>: round trip, through the locale \<open>codec\<close>; well-formed results; the loops return.
  \<^item> \<open>Agent\<close>: the string buffer at the level of its block (a byte never written is None), the HTTP
    client, the four tools, one step of the loop and \<open>agent_run\<close>, which takes at most
    \<open>MAX_STEPS\<close> (50) steps. \<open>AgentProps\<close>: the string buffer, the results of a step, the bound on the
    requests, and the conversation, which grows by the message of each response and exactly one
    answer for each of its calls, in order.
  \<^item> \<open>LlmServer\<close>, \<open>LlmServerProps\<close>: classifier, responses, dispatch and the accept loop; every answer
    is one the agent accepts. \<open>AgentSystem\<close>: the two connected.

  \<^bold>\<open>Parameters.\<close> What the code takes from outside is an argument: doubles and floats with their
  operations (\<open>double_ops\<close>, \<open>float_ops\<close>; the C library's conversion of numbers is the hypothesis of
  the JSON round trip), the operating system of the agent (\<open>os\<close>, on a world of any type), files
  (\<open>sums_env\<close>), build options (\<open>tls_config\<close>, \<open>MD5_SMALL\<close>), random bytes and memory the code has not
  written (\<open>tls_env\<close>, \<open>mem_md5\<close> and others). RSA
  encryption (\<open>tls_rsa.c\<close> and the big numbers of \<open>tls_pstm*.c\<close>) is \<open>psRsaEncryptPub\<close>.

  \<^bold>\<open>Idealisations.\<close> The machine is little-endian with 64-bit registers. Allocation succeeds. In
  \<open>connected\<close> of \<open>AgentSystem\<close> the server's one \<open>read\<close> returns the whole request, which it does only
  if the network delivers it in one piece; that the request fits the server's buffer is a
  hypothesis. \<open>handle_client\<close> does not model that \<open>write\<close> fails or that the server is killed by
  SIGPIPE. A name on a command line always stands for the same contents in \<open>Sums\<close>, so a second use
  of standard input there, which finds it at its end, is outside the model. A connection accepts
  every byte written to it.

  \<^bold>\<open>Not modelled.\<close> The shells themselves, bc and dc, editors, archivers, networking, process and
  device applets and most of coreutils: they are programs over system calls, or interpreters too
  large for this development; option parsing and messages on standard error of the modelled
  applets; of cJSON the editing operations, minification, comparison and allocation hooks; code
  under \<open>#if 0\<close> and the big-endian and 32-bit variants. The other test suites of the repository are
  git submodules whose directories are empty.

  \<^bold>\<open>What the model shows to be wrong in the code\<close> has a theorem each: the number stack of shell
  arithmetic can overflow (\<open>arith_numstack_overflow\<close>); base64 loses a byte (\<open>base64_lost_byte\<close>); a
  handshake record after the handshake dereferences a null pointer
  (\<open>handshake_record_null_dereference\<close>); a short certificate is read past its end
  (\<open>cert_key_overrun\<close>); a server that sends no key gets an all-zero secret
  (\<open>missing_server_key_secret\<close>); an empty record ends the transfer
  (\<open>empty_record_ends_transfer\<close>); a record that arrives with the end of the handshake waits
  (\<open>copy_loop_drains\<close> holds only from the first wake-up by the network).
\<close>

end
